(* ===== verification/CG_Prelude.thy ===== *)
theory CG_Prelude
  imports Main
begin

text \<open>
  Shared vocabulary of the development: C++ exceptions as values, the environment read by
  \<^verbatim>\<open>getenv\<close>, \<^verbatim>\<open>size_t\<close> arithmetic with its wrap-around, sequential loops over vectors, and
  the generic facts on lists, sums and residues that the component theories share.
\<close>

subsection \<open>Exceptions and results\<close>

text \<open>
  Every \<^verbatim>\<open>throw\<close> of the code is a value: \<^verbatim>\<open>std::runtime_error\<close>, \<^verbatim>\<open>std::range_error\<close> and
  \<^verbatim>\<open>std::invalid_argument\<close> carry the fixed part of their message, \<^verbatim>\<open>Mpz::ModInverseException\<close>
  carries nothing. \<open>Terminated\<close> is a call of \<^verbatim>\<open>std::terminate\<close>, which no handler sees.
\<close>

datatype cg_error =
    Runtime_error string
  | Range_error string
  | Invalid_argument string
  | Mod_inverse_exception
  | Terminated

type_synonym 'a result = "cg_error + 'a"

type_synonym env = "string \<Rightarrow> string option"

named_theorems result_simps \<open>unfolding of the result combinators\<close>
named_theorems modq \<open>residue arithmetic modulo the plaintext modulus\<close>

definition bind_r :: "'a result \<Rightarrow> ('a \<Rightarrow> 'b result) \<Rightarrow> 'b result" where
  "bind_r m f = (case m of Inl e \<Rightarrow> Inl e | Inr x \<Rightarrow> f x)"

definition throw_if :: "bool \<Rightarrow> cg_error \<Rightarrow> unit result" where
  "throw_if b e = (if b then Inl e else Inr ())"

lemma bind_r_simps [simp, result_simps]:
  "bind_r (Inl e) f = Inl e"
  "bind_r (Inr x) f = f x"
  by (simp_all add: bind_r_def)

lemma throw_if_simps [simp, result_simps]:
  "throw_if True e = Inl e"
  "throw_if False e = Inr ()"
  by (simp_all add: throw_if_def)

lemma bind_r_Inr_iff: "bind_r m f = Inr y \<longleftrightarrow> (\<exists>x. m = Inr x \<and> f x = Inr y)"
  by (cases m) (auto simp: bind_r_def)

lemma bind_r_InrE [elim]:
  assumes "bind_r m f = Inr y"
  obtains x where "m = Inr x" "f x = Inr y"
  using assms by (auto simp: bind_r_Inr_iff)

lemma throw_if_Inr_iff [simp]: "throw_if b e = Inr u \<longleftrightarrow> \<not> b"
  by (simp add: throw_if_def)

lemma throw_if_Inl_iff: "throw_if b e = Inl e' \<longleftrightarrow> b \<and> e' = e"
  by (auto simp: throw_if_def)

text \<open>A loop that computes one value per element and stops at the first exception.\<close>

fun map_r :: "('a \<Rightarrow> 'b result) \<Rightarrow> 'a list \<Rightarrow> 'b list result" where
  "map_r f [] = Inr []"
| "map_r f (x # xs) = bind_r (f x) (\<lambda>y. bind_r (map_r f xs) (\<lambda>ys. Inr (y # ys)))"

lemma map_r_Inr_all: "(\<And>x. x \<in> set xs \<Longrightarrow> f x = Inr (g x)) \<Longrightarrow> map_r f xs = Inr (map g xs)"
  by (induction xs) auto

lemma map_r_InrD: "map_r f xs = Inr ys \<Longrightarrow> length ys = length xs \<and> (\<forall>i < length xs. f (xs ! i) = Inr (ys ! i))"
proof (induction xs arbitrary: ys)
  case Nil
  then show ?case by simp
next
  case (Cons x xs)
  from Cons.prems obtain z zs where "f x = Inr z" "map_r f xs = Inr zs" "ys = z # zs"
    by (auto simp: bind_r_Inr_iff)
  with Cons.IH[of zs] show ?case
    by (auto simp: nth_Cons split: nat.splits)
qed

text \<open>A loop that threads a state and stops at the first exception.\<close>

fun fold_r :: "('a \<Rightarrow> 's \<Rightarrow> 's result) \<Rightarrow> 'a list \<Rightarrow> 's \<Rightarrow> 's result" where
  "fold_r f [] s = Inr s"
| "fold_r f (x # xs) s = bind_r (f x s) (fold_r f xs)"

lemma fold_r_append: "fold_r f (xs @ ys) s = bind_r (fold_r f xs s) (fold_r f ys)"
proof (induction xs arbitrary: s)
  case (Cons x xs)
  then show ?case by (cases "f x s") auto
qed simp

lemma fold_r_Inr: "(\<And>x s. x \<in> set xs \<Longrightarrow> f x s = Inr (g x s)) \<Longrightarrow> fold_r f xs s = Inr (fold g xs s)"
  by (induction xs arbitrary: s) auto

lemma fold_r_cong:
  "xs = ys \<Longrightarrow> (\<And>x s. x \<in> set ys \<Longrightarrow> f x s = g x s) \<Longrightarrow> fold_r f xs s = fold_r g ys s"
  unfolding atomize_imp by (induction ys arbitrary: s xs) (auto simp: bind_r_def split: sum.splits)

subsection \<open>Index ranges of vectors\<close>

definition vslice :: "nat \<Rightarrow> nat \<Rightarrow> 'a list \<Rightarrow> 'a list" where
  "vslice l r xs = take (r - l) (drop l xs)"

text \<open>Assigning consecutive values from index \<open>l\<close> on, all of them in range.\<close>

definition put_vec :: "nat \<Rightarrow> 'a list \<Rightarrow> 'a list \<Rightarrow> 'a list" where
  "put_vec l ys xs = take l xs @ ys @ drop (l + length ys) xs"

lemma length_vslice [simp]: "r \<le> length xs \<Longrightarrow> length (vslice l r xs) = r - l"
  by (auto simp: vslice_def)

lemma nth_vslice: "r \<le> length xs \<Longrightarrow> i < r - l \<Longrightarrow> vslice l r xs ! i = xs ! (l + i)"
  by (simp add: vslice_def)

lemma vslice_append: "l \<le> m \<Longrightarrow> m \<le> r \<Longrightarrow> vslice l m xs @ vslice m r xs = vslice l r xs"
proof -
  assume "l \<le> m" "m \<le> r"
  then have "r - l = (m - l) + (r - m)" "drop m xs = drop (m - l) (drop l xs)"
    by simp_all
  then show ?thesis
    by (simp only: vslice_def take_add)
qed

lemma vslice_empty [simp]: "r \<le> l \<Longrightarrow> vslice l r xs = []"
  by (simp add: vslice_def)

lemma vslice_all: "vslice 0 (length xs) xs = xs"
  by (simp add: vslice_def)

lemma set_vslice_subset: "set (vslice l r xs) \<subseteq> set xs"
  unfolding vslice_def by (meson order_trans set_drop_subset set_take_subset)

lemma length_put_vec [simp]: "l + length ys \<le> length xs \<Longrightarrow> length (put_vec l ys xs) = length xs"
  by (simp add: put_vec_def)

lemma nth_put_vec:
  "l + length ys \<le> length xs \<Longrightarrow> i < length xs \<Longrightarrow>
    put_vec l ys xs ! i = (if l \<le> i \<and> i < l + length ys then ys ! (i - l) else xs ! i)"
  by (auto simp: put_vec_def nth_append min_def)

text \<open>A loop that rewrites consecutive cells, each from its old value.\<close>

lemma fold_range_upd:
  assumes "s + d \<le> length xs"
  shows "length (fold (\<lambda>j xs. xs[s + j := f j (xs ! (s + j))]) [0..<d] xs) = length xs \<and>
    (\<forall>p < length xs. fold (\<lambda>j xs. xs[s + j := f j (xs ! (s + j))]) [0..<d] xs ! p =
      (if s \<le> p \<and> p < s + d then f (p - s) (xs ! p) else xs ! p))"
  using assms
proof (induction d)
  case (Suc d)
  then show ?case
    by (auto simp: nth_list_update less_Suc_eq)
qed auto

subsection \<open>The environment\<close>

text \<open>The idiom \<^verbatim>\<open>value && *value ? ... : fallback\<close>: an unset and an empty variable are alike.\<close>

definition env_value :: "env \<Rightarrow> string \<Rightarrow> string option" where
  "env_value env name = (case env name of None \<Rightarrow> None | Some v \<Rightarrow> if v = [] then None else Some v)"

lemma env_value_unset [simp]: "env name = None \<Longrightarrow> env_value env name = None"
  by (simp add: env_value_def)

subsection \<open>\<^verbatim>\<open>size_t\<close> arithmetic\<close>

text \<open>Sizes are natural numbers below \<open>2^64\<close>; sums, products and differences wrap.\<close>

definition size_limit :: nat where
  "size_limit = 18446744073709551616"

definition sz_add :: "nat \<Rightarrow> nat \<Rightarrow> nat" where
  "sz_add a b = (a + b) mod size_limit"

definition sz_mul :: "nat \<Rightarrow> nat \<Rightarrow> nat" where
  "sz_mul a b = (a * b) mod size_limit"

definition sz_sub :: "nat \<Rightarrow> nat \<Rightarrow> nat" where
  "sz_sub a b = (size_limit + a - b) mod size_limit"

text \<open>
  A size converted to a 32-bit \<^verbatim>\<open>int\<close>, as \<^verbatim>\<open>(int)v.size()\<close> does: reduced modulo \<open>2^32\<close> and read as signed.
  What the code then subtracts from it is written with the unbounded subtraction; where that would
  leave the range of \<^verbatim>\<open>int\<close> (sizes equal to \<open>2^31\<close> or \<open>2^31 + 1\<close> modulo \<open>2^32\<close>) the behaviour of the code is
  undefined. The properties of the loops concerned are for sizes below \<open>2^31\<close>.
\<close>

definition int32_of :: "nat \<Rightarrow> int" where
  "int32_of n = (let m = int (n mod 2 ^ 32) in if m < 2 ^ 31 then m else m - 2 ^ 32)"

lemma int32_of_small [simp]: "n < 2 ^ 31 \<Longrightarrow> int32_of n = int n"
  by (simp add: int32_of_def)

lemma size_limit_pow: "size_limit = 2 ^ 64"
  by (simp add: size_limit_def)

lemma sz_add_exact: "a + b < size_limit \<Longrightarrow> sz_add a b = a + b"
  by (simp add: sz_add_def)

lemma sz_mul_exact: "a * b < size_limit \<Longrightarrow> sz_mul a b = a * b"
  by (simp add: sz_mul_def)

lemma sz_sub_exact:
  assumes "b \<le> a" "a < size_limit"
  shows "sz_sub a b = a - b"
proof -
  have "size_limit + a - b = (a - b) + size_limit"
    using assms by simp
  then show ?thesis
    using assms unfolding sz_sub_def by (simp only: mod_add_self2) simp
qed

subsection \<open>Residues\<close>

text \<open>
  Congruence modulo \<open>q\<close> is written out as equality of remainders; these rules rewrite under
  the ring operations, so that \<open>simp add: modq\<close> decides most residue goals.
\<close>

lemma mod_cong_add: "a mod q = a' mod q \<Longrightarrow> b mod q = b' mod q \<Longrightarrow> (a + b) mod q = (a' + b') mod (q::int)"
  by (rule mod_add_cong)

lemma mod_cong_mult: "a mod q = a' mod q \<Longrightarrow> b mod q = b' mod q \<Longrightarrow> (a * b) mod q = (a' * b') mod (q::int)"
  by (rule mod_mult_cong)

lemma mod_cong_diff: "a mod q = a' mod q \<Longrightarrow> b mod q = b' mod q \<Longrightarrow> (a - b) mod q = (a' - b') mod (q::int)"
  by (rule mod_diff_cong)

lemma mod_cong_power: "a mod q = a' mod q \<Longrightarrow> a ^ n mod q = a' ^ n mod (q::int)"
  by (metis power_mod)

lemma mod_cong_sum:
  "(\<And>i. i \<in> A \<Longrightarrow> f i mod q = g i mod q) \<Longrightarrow> sum f A mod q = sum g A mod (q::int)"
  by (metis (mono_tags, lifting) mod_sum_eq sum.cong)

lemma mod_cong_prod:
  "(\<And>i. i \<in> A \<Longrightarrow> f i mod q = g i mod q) \<Longrightarrow> prod f A mod q = prod g A mod (q::int)"
  by (metis (mono_tags, lifting) mod_prod_eq prod.cong)

lemma mod_cong_dvd: "a mod q = b mod q \<longleftrightarrow> q dvd (a - (b::int))"
  by (simp add: mod_eq_dvd_iff)

lemmas mod_congs = mod_cong_add mod_cong_mult mod_cong_diff mod_cong_power mod_cong_sum mod_cong_prod

lemma mod_reduced: "0 \<le> a \<Longrightarrow> a < q \<Longrightarrow> a mod q = (a::int)"
  by simp

lemma mod_range: "0 < q \<Longrightarrow> 0 \<le> a mod q \<and> a mod q < (q::int)"
  by simp

end
