(* ===== verification/CG_Config.thy ===== *)
theory CG_Config
  imports CG_Prelude "HOL-Library.Char_ord"
begin

text \<open>
  Model of \<^verbatim>\<open>cg_config.hpp\<close>: strict parsing of unsigned integers from the command line and the
  environment, and the item-count limits every other component relies on. Strings are lists
  of characters; \<^verbatim>\<open>strtoull\<close> is modelled as the C standard defines it for the inputs that reach
  it (the caller has checked that the first character is a decimal digit).
\<close>

subsection \<open>Digits\<close>

definition is_digit :: "char \<Rightarrow> bool" where
  "is_digit c \<longleftrightarrow> 48 \<le> (of_char c :: nat) \<and> (of_char c :: nat) \<le> 57"

definition digit_value :: "char \<Rightarrow> nat option" where
  "digit_value c =
     (let k = (of_char c :: nat) in
      if 48 \<le> k \<and> k \<le> 57 then Some (k - 48)
      else if 65 \<le> k \<and> k \<le> 90 then Some (k - 55)
      else if 97 \<le> k \<and> k \<le> 122 then Some (k - 87)
      else None)"

definition in_base :: "nat \<Rightarrow> char \<Rightarrow> bool" where
  "in_base base c = (case digit_value c of None \<Rightarrow> False | Some d \<Rightarrow> d < base)"

fun digits_value :: "nat \<Rightarrow> nat \<Rightarrow> string \<Rightarrow> nat" where
  "digits_value base acc [] = acc"
| "digits_value base acc (c # cs) =
     digits_value base (acc * base + (case digit_value c of None \<Rightarrow> 0 | Some d \<Rightarrow> d)) cs"

subsection \<open>\<^verbatim>\<open>strtoull\<close>\<close>

text \<open>
  The base is 10, or 0 for auto-detection (\<open>0x\<close> followed by a hexadecimal digit, a leading
  \<open>0\<close>, or decimal). The result is the value of the longest prefix of digits, the
  unparsed rest, and whether the value overflows 64 bits (\<^verbatim>\<open>ERANGE\<close>).
\<close>

definition detect_base :: "nat \<Rightarrow> string \<Rightarrow> nat \<times> string" where
  "detect_base base s =
     (if base \<noteq> 0 then (base, s)
      else case s of
        z # x # h # rest \<Rightarrow>
          (if z = CHR ''0'' \<and> (x = CHR ''x'' \<or> x = CHR ''X'') \<and> in_base 16 h then (16, h # rest)
           else if z = CHR ''0'' then (8, s) else (10, s))
      | z # rest \<Rightarrow> (if z = CHR ''0'' then (8, s) else (10, s))
      | [] \<Rightarrow> (10, s))"

definition strtoull :: "string \<Rightarrow> nat \<Rightarrow> nat \<times> string \<times> bool" where
  "strtoull s base =
     (let (b, t) = detect_base base s;
          v = digits_value b 0 (takeWhile (in_base b) t)
      in (if v < size_limit then v else size_limit - 1, dropWhile (in_base b) t, size_limit \<le> v))"

subsection \<open>The parsers and limits\<close>

definition cg_parse_u64 :: "string option \<Rightarrow> string \<Rightarrow> nat \<Rightarrow> nat result" where
  "cg_parse_u64 value name base =
     (case value of
        None \<Rightarrow> Inl (Runtime_error (''invalid unsigned integer: '' @ name))
      | Some [] \<Rightarrow> Inl (Runtime_error (''invalid unsigned integer: '' @ name))
      | Some (c # cs) \<Rightarrow>
          if c = CHR ''-'' \<or> c = CHR ''+'' \<or> \<not> is_digit c
          then Inl (Runtime_error (''invalid unsigned integer: '' @ name))
          else let (v, rest, erange) = strtoull (c # cs) base
               in if erange \<or> rest = c # cs \<or> rest \<noteq> []
                  then Inl (Runtime_error (''invalid or overflowing unsigned integer: '' @ name))
                  else Inr v)"

definition cg_max_items :: "env \<Rightarrow> nat result" where
  "cg_max_items env =
     bind_r (case env_value env ''CG_MAX_ITEMS'' of
               None \<Rightarrow> Inr (2 ^ 20)
             | Some v \<Rightarrow> cg_parse_u64 (Some v) ''CG_MAX_ITEMS'' 10) (\<lambda>limit.
     bind_r (throw_if (limit = 0 \<or> limit > 2 ^ 24)
               (Runtime_error ''CG_MAX_ITEMS must be in [1,16777216]'')) (\<lambda>_.
     Inr limit))"

text \<open>
  The order of evaluation of the source: the limit is read only if the zero test does not
  already reject and no explicit maximum is given.
\<close>

definition cg_parse_size :: "env \<Rightarrow> string option \<Rightarrow> string \<Rightarrow> bool \<Rightarrow> nat \<Rightarrow> nat result" where
  "cg_parse_size env value name allow_zero maximum =
     bind_r (cg_parse_u64 value name 10) (\<lambda>n.
     if \<not> allow_zero \<and> n = 0 then Inl (Runtime_error (''out-of-range count: '' @ name))
     else bind_r (if maximum \<noteq> 0 then Inr maximum else cg_max_items env) (\<lambda>m.
       if n > m \<or> n > size_limit - 1 then Inl (Runtime_error (''out-of-range count: '' @ name))
       else Inr n))"

definition cg_config_size :: "env \<Rightarrow> string \<Rightarrow> nat \<Rightarrow> nat \<Rightarrow> bool \<Rightarrow> nat result" where
  "cg_config_size env name fallback maximum allow_zero =
     (case env_value env name of
        None \<Rightarrow> Inr fallback
      | Some v \<Rightarrow> cg_parse_size env (Some v) name allow_zero maximum)"

definition cg_checked_add :: "env \<Rightarrow> nat \<Rightarrow> nat \<Rightarrow> nat result" where
  "cg_checked_add env a b =
     bind_r (cg_max_items env) (\<lambda>m.
     if a > m \<or> b > sz_sub m a
     then Inl (Runtime_error ''combined item count exceeds CG_MAX_ITEMS'')
     else Inr (sz_add a b))"

definition cg_validate_count :: "env \<Rightarrow> nat \<Rightarrow> bool \<Rightarrow> unit result" where
  "cg_validate_count env n allow_zero =
     (if \<not> allow_zero \<and> n = 0 then Inl (Runtime_error ''item count outside CG_MAX_ITEMS'')
      else bind_r (cg_max_items env) (\<lambda>m.
        throw_if (n > m) (Runtime_error ''item count outside CG_MAX_ITEMS'')))"


subsection \<open>What the parsers accept\<close>

lemma is_digit_value: "is_digit c \<longleftrightarrow> in_base 10 c"
  by (auto simp: is_digit_def in_base_def digit_value_def Let_def)

lemma digits_value_append: "digits_value b acc (xs @ ys) = digits_value b (digits_value b acc xs) ys"
  by (induction xs arbitrary: acc) auto

lemma digit_not_sign: "is_digit c \<Longrightarrow> c \<noteq> CHR ''-'' \<and> c \<noteq> CHR ''+''"
  by (auto simp: is_digit_def)

lemma strtoull_decimal:
  "strtoull s 10 =
     (if digits_value 10 0 (takeWhile is_digit s) < size_limit
      then digits_value 10 0 (takeWhile is_digit s) else size_limit - 1,
      dropWhile is_digit s,
      size_limit \<le> digits_value 10 0 (takeWhile is_digit s))"
proof -
  have "in_base 10 = is_digit"
    by (rule ext) (simp add: is_digit_value)
  then show ?thesis
    by (simp add: strtoull_def detect_base_def Let_def)
qed

lemma strtoull_all_digits:
  assumes "list_all is_digit s"
  shows "strtoull s 10 =
     (if digits_value 10 0 s < size_limit then digits_value 10 0 s else size_limit - 1, [],
      size_limit \<le> digits_value 10 0 s)"
proof -
  have "takeWhile is_digit s = s" "dropWhile is_digit s = []"
    using assms by (auto simp: list_all_iff takeWhile_eq_all_conv dropWhile_eq_Nil_conv)
  then show ?thesis
    by (simp only: strtoull_decimal)
qed

lemma strtoull_not_all_digits:
  assumes "\<not> list_all is_digit s"
  shows "fst (snd (strtoull s 10)) \<noteq> []"
  using assms by (auto simp: strtoull_decimal list_all_iff dropWhile_eq_Nil_conv)

lemma cg_parse_u64_decimal:
  "cg_parse_u64 (Some s) name 10 = Inr n \<longleftrightarrow>
     s \<noteq> [] \<and> list_all is_digit s \<and> n = digits_value 10 0 s \<and> n < size_limit"
proof (cases s)
  case Nil
  then show ?thesis
    by (simp add: cg_parse_u64_def)
next
  case (Cons c cs)
  show ?thesis
  proof (cases "list_all is_digit s")
    case True
    have d: "is_digit c"
      using True Cons by simp
    show ?thesis
      using digit_not_sign[OF d] d strtoull_all_digits[OF True] True
      by (auto simp: cg_parse_u64_def Cons simp del: digits_value.simps)
  next
    case False
    have "cg_parse_u64 (Some s) name 10 \<noteq> Inr n"
      using strtoull_not_all_digits[OF False]
      by (cases "strtoull s 10") (simp add: cg_parse_u64_def Cons)
    then show ?thesis
      using False by simp
  qed
qed

lemma cg_max_items_bounds: "cg_max_items env = Inr m \<Longrightarrow> 0 < m \<and> m \<le> 2 ^ 24"
  by (auto simp: cg_max_items_def bind_r_Inr_iff)

lemma cg_max_items_default [simp]: "env ''CG_MAX_ITEMS'' = None \<Longrightarrow> cg_max_items env = Inr (2 ^ 20)"
  by (simp add: cg_max_items_def)

lemma cg_checked_add_Inr:
  "cg_checked_add env a b = Inr n \<longleftrightarrow> (\<exists>m. cg_max_items env = Inr m \<and> n = a + b \<and> a + b \<le> m)"
proof -
  have "(a > m \<or> b > sz_sub m a) \<longleftrightarrow> \<not> a + b \<le> m" and "a + b \<le> m \<Longrightarrow> sz_add a b = a + b"
    if "cg_max_items env = Inr m" for m
  proof -
    have lt: "m < size_limit"
      using cg_max_items_bounds[OF that] by (simp add: size_limit_def)
    then show "(a > m \<or> b > sz_sub m a) \<longleftrightarrow> \<not> a + b \<le> m"
      by (cases "a \<le> m") (auto simp: sz_sub_exact)
    show "sz_add a b = a + b" if "a + b \<le> m"
      using that lt by (simp add: sz_add_exact)
  qed
  then show ?thesis
    unfolding cg_checked_add_def bind_r_Inr_iff by (metis Inl_Inr_False Inr_inject)
qed

lemma cg_parse_size_Inr:
  assumes "cg_parse_size env value name allow_zero maximum = Inr n"
  shows "n < size_limit \<and> (allow_zero \<or> 0 < n)
    \<and> (if maximum \<noteq> 0 then n \<le> maximum else (\<exists>m. cg_max_items env = Inr m \<and> n \<le> m))"
  using assms
  by (auto simp: cg_parse_size_def bind_r_Inr_iff size_limit_def split: if_splits)

lemma cg_validate_count_Inr:
  "cg_validate_count env n allow_zero = Inr u \<longleftrightarrow>
     (allow_zero \<or> 0 < n) \<and> (\<exists>m. cg_max_items env = Inr m \<and> n \<le> m)"
  by (auto simp: cg_validate_count_def bind_r_Inr_iff not_less)

subsection \<open>Properties\<close>

text \<open>
  C40: Strict decimal parsing. With base 10 the parser accepts exactly the non-empty strings of
  decimal digits whose value fits 64 bits, and returns that value: no sign, blank, prefix,
  trailing character or silent saturation gets through.
\<close>

theorem parse_u64_exact:
  "cg_parse_u64 (Some s) name 10 = Inr n \<longleftrightarrow>
     s \<noteq> [] \<and> list_all is_digit s \<and> n = digits_value 10 0 s \<and> n < size_limit"
  by (rule cg_parse_u64_decimal)

text \<open>
  Adding two counts is exact. The sum is returned iff it is within the configured maximum, so
  the 64-bit difference and sum in the code never wrap on an accepted input.
\<close>

theorem checked_add_exact:
  "cg_checked_add env a b = Inr n \<longleftrightarrow> (\<exists>m. cg_max_items env = Inr m \<and> n = a + b \<and> a + b \<le> m)"
  by (rule cg_checked_add_Inr)

end
