(* ===== verification/CG_Wire.thy ===== *)
theory CG_Wire
  imports CG_Config "HOL-Library.Word"
begin

text \<open>
  Model of \<^verbatim>\<open>cg_network.hpp\<close>: blocking socket I/O under partial transfers, and the wire format of
  counts, integers, quadratic forms, public keys and ciphertexts. An encoder returns the bytes
  it writes, a decoder consumes a byte stream and returns the value with the unread rest. The
  interface the protocols rely on is the locale \<open>codec\<close>.
\<close>

unbundle bit_operations_syntax

type_synonym byte = "8 word"
type_synonym 'a reader = "byte list \<Rightarrow> ('a \<times> byte list) result"

subsection \<open>Raw I/O\<close>

text \<open>
  One system call moves some bytes, is interrupted (\<^verbatim>\<open>EINTR\<close>) or fails. \<open>None\<close> is a call that
  has not returned yet: the script of the operating system is exhausted and the loop waits.
\<close>

datatype os_io = Moved nat | Interrupted | Io_fail

fun send_all :: "os_io list \<Rightarrow> byte list \<Rightarrow> byte list \<times> unit result option" where
  "send_all [] buf = ([], if buf = [] then Some (Inr ()) else None)"
| "send_all (e # os) buf =
     (if buf = [] then ([], Some (Inr ()))
      else case e of
        Interrupted \<Rightarrow> send_all os buf
      | Io_fail \<Rightarrow> ([], Some (Inl (Runtime_error ''write: '')))
      | Moved w \<Rightarrow>
          if w = 0 then ([], Some (Inl (Runtime_error ''write: '')))
          else (case send_all os (drop w buf) of (sent, r) \<Rightarrow> (take w buf @ sent, r)))"

text \<open>
  The kernel never moves more than was asked for or than is available; a transfer of nothing is
  the end of the stream.
\<close>

fun recv_all :: "os_io list \<Rightarrow> byte list \<Rightarrow> nat \<Rightarrow> (byte list \<times> byte list) result option" where
  "recv_all [] s len = (if len = 0 then Some (Inr ([], s)) else None)"
| "recv_all (e # os) s len =
     (if len = 0 then Some (Inr ([], s))
      else case e of
        Interrupted \<Rightarrow> recv_all os s len
      | Io_fail \<Rightarrow> Some (Inl (Runtime_error ''read: ''))
      | Moved w \<Rightarrow>
          (let r = min w (min len (length s)) in
           if r = 0 then Some (Inl (Runtime_error ''read: ''))
           else (case recv_all os (drop r s) (len - r) of
                   None \<Rightarrow> None
                 | Some (Inl err) \<Rightarrow> Some (Inl err)
                 | Some (Inr (got, rest)) \<Rightarrow> Some (Inr (take r s @ got, rest)))))"

text \<open>What a completed \<^verbatim>\<open>recv_all\<close> returns: the decoders below are built on this summary.\<close>

definition recv_bytes :: "nat \<Rightarrow> byte list reader" where
  "recv_bytes n s =
     (if length s < n then Inl (Runtime_error ''read: '') else Inr (take n s, drop n s))"

subsection \<open>Counts\<close>

definition send_u32 :: "32 word \<Rightarrow> byte list" where
  "send_u32 v = [ucast (drop_bit 24 v), ucast (drop_bit 16 v), ucast (drop_bit 8 v), ucast v]"

definition recv_u32 :: "32 word reader" where
  "recv_u32 s = bind_r (recv_bytes 4 s) (\<lambda>(b, rest).
     Inr (push_bit 24 (ucast (b ! 0)) OR push_bit 16 (ucast (b ! 1))
          OR push_bit 8 (ucast (b ! 2)) OR ucast (b ! 3), rest))"

definition send_u64 :: "64 word \<Rightarrow> byte list" where
  "send_u64 v = send_u32 (ucast (drop_bit 32 v)) @ send_u32 (ucast (v AND 0xFFFFFFFF))"

definition recv_u64 :: "64 word reader" where
  "recv_u64 s = bind_r (recv_u32 s) (\<lambda>(hi, s1). bind_r (recv_u32 s1) (\<lambda>(lo, s2).
     Inr (push_bit 32 (ucast hi) OR ucast lo, s2)))"

subsection \<open>Integers\<close>

fun be_bytes :: "nat \<Rightarrow> byte list" where
  "be_bytes n = (if n = 0 then [] else be_bytes (n div 256) @ [word_of_nat (n mod 256)])"

declare be_bytes.simps [simp del]

definition be_value :: "byte list \<Rightarrow> nat" where
  "be_value bs = foldl (\<lambda>acc b. acc * 256 + unat b) 0 bs"

fun bit_length :: "nat \<Rightarrow> nat" where
  "bit_length n = (if n = 0 then 0 else Suc (bit_length (n div 2)))"

declare bit_length.simps [simp del]

definition mpz_sizeinbase2 :: "int \<Rightarrow> nat" where
  "mpz_sizeinbase2 m = (if m = 0 then 1 else bit_length (nat \<bar>m\<bar>))"

definition mpz_bytes :: "int \<Rightarrow> byte list" where
  "mpz_bytes m =
     send_u32 (if m < 0 then 1 else 0) @ send_u32 (word_of_nat (length (be_bytes (nat \<bar>m\<bar>))))
     @ be_bytes (nat \<bar>m\<bar>)"

definition mpz_limit :: "env \<Rightarrow> nat result" where
  "mpz_limit env = cg_config_size env ''CG_MAX_MPZ_BYTES'' 16384 1048576 False"

definition send_mpz :: "env \<Rightarrow> int \<Rightarrow> byte list result" where
  "send_mpz env m =
     bind_r (mpz_limit env) (\<lambda>limit.
     bind_r (throw_if (mpz_sizeinbase2 m div 8 + 1 > limit)
       (Runtime_error ''integer encoding exceeds CG_MAX_MPZ_BYTES'')) (\<lambda>_.
     Inr (mpz_bytes m)))"

definition recv_magnitude :: "nat \<Rightarrow> int reader" where
  "recv_magnitude n s =
     (if n = 0 then Inr (0, s)
      else bind_r (recv_bytes n s) (\<lambda>(buf, rest).
        if hd buf = 0 then Inl (Runtime_error ''noncanonical integer encoding'')
        else Inr (int (be_value buf), rest)))"

definition recv_mpz :: "env \<Rightarrow> int reader" where
  "recv_mpz env s =
     bind_r (recv_u32 s) (\<lambda>(neg, s1). bind_r (recv_u32 s1) (\<lambda>(cnt, s2).
     let oversized = Inl (Runtime_error ''invalid sign or oversized integer encoding'') in
     if neg > 1 then oversized
     else bind_r (mpz_limit env) (\<lambda>limit.
       if unat cnt > limit then oversized
       else bind_r (recv_magnitude (unat cnt) s2) (\<lambda>(m, s3).
         if neg \<noteq> 0 \<and> cnt = 0 then Inl (Runtime_error ''noncanonical negative zero'')
         else Inr (if neg \<noteq> 0 then - m else m, s3)))))"

subsection \<open>Quadratic forms, keys and ciphertexts\<close>

record qfi =
  qa :: int
  qb :: int
  qc :: int

definition discriminant :: "qfi \<Rightarrow> int" where
  "discriminant f = qb f * qb f - 4 * qa f * qc f"

text \<open>The checks of the three-integer constructor of \<^verbatim>\<open>QFI\<close>, in their order.\<close>

definition make_qfi :: "int \<Rightarrow> int \<Rightarrow> int \<Rightarrow> qfi result" where
  "make_qfi a b c =
     (if b * b - 4 * a * c \<ge> 0 then Inl (Runtime_error ''form must have negative discriminant'')
      else if gcd (gcd a b) c \<noteq> 1 then Inl (Runtime_error ''form must be primitive'')
      else if a \<le> 0 then Inl (Runtime_error ''the coeff a of the form must be positive'')
      else if \<bar>a\<bar> \<le> \<bar>b\<bar> \<and> a \<noteq> b then Inl (Runtime_error ''form must be normal'')
      else if a > c \<or> (a = c \<and> b < 0) then Inl (Runtime_error ''form must be reduced'')
      else Inr \<lparr>qa = a, qb = b, qc = c\<rparr>)"

definition qfi_valid :: "qfi \<Rightarrow> bool" where
  "qfi_valid f \<longleftrightarrow> make_qfi (qa f) (qb f) (qc f) = Inr f"

definition send_qfi :: "env \<Rightarrow> qfi \<Rightarrow> byte list result" where
  "send_qfi env f =
     bind_r (send_mpz env (qa f)) (\<lambda>a. bind_r (send_mpz env (qb f)) (\<lambda>b.
     bind_r (send_mpz env (qc f)) (\<lambda>c. Inr (a @ b @ c))))"

definition recv_qfi :: "env \<Rightarrow> qfi reader" where
  "recv_qfi env s =
     bind_r (recv_mpz env s) (\<lambda>(a, s1). bind_r (recv_mpz env s1) (\<lambda>(b, s2).
     bind_r (recv_mpz env s2) (\<lambda>(c, s3). bind_r (make_qfi a b c) (\<lambda>f. Inr (f, s3)))))"

text \<open>A public key is checked against the discriminant of the cryptosystem.\<close>

definition make_public_key :: "int \<Rightarrow> qfi \<Rightarrow> qfi result" where
  "make_public_key disc f =
     (if discriminant f \<noteq> disc
      then Inl (Invalid_argument ''pk's discriminant does not match Cryptosystem'')
      else Inr f)"

definition send_pk :: "env \<Rightarrow> qfi \<Rightarrow> byte list result" where
  "send_pk env pk = send_qfi env pk"

definition recv_pk :: "env \<Rightarrow> int \<Rightarrow> qfi reader" where
  "recv_pk env disc s =
     bind_r (recv_qfi env s) (\<lambda>(f, s1). bind_r (make_public_key disc f) (\<lambda>pk. Inr (pk, s1)))"

definition send_ct :: "env \<Rightarrow> qfi \<times> qfi \<Rightarrow> byte list result" where
  "send_ct env ct =
     bind_r (send_qfi env (fst ct)) (\<lambda>x. bind_r (send_qfi env (snd ct)) (\<lambda>y. Inr (x @ y)))"

definition recv_ct :: "env \<Rightarrow> (qfi \<times> qfi) reader" where
  "recv_ct env s =
     bind_r (recv_qfi env s) (\<lambda>(c1, s1). bind_r (recv_qfi env s1) (\<lambda>(c2, s2). Inr ((c1, c2), s2)))"


subsection \<open>Sequences of messages\<close>

text \<open>The loop that fills a vector of known length, one message per slot.\<close>

fun recv_list :: "'a reader \<Rightarrow> nat \<Rightarrow> 'a list reader" where
  "recv_list dec 0 s = Inr ([], s)"
| "recv_list dec (Suc n) s =
     bind_r (dec s) (\<lambda>(x, s1). bind_r (recv_list dec n s1) (\<lambda>(xs, s2). Inr (x # xs, s2)))"

definition send_list :: "('a \<Rightarrow> byte list result) \<Rightarrow> 'a list \<Rightarrow> byte list result" where
  "send_list enc xs = bind_r (map_r enc xs) (\<lambda>bs. Inr (concat bs))"

subsection \<open>The codec interface\<close>

text \<open>
  \<open>enc\<close> is the wire form of a value, \<open>dec\<close> its decoder and \<open>ok\<close> the values the decoder accepts.
  The second law makes the format canonical: a decoded value determines the bytes read.
\<close>

locale codec =
  fixes enc :: "'a \<Rightarrow> byte list"
    and dec :: "byte list \<Rightarrow> (cg_error + 'a \<times> byte list)"
    and ok :: "'a \<Rightarrow> bool"
  assumes dec_enc: "ok x \<Longrightarrow> dec (enc x @ rest) = Inr (x, rest)"
    and enc_dec: "dec s = Inr (x, rest) \<Longrightarrow> ok x \<and> s = enc x @ rest"
begin

lemma dec_iff: "dec s = Inr (x, rest) \<longleftrightarrow> ok x \<and> s = enc x @ rest"
  using dec_enc enc_dec by blast

lemma enc_inj: "ok x \<Longrightarrow> ok y \<Longrightarrow> enc x = enc y \<Longrightarrow> x = y"
  by (metis dec_enc sum.inject(2) prod.inject)

lemma prefix_free: "ok x \<Longrightarrow> ok y \<Longrightarrow> enc x @ s = enc y @ t \<Longrightarrow> x = y \<and> s = t"
  by (metis dec_enc sum.inject(2) prod.inject)

lemma recv_list_iff:
  "recv_list dec n s = Inr (xs, rest) \<longleftrightarrow>
     length xs = n \<and> list_all ok xs \<and> s = concat (map enc xs) @ rest"
proof (induction n arbitrary: s xs)
  case 0
  then show ?case by auto
next
  case (Suc n)
  show ?case
  proof (cases xs)
    case Nil
    then show ?thesis by (auto simp: bind_r_Inr_iff)
  next
    case (Cons y ys)
    have "recv_list dec (Suc n) s = Inr (y # ys, rest) \<longleftrightarrow>
        (\<exists>s1. dec s = Inr (y, s1) \<and> recv_list dec n s1 = Inr (ys, rest))"
      by (auto simp: bind_r_Inr_iff)
    then show ?thesis
      unfolding Cons Suc.IH dec_iff by auto
  qed
qed

end

subsection \<open>Raw I/O delivers the bytes in order\<close>

lemma send_all_Moved:
  "buf \<noteq> [] \<Longrightarrow> w > 0 \<Longrightarrow>
    send_all (Moved w # os) buf = (take w buf @ fst (send_all os (drop w buf)), snd (send_all os (drop w buf)))"
  by (simp split: prod.splits)

lemma send_all_prefix: "\<exists>rest. buf = fst (send_all os buf) @ rest"
proof (induction os arbitrary: buf)
  case Nil
  then show ?case by simp
next
  case (Cons e os)
  show ?case
  proof (cases "buf = [] \<or> e = Moved 0")
    case False
    show ?thesis
    proof (cases e)
      case (Moved w)
      obtain rest where "drop w buf = fst (send_all os (drop w buf)) @ rest"
        using Cons.IH by blast
      then have "buf = (take w buf @ fst (send_all os (drop w buf))) @ rest"
        by (metis append.assoc append_take_drop_id)
      then show ?thesis
        using False Moved by (subst Moved, subst send_all_Moved) auto
    qed (use Cons.IH[of buf] in auto)
  qed (auto split: os_io.splits)
qed

lemma send_all_delivers:
  "snd (send_all os buf) = Some (Inr u) \<Longrightarrow> fst (send_all os buf) = buf"
proof (induction os arbitrary: buf)
  case Nil
  then show ?case by (auto split: if_splits)
next
  case (Cons e os)
  show ?case
  proof (cases "buf = [] \<or> e = Moved 0")
    case False
    show ?thesis
    proof (cases e)
      case (Moved w)
      then show ?thesis
        using Cons.IH[of "drop w buf"] Cons.prems False send_all_Moved[of buf w os]
        by (simp del: send_all.simps)
    qed (use Cons in \<open>auto split: if_splits\<close>)
  qed (use Cons.prems in \<open>auto split: os_io.splits if_splits\<close>)
qed

lemma recv_all_Moved:
  assumes "len > 0" "r = min w (min len (length s))" "r > 0"
  shows "recv_all (Moved w # os) s len =
    (case recv_all os (drop r s) (len - r) of
       None \<Rightarrow> None
     | Some (Inl err) \<Rightarrow> Some (Inl err)
     | Some (Inr (got, rest)) \<Rightarrow> Some (Inr (take r s @ got, rest)))"
proof -
  have "len \<noteq> 0" "r \<noteq> 0"
    using assms by auto
  then show ?thesis
    by (simp only: recv_all.simps os_io.case assms(2)[symmetric] Let_def if_False)
qed

lemma recv_all_exact:
  "recv_all os s len = Some (Inr (got, rest)) \<Longrightarrow> length got = len \<and> s = got @ rest"
proof (induction os arbitrary: s len got)
  case Nil
  then show ?case by (auto split: if_splits)
next
  case (Cons e os)
  show ?case
  proof (cases e)
    case (Moved w)
    define r where "r = min w (min len (length s))"
    show ?thesis
    proof (cases "len = 0 \<or> r = 0")
      case False
      then have r: "len > 0" "r > 0" "r \<le> len" "r \<le> length s"
        by (auto simp: r_def)
      obtain g where g: "recv_all os (drop r s) (len - r) = Some (Inr (g, rest))" "got = take r s @ g"
        using Cons.prems unfolding Moved recv_all_Moved[OF r(1) r_def r(2)]
        by (auto split: option.splits sum.splits prod.splits)
      have "length g = len - r" "drop r s = g @ rest"
        using Cons.IH[OF g(1)] by auto
      then show ?thesis
        using g(2) r by (simp, metis append.assoc append_take_drop_id)
    qed (use Cons.prems Moved in \<open>auto simp: r_def[symmetric] Let_def split: if_splits\<close>)
  qed (use Cons in \<open>auto split: if_splits\<close>)
qed

lemma recv_all_summary:
  "recv_all os s len = Some (Inr x) \<Longrightarrow> recv_bytes len s = Inr x"
  by (cases x) (auto dest!: recv_all_exact simp: recv_bytes_def)

text \<open>Enough non-empty transfers complete a receive, however the kernel cuts the stream.\<close>

lemma recv_all_completes:
  assumes "length s \<ge> len" "\<forall>e \<in> set os. \<exists>w > 0. e = Moved w" "length os \<ge> len"
  shows "recv_all os s len = Some (Inr (take len s, drop len s))"
  using assms
proof (induction os arbitrary: s len)
  case Nil
  then show ?case by simp
next
  case (Cons e os)
  then obtain w where w: "e = Moved w" "w > 0"
    by auto
  define r where "r = min w (min len (length s))"
  show ?case
  proof (cases "len = 0")
    case False
    then have r: "len > 0" "r > 0" "r \<le> len" "r \<le> length s"
      using w Cons.prems(1) by (auto simp: r_def)
    have "recv_all os (drop r s) (len - r) = Some (Inr (take (len - r) (drop r s), drop (len - r) (drop r s)))"
      using Cons.prems r by (intro Cons.IH) (auto simp: less_eq_Suc_le)
    moreover have "take r s @ take (len - r) (drop r s) = take len s"
      using r by (metis le_add_diff_inverse take_add)
    ultimately show ?thesis
      using r unfolding w(1) recv_all_Moved[OF r(1) r_def r(2)] by simp
  qed simp
qed


subsection \<open>Counts round-trip\<close>

lemma recv_bytes_Inr: "recv_bytes n s = Inr (b, rest) \<longleftrightarrow> length b = n \<and> s = b @ rest"
  by (auto simp: recv_bytes_def split: if_splits)

lemma join_split32:
  "push_bit 24 (ucast (ucast (drop_bit 24 v) :: byte)) OR push_bit 16 (ucast (ucast (drop_bit 16 v) :: byte))
   OR push_bit 8 (ucast (ucast (drop_bit 8 v) :: byte)) OR ucast (ucast v :: byte) = (v :: 32 word)"
  apply (rule bit_word_eqI)
  subgoal for n
   apply (simp add: bit_simps)
   by (cases "n < 8"; cases "n < 16"; cases "n < 24"; auto)
  done

lemma split_join32:
  fixes b0 b1 b2 b3 :: byte
  defines "v \<equiv> (push_bit 24 (ucast b0) OR push_bit 16 (ucast b1) OR push_bit 8 (ucast b2) OR ucast b3 :: 32 word)"
  shows "send_u32 v = [b0, b1, b2, b3]"
  unfolding send_u32_def v_def
  apply (simp only: list.inject)
  apply (intro conjI bit_word_eqI; simp add: bit_simps)
  apply (auto dest: bit_imp_le_length)
  done

lemma length4E:
  assumes "length bs = 4"
  obtains b0 b1 b2 b3 where "bs = [b0, b1, b2, b3]"
  using assms by (auto simp: numeral_eq_Suc length_Suc_conv)

lemma recv_u32_iff: "recv_u32 s = Inr (v, rest) \<longleftrightarrow> s = send_u32 v @ rest"
proof
  assume "recv_u32 s = Inr (v, rest)"
  then obtain bs where bs: "length bs = 4" "s = bs @ rest"
     "v = push_bit 24 (ucast (bs ! 0)) OR push_bit 16 (ucast (bs ! 1)) OR push_bit 8 (ucast (bs ! 2)) OR ucast (bs ! 3)"
    by (auto simp: recv_u32_def bind_r_Inr_iff recv_bytes_Inr)
  then show "s = send_u32 v @ rest"
    by (elim length4E) (simp add: split_join32)
next
  have "length (send_u32 v) = 4"
    by (simp add: send_u32_def)
  then have b: "recv_bytes 4 (send_u32 v @ rest) = Inr (send_u32 v, rest)"
    by (simp add: recv_bytes_Inr)
  assume "s = send_u32 v @ rest"
  then show "recv_u32 s = Inr (v, rest)"
    by (simp add: recv_u32_def b) (simp add: send_u32_def join_split32 numeral_eq_Suc[of "num.One"])
qed

lemma join_split64:
  "push_bit 32 (ucast (ucast (drop_bit 32 v) :: 32 word)) OR ucast (ucast (v AND 0xFFFFFFFF) :: 32 word)
   = (v :: 64 word)"
proof -
  have m: "(0xFFFFFFFF :: 64 word) = mask 32"
    by (simp add: mask_eq_exp_minus_1)
  show ?thesis
    unfolding m by (rule bit_word_eqI) (auto simp: bit_simps)
qed

lemma split_join64:
  fixes hi lo :: "32 word"
  defines "v \<equiv> (push_bit 32 (ucast hi) OR ucast lo :: 64 word)"
  shows "ucast (drop_bit 32 v) = hi" "ucast (v AND 0xFFFFFFFF) = lo"
proof -
  have m: "(0xFFFFFFFF :: 64 word) = mask 32"
    by (simp add: mask_eq_exp_minus_1)
  show "ucast (drop_bit 32 v) = hi"
    unfolding v_def by (rule bit_word_eqI) (auto simp: bit_simps dest: bit_imp_le_length)
  show "ucast (v AND 0xFFFFFFFF) = lo"
    unfolding v_def m by (rule bit_word_eqI) (auto simp: bit_simps dest: bit_imp_le_length)
qed

lemma recv_u64_iff: "recv_u64 s = Inr (v, rest) \<longleftrightarrow> s = send_u64 v @ rest"
proof
  assume "recv_u64 s = Inr (v, rest)"
  then obtain hi lo where "s = send_u32 hi @ send_u32 lo @ rest" "v = push_bit 32 (ucast hi) OR ucast lo"
    by (auto simp: recv_u64_def bind_r_Inr_iff recv_u32_iff)
  then show "s = send_u64 v @ rest"
    by (simp only: send_u64_def split_join64 append.assoc)
next
  assume "s = send_u64 v @ rest"
  then have "recv_u32 s = Inr (ucast (drop_bit 32 v), send_u32 (ucast (v AND 0xFFFFFFFF)) @ rest)"
    by (simp add: recv_u32_iff send_u64_def)
  moreover have "recv_u32 (send_u32 w @ t) = Inr (w, t)" for w t
    by (simp add: recv_u32_iff)
  ultimately show "recv_u64 s = Inr (v, rest)"
    by (simp only: recv_u64_def bind_r_simps prod.case join_split64)
qed

lemma length_be_bytes_bound: "n < 256 ^ k \<Longrightarrow> length (be_bytes n) \<le> k"
proof (induction k arbitrary: n)
  case 0
  then show ?case by (simp add: be_bytes.simps)
next
  case (Suc k)
  then have "length (be_bytes (n div 256)) \<le> k"
    by (intro Suc.IH) (simp add: less_mult_imp_div_less mult.commute)
  then show ?case
    by (subst be_bytes.simps) simp
qed

lemma be_value_snoc: "be_value (bs @ [b]) = be_value bs * 256 + unat b"
  by (simp add: be_value_def)

lemma be_value_be_bytes: "be_value (be_bytes n) = n"
proof (induction n rule: be_bytes.induct)
  case (1 n)
  show ?case
  proof (cases "n = 0")
    case True
    then show ?thesis by (simp add: be_bytes.simps be_value_def)
  next
    case False
    then show ?thesis
      using 1 by (subst be_bytes.simps) (simp add: be_value_snoc unat_of_nat)
  qed
qed

lemma be_value_0: "be_value bs = 0 \<Longrightarrow> list_all (\<lambda>b. b = 0) bs"
  by (induction bs rule: rev_induct) (auto simp: be_value_snoc unat_eq_0)

lemma be_bytes_be_value: "bs = [] \<or> hd bs \<noteq> 0 \<Longrightarrow> be_bytes (be_value bs) = bs"
proof (induction bs rule: rev_induct)
  case Nil
  then show ?case by (simp add: be_value_def be_bytes.simps)
next
  case (snoc b bs)
  have b: "unat b < 256"
    using unsigned_less[of b] by simp
  have ne: "be_value (bs @ [b]) \<noteq> 0"
    using snoc.prems be_value_0[of "bs @ [b]"] by (cases bs) auto
  have "bs = [] \<or> hd bs \<noteq> 0"
    using snoc.prems by (cases bs) auto
  then show ?case
    using ne b snoc.IH by (subst be_bytes.simps) (auto simp: be_value_snoc div_add1_eq mod_add_eq)
qed

lemma hd_be_bytes: "n \<noteq> 0 \<Longrightarrow> be_bytes n \<noteq> [] \<and> hd (be_bytes n) \<noteq> 0"
proof (induction n rule: be_bytes.induct)
  case (1 n)
  show ?case
  proof (cases "n div 256 = 0")
    case True
    then have "n < 256" by simp
    then have "be_bytes n = [word_of_nat n]"
      using 1(2) by (subst be_bytes.simps) (simp add: be_bytes.simps[of 0])
    then show ?thesis
      using \<open>n < 256\<close> 1(2) by (simp add: word_of_nat_eq_0_iff dvd_imp_le) (metis dvd_imp_le linorder_not_less gr0I)
  next
    case False
    then show ?thesis
      using 1 by (subst (1 2) be_bytes.simps) (simp add: hd_append)
  qed
qed

lemma bit_length_bounds: "n < 2 ^ bit_length n"
proof (induction n rule: bit_length.induct)
  case (1 n)
  then show ?case by (cases "n = 0"; subst bit_length.simps) auto
qed

subsection \<open>Integers round-trip\<close>

definition mpz_ok :: "env \<Rightarrow> int \<Rightarrow> bool" where
  "mpz_ok env m = (case mpz_limit env of Inl e \<Rightarrow> False | Inr limit \<Rightarrow> length (be_bytes (nat \<bar>m\<bar>)) \<le> limit)"

lemma mpz_limit_bound: "mpz_limit env = Inr limit \<Longrightarrow> limit \<le> 1048576"
  by (auto simp: mpz_limit_def cg_config_size_def dest!: cg_parse_size_Inr split: option.splits)

lemma send_mpz_ok:
  assumes "send_mpz env m = Inr bs"
  shows "bs = mpz_bytes m \<and> mpz_ok env m"
proof -
  obtain limit where l: "mpz_limit env = Inr limit" "mpz_sizeinbase2 m div 8 + 1 \<le> limit" "bs = mpz_bytes m"
    using assms by (auto simp: send_mpz_def bind_r_Inr_iff)
  define k where "k = mpz_sizeinbase2 m"
  have "nat \<bar>m\<bar> < 2 ^ k"
    using bit_length_bounds[of "nat \<bar>m\<bar>"] by (simp add: k_def mpz_sizeinbase2_def)
  also have "(2::nat) ^ k \<le> 2 ^ (8 * (k div 8 + 1))"
    by (intro power_increasing) auto
  also have "\<dots> = 256 ^ (k div 8 + 1)"
    by (simp only: power_mult) simp
  finally have "length (be_bytes (nat \<bar>m\<bar>)) \<le> k div 8 + 1"
    by (rule length_be_bytes_bound)
  then show ?thesis
    using l by (simp add: mpz_ok_def k_def)
qed

lemma word_le_1: "\<not> (neg :: 32 word) > 1 \<Longrightarrow> neg = 0 \<or> neg = 1"
  by (simp add: word_less_nat_alt word_unat_eq_iff) linarith

lemma be_bytes_Nil_iff: "be_bytes n = [] \<longleftrightarrow> n = 0"
  using hd_be_bytes[of n] by (auto simp: be_bytes.simps[of 0])

lemma recv_magnitude_iff:
  "recv_magnitude n s = Inr (m, rest) \<longleftrightarrow>
     0 \<le> m \<and> length (be_bytes (nat m)) = n \<and> s = be_bytes (nat m) @ rest"
proof (cases "n = 0")
  case True
  then show ?thesis
    by (auto simp: recv_magnitude_def be_bytes_Nil_iff be_bytes.simps[of 0])
next
  case False
  show ?thesis
  proof
    assume "recv_magnitude n s = Inr (m, rest)"
    then obtain buf where b: "length buf = n" "s = buf @ rest" "hd buf \<noteq> 0" "m = int (be_value buf)"
      using False by (auto simp: recv_magnitude_def bind_r_Inr_iff recv_bytes_Inr split: if_splits)
    then show "0 \<le> m \<and> length (be_bytes (nat m)) = n \<and> s = be_bytes (nat m) @ rest"
      using be_bytes_be_value[of buf] by simp
  next
    assume a: "0 \<le> m \<and> length (be_bytes (nat m)) = n \<and> s = be_bytes (nat m) @ rest"
    then have "be_bytes (nat m) \<noteq> []"
      using False by auto
    then have "hd (be_bytes (nat m)) \<noteq> 0"
      using hd_be_bytes be_bytes_Nil_iff by blast
    moreover have "recv_bytes n s = Inr (be_bytes (nat m), rest)"
      using a by (simp add: recv_bytes_Inr)
    ultimately show "recv_magnitude n s = Inr (m, rest)"
      using False a by (simp add: recv_magnitude_def be_value_be_bytes)
  qed
qed

lemma recv_mpz_iff:
  "recv_mpz env s = Inr (m, rest) \<longleftrightarrow> mpz_ok env m \<and> s = mpz_bytes m @ rest"
proof
  assume a: "recv_mpz env s = Inr (m, rest)"
  obtain neg s1 where 1: "recv_u32 s = Inr (neg, s1)"
    using a by (auto simp: recv_mpz_def bind_r_Inr_iff)
  obtain cnt s2 where 2: "recv_u32 s1 = Inr (cnt, s2)"
    using a 1 by (auto simp: recv_mpz_def bind_r_Inr_iff)
  obtain limit where 3: "\<not> neg > 1" "mpz_limit env = Inr limit" "\<not> unat cnt > limit"
    using a 1 2 by (auto simp: recv_mpz_def Let_def bind_r_Inr_iff split: if_splits)
  obtain x where "recv_magnitude (unat cnt) s2 = Inr (x, rest)"
      and neg: "\<not> (neg \<noteq> 0 \<and> cnt = 0)" and m: "m = (if neg \<noteq> 0 then - x else x)"
    using a 1 2 3
    by (auto simp: recv_mpz_def Let_def bind_r_Inr_iff[of "recv_magnitude _ _"] split: if_splits)
  then have 4: "0 \<le> x" "length (be_bytes (nat x)) = unat cnt" "s2 = be_bytes (nat x) @ rest"
    by (auto simp: recv_magnitude_iff)
  have s: "s = send_u32 neg @ send_u32 cnt @ be_bytes (nat x) @ rest"
    using 1 2 4 by (simp add: recv_u32_iff)
  have x: "nat \<bar>m\<bar> = nat x"
    using 4(1) m by auto
  have "neg = (if m < 0 then 1 else 0)"
  proof (cases "neg = 0")
    case False
    then have "x \<noteq> 0"
      using neg 4(2) by (auto simp: be_bytes.simps[of 0] unat_eq_0)
    then show ?thesis
      using False word_le_1[OF 3(1)] 4(1) m by auto
  qed (use 4 m in auto)
  moreover have "cnt = word_of_nat (length (be_bytes (nat x)))"
    using 4(2) by simp
  ultimately show "mpz_ok env m \<and> s = mpz_bytes m @ rest"
    using s 3 4(2) unfolding mpz_ok_def mpz_bytes_def x by simp
next
  assume a: "mpz_ok env m \<and> s = mpz_bytes m @ rest"
  then obtain limit where l: "mpz_limit env = Inr limit" "length (be_bytes (nat \<bar>m\<bar>)) \<le> limit"
    by (auto simp: mpz_ok_def split: sum.splits)
  define neg where "neg = (if m < 0 then 1 else 0 :: 32 word)"
  define cnt where "cnt = (word_of_nat (length (be_bytes (nat \<bar>m\<bar>))) :: 32 word)"
  have c: "unat cnt = length (be_bytes (nat \<bar>m\<bar>))"
    using l mpz_limit_bound[OF l(1)] by (simp add: cnt_def unat_of_nat)
  have r: "recv_u32 s = Inr (neg, send_u32 cnt @ be_bytes (nat \<bar>m\<bar>) @ rest)"
     "recv_u32 (send_u32 cnt @ be_bytes (nat \<bar>m\<bar>) @ rest) = Inr (cnt, be_bytes (nat \<bar>m\<bar>) @ rest)"
    using a by (simp_all add: recv_u32_iff mpz_bytes_def neg_def cnt_def)
  have p: "recv_magnitude (unat cnt) (be_bytes (nat \<bar>m\<bar>) @ rest) = Inr (\<bar>m\<bar>, rest)"
    unfolding recv_magnitude_iff using c by simp
  have n: "(neg > 1) = False" "(unat cnt > limit) = False" "(neg \<noteq> 0 \<and> cnt = 0) = False"
      "(if neg \<noteq> 0 then - \<bar>m\<bar> else \<bar>m\<bar>) = m"
    using c l(2) be_bytes_Nil_iff[of "nat \<bar>m\<bar>"] by (auto simp: neg_def unat_eq_0)
  show "recv_mpz env s = Inr (m, rest)"
    by (simp only: recv_mpz_def r l(1) p bind_r_simps prod.case Let_def n if_False)
qed

subsection \<open>The codecs of the code\<close>

definition qfi_bytes :: "qfi \<Rightarrow> byte list" where
  "qfi_bytes f = mpz_bytes (qa f) @ mpz_bytes (qb f) @ mpz_bytes (qc f)"

definition qfi_ok :: "env \<Rightarrow> qfi \<Rightarrow> bool" where
  "qfi_ok env f \<longleftrightarrow> mpz_ok env (qa f) \<and> mpz_ok env (qb f) \<and> mpz_ok env (qc f) \<and> qfi_valid f"

definition pk_ok :: "env \<Rightarrow> int \<Rightarrow> qfi \<Rightarrow> bool" where
  "pk_ok env disc f \<longleftrightarrow> qfi_ok env f \<and> discriminant f = disc"

definition ct_bytes :: "qfi \<times> qfi \<Rightarrow> byte list" where
  "ct_bytes ct = qfi_bytes (fst ct) @ qfi_bytes (snd ct)"

definition ct_ok :: "env \<Rightarrow> qfi \<times> qfi \<Rightarrow> bool" where
  "ct_ok env ct \<longleftrightarrow> qfi_ok env (fst ct) \<and> qfi_ok env (snd ct)"

interpretation u32: codec send_u32 recv_u32 "\<lambda>_. True"
  by unfold_locales (auto simp: recv_u32_iff)

interpretation u64: codec send_u64 recv_u64 "\<lambda>_. True"
  by unfold_locales (auto simp: recv_u64_iff)

interpretation mpz: codec mpz_bytes "recv_mpz env" "mpz_ok env" for env
  by unfold_locales (auto simp: recv_mpz_iff)

lemma make_qfi_Inr: "make_qfi a b c = Inr f \<longleftrightarrow> a = qa f \<and> b = qb f \<and> c = qc f \<and> qfi_valid f"
proof
  assume m: "make_qfi a b c = Inr f"
  then have "f = \<lparr>qa = a, qb = b, qc = c\<rparr>"
    by (auto simp: make_qfi_def split: if_splits)
  with m show "a = qa f \<and> b = qb f \<and> c = qc f \<and> qfi_valid f"
    by (simp add: qfi_valid_def)
qed (simp add: qfi_valid_def)

lemma recv_qfi_iff: "recv_qfi env s = Inr (f, rest) \<longleftrightarrow> qfi_ok env f \<and> s = qfi_bytes f @ rest"
  by (auto simp: recv_qfi_def bind_r_Inr_iff mpz.dec_iff make_qfi_Inr qfi_ok_def qfi_bytes_def)

interpretation qfi: codec qfi_bytes "recv_qfi env" "qfi_ok env" for env
  by unfold_locales (auto simp: recv_qfi_iff)

interpretation pk: codec qfi_bytes "recv_pk env disc" "pk_ok env disc" for env disc
  by unfold_locales
    (auto simp: recv_pk_def bind_r_Inr_iff qfi.dec_iff make_public_key_def pk_ok_def split: if_splits)

interpretation ct: codec ct_bytes "recv_ct env" "ct_ok env" for env
  by unfold_locales (auto simp: recv_ct_def bind_r_Inr_iff qfi.dec_iff ct_ok_def ct_bytes_def)

lemma send_qfi_Inr:
  "send_qfi env f = Inr bs \<Longrightarrow> qfi_valid f \<Longrightarrow> bs = qfi_bytes f \<and> qfi_ok env f"
  by (auto simp: send_qfi_def qfi_bytes_def qfi_ok_def bind_r_Inr_iff dest!: send_mpz_ok)

lemma send_ct_Inr:
  "send_ct env ct = Inr bs \<Longrightarrow> qfi_valid (fst ct) \<Longrightarrow> qfi_valid (snd ct) \<Longrightarrow> bs = ct_bytes ct \<and> ct_ok env ct"
  by (auto simp: send_ct_def ct_bytes_def ct_ok_def bind_r_Inr_iff dest!: send_qfi_Inr)

lemma map_r_send_ct:
  assumes "map_r (send_ct env) cts = Inr bss" "\<forall>ct \<in> set cts. qfi_valid (fst ct) \<and> qfi_valid (snd ct)"
  shows "bss = map ct_bytes cts \<and> list_all (ct_ok env) cts"
  using assms
proof (induction cts arbitrary: bss)
  case (Cons ct cts)
  from Cons.prems obtain b bs where b: "send_ct env ct = Inr b" "map_r (send_ct env) cts = Inr bs" "bss = b # bs"
    by (auto simp: bind_r_Inr_iff)
  then show ?case
    using send_ct_Inr[OF b(1)] Cons.IH[OF b(2)] Cons.prems(2) by simp
qed simp

text \<open>A vector of ciphertexts, sent one after the other, is received as it was.\<close>

lemma ct_list_roundtrip:
  assumes "send_list (send_ct env) cts = Inr bs" "\<forall>ct \<in> set cts. qfi_valid (fst ct) \<and> qfi_valid (snd ct)"
  shows "recv_list (recv_ct env) (length cts) (bs @ rest) = Inr (cts, rest)"
  using assms by (auto simp: send_list_def bind_r_Inr_iff ct.recv_list_iff dest!: map_r_send_ct)

subsection \<open>Properties\<close>

text \<open>
  C33: Blocking I/O over a stream socket. Once \<open>send_all\<close> returns, a \<open>recv_all\<close> of the same length
  that returns has read exactly the bytes sent, whatever partial transfers and interruptions
  either kernel chose, and has left the following bytes unread.
\<close>

theorem send_all_recv_all:
  assumes "snd (send_all os buf) = Some (Inr u)"
    and "recv_all os' (fst (send_all os buf) @ later) (length buf) = Some (Inr (got, rest))"
  shows "got = buf \<and> rest = later"
  using send_all_delivers[OF assms(1)] recv_all_exact[OF assms(2)] by auto

lemma send_all_recv_all_witness:
  "recv_all [Moved 2, Interrupted, Moved 9] (fst (send_all [Moved 1, Interrupted, Moved 2] [1, 2, 3]) @ [4]) 3
     = Some (Inr ([1, 2, 3], [4])) \<and> ([1, 2, 3 :: byte] = [1, 2, 3] \<and> [4 :: byte] = [4])"
proof
  show r: "recv_all [Moved 2, Interrupted, Moved 9] (fst (send_all [Moved 1, Interrupted, Moved 2] [1, 2, 3]) @ [4]) 3
     = Some (Inr ([1, 2, 3], [4]))"
    by simp
  show "[1, 2, 3 :: byte] = [1, 2, 3] \<and> [4 :: byte] = [4]"
    by (rule send_all_recv_all[of "[Moved 1, Interrupted, Moved 2]" "[1, 2, 3]" "()" "[Moved 2, Interrupted, Moved 9]"])
      simp_all
qed

text \<open>
  C34: The ciphertext format is canonical. A stream decodes to a ciphertext exactly when it starts
  with the wire form of that ciphertext, both forms pass the checks of the \<open>QFI\<close> constructor and
  each coefficient is within the receiver's size limit; no other byte string is accepted.
\<close>

theorem recv_ct_canonical:
  "recv_ct env s = Inr (ct, rest) \<longleftrightarrow> ct_ok env ct \<and> s = ct_bytes ct @ rest"
  by (rule ct.dec_iff)

text \<open>
  C35: A received public key is a reduced primitive positive definite form of the discriminant of
  the receiver's cryptosystem; everything else is an exception.
\<close>

theorem recv_pk_reduced:
  assumes "recv_pk env disc s = Inr (pk, rest)"
  shows "discriminant pk = disc \<and> disc < 0 \<and> 0 < qa pk \<and> - qa pk < qb pk \<and> qb pk \<le> qa pk \<and> qa pk \<le> qc pk
    \<and> gcd (gcd (qa pk) (qb pk)) (qc pk) = 1"
proof -
  have "discriminant pk = disc" "make_qfi (qa pk) (qb pk) (qc pk) = Inr pk"
    using assms by (auto simp: pk.dec_iff pk_ok_def qfi_ok_def qfi_valid_def)
  then show ?thesis
    by (auto simp: make_qfi_def discriminant_def split: if_splits)
qed

lemma recv_pk_reduced_witness:
  "discriminant \<lparr>qa = 2, qb = 1, qc = 3\<rparr> = -23 \<and> (-23 :: int) < 0 \<and> 0 < qa \<lparr>qa = 2, qb = 1, qc = 3\<rparr>
    \<and> - qa \<lparr>qa = 2, qb = 1, qc = 3\<rparr> < qb \<lparr>qa = 2, qb = 1, qc = 3\<rparr>
    \<and> qb \<lparr>qa = 2, qb = 1, qc = 3\<rparr> \<le> qa \<lparr>qa = 2, qb = 1, qc = 3\<rparr>
    \<and> qa \<lparr>qa = 2, qb = 1, qc = 3\<rparr> \<le> qc \<lparr>qa = 2, qb = 1, qc = 3\<rparr>
    \<and> gcd (gcd (qa \<lparr>qa = 2, qb = 1, qc = 3\<rparr>) (qb \<lparr>qa = 2, qb = 1, qc = 3\<rparr>)) (qc \<lparr>qa = 2, qb = 1, qc = 3\<rparr>) = 1"
proof -
  have l: "mpz_limit (\<lambda>_. None) = Inr 16384"
    by (simp add: mpz_limit_def cg_config_size_def)
  have "mpz_ok (\<lambda>_. None) m" if "m \<in> {1, 2, 3}" for m
  proof -
    have "length (be_bytes (nat \<bar>m\<bar>)) \<le> 1"
      using that by (intro length_be_bytes_bound) auto
    then show ?thesis
      by (simp add: mpz_ok_def l)
  qed
  then have "pk_ok (\<lambda>_. None) (-23) \<lparr>qa = 2, qb = 1, qc = 3\<rparr>"
    by (simp add: pk_ok_def qfi_ok_def qfi_valid_def make_qfi_def discriminant_def)
  then have "recv_pk (\<lambda>_. None) (-23) (qfi_bytes \<lparr>qa = 2, qb = 1, qc = 3\<rparr>) = Inr (\<lparr>qa = 2, qb = 1, qc = 3\<rparr>, [])"
    by (simp add: pk.dec_iff)
  then show ?thesis
    by (rule recv_pk_reduced)
qed

text \<open>
  Integers of both signs survive the wire. If \<open>send_mpz\<close> does not throw and the receiver's
  size limit is at least the sender's, \<open>recv_mpz\<close> returns the integer and the rest of the stream.
\<close>

theorem mpz_roundtrip:
  assumes "send_mpz env m = Inr bs" "mpz_limit env = Inr l" "mpz_limit env' = Inr l'" "l \<le> l'"
  shows "recv_mpz env' (bs @ rest) = Inr (m, rest)"
  using send_mpz_ok[OF assms(1)] assms(2-4) by (auto simp: mpz.dec_iff mpz_ok_def)

lemma mpz_roundtrip_witness: "recv_mpz (\<lambda>_. None) (mpz_bytes (- 70000) @ [5]) = Inr (- 70000, [5])"
proof -
  have l: "mpz_limit (\<lambda>_. None) = Inr 16384"
    by (simp add: mpz_limit_def cg_config_size_def)
  have "bit_length 70000 = 17"
    by (simp add: bit_length.simps)
  then have "send_mpz (\<lambda>_. None) (- 70000) = Inr (mpz_bytes (- 70000))"
    by (simp add: send_mpz_def l mpz_sizeinbase2_def)
  then show ?thesis
    using l l by (rule mpz_roundtrip) simp
qed

end
