(* ===== verification/CG_Lanes.thy ===== *)
theory CG_Lanes
  imports CG_Wire
begin

text \<open>
  Model of the transport half of \<^verbatim>\<open>cg_rf_ole_batch.hpp\<close>: sharding a vector of ciphertexts over
  parallel TCP lanes, the handshake that gives every connection its lane, and the chunked send
  and receive loops. A lane is the byte stream still in flight on its connection; the threads of
  \<^verbatim>\<open>rf_parallel_io\<close> touch disjoint lanes and disjoint vector ranges, and the model runs them in
  lane order. Of several failing lanes it reports the first, where the code reports whichever
  thread fails first.
\<close>

subsection \<open>Configuration\<close>

definition rf_transport_lanes :: "env \<Rightarrow> nat result" where
  "rf_transport_lanes env = cg_config_size env ''CG_RF_LANES'' 1 64 False"

definition rf_chunk_size :: "env \<Rightarrow> nat result" where
  "rf_chunk_size env = cg_config_size env ''CG_RF_CHUNK_SIZE'' 64 0 False"

definition validate_lane_metadata :: "env \<Rightarrow> bool" where
  "validate_lane_metadata env \<longleftrightarrow> env ''CG_VALIDATE_LANES'' = Some ''1''"

subsection \<open>Lane ranges\<close>

definition lane_bound :: "nat \<Rightarrow> nat \<Rightarrow> nat \<Rightarrow> nat" where
  "lane_bound n lanes lane =
     sz_add (sz_mul (n div lanes) lane) (sz_mul (n mod lanes) lane div lanes)"

definition rf_lane_range :: "env \<Rightarrow> nat \<Rightarrow> nat \<Rightarrow> nat \<Rightarrow> (nat \<times> nat) result" where
  "rf_lane_range env n lanes lane =
     bind_r (cg_validate_count env n False) (\<lambda>_.
     if lanes = 0 \<or> lanes > 64 \<or> lane \<ge> lanes then Inl (Runtime_error ''invalid lane range'')
     else Inr (lane_bound n lanes lane, lane_bound n lanes (lane + 1)))"

definition rf_lane_range_intersection ::
  "env \<Rightarrow> nat \<Rightarrow> nat \<Rightarrow> nat \<Rightarrow> nat \<Rightarrow> nat \<Rightarrow> (nat \<times> nat) result" where
  "rf_lane_range_intersection env n lanes lane b e =
     bind_r (rf_lane_range env n lanes lane) (\<lambda>(lb, le). Inr (max lb b, min le e))"

fun active_from :: "env \<Rightarrow> nat \<Rightarrow> nat \<Rightarrow> nat \<Rightarrow> nat \<Rightarrow> nat list \<Rightarrow> nat list result" where
  "active_from env k n b e [] = Inr []"
| "active_from env k n b e (lane # ls) =
     bind_r (rf_lane_range_intersection env n k lane b e) (\<lambda>(l, r).
     bind_r (active_from env k n b e ls) (\<lambda>rest.
     Inr (if l < r then lane # rest else rest)))"

definition rf_active_lanes :: "env \<Rightarrow> nat \<Rightarrow> nat \<Rightarrow> nat \<Rightarrow> nat \<Rightarrow> nat \<Rightarrow> nat list result" where
  "rf_active_lanes env k n vsize b e =
     bind_r (cg_validate_count env n False) (\<lambda>_.
     if k = 0 \<or> k > 64 \<or> n > vsize \<or> b > e \<or> e > n
     then Inl (Runtime_error ''invalid RF I/O range'')
     else active_from env k n b e [0..<k])"

subsection \<open>The handshake\<close>

text \<open>
  The SHA-256 digest of the parameters is a value both endpoints compute; it is an argument
  here. A connection is the stream of bytes the peer writes on it.
\<close>

definition send_rf_metadata :: "env \<Rightarrow> byte list \<Rightarrow> nat \<Rightarrow> nat \<Rightarrow> byte list result" where
  "send_rf_metadata env digest lanes cnt =
     bind_r (rf_chunk_size env) (\<lambda>chunk.
     Inr (send_u32 0x43470002 @ send_u64 (word_of_nat lanes) @ send_u64 (word_of_nat cnt)
          @ send_u64 (word_of_nat chunk) @ digest))"

definition check_rf_metadata :: "env \<Rightarrow> byte list \<Rightarrow> nat \<Rightarrow> nat \<Rightarrow> byte list \<Rightarrow> byte list result" where
  "check_rf_metadata env expected lanes cnt s =
     bind_r (recv_u32 s) (\<lambda>(version, s1). bind_r (recv_u64 s1) (\<lambda>(peer_lanes, s2).
     bind_r (recv_u64 s2) (\<lambda>(peer_count, s3). bind_r (recv_u64 s3) (\<lambda>(chunk, s4).
     bind_r (recv_bytes 32 s4) (\<lambda>(digest, s5).
     let mismatch = Inl (Runtime_error ''RF lane parameter/count/chunk mismatch'') in
     if version \<noteq> 0x43470002 \<or> unat peer_lanes \<noteq> lanes \<or> unat peer_count \<noteq> cnt then mismatch
     else bind_r (rf_chunk_size env) (\<lambda>own.
       if unat chunk \<noteq> own \<or> digest \<noteq> expected then mismatch else Inr s5))))))"

text \<open>
  One round of the accept loop: the lane id is the first word on the connection; an id out of
  range or seen before is refused.
\<close>

definition accept_lane ::
  "env \<Rightarrow> byte list \<Rightarrow> nat \<Rightarrow> nat \<Rightarrow> byte list \<Rightarrow> byte list option list \<Rightarrow> byte list option list result" where
  "accept_lane env digest lanes cnt conn fds =
     bind_r (recv_u64 conn) (\<lambda>(lane, s).
     if unat lane \<ge> lanes \<or> fds ! unat lane \<noteq> None
     then Inl (Runtime_error ''invalid or duplicate RF lane id'')
     else bind_r (if validate_lane_metadata env then check_rf_metadata env digest lanes cnt s else Inr s)
       (\<lambda>s'. Inr (fds[unat lane := Some s'])))"

text \<open>\<open>None\<close>: the loop still waits for a connection.\<close>

definition accept_rf_lanes ::
  "env \<Rightarrow> byte list \<Rightarrow> byte list list \<Rightarrow> nat \<Rightarrow> nat \<Rightarrow> byte list option list result option" where
  "accept_rf_lanes env digest conns lanes cnt =
     (case bind_r (cg_validate_count env cnt False) (\<lambda>_.
             fold_r (accept_lane env digest lanes cnt) (take lanes conns) (replicate lanes None)) of
        Inl err \<Rightarrow> Some (Inl err)
      | Inr fds \<Rightarrow> if length conns < lanes then None else Some (Inr fds))"

text \<open>What the connecting side writes on its new connections, in the order it opens them.\<close>

definition connect_lane :: "env \<Rightarrow> byte list \<Rightarrow> nat \<Rightarrow> nat \<Rightarrow> nat \<Rightarrow> byte list result" where
  "connect_lane env digest lanes cnt lane =
     bind_r (if validate_lane_metadata env then send_rf_metadata env digest lanes cnt else Inr [])
       (\<lambda>meta. Inr (send_u64 (word_of_nat lane) @ meta))"

definition connect_rf_lanes :: "env \<Rightarrow> byte list \<Rightarrow> nat \<Rightarrow> nat \<Rightarrow> byte list list result" where
  "connect_rf_lanes env digest lanes cnt =
     bind_r (cg_validate_count env cnt False) (\<lambda>_.
     map_r (connect_lane env digest lanes cnt) [0..<lanes])"

text \<open>
  The other direction, with \<^verbatim>\<open>CG_VALIDATE_LANES=1\<close>: the accepting side answers on each lane
  with its own metadata, the first bytes it writes there, and the connecting side reads and checks
  that answer before it uses the lane. \<open>accepted_tx\<close> is what an accepting program has written when
  its lanes stand, \<open>check_replies\<close> what a connecting program leaves unread of its lanes.
\<close>

definition accepted_tx :: "env \<Rightarrow> byte list \<Rightarrow> nat \<Rightarrow> nat \<Rightarrow> byte list list result" where
  "accepted_tx env digest lanes cnt =
     map_r (\<lambda>_. if validate_lane_metadata env then send_rf_metadata env digest lanes cnt else Inr []) [0..<lanes]"

definition check_replies :: "env \<Rightarrow> byte list \<Rightarrow> nat \<Rightarrow> nat \<Rightarrow> byte list list \<Rightarrow> byte list list result" where
  "check_replies env digest lanes cnt rx =
     map_r (\<lambda>s. if validate_lane_metadata env then check_rf_metadata env digest lanes cnt s else Inr s) rx"

subsection \<open>Sending and receiving a range\<close>

definition send_lane ::
  "env \<Rightarrow> ('c \<Rightarrow> byte list result) \<Rightarrow> 'c list \<Rightarrow> nat \<Rightarrow> nat \<Rightarrow> nat \<Rightarrow> nat \<Rightarrow> byte list list
   \<Rightarrow> byte list list result" where
  "send_lane env snd_ct values n b e lane fds =
     bind_r (rf_lane_range_intersection env n (length fds) lane b e) (\<lambda>(l, r).
     bind_r (send_list snd_ct (vslice l r values)) (\<lambda>bs.
     Inr (fds[lane := fds ! lane @ bs])))"

definition send_ct_lanes_range ::
  "env \<Rightarrow> ('c \<Rightarrow> byte list result) \<Rightarrow> byte list list \<Rightarrow> 'c list \<Rightarrow> nat \<Rightarrow> nat \<Rightarrow> nat
   \<Rightarrow> byte list list result" where
  "send_ct_lanes_range env snd_ct fds values n b e =
     bind_r (rf_active_lanes env (length fds) n (length values) b e) (\<lambda>lanes.
     if length fds = 1
     then bind_r (send_list snd_ct (vslice b e values)) (\<lambda>bs. Inr [fds ! 0 @ bs])
     else fold_r (send_lane env snd_ct values n b e) lanes fds)"

definition recv_lane ::
  "env \<Rightarrow> 'c reader \<Rightarrow> nat \<Rightarrow> nat \<Rightarrow> nat \<Rightarrow> nat \<Rightarrow> 'c list \<times> byte list list
   \<Rightarrow> ('c list \<times> byte list list) result" where
  "recv_lane env rcv_ct n b e lane st =
     bind_r (rf_lane_range_intersection env n (length (snd st)) lane b e) (\<lambda>(l, r).
     bind_r (recv_list rcv_ct (r - l) (snd st ! lane)) (\<lambda>(xs, rest).
     Inr (put_vec l xs (fst st), (snd st)[lane := rest])))"

definition recv_ct_lanes_range ::
  "env \<Rightarrow> 'c reader \<Rightarrow> byte list list \<Rightarrow> 'c list \<Rightarrow> nat \<Rightarrow> nat \<Rightarrow> nat
   \<Rightarrow> ('c list \<times> byte list list) result" where
  "recv_ct_lanes_range env rcv_ct fds values n b e =
     bind_r (rf_active_lanes env (length fds) n (length values) b e) (\<lambda>lanes.
     if length fds = 1
     then bind_r (recv_list rcv_ct (e - b) (fds ! 0)) (\<lambda>(xs, rest). Inr (put_vec b xs values, [rest]))
     else fold_r (recv_lane env rcv_ct n b e) lanes (values, fds))"

definition send_ct_lanes where
  "send_ct_lanes env snd_ct fds values n = send_ct_lanes_range env snd_ct fds values n 0 n"

definition recv_ct_lanes where
  "recv_ct_lanes env rcv_ct fds values n = recv_ct_lanes_range env rcv_ct fds values n 0 n"

subsection \<open>Chunked phases\<close>

text \<open>
  The loop \<^verbatim>\<open>for (begin = 0; begin < N; begin += CHUNK)\<close> that both endpoints run in each round.
  The guard \<open>0 < c\<close> is the parser's: a chunk size of zero never leaves \<open>rf_chunk_size\<close>.
\<close>

function chunk_ranges :: "nat \<Rightarrow> nat \<Rightarrow> nat \<Rightarrow> (nat \<times> nat) list" where
  "chunk_ranges n c b = (if b < n \<and> 0 < c then (b, min n (b + c)) # chunk_ranges n c (b + c) else [])"
  by auto
termination by (relation "measure (\<lambda>(n, c, b). n - b)") auto

declare chunk_ranges.simps [simp del]

definition send_phase ::
  "env \<Rightarrow> ('c \<Rightarrow> byte list result) \<Rightarrow> byte list list \<Rightarrow> 'c list \<Rightarrow> byte list list result" where
  "send_phase env snd_ct fds values =
     bind_r (rf_chunk_size env) (\<lambda>c.
     fold_r (\<lambda>(b, e) fds. send_ct_lanes_range env snd_ct fds values (length values) b e)
       (chunk_ranges (length values) c 0) fds)"

definition recv_phase ::
  "env \<Rightarrow> 'c reader \<Rightarrow> byte list list \<Rightarrow> 'c list \<Rightarrow> ('c list \<times> byte list list) result" where
  "recv_phase env rcv_ct fds values =
     bind_r (rf_chunk_size env) (\<lambda>c.
     fold_r (\<lambda>(b, e) (vals, fds). recv_ct_lanes_range env rcv_ct fds vals (length values) b e)
       (chunk_ranges (length values) c 0) (values, fds))"

subsection \<open>Lane ranges partition the vector\<close>

lemma lane_bound_exact:
  assumes "0 < k" "k \<le> 64" "n \<le> 2 ^ 24" "i \<le> k"
  shows "lane_bound n k i = (n div k) * i + (n mod k) * i div k"
proof -
  have "(n div k) * i \<le> 2 ^ 24 * 64" "(n mod k) * i \<le> 64 * 64"
    using assms by (intro mult_mono; simp add: le_trans[OF div_le_dividend] le_trans[OF mod_less_eq_dividend] less_imp_le[OF mod_less_divisor, THEN le_trans])+
  moreover from this have "(n mod k) * i div k \<le> 64 * 64"
    using div_le_dividend le_trans by blast
  ultimately show ?thesis
    by (simp add: lane_bound_def sz_add_exact sz_mul_exact size_limit_def)
qed

lemma lane_bound_ends:
  assumes "0 < k" "k \<le> 64" "n \<le> 2 ^ 24"
  shows "lane_bound n k 0 = 0" "lane_bound n k k = n"
  using assms by (auto simp: lane_bound_exact)

lemma lane_bound_mono:
  assumes "0 < k" "k \<le> 64" "n \<le> 2 ^ 24" "i \<le> j" "j \<le> k"
  shows "lane_bound n k i \<le> lane_bound n k j"
  using assms by (simp add: lane_bound_exact add_mono div_le_mono)

lemma lane_bound_le:
  assumes "0 < k" "k \<le> 64" "n \<le> 2 ^ 24" "i \<le> k"
  shows "lane_bound n k i \<le> n"
  using lane_bound_mono[OF assms order_refl] lane_bound_ends[OF assms(1-3)] by simp

lemma lane_bound_balanced:
  assumes "0 < k" "k \<le> 64" "n \<le> 2 ^ 24" "i < k"
  shows "n div k \<le> lane_bound n k (Suc i) - lane_bound n k i"
    and "lane_bound n k (Suc i) - lane_bound n k i \<le> n div k + 1"
proof -
  define r where "r = n mod k"
  have "r * i div k \<le> r * Suc i div k"
    by (intro div_le_mono) simp
  moreover have "r * Suc i \<le> r * i + k"
    using assms(1) by (simp add: r_def)
  then have "r * Suc i div k \<le> (r * i + k) div k"
    by (rule div_le_mono)
  then have "r * Suc i div k \<le> r * i div k + 1"
    using assms(1) by (simp only: div_add_self2)
  moreover have "lane_bound n k i = (n div k) * i + r * i div k"
      "lane_bound n k (Suc i) = (n div k) * i + (n div k) + r * Suc i div k"
    using assms by (simp_all add: lane_bound_exact r_def)
  ultimately show "n div k \<le> lane_bound n k (Suc i) - lane_bound n k i"
    "lane_bound n k (Suc i) - lane_bound n k i \<le> n div k + 1"
    by auto
qed

lemma lane_cover_upto:
  fixes f :: "nat \<Rightarrow> nat"
  assumes "f 0 = 0" "j < f k"
  shows "\<exists>i < k. f i \<le> j \<and> j < f (Suc i)"
  using assms(2)
proof (induction k)
  case (Suc k)
  then show ?case
    by (cases "j < f k") (auto intro: less_SucI)
qed (use assms(1) in simp)

lemma lane_exists:
  assumes "0 < k" "k \<le> 64" "n \<le> 2 ^ 24" "j < n"
  shows "\<exists>i < k. lane_bound n k i \<le> j \<and> j < lane_bound n k (Suc i)"
  using lane_cover_upto[of "lane_bound n k" j k] lane_bound_ends[OF assms(1-3)] assms(4) by simp

lemma lane_unique:
  assumes "0 < k" "k \<le> 64" "n \<le> 2 ^ 24" "i < k" "i' < k"
    "lane_bound n k i \<le> j" "j < lane_bound n k (Suc i)"
    "lane_bound n k i' \<le> j" "j < lane_bound n k (Suc i')"
  shows "i = i'"
proof (rule ccontr)
  assume "i \<noteq> i'"
  then consider "Suc i \<le> i'" | "Suc i' \<le> i" by linarith
  then show False
    using lane_bound_mono[OF assms(1-3), of "Suc i" i'] lane_bound_mono[OF assms(1-3), of "Suc i'" i] assms(4-)
    by cases auto
qed

lemma rf_lane_range_Inr:
  assumes "rf_lane_range env n k i = Inr (l, r)"
  shows "0 < n \<and> n \<le> 2 ^ 24 \<and> 0 < k \<and> k \<le> 64 \<and> i < k \<and> l = lane_bound n k i \<and> r = lane_bound n k (Suc i)"
proof -
  from assms have v: "cg_validate_count env n False = Inr ()"
    by (auto simp: rf_lane_range_def bind_r_Inr_iff)
  then have "0 < n" "n \<le> 2 ^ 24"
    using cg_max_items_bounds by (fastforce simp: cg_validate_count_Inr)+
  then show ?thesis
    using assms v by (auto simp: rf_lane_range_def split: if_splits)
qed

lemma rf_lane_range_eq:
  "cg_validate_count env n False = Inr () \<Longrightarrow> 0 < k \<Longrightarrow> k \<le> 64 \<Longrightarrow> i < k \<Longrightarrow>
   rf_lane_range env n k i = Inr (lane_bound n k i, lane_bound n k (Suc i))"
  by (simp add: rf_lane_range_def)

lemma validate_count_bound: "cg_validate_count env n False = Inr () \<Longrightarrow> 0 < n \<and> n \<le> 2 ^ 24"
  using cg_max_items_bounds by (fastforce simp: cg_validate_count_Inr)

definition lane_lo :: "nat \<Rightarrow> nat \<Rightarrow> nat \<Rightarrow> nat \<Rightarrow> nat" where
  "lane_lo n k b i = max (lane_bound n k i) b"

definition lane_hi :: "nat \<Rightarrow> nat \<Rightarrow> nat \<Rightarrow> nat \<Rightarrow> nat" where
  "lane_hi n k e i = min (lane_bound n k (Suc i)) e"

lemma rf_lane_range_intersection_eq:
  "cg_validate_count env n False = Inr () \<Longrightarrow> k \<le> 64 \<Longrightarrow> i < k \<Longrightarrow>
   rf_lane_range_intersection env n k i b e = Inr (lane_lo n k b i, lane_hi n k e i)"
  by (simp add: rf_lane_range_intersection_def rf_lane_range_eq lane_lo_def lane_hi_def)

lemma active_from_eq:
  assumes "cg_validate_count env n False = Inr ()" "0 < k" "k \<le> 64" "\<forall>i \<in> set is. i < k"
  shows "active_from env k n b e is = Inr (filter (\<lambda>i. lane_lo n k b i < lane_hi n k e i) is)"
  using assms(4)
  by (induction "is") (auto simp: rf_lane_range_intersection_eq[OF assms(1,3)])

lemma rf_active_lanes_eq:
  assumes "cg_validate_count env n False = Inr ()" "0 < k" "k \<le> 64" "n \<le> m" "b \<le> e" "e \<le> n"
  shows "rf_active_lanes env k n m b e = Inr (filter (\<lambda>i. lane_lo n k b i < lane_hi n k e i) [0..<k])"
  using assms by (simp add: rf_active_lanes_def active_from_eq)

lemma rf_active_lanes_Inr:
  assumes "rf_active_lanes env k n m b e = Inr ls"
  shows "cg_validate_count env n False = Inr () \<and> 0 < k \<and> k \<le> 64 \<and> n \<le> m \<and> b \<le> e \<and> e \<le> n"
  using assms by (auto simp: rf_active_lanes_def bind_r_Inr_iff split: if_splits)

subsection \<open>Chunks\<close>

lemma chunk_ranges_induct_bounds:
  "(b', e') \<in> set (chunk_ranges n c b) \<Longrightarrow> b \<le> b' \<and> b' < e' \<and> e' \<le> n"
  by (induction n c b rule: chunk_ranges.induct) (subst (asm) (2) chunk_ranges.simps, auto split: if_splits)

lemma rf_chunk_size_pos: "rf_chunk_size env = Inr c \<Longrightarrow> 0 < c"
  by (auto simp: rf_chunk_size_def cg_config_size_def dest!: cg_parse_size_Inr split: option.splits)

text \<open>A loop invariant indexed by the loop variable carries over the chunked loop.\<close>

lemma fold_chunks:
  assumes "P b s" "b \<le> n" "0 < c"
    and "\<And>b e s. P b s \<Longrightarrow> b < e \<Longrightarrow> e \<le> n \<Longrightarrow> \<exists>s'. f (b, e) s = Inr s' \<and> P e s'"
  shows "\<exists>s'. fold_r f (chunk_ranges n c b) s = Inr s' \<and> P n s'"
  using assms(1,2)
proof (induction "n - b" arbitrary: b s rule: less_induct)
  case less
  show ?case
  proof (cases "b < n")
    case True
    then obtain s' where s': "f (b, min n (b + c)) s = Inr s'" "P (min n (b + c)) s'"
      using assms(4)[of b s "min n (b + c)"] less.prems assms(3) by auto
    have "\<exists>t. fold_r f (chunk_ranges n c (b + c)) s' = Inr t \<and> P n t"
    proof (cases "b + c \<le> n")
      case inside: True
      then show ?thesis
        using less.hyps[of "b + c" s'] s'(2) True assms(3) by (simp add: min.absorb2)
    next
      case False
      then show ?thesis
        using s'(2) by (subst chunk_ranges.simps) (simp add: min_def)
    qed
    then show ?thesis
      using True assms(3) s' by (subst chunk_ranges.simps) simp
  next
    case False
    then show ?thesis
      using less.prems by (subst chunk_ranges.simps) simp
  qed
qed

subsection \<open>Ranges travel unchanged\<close>

lemma fold_upd_nth:
  assumes "distinct is" "\<forall>i \<in> set is. i < length s"
  shows "length (fold (\<lambda>i s. s[i := g i (s ! i)]) is s) = length s \<and>
    (\<forall>j < length s. fold (\<lambda>i s. s[i := g i (s ! i)]) is s ! j = (if j \<in> set is then g j (s ! j) else s ! j))"
  using assms
proof (induction "is" arbitrary: s)
  case (Cons i "is")
  let ?s = "s[i := g i (s ! i)]"
  have "length (fold (\<lambda>i s. s[i := g i (s ! i)]) is ?s) = length ?s \<and>
    (\<forall>j < length ?s. fold (\<lambda>i s. s[i := g i (s ! i)]) is ?s ! j = (if j \<in> set is then g j (?s ! j) else ?s ! j))"
    using Cons.prems by (intro Cons.IH) auto
  then show ?case
    using Cons.prems by (auto simp: nth_list_update)
qed simp

text \<open>Joining the parts of a lane's range before and after a cut of the vector.\<close>

lemma vslice_cut:
  "b \<le> e \<Longrightarrow> vslice lo (min hi b) xs @ vslice (max lo b) (min hi e) xs = vslice lo (min hi e) xs"
proof (cases "lo \<le> b \<and> b \<le> hi")
  case True
  then show "b \<le> e \<Longrightarrow> ?thesis"
    by (auto simp: min_absorb2 max_absorb2 intro!: vslice_append)
next
  case False
  then show "b \<le> e \<Longrightarrow> ?thesis"
    by (auto simp: not_le min_def max_def)
qed

lemma lane_hi_le: "lane_hi n k e i \<le> e"
  by (simp add: lane_hi_def)

lemma vslice_cut2:
  "b \<le> e \<Longrightarrow> vslice (max lo b) (min hi e) xs @ vslice (max lo e) hi xs = vslice (max lo b) hi xs"
proof (cases "lo \<le> e \<and> e \<le> hi")
  case True
  then show "b \<le> e \<Longrightarrow> ?thesis"
    by (auto simp: min_absorb2 max_absorb2 intro!: vslice_append)
next
  case False
  then show "b \<le> e \<Longrightarrow> ?thesis"
    by (auto simp: not_le min_def max_def)
qed

context codec
begin

abbreviation put :: "'a \<Rightarrow> byte list result" where
  "put x \<equiv> Inr (enc x)"

abbreviation wire :: "'a list \<Rightarrow> byte list" where
  "wire xs \<equiv> concat (map enc xs)"

lemma send_list_put: "send_list put xs = Inr (wire xs)"
  by (simp add: send_list_def map_r_Inr_all[where g = enc])

lemma send_lane_put:
  assumes "cg_validate_count env n False = Inr ()" "length fds \<le> 64" "i < length fds"
  shows "send_lane env put values n b e i fds =
    Inr (fds[i := fds ! i @ wire (vslice (lane_lo n (length fds) b i) (lane_hi n (length fds) e i) values)])"
  using assms rf_lane_range_intersection_eq[OF assms(1,2,3)]
  by (simp add: send_lane_def send_list_put)

lemma fold_send_lane_put:
  assumes "cg_validate_count env n False = Inr ()" "k \<le> 64" "\<forall>i \<in> set is. i < k" "length fds = k"
  shows "fold_r (send_lane env put values n b e) is fds =
    Inr (fold (\<lambda>i fds. fds[i := fds ! i @ wire (vslice (lane_lo n k b i) (lane_hi n k e i) values)]) is fds)"
  using assms(3,4)
  by (induction "is" arbitrary: fds) (simp_all add: send_lane_put[OF assms(1)] assms(2) o_def)

lemma send_ct_lanes_range_put:
  assumes "cg_validate_count env n False = Inr ()" "0 < length fds" "length fds \<le> 64"
    "n \<le> length values" "b \<le> e" "e \<le> n"
  shows "send_ct_lanes_range env put fds values n b e =
    Inr (map (\<lambda>i. fds ! i @ wire (vslice (lane_lo n (length fds) b i) (lane_hi n (length fds) e i) values))
      [0..<length fds])"
proof -
  let ?k = "length fds"
  let ?act = "filter (\<lambda>i. lane_lo n ?k b i < lane_hi n ?k e i) [0..<?k]"
  let ?g = "\<lambda>i s. s @ wire (vslice (lane_lo n ?k b i) (lane_hi n ?k e i) values)"
  have a: "rf_active_lanes env ?k n (length values) b e = Inr ?act"
    using assms by (intro rf_active_lanes_eq) auto
  show ?thesis
  proof (cases "?k = 1")
    case True
    then obtain x where x: "fds = [x]"
      by (auto simp: length_Suc_conv)
    have "lane_lo n 1 b 0 = b" "lane_hi n 1 e 0 = e"
      using lane_bound_ends[of 1 n] validate_count_bound[OF assms(1)] assms(6)
      by (auto simp: lane_lo_def lane_hi_def)
    then show ?thesis
      using a unfolding x by (simp add: send_ct_lanes_range_def send_list_put)
  next
    case False
    have "fold_r (send_lane env put values n b e) ?act fds =
        Inr (fold (\<lambda>i fds. fds[i := ?g i (fds ! i)]) ?act fds)"
      by (rule fold_send_lane_put[OF assms(1,3) _ refl]) simp
    moreover define sent where "sent = fold (\<lambda>i fds. fds[i := ?g i (fds ! i)]) ?act fds"
    moreover have "length sent = ?k \<and>
        (\<forall>j < ?k. sent ! j = (if j \<in> set ?act then ?g j (fds ! j) else fds ! j))"
      unfolding sent_def by (rule fold_upd_nth) simp_all
    then have "sent = map (\<lambda>i. ?g i (fds ! i)) [0..<?k]"
      by (intro nth_equalityI) (auto simp: not_less)
    ultimately show ?thesis
      using a False by (simp add: send_ct_lanes_range_def)
  qed
qed

lemma recv_lane_wire:
  assumes "cg_validate_count env n False = Inr ()" "length fds \<le> 64" "i < length fds"
    and "lane_hi n (length fds) e i \<le> length xs" "list_all ok xs"
    and "fds ! i = wire (vslice (lane_lo n (length fds) b i) (lane_hi n (length fds) e i) xs) @ t"
  shows "recv_lane env dec n b e i (vals, fds) =
    Inr (put_vec (lane_lo n (length fds) b i) (vslice (lane_lo n (length fds) b i) (lane_hi n (length fds) e i) xs) vals,
         fds[i := t])"
proof -
  let ?s = "vslice (lane_lo n (length fds) b i) (lane_hi n (length fds) e i) xs"
  have "list_all ok ?s"
    using assms(5) set_vslice_subset by (fastforce simp: list_all_iff)
  then have "recv_list dec (lane_hi n (length fds) e i - lane_lo n (length fds) b i) (fds ! i) = Inr (?s, t)"
    using assms(4,6) by (simp add: recv_list_iff del: min.bounded_iff)
  then show ?thesis
    using rf_lane_range_intersection_eq[OF assms(1,2,3)] assms(3)
    by (simp add: recv_lane_def)
qed

lemma fold_recv_lane_wire:
  assumes "cg_validate_count env n False = Inr ()" "k \<le> 64" "e \<le> n" "n \<le> length xs" "list_all ok xs"
    and "distinct is" "\<forall>i \<in> set is. i < k" "length fds = k" "n \<le> length vals"
    and "\<forall>i \<in> set is. fds ! i = wire (vslice (lane_lo n k b i) (lane_hi n k e i) xs) @ t i"
  shows "\<exists>vals' fds'. fold_r (recv_lane env dec n b e) is (vals, fds) = Inr (vals', fds')
    \<and> length vals' = length vals \<and> length fds' = k
    \<and> (\<forall>j < length vals. vals' ! j =
         (if \<exists>i \<in> set is. lane_lo n k b i \<le> j \<and> j < lane_hi n k e i then xs ! j else vals ! j))
    \<and> (\<forall>i < k. fds' ! i = (if i \<in> set is then t i else fds ! i))"
  using assms(6-10)
proof (induction "is" arbitrary: vals fds)
  case (Cons i "is")
  let ?s = "vslice (lane_lo n k b i) (lane_hi n k e i) xs"
  let ?v = "put_vec (lane_lo n k b i) ?s vals"
  let ?f = "fds[i := t i]"
  have step: "recv_lane env dec n b e i (vals, fds) = Inr (?v, ?f)"
    using Cons.prems assms(1-5) le_trans[OF lane_hi_le[of n k e i], of "length xs"]
      recv_lane_wire[of env n fds i e xs b "t i" vals] by auto
  have hi: "lane_hi n k e i \<le> length xs" "lane_hi n k e i \<le> length vals"
    using le_trans[OF lane_hi_le] assms(3,4) Cons.prems(4) by (meson le_trans)+
  have len: "length ?s = lane_hi n k e i - lane_lo n k b i"
    using hi by simp
  have put: "put_vec l ys vals = vals" if "ys = []" for l and ys :: "'a list"
    using that by (simp add: put_vec_def)
  have v: "length ?v = length vals \<and>
    (\<forall>j < length vals. ?v ! j = (if lane_lo n k b i \<le> j \<and> j < lane_hi n k e i then xs ! j else vals ! j))"
  proof (cases "lane_lo n k b i < lane_hi n k e i")
    case True
    then have "lane_lo n k b i + length ?s \<le> length vals"
      using len hi by simp
    then show ?thesis
      using len True hi by (auto simp: nth_put_vec nth_vslice)
  next
    case False
    then have "?s = []"
      by (intro vslice_empty) simp
    then show ?thesis
      using put False by (metis less_le_trans not_less)
  qed
  have "\<exists>vals' fds'. fold_r (recv_lane env dec n b e) is (?v, ?f) = Inr (vals', fds')
    \<and> length vals' = length ?v \<and> length fds' = k
    \<and> (\<forall>j < length ?v. vals' ! j =
         (if \<exists>i \<in> set is. lane_lo n k b i \<le> j \<and> j < lane_hi n k e i then xs ! j else ?v ! j))
    \<and> (\<forall>i < k. fds' ! i = (if i \<in> set is then t i else ?f ! i))"
    using Cons.prems v by (intro Cons.IH) (auto simp: nth_list_update)
  then obtain vals' fds' where f: "fold_r (recv_lane env dec n b e) is (?v, ?f) = Inr (vals', fds')"
     "length vals' = length ?v" "length fds' = k"
     "\<forall>j < length ?v. vals' ! j =
         (if \<exists>i \<in> set is. lane_lo n k b i \<le> j \<and> j < lane_hi n k e i then xs ! j else ?v ! j)"
     "\<forall>i < k. fds' ! i = (if i \<in> set is then t i else ?f ! i)"
    by blast
  have "\<forall>j < length vals. vals' ! j =
         (if \<exists>i \<in> set (i # is). lane_lo n k b i \<le> j \<and> j < lane_hi n k e i then xs ! j else vals ! j)"
    using f(4) v by auto
  moreover have "\<forall>l < k. fds' ! l = (if l \<in> set (i # is) then t l else fds ! l)"
    using f(5) Cons.prems(2,3) by (simp add: nth_list_update)
  ultimately show ?case
    using f(1-3) v step by (intro exI[of _ vals'] exI[of _ fds']) simp
qed simp

lemma recv_ct_lanes_range_wire:
  assumes "cg_validate_count env n False = Inr ()" "0 < k" "k \<le> 64" "b \<le> e" "e \<le> n"
    and "n \<le> length xs" "list_all ok xs" "n \<le> length vals" "length fds = k"
    and "\<forall>i < k. fds ! i = wire (vslice (lane_lo n k b i) (lane_hi n k e i) xs) @ t i"
  shows "\<exists>vals'. recv_ct_lanes_range env dec fds vals n b e = Inr (vals', map t [0..<k])
    \<and> length vals' = length vals
    \<and> (\<forall>j < length vals. vals' ! j = (if b \<le> j \<and> j < e then xs ! j else vals ! j))"
proof -
  let ?act = "filter (\<lambda>i. lane_lo n k b i < lane_hi n k e i) [0..<k]"
  have a: "rf_active_lanes env k n (length vals) b e = Inr ?act"
    using assms by (intro rf_active_lanes_eq) auto
  have n: "n \<le> 2 ^ 24"
    using validate_count_bound[OF assms(1)] by simp
  show ?thesis
  proof (cases "k = 1")
    case True
    then obtain f where f: "fds = [f]"
      using assms(9) by (auto simp: length_Suc_conv)
    have "lane_lo n 1 b 0 = b" "lane_hi n 1 e 0 = e"
      using lane_bound_ends[of 1 n] n assms(5) by (auto simp: lane_lo_def lane_hi_def)
    then have "f = wire (vslice b e xs) @ t 0"
      using assms(10) f True by simp
    moreover have "list_all ok (vslice b e xs)"
      using assms(7) set_vslice_subset by (fastforce simp: list_all_iff)
    ultimately have "recv_list dec (e - b) f = Inr (vslice b e xs, t 0)"
      using assms(5,6) by (simp add: recv_list_iff)
    then have "recv_ct_lanes_range env dec fds vals n b e = Inr (put_vec b (vslice b e xs) vals, map t [0..<k])"
      using a True by (simp add: recv_ct_lanes_range_def f)
    moreover have "length (vslice b e xs) = e - b" "b + (e - b) \<le> length vals"
      using assms by simp_all
    ultimately show ?thesis
      using assms by (auto simp: nth_put_vec nth_vslice)
  next
    case False
    have "\<exists>vals' fds'. fold_r (recv_lane env dec n b e) ?act (vals, fds) = Inr (vals', fds')
      \<and> length vals' = length vals \<and> length fds' = k
      \<and> (\<forall>j < length vals. vals' ! j =
         (if \<exists>i \<in> set ?act. lane_lo n k b i \<le> j \<and> j < lane_hi n k e i then xs ! j else vals ! j))
      \<and> (\<forall>i < k. fds' ! i = (if i \<in> set ?act then t i else fds ! i))"
      by (rule fold_recv_lane_wire[OF assms(1,3,5,6,7) _ _ assms(9,8)]) (simp_all add: assms(10))
    then obtain vals' fds' where r: "fold_r (recv_lane env dec n b e) ?act (vals, fds) = Inr (vals', fds')"
      "length vals' = length vals" "length fds' = k"
      "\<forall>j < length vals. vals' ! j =
         (if \<exists>i \<in> set ?act. lane_lo n k b i \<le> j \<and> j < lane_hi n k e i then xs ! j else vals ! j)"
      "\<forall>i < k. fds' ! i = (if i \<in> set ?act then t i else fds ! i)"
      by blast
    have "fds' = map t [0..<k]"
      using r(3,5) assms(10) by (intro nth_equalityI) (auto simp: not_less)
    moreover have "(\<exists>i \<in> set ?act. lane_lo n k b i \<le> j \<and> j < lane_hi n k e i) \<longleftrightarrow> b \<le> j \<and> j < e" for j
    proof
      assume "b \<le> j \<and> j < e"
      then obtain i where "i < k" "lane_bound n k i \<le> j" "j < lane_bound n k (Suc i)"
        using lane_exists[OF assms(2,3) n, of j] assms(5) by auto
      then show "\<exists>i \<in> set ?act. lane_lo n k b i \<le> j \<and> j < lane_hi n k e i"
        using \<open>b \<le> j \<and> j < e\<close> by (auto simp: lane_lo_def lane_hi_def intro!: bexI[of _ i])
    qed (auto simp: lane_lo_def lane_hi_def)
    ultimately show ?thesis
      using a False r assms(9) by (auto simp: recv_ct_lanes_range_def)
  qed
qed

lemma send_phase_put:
  assumes "cg_validate_count env (length xs) False = Inr ()" "0 < k" "k \<le> 64" "length fds = k"
    and "rf_chunk_size env = Inr c"
  shows "send_phase env put fds xs =
    Inr (map (\<lambda>i. fds ! i @ wire (vslice (lane_bound (length xs) k i) (lane_bound (length xs) k (Suc i)) xs)) [0..<k])"
proof -
  let ?n = "length xs" and ?lb = "lane_bound (length xs) k"
  let ?part = "\<lambda>b i. wire (vslice (?lb i) (min (?lb (Suc i)) b) xs)"
  let ?P = "\<lambda>b f. f = map (\<lambda>i. fds ! i @ ?part b i) [0..<k]"
  have n: "?n \<le> 2 ^ 24"
    using validate_count_bound[OF assms(1)] by simp
  have "?P 0 fds"
    using assms(4) by (intro nth_equalityI) auto
  moreover have "\<exists>f'. send_ct_lanes_range env put f xs ?n b e = Inr f' \<and> ?P e f'"
    if p: "?P b f" "b < e" "e \<le> ?n" for b e f
  proof -
    have len: "length f = k"
      by (simp only: p(1) length_map length_upt)
    have "?part b i @ wire (vslice (lane_lo ?n k b i) (lane_hi ?n k e i) xs) = ?part e i" for i
      unfolding lane_lo_def lane_hi_def
      by (simp only: map_append[symmetric] concat_append[symmetric] vslice_cut less_imp_le[OF p(2)])
    then have "map (\<lambda>i. f ! i @ wire (vslice (lane_lo ?n k b i) (lane_hi ?n k e i) xs)) [0..<k] =
        map (\<lambda>i. fds ! i @ ?part e i) [0..<k]"
      by (simp add: p(1))
    then show ?thesis
      using send_ct_lanes_range_put[of env ?n f xs b e] assms(1-3) p len by auto
  qed
  ultimately have "\<exists>f'. fold_r (\<lambda>(b, e) f. send_ct_lanes_range env put f xs ?n b e) (chunk_ranges ?n c 0) fds = Inr f'
      \<and> ?P ?n f'"
    using rf_chunk_size_pos[OF assms(5)]
    by (intro fold_chunks[where P = ?P]) auto
  moreover have "min (?lb (Suc i)) ?n = ?lb (Suc i)" if "i < k" for i
    using lane_bound_le[OF assms(2,3) n] that by (simp add: min_absorb1 Suc_leI)
  ultimately show ?thesis
    using assms(5) by (auto simp: send_phase_def)
qed

lemma recv_phase_wire:
  assumes "cg_validate_count env (length xs) False = Inr ()" "0 < k" "k \<le> 64" "length fds = k"
    and "rf_chunk_size env = Inr c" "list_all ok xs" "length vals = length xs"
    and "\<forall>i < k. fds ! i = wire (vslice (lane_bound (length xs) k i) (lane_bound (length xs) k (Suc i)) xs) @ t i"
  shows "recv_phase env dec fds vals = Inr (xs, map t [0..<k])"
proof -
  let ?n = "length xs" and ?lb = "lane_bound (length xs) k"
  let ?part = "\<lambda>b i. wire (vslice (max (?lb i) b) (?lb (Suc i)) xs)"
  let ?P = "\<lambda>b (v, f). length v = ?n \<and> (\<forall>j < b. v ! j = xs ! j) \<and> f = map (\<lambda>i. ?part b i @ t i) [0..<k]"
  let ?body = "\<lambda>(b, e) (v, f). recv_ct_lanes_range env dec f v ?n b e"
  have n: "?n \<le> 2 ^ 24"
    using validate_count_bound[OF assms(1)] by simp
  have "?P 0 (vals, fds)"
    using assms(4,7,8) by (auto intro!: nth_equalityI)
  moreover have "\<exists>s'. ?body (b, e) s = Inr s' \<and> ?P e s'"
    if p: "?P b s" "b < e" "e \<le> ?n" for b e s
  proof -
    obtain v f where s: "s = (v, f)" "length v = ?n" "\<forall>j < b. v ! j = xs ! j"
        "f = map (\<lambda>i. ?part b i @ t i) [0..<k]"
      using p(1) by auto
    have "?part b i = wire (vslice (lane_lo ?n k b i) (lane_hi ?n k e i) xs) @ ?part e i" for i
      unfolding lane_lo_def lane_hi_def
      by (simp only: map_append[symmetric] concat_append[symmetric] vslice_cut2 less_imp_le[OF p(2)])
    then have "\<forall>i < k. f ! i = wire (vslice (lane_lo ?n k b i) (lane_hi ?n k e i) xs) @ (?part e i @ t i)"
      by (simp add: s(4))
    then obtain v' where "recv_ct_lanes_range env dec f v ?n b e = Inr (v', map (\<lambda>i. ?part e i @ t i) [0..<k])"
        "length v' = length v" "\<forall>j < length v. v' ! j = (if b \<le> j \<and> j < e then xs ! j else v ! j)"
      using recv_ct_lanes_range_wire[OF assms(1-3), of b e xs v f "\<lambda>i. ?part e i @ t i"] p s(2,4) assms(6)
      by auto
    then show ?thesis
      using s p(3) by auto
  qed
  ultimately have "\<exists>s'. fold_r ?body (chunk_ranges ?n c 0) (vals, fds) = Inr s' \<and> ?P ?n s'"
    using rf_chunk_size_pos[OF assms(5)] by (intro fold_chunks[where P = ?P]) auto
  then obtain v f where r: "fold_r ?body (chunk_ranges ?n c 0) (vals, fds) = Inr (v, f)"
      "length v = ?n" "\<forall>j < ?n. v ! j = xs ! j" "f = map (\<lambda>i. ?part ?n i @ t i) [0..<k]"
    by auto
  have "vslice (max (?lb i) ?n) (?lb (Suc i)) xs = []" if "i < k" for i
    using lane_bound_le[OF assms(2,3) n, of "Suc i"] that by (intro vslice_empty) simp
  then have "f = map t [0..<k]"
    unfolding r(4) by (intro map_cong) auto
  moreover have "v = xs"
    using r(2,3) by (intro nth_equalityI) auto
  ultimately show ?thesis
    using r(1) assms(5,7) by (simp add: recv_phase_def)
qed

text \<open>
  A whole round: whatever chunk sizes the two endpoints run with, the receiver ends with the
  sender's vector and the lanes are empty again.
\<close>

lemma phase_roundtrip:
  assumes "cg_validate_count env (length xs) False = Inr ()" "cg_validate_count env' (length xs) False = Inr ()"
    and "0 < k" "k \<le> 64" "rf_chunk_size env = Inr c" "rf_chunk_size env' = Inr c'"
    and "list_all ok xs" "length vals = length xs"
  shows "bind_r (send_phase env put (replicate k []) xs) (\<lambda>fds. recv_phase env' dec fds vals)
    = Inr (xs, replicate k [])"
proof -
  have "recv_phase env' dec
     (map (\<lambda>i. replicate k [] ! i @ wire (vslice (lane_bound (length xs) k i) (lane_bound (length xs) k (Suc i)) xs)) [0..<k])
     vals = Inr (xs, map (\<lambda>_. []) [0..<k])"
    by (rule recv_phase_wire[OF assms(2,3,4) _ assms(6,7,8)]) simp_all
  then show ?thesis
    using send_phase_put[OF assms(1,3,4) _ assms(5)] by (simp add: map_replicate_const)
qed

end

subsection \<open>Senders that may refuse a value\<close>

text \<open>
  \<open>send_ct\<close> throws on an oversized integer. Whenever a sender that returns agrees with another
  one, so do the vector operations built on it.
\<close>

lemma map_r_mono:
  assumes "map_r f xs = Inr ys" "\<forall>x \<in> set xs. \<forall>y. f x = Inr y \<longrightarrow> g x = Inr y"
  shows "map_r g xs = Inr ys"
  using assms
proof (induction xs arbitrary: ys)
  case (Cons x xs)
  then show ?case by (auto simp: bind_r_Inr_iff)
qed simp

lemma fold_r_mono:
  assumes "fold_r f xs s = Inr t" "\<forall>x \<in> set xs. \<forall>s t. f x s = Inr t \<longrightarrow> g x s = Inr t"
  shows "fold_r g xs s = Inr t"
  using assms
proof (induction xs arbitrary: s)
  case (Cons x xs)
  then show ?case by (auto simp: bind_r_Inr_iff)
qed simp

lemma send_list_mono:
  assumes "send_list f xs = Inr bs" "\<forall>x \<in> set xs. \<forall>y. f x = Inr y \<longrightarrow> g x = Inr y"
  shows "send_list g xs = Inr bs"
  using assms by (auto simp: send_list_def bind_r_Inr_iff dest: map_r_mono)

lemma send_ct_lanes_range_mono:
  assumes "send_ct_lanes_range env f fds xs n b e = Inr r" "\<forall>x \<in> set xs. \<forall>y. f x = Inr y \<longrightarrow> g x = Inr y"
  shows "send_ct_lanes_range env g fds xs n b e = Inr r"
proof -
  have sl: "send_list f (vslice l h xs) = Inr bs \<Longrightarrow> send_list g (vslice l h xs) = Inr bs" for l h bs
    using assms(2) set_vslice_subset[of l h xs] by (blast intro: send_list_mono)
  have "send_lane env f xs n b e i fd = Inr t \<Longrightarrow> send_lane env g xs n b e i fd = Inr t" for i fd t
    by (auto simp: send_lane_def bind_r_Inr_iff dest: sl)
  then have "fold_r (send_lane env f xs n b e) ls fds = Inr r \<Longrightarrow> fold_r (send_lane env g xs n b e) ls fds = Inr r" for ls
    by (blast intro: fold_r_mono)
  then show ?thesis
    using assms(1) by (auto simp: send_ct_lanes_range_def bind_r_Inr_iff dest: sl split: if_splits)
qed

lemma send_phase_mono:
  assumes "send_phase env f fds xs = Inr r" "\<forall>x \<in> set xs. \<forall>y. f x = Inr y \<longrightarrow> g x = Inr y"
  shows "send_phase env g fds xs = Inr r"
proof -
  obtain c where c: "rf_chunk_size env = Inr c"
     "fold_r (\<lambda>(b, e) fds. send_ct_lanes_range env f fds xs (length xs) b e) (chunk_ranges (length xs) c 0) fds = Inr r"
    using assms(1) by (auto simp: send_phase_def bind_r_Inr_iff)
  have "fold_r (\<lambda>(b, e) fds. send_ct_lanes_range env g fds xs (length xs) b e) (chunk_ranges (length xs) c 0) fds = Inr r"
    using c(2) by (rule fold_r_mono) (auto intro: send_ct_lanes_range_mono[OF _ assms(2)])
  then show ?thesis
    by (simp add: send_phase_def c(1))
qed

lemma send_phase_needs:
  assumes "send_phase env f fds xs = Inr r" "xs \<noteq> []"
  shows "cg_validate_count env (length xs) False = Inr () \<and> 0 < length fds \<and> length fds \<le> 64
    \<and> (\<exists>c. rf_chunk_size env = Inr c)"
proof -
  obtain c where c: "rf_chunk_size env = Inr c"
    using assms(1) by (auto simp: send_phase_def bind_r_Inr_iff)
  have "chunk_ranges (length xs) c 0 = (0, min (length xs) c) # chunk_ranges (length xs) c c"
    using assms(2) rf_chunk_size_pos[OF c] by (subst chunk_ranges.simps) simp
  then obtain t where "send_ct_lanes_range env f fds xs (length xs) 0 (min (length xs) c) = Inr t"
    using assms(1) c by (auto simp: send_phase_def bind_r_Inr_iff)
  then obtain ls where "rf_active_lanes env (length fds) (length xs) (length xs) 0 (min (length xs) c) = Inr ls"
    by (auto simp: send_ct_lanes_range_def bind_r_Inr_iff)
  then show ?thesis
    using c by (auto dest: rf_active_lanes_Inr)
qed

text \<open>A round of ciphertexts over the wire format of \<open>CG_Wire\<close>.\<close>

lemma ct_phase_roundtrip:
  assumes "send_phase env (send_ct env) (replicate k []) cts = Inr fds" "cts \<noteq> []"
    and "\<forall>ct \<in> set cts. qfi_valid (fst ct) \<and> qfi_valid (snd ct) \<and> ct_ok env' ct"
    and "cg_validate_count env' (length cts) False = Inr ()" "rf_chunk_size env' = Inr c'"
    and "length vals = length cts"
  shows "recv_phase env' (recv_ct env') fds vals = Inr (cts, replicate k [])"
proof -
  have s: "send_phase env ct.put (replicate k []) cts = Inr fds"
    using assms(1,3) send_ct_Inr by (intro send_phase_mono[OF assms(1)]) blast
  obtain c where n: "cg_validate_count env (length cts) False = Inr ()" "0 < k" "k \<le> 64" "rf_chunk_size env = Inr c"
    using send_phase_needs[OF assms(1,2)] by auto
  have "bind_r (send_phase env ct.put (replicate k []) cts) (\<lambda>fds. recv_phase env' (recv_ct env') fds vals)
      = Inr (cts, replicate k [])"
    by (rule ct.phase_roundtrip[OF n(1) assms(4) n(2-4) assms(5) _ assms(6)]) (simp add: assms(3) list_all_iff)
  then show ?thesis
    by (simp add: s)
qed

subsection \<open>The handshake\<close>

definition filled :: "'a option list \<Rightarrow> nat" where
  "filled fds = length (filter (\<lambda>x. x \<noteq> None) fds)"

lemma filled_update: "i < length fds \<Longrightarrow> fds ! i = None \<Longrightarrow> filled (fds[i := Some s]) = Suc (filled fds)"
proof (induction fds arbitrary: i)
  case (Cons x xs)
  then show ?case by (cases i) (auto simp: filled_def)
qed simp

lemma filled_full: "filled fds = length fds \<Longrightarrow> i < length fds \<Longrightarrow> fds ! i \<noteq> None"
proof
  assume a: "filled fds = length fds" "i < length fds" "fds ! i = None"
  then have "\<not> (fds ! i \<noteq> None)" "fds ! i \<in> set fds"
    by (simp, metis nth_mem)
  then have "length (filter (\<lambda>x. x \<noteq> None) fds) < length fds"
    by (intro length_filter_less[where x = "fds ! i"])
  with a(1) show False
    by (simp only: filled_def)
qed

lemma accept_lane_Inr:
  assumes "accept_lane env d k n conn fds = Inr fds'" "length fds = k"
  shows "\<exists>lane s s'. recv_u64 conn = Inr (lane, s) \<and> unat lane < k \<and> fds ! unat lane = None
    \<and> fds' = fds[unat lane := Some s']"
  using assms by (auto simp: accept_lane_def bind_r_Inr_iff split: if_splits)

lemma accept_fold_filled:
  assumes "fold_r (accept_lane env d k n) conns fds = Inr fds'" "length fds = k"
  shows "length fds' = k \<and> filled fds' = filled fds + length conns"
  using assms
proof (induction conns arbitrary: fds)
  case (Cons c conns)
  from Cons.prems(1) obtain f where f: "accept_lane env d k n c fds = Inr f" "fold_r (accept_lane env d k n) conns f = Inr fds'"
    by (auto simp: bind_r_Inr_iff)
  then obtain lane s' where "unat (lane :: 64 word) < k" "fds ! unat lane = None" "f = fds[unat lane := Some s']"
    using accept_lane_Inr[OF f(1) Cons.prems(2)] by auto
  then show ?case
    using Cons.IH[OF f(2)] Cons.prems(2) filled_update[of "unat lane" fds s'] by simp
qed simp

lemma accept_rf_lanes_full:
  assumes "accept_rf_lanes env d conns k n = Some (Inr fds)"
  shows "length fds = k \<and> (\<forall>i < k. fds ! i \<noteq> None)"
proof -
  have f: "fold_r (accept_lane env d k n) (take k conns) (replicate k None) = Inr fds" "k \<le> length conns"
    using assms by (auto simp: accept_rf_lanes_def bind_r_Inr_iff split: sum.splits if_splits)
  then show ?thesis
    using accept_fold_filled[OF f(1)] filled_full[of fds] by (auto simp: filled_def)
qed

lemma check_own_metadata:
  assumes "send_rf_metadata env d k n = Inr m" "length d = 32" "k \<le> 64" "n \<le> 2 ^ 24"
  shows "check_rf_metadata env d k n (m @ s) = Inr s"
proof -
  obtain c where c: "rf_chunk_size env = Inr c" "m = send_u32 0x43470002 @ send_u64 (word_of_nat k)
      @ send_u64 (word_of_nat n) @ send_u64 (word_of_nat c) @ d"
    using assms(1) by (auto simp: send_rf_metadata_def bind_r_Inr_iff)
  have "c < 2 ^ 64"
    using c(1) by (auto simp: rf_chunk_size_def cg_config_size_def size_limit_def dest!: cg_parse_size_Inr split: option.splits)
  then have u: "unat (word_of_nat k :: 64 word) = k" "unat (word_of_nat n :: 64 word) = n"
      "unat (word_of_nat c :: 64 word) = c"
    using assms(3,4) by (simp_all add: unat_of_nat)
  have r: "recv_u32 (send_u32 v @ t) = Inr (v, t)" "recv_u64 (send_u64 w @ t) = Inr (w, t)"
      "recv_bytes 32 (d @ t) = Inr (d, t)" for v w t
    using assms(2) by (simp_all add: recv_u32_iff recv_u64_iff recv_bytes_Inr)
  show ?thesis
    by (simp only: check_rf_metadata_def c append.assoc r bind_r_simps prod.case u Let_def) simp
qed

lemma accept_connected_lane:
  assumes "connect_lane env d k n i = Inr conn" "i < k" "k \<le> 64" "n \<le> 2 ^ 24" "length d = 32"
    and "length fds = k" "fds ! i = None"
  shows "accept_lane env d k n (conn @ p) fds = Inr (fds[i := Some p])"
proof -
  have u: "unat (word_of_nat i :: 64 word) = i"
    using assms(2,3) by (simp add: unat_of_nat)
  obtain m where m: "conn = send_u64 (word_of_nat i) @ m"
      "(if validate_lane_metadata env then send_rf_metadata env d k n else Inr []) = Inr m"
    using assms(1) by (auto simp: connect_lane_def bind_r_Inr_iff)
  have r: "recv_u64 (conn @ p) = Inr (word_of_nat i, m @ p)"
    by (simp add: m(1) recv_u64_iff)
  have "(if validate_lane_metadata env then check_rf_metadata env d k n (m @ p) else Inr (m @ p)) = Inr p"
    using m(2) check_own_metadata[OF _ assms(5,3,4)] by (auto split: if_splits)
  then show ?thesis
    using assms(2,7) by (simp add: accept_lane_def r u)
qed

text \<open>The lanes of \<open>connect_rf_lanes\<close> may reach the listener in any order.\<close>

lemma accept_fold_any_order:
  assumes "\<forall>i \<in> set ord. connect_lane env d k n i = Inr (conns i)" "k \<le> 64" "n \<le> 2 ^ 24" "length d = 32"
    and "distinct ord" "\<forall>i \<in> set ord. i < k" "length fds = k" "\<forall>i \<in> set ord. fds ! i = None"
  shows "\<exists>fds'. fold_r (accept_lane env d k n) (map (\<lambda>i. conns i @ p i) ord) fds = Inr fds' \<and> length fds' = k
    \<and> (\<forall>i < k. fds' ! i = (if i \<in> set ord then Some (p i) else fds ! i))"
  using assms(1,5-8)
proof (induction ord arbitrary: fds)
  case (Cons j ord)
  let ?f = "fds[j := Some (p j)]"
  have "accept_lane env d k n (conns j @ p j) fds = Inr ?f"
    using Cons.prems assms(2-4) by (intro accept_connected_lane) auto
  moreover have "\<exists>fds'. fold_r (accept_lane env d k n) (map (\<lambda>i. conns i @ p i) ord) ?f = Inr fds' \<and> length fds' = k
    \<and> (\<forall>i < k. fds' ! i = (if i \<in> set ord then Some (p i) else ?f ! i))"
    using Cons.prems by (intro Cons.IH) (auto simp: nth_list_update)
  ultimately show ?case
    using Cons.prems(3,4) by (auto simp: nth_list_update)
qed simp

lemma accept_any_order:
  assumes "connect_rf_lanes env d k n = Inr conns" "k \<le> 64" "length d = 32"
    and "distinct ord" "set ord = {..<k}"
  shows "accept_rf_lanes env d (map (\<lambda>i. conns ! i @ p i) ord) k n = Some (Inr (map (\<lambda>i. Some (p i)) [0..<k]))"
proof -
  have v: "cg_validate_count env n False = Inr ()" "map_r (connect_lane env d k n) [0..<k] = Inr conns"
    using assms(1) by (auto simp: connect_rf_lanes_def bind_r_Inr_iff)
  have c: "\<forall>i \<in> set ord. connect_lane env d k n i = Inr (conns ! i)"
    using map_r_InrD[OF v(2)] assms(5) by auto
  have "card (set ord) = k"
    by (simp add: assms(5))
  then have len: "length ord = k"
    using assms(4) by (simp add: distinct_card)
  obtain fds' where f: "fold_r (accept_lane env d k n) (map (\<lambda>i. conns ! i @ p i) ord) (replicate k None) = Inr fds'"
      "length fds' = k" "\<forall>i < k. fds' ! i = Some (p i)"
    using accept_fold_any_order[OF c assms(2) _ assms(3,4), of "replicate k None" p] validate_count_bound[OF v(1)] assms(5)
    by auto
  then have "fds' = map (\<lambda>i. Some (p i)) [0..<k]"
    by (intro nth_equalityI) auto
  then show ?thesis
    using f(1) v(1) len by (simp add: accept_rf_lanes_def)
qed

text \<open>The answer of a side with the same configuration: one greeting \<open>g\<close> on every lane.\<close>

definition greets :: "env \<Rightarrow> byte list \<Rightarrow> nat \<Rightarrow> nat \<Rightarrow> byte list \<Rightarrow> bool" where
  "greets env d k n g \<longleftrightarrow> accepted_tx env d k n = Inr (map (\<lambda>_. g) [0..<k]) \<and>
     (\<forall>q. check_replies env d k n (map (\<lambda>i. g @ q i) [0..<k]) = Inr (map q [0..<k]))"

lemma greetsD:
  assumes "greets env d k n g"
  shows "accepted_tx env d k n = Inr (map (\<lambda>_. g) [0..<k])"
    and "check_replies env d k n (map (\<lambda>i. g @ q i) [0..<k]) = Inr (map q [0..<k])"
  using assms by (simp_all add: greets_def)

lemma lane_greeting:
  assumes "connect_rf_lanes env d k n = Inr conns" "0 < k" "k \<le> 64" "length d = 32"
  obtains g where "greets env d k n g"
proof -
  have v: "cg_validate_count env n False = Inr ()" "map_r (connect_lane env d k n) [0..<k] = Inr conns"
    using assms(1) by (auto simp: connect_rf_lanes_def bind_r_Inr_iff)
  obtain c where "connect_lane env d k n 0 = Inr c"
    using map_r_InrD[OF v(2)] assms(2) by auto
  then obtain g where g: "(if validate_lane_metadata env then send_rf_metadata env d k n else Inr []) = Inr g"
    by (auto simp: connect_lane_def bind_r_Inr_iff)
  have "(if validate_lane_metadata env then check_rf_metadata env d k n (g @ s) else Inr (g @ s)) = Inr s" for s
    using g check_own_metadata[OF _ assms(4,3)] validate_count_bound[OF v(1)] by (auto split: if_splits)
  then have "check_replies env d k n (map (\<lambda>i. g @ q i) xs) = Inr (map q xs)" for q xs
    unfolding check_replies_def by (induction xs) simp_all
  moreover have "accepted_tx env d k n = Inr (map (\<lambda>_. g) [0..<k])"
    unfolding accepted_tx_def g by (rule map_r_Inr_all) simp
  ultimately have "greets env d k n g"
    unfolding greets_def by blast
  then show thesis
    by (rule that)
qed

subsection \<open>Properties\<close>

text \<open>
  C20: A round of ciphertexts over the parallel lanes. If each ciphertext fits the size limits of
  both endpoints, the sending loop returns, and the receiving loop, run with its own chunk size,
  returns exactly the vector that was sent and leaves every lane empty: sharding, chunking and
  the wire format lose and reorder nothing.
\<close>

theorem lanes_deliver_ciphertexts:
  assumes "\<forall>ct \<in> set cts. qfi_valid (fst ct) \<and> qfi_valid (snd ct) \<and> (\<exists>bs. send_ct env ct = Inr bs) \<and> ct_ok env' ct"
    and "cg_validate_count env (length cts) False = Inr ()" "cg_validate_count env' (length cts) False = Inr ()"
    and "0 < k" "k \<le> 64" "rf_chunk_size env = Inr c" "rf_chunk_size env' = Inr c'"
    and "length vals = length cts"
  shows "bind_r (send_phase env (send_ct env) (replicate k []) cts) (\<lambda>fds. recv_phase env' (recv_ct env') fds vals)
    = Inr (cts, replicate k [])"
proof -
  have ne: "cts \<noteq> []"
    using validate_count_bound[OF assms(2)] by auto
  have "\<forall>ct \<in> set cts. \<forall>y. ct.put ct = Inr y \<longrightarrow> send_ct env ct = Inr y"
    using assms(1) by (force dest: send_ct_Inr)
  then obtain fds where f: "send_phase env (send_ct env) (replicate k []) cts = Inr fds"
    using send_phase_mono[OF ct.send_phase_put[OF assms(2,4,5) _ assms(6), of "replicate k []"]] by auto
  then show ?thesis
    using ct_phase_roundtrip[OF f ne _ assms(3,7,8)] assms(1) by simp
qed

lemma bit_length_le: "n < 2 ^ k \<Longrightarrow> bit_length n \<le> k"
proof (induction k arbitrary: n)
  case 0
  then show ?case by (simp add: bit_length.simps)
next
  case (Suc k)
  then have "bit_length (n div 2) \<le> k"
    by (intro Suc.IH) (simp add: less_mult_imp_div_less mult.commute)
  then show ?case
    by (subst bit_length.simps) simp
qed

lemma mpz_sendable:
  assumes "mpz_limit env = Inr limit" "\<bar>m\<bar> < 256 ^ k" "k < limit"
  shows "send_mpz env m = Inr (mpz_bytes m)" "mpz_ok env m"
proof -
  have "nat \<bar>m\<bar> < 2 ^ (8 * k)"
    using assms(2) by (simp add: power_mult nat_less_iff)
  then have "mpz_sizeinbase2 m \<le> max 1 (8 * k)"
    using bit_length_le by (auto simp: mpz_sizeinbase2_def le_max_iff_disj)
  then have "mpz_sizeinbase2 m div 8 \<le> max 1 (8 * k) div 8"
    by (rule div_le_mono)
  also have "\<dots> \<le> k"
    by (cases k) (auto simp: max_def)
  finally show "send_mpz env m = Inr (mpz_bytes m)"
    using assms(1,3) by (simp add: send_mpz_def)
  then show "mpz_ok env m"
    by (rule send_mpz_ok[THEN conjunct2])
qed

lemma mpz_limit_default: "env ''CG_MAX_MPZ_BYTES'' = None \<Longrightarrow> mpz_limit env = Inr 16384"
  by (simp add: mpz_limit_def cg_config_size_def)

lemma ct_small_sendable:
  assumes "mpz_limit env = Inr 16384" "\<forall>f \<in> {fst ct, snd ct}. \<forall>m \<in> {qa f, qb f, qc f}. \<bar>m\<bar> < 256"
    and "qfi_valid (fst ct)" "qfi_valid (snd ct)"
  shows "(\<exists>bs. send_ct env ct = Inr bs) \<and> ct_ok env ct"
proof -
  have "\<forall>f \<in> {fst ct, snd ct}. \<forall>m \<in> {qa f, qb f, qc f}. send_mpz env m = Inr (mpz_bytes m) \<and> mpz_ok env m"
    using mpz_sendable[OF assms(1), of _ 1] assms(2) by simp
  then show ?thesis
    using assms(3,4) by (simp add: send_ct_def send_qfi_def ct_ok_def qfi_ok_def)
qed

definition demo_cts :: "(qfi \<times> qfi) list" where
  "demo_cts = [(\<lparr>qa = 1, qb = 1, qc = 6\<rparr>, \<lparr>qa = 2, qb = 1, qc = 3\<rparr>),
               (\<lparr>qa = 2, qb = - 1, qc = 3\<rparr>, \<lparr>qa = 1, qb = 1, qc = 6\<rparr>),
               (\<lparr>qa = 2, qb = 1, qc = 3\<rparr>, \<lparr>qa = 2, qb = - 1, qc = 3\<rparr>)]"

definition demo_env :: env where
  "demo_env name = (if name = ''CG_RF_CHUNK_SIZE'' then Some ''2'' else None)"

lemma demo_cts_valid:
  "\<forall>ct \<in> set demo_cts. qfi_valid (fst ct) \<and> qfi_valid (snd ct) \<and> (\<exists>bs. send_ct demo_env ct = Inr bs)
    \<and> ct_ok (\<lambda>_. None) ct"
proof -
  have v: "qfi_valid \<lparr>qa = 1, qb = 1, qc = 6\<rparr>" "qfi_valid \<lparr>qa = 2, qb = 1, qc = 3\<rparr>"
      "qfi_valid \<lparr>qa = 2, qb = - 1, qc = 3\<rparr>"
    by (simp_all add: qfi_valid_def make_qfi_def)
  have l: "mpz_limit demo_env = Inr 16384" "mpz_limit (\<lambda>_. None) = Inr 16384"
    by (simp_all add: mpz_limit_default demo_env_def)
  show ?thesis
    using ct_small_sendable[OF l(1)] ct_small_sendable[OF l(2)] v by (simp add: demo_cts_def)
qed

lemma demo_env_chunk: "rf_chunk_size demo_env = Inr 2"
proof -
  have "cg_parse_u64 (Some ''2'') ''CG_RF_CHUNK_SIZE'' 10 = Inr 2"
    by (subst cg_parse_u64_decimal) (simp add: is_digit_def digit_value_def size_limit_def)
  then show ?thesis
    by (simp add: rf_chunk_size_def cg_config_size_def demo_env_def env_value_def cg_parse_size_def
        cg_max_items_def size_limit_def)
qed

lemma lanes_deliver_ciphertexts_witness:
  "bind_r (send_phase demo_env (send_ct demo_env) (replicate 2 []) demo_cts)
     (\<lambda>fds. recv_phase (\<lambda>_. None) (recv_ct (\<lambda>_. None)) fds (rev demo_cts)) = Inr (demo_cts, replicate 2 [])"
  by (rule lanes_deliver_ciphertexts[OF demo_cts_valid _ _ _ _ demo_env_chunk])
    (simp_all add: demo_cts_def demo_env_def cg_validate_count_def cg_max_items_def rf_chunk_size_def
      cg_config_size_def env_value_def)

text \<open>
  C31: The lane ranges both endpoints compute from the count and the number of lanes partition
  the vector: every index belongs to the range of exactly one lane.
\<close>

theorem lane_ranges_partition:
  assumes "cg_validate_count env n False = Inr ()" "0 < k" "k \<le> 64" "j < n"
  shows "\<exists>!i. \<exists>l r. rf_lane_range env n k i = Inr (l, r) \<and> l \<le> j \<and> j < r"
proof -
  have n: "n \<le> 2 ^ 24"
    using validate_count_bound[OF assms(1)] by simp
  obtain i where "i < k" "lane_bound n k i \<le> j" "j < lane_bound n k (Suc i)"
    using lane_exists[OF assms(2,3) n assms(4)] by auto
  then have i: "\<exists>l r. rf_lane_range env n k i = Inr (l, r) \<and> l \<le> j \<and> j < r"
    using rf_lane_range_eq[OF assms(1-3)] by blast
  show ?thesis
  proof (rule ex1I[of _ i])
    fix i' assume "\<exists>l r. rf_lane_range env n k i' = Inr (l, r) \<and> l \<le> j \<and> j < r"
    then show "i' = i"
      using lane_unique[OF assms(2,3) n] i by (auto dest!: rf_lane_range_Inr)
  qed (fact i)
qed

lemma lane_ranges_partition_witness:
  "\<exists>!i. \<exists>l r. rf_lane_range (\<lambda>_. None) 10 3 i = Inr (l, r) \<and> l \<le> 6 \<and> 6 < r"
  by (rule lane_ranges_partition) (simp_all add: cg_validate_count_def)

text \<open>
  The lane handshake does not depend on the order in which the connections reach the
  listener: each connection lands in the slot of the lane that opened it, with the bytes that
  follow the handshake still unread.
\<close>

theorem lanes_accepted_in_any_order:
  assumes "connect_rf_lanes env d k n = Inr conns" "k \<le> 64" "length d = 32"
    and "distinct ord" "set ord = {..<k}"
  shows "accept_rf_lanes env d (map (\<lambda>i. conns ! i @ p i) ord) k n = Some (Inr (map (\<lambda>i. Some (p i)) [0..<k]))"
  by (rule accept_any_order[OF assms])

definition check_env :: env where
  "check_env name = (if name = ''CG_VALIDATE_LANES'' then Some ''1'' else None)"

definition demo_conns :: "byte list list" where
  "demo_conns = map (\<lambda>i. send_u64 (word_of_nat i) @ send_u32 0x43470002 @ send_u64 3 @ send_u64 5 @ send_u64 64
     @ replicate 32 7) [0..<3]"

lemma demo_connect: "connect_rf_lanes check_env (replicate 32 7) 3 5 = Inr demo_conns"
  by (simp add: connect_rf_lanes_def connect_lane_def cg_validate_count_def cg_max_items_def check_env_def
      env_value_def validate_lane_metadata_def send_rf_metadata_def rf_chunk_size_def cg_config_size_def
      demo_conns_def upt_rec)

lemma lanes_accepted_in_any_order_witness:
  "accept_rf_lanes check_env (replicate 32 7) (map (\<lambda>i. demo_conns ! i @ [word_of_nat i]) [2, 0, 1]) 3 5
   = Some (Inr (map (\<lambda>i. Some [word_of_nat i]) [0..<3]))"
  by (rule lanes_accepted_in_any_order[OF demo_connect]) auto

text \<open>
  A handshake that completes leaves no lane without a connection: the listener counts
  connections, and a duplicate or out-of-range lane id is refused before it is counted.
\<close>

theorem accepted_lanes_complete:
  assumes "accept_rf_lanes env d conns k n = Some (Inr fds)"
  shows "length fds = k \<and> None \<notin> set fds"
  using accept_rf_lanes_full[OF assms] by (metis in_set_conv_nth)

lemma accepted_lanes_complete_witness:
  "length [Some [], Some [9 :: byte]] = 2 \<and> None \<notin> set [Some [], Some [9 :: byte]]"
proof -
  have "recv_u64 (send_u64 w @ t) = Inr (w, t)" "recv_u64 (send_u64 w) = Inr (w, [])" for w t
    by (simp_all add: recv_u64_iff)
  then have "accept_rf_lanes (\<lambda>_. None) [] [send_u64 1 @ [9], send_u64 0] (Suc (Suc 0)) 4 = Some (Inr [Some [], Some [9]])"
    by (simp add: accept_rf_lanes_def accept_lane_def cg_validate_count_def validate_lane_metadata_def)
  then show ?thesis
    by (metis accepted_lanes_complete numeral_2_eq_2)
qed

end
