(* ===== verification/CG_Mpz.thy ===== *)
theory CG_Mpz
  imports CG_Config "HOL-Library.Word"
begin

text \<open>
  The integer layer: \<^verbatim>\<open>BICYCL::Mpz\<close> values are HOL integers, \<^verbatim>\<open>Mpz::mod\<close> (\<^verbatim>\<open>mpz_mod\<close>, non-negative
  for a positive modulus) is \<open>mod\<close>, and the two operations of GMP that HOL does not have as a
  primitive, modular inverse and modular power, are executable functions here. The size
  helpers of \<^verbatim>\<open>cg_rf_common.hpp\<close> that decide between the transforms follow.
\<close>

subsection \<open>Modular inverse\<close>

text \<open>The extended Euclidean algorithm; the second component is the cofactor of \<open>a\<close>.\<close>

fun egcd :: "nat \<Rightarrow> nat \<Rightarrow> nat \<times> int \<times> int" where
  "egcd a b = (if b = 0 then (a, 1, 0)
     else (case egcd b (a mod b) of (g, s, t) \<Rightarrow> (g, t, s - int (a div b) * t)))"

declare egcd.simps [simp del]

definition mod_inverse :: "int \<Rightarrow> int \<Rightarrow> int result" where
  "mod_inverse a q =
     (case egcd (nat (a mod q)) (nat q) of
        (g, s, t) \<Rightarrow> if g = 1 then Inr (s mod q) else Inl Mod_inverse_exception)"

lemma egcd_gcd: "fst (egcd a b) = gcd a b"
proof (induction a b rule: egcd.induct)
  case (1 a b)
  show ?case
  proof (cases "b = 0")
    case True
    then show ?thesis by (simp add: egcd.simps)
  next
    case False
    then show ?thesis
      using 1[OF False] False
      by (subst egcd.simps) (cases "egcd b (a mod b)", simp add: gcd_red_nat[of a b])
  qed
qed

lemma egcd_bezout: "int (fst (egcd a b)) = fst (snd (egcd a b)) * int a + snd (snd (egcd a b)) * int b"
proof (induction a b rule: egcd.induct)
  case (1 a b)
  show ?case
  proof (cases "b = 0")
    case True
    then show ?thesis by (simp add: egcd.simps)
  next
    case False
    obtain g s t where e: "egcd b (a mod b) = (g, s, t)"
      by (cases "egcd b (a mod b)") auto
    have "int a = int b * int (a div b) + int (a mod b)"
      by (metis mult_div_mod_eq of_nat_add of_nat_mult)
    then show ?thesis
      using 1[OF False] False e by (subst (1 2 3) egcd.simps) (simp add: algebra_simps)
  qed
qed

lemma mod_inverse_Inr:
  assumes "mod_inverse a q = Inr b" "1 < q"
  shows "0 \<le> b \<and> b < q \<and> (a * b) mod q = 1"
proof -
  obtain s t where e: "egcd (nat (a mod q)) (nat q) = (1, s, t)" "b = s mod q"
    using assms(1) by (auto simp: mod_inverse_def split: prod.splits if_splits)
  have "1 = s * (a mod q) + t * q"
    using egcd_bezout[of "nat (a mod q)" "nat q"] e(1) assms(2) by simp
  then have "1 mod q = (s * (a mod q) + t * q) mod q"
    by simp
  then have "1 = (s * a) mod q"
    using assms(2) by (simp add: mod_simps)
  then have "(a * b) mod q = 1"
    by (simp add: e(2) mod_simps mult.commute)
  then show ?thesis
    using e(2) assms(2) by simp
qed

lemma mod_inverse_coprime:
  assumes "1 < q" "coprime a q"
  shows "\<exists>b. mod_inverse a q = Inr b"
proof -
  have "gcd (a mod q) q = 1"
    using assms(2) by (simp add: coprime_iff_gcd_eq_1 gcd_red_int[symmetric] gcd.commute[of _ q])
  then have "int (gcd (nat (a mod q)) (nat q)) = 1"
    using assms(1) by (simp add: gcd_int_int_eq[symmetric] del: gcd_int_int_eq)
  then have "fst (egcd (nat (a mod q)) (nat q)) = 1"
    by (simp add: egcd_gcd)
  then show ?thesis
    by (auto simp: mod_inverse_def split: prod.splits)
qed

lemma mod_inverse_exists:
  assumes "1 < q" "(a * c) mod q = 1"
  shows "\<exists>b. mod_inverse a q = Inr b"
proof (rule mod_inverse_coprime[OF assms(1)])
  show "coprime a q"
  proof (rule coprimeI)
    fix d assume "d dvd a" "d dvd q"
    then have "d dvd (a * c) mod q"
      by (simp add: dvd_mod)
    then show "is_unit d"
      by (simp add: assms(2))
  qed
qed

subsection \<open>Modular power\<close>

fun powm :: "int \<Rightarrow> nat \<Rightarrow> int \<Rightarrow> int" where
  "powm b e m = (if e = 0 then 1 mod m
     else (let h = powm b (e div 2) m in
           if odd e then (h * h mod m) * b mod m else h * h mod m))"

declare powm.simps [simp del]

lemma powm_eq: "powm b e m = b ^ e mod m"
proof (induction b e m rule: powm.induct)
  case (1 b e m)
  show ?case
  proof (cases "e = 0")
    case True
    then show ?thesis by (simp add: powm.simps)
  next
    case False
    have "b ^ e = b ^ (e div 2) * b ^ (e div 2) * (if odd e then b else 1)"
      by (cases "odd e") (auto elim!: oddE evenE simp: power_add[symmetric] mult_2 power_Suc)
    then show ?thesis
      using 1[OF False] False by (subst powm.simps) (auto simp: Let_def mod_simps)
  qed
qed

subsection \<open>Powers of two\<close>

definition is_power_of_two_size :: "nat \<Rightarrow> bool" where
  "is_power_of_two_size n \<longleftrightarrow> n \<noteq> 0 \<and> and n (n - 1) = 0"

text \<open>The loop doubles \<open>p\<close> until it reaches \<open>n\<close>, and throws before the doubling would overflow.\<close>

function next_pow2_loop :: "nat \<Rightarrow> nat \<Rightarrow> nat result" where
  "next_pow2_loop n p =
     (if p < n \<and> 0 < p then
        if p > (size_limit - 1) div 2
        then Inl (Runtime_error ''next_power_of_two_size: size overflow'')
        else next_pow2_loop n (2 * p)
      else Inr p)"
  by auto
termination by (relation "measure (\<lambda>(n, p). n - p)") auto

declare next_pow2_loop.simps [simp del]

definition next_power_of_two_size :: "nat \<Rightarrow> nat result" where
  "next_power_of_two_size n = (if n \<le> 1 then Inr 1 else next_pow2_loop n 1)"

lemma and_double: "and (2 * a :: nat) (2 * b + 1) = 2 * and a b" "and (2 * a + 1 :: nat) (2 * b) = 2 * and a b"
  by (simp_all add: and_rec[of "2 * a"] and_rec[of "Suc (2 * a)"])

lemma is_power_of_two_size_iff: "is_power_of_two_size n \<longleftrightarrow> (\<exists>k. n = 2 ^ k)"
proof
  assume "is_power_of_two_size n"
  then show "\<exists>k. n = 2 ^ k"
  proof (induction n rule: less_induct)
    case (less n)
    show ?case
    proof (cases "even n")
      case True
      then obtain m where m: "n = 2 * m" by (elim evenE)
      with less.prems have "0 < m" by (simp add: is_power_of_two_size_def)
      then have "n - 1 = 2 * (m - 1) + 1" by (simp add: m)
      then have "and n (n - 1) = 2 * and m (m - 1)"
        by (simp only: m and_double)
      then have "is_power_of_two_size m"
        using less.prems \<open>0 < m\<close> by (simp add: is_power_of_two_size_def)
      then obtain k where "m = 2 ^ k" using less.IH[of m] \<open>0 < m\<close> m by auto
      then show ?thesis using m by (intro exI[of _ "Suc k"]) simp
    next
      case False
      then obtain m where m: "n = 2 * m + 1" by (elim oddE)
      then have "and n (n - 1) = 2 * and m m"
        by (simp only: add_diff_cancel_right' and_double)
      then have "m = 0"
        using less.prems by (simp add: is_power_of_two_size_def)
      then show ?thesis using m by (intro exI[of _ 0]) simp
    qed
  qed
next
  assume "\<exists>k. n = 2 ^ k"
  then obtain k where "n = 2 ^ k" ..
  moreover have "is_power_of_two_size (2 ^ k)"
  proof (induction k)
    case 0
    then show ?case by (simp add: is_power_of_two_size_def)
  next
    case (Suc k)
    have "2 ^ Suc k - 1 = 2 * (2 ^ k - 1) + (1 :: nat)"
      using one_le_power[of "2 :: nat" k] unfolding power_Suc by linarith
    then have "and (2 ^ Suc k) (2 ^ Suc k - 1) = 2 * and (2 ^ k) (2 ^ k - 1 :: nat)"
      by (simp only: power_Suc and_double)
    then show ?case
      using Suc by (simp add: is_power_of_two_size_def)
  qed
  ultimately show "is_power_of_two_size n" by simp
qed

lemma next_pow2_loop_spec:
  assumes "p = 2 ^ j" "n \<le> 2 ^ 63"
  shows "\<exists>k. next_pow2_loop n p = Inr (2 ^ k) \<and> n \<le> 2 ^ k \<and> (2 ^ k = p \<or> 2 ^ k < 2 * n)"
  using assms
proof (induction n p arbitrary: j rule: next_pow2_loop.induct)
  case (1 n p)
  show ?case
  proof (cases "p < n")
    case True
    then have p: "p < n \<and> 0 < p" "\<not> p > (size_limit - 1) div 2"
      using 1(2,3) by (simp_all add: size_limit_def)
    obtain k where k: "next_pow2_loop n (2 * p) = Inr (2 ^ k)" "n \<le> 2 ^ k" "2 ^ k = 2 * p \<or> 2 ^ k < 2 * n"
      using 1(1)[OF p, of "Suc j"] 1(2,3) by auto
    then show ?thesis
      using p by (subst next_pow2_loop.simps) auto
  next
    case False
    then show ?thesis
      using 1(2) by (subst next_pow2_loop.simps) auto
  qed
qed

lemma next_power_of_two_size_spec:
  assumes "n \<le> 2 ^ 63"
  shows "\<exists>k. next_power_of_two_size n = Inr (2 ^ k) \<and> n \<le> 2 ^ k \<and> (n \<le> 1 \<and> k = 0 \<or> 2 ^ k < 2 * n)"
proof (cases "n \<le> 1")
  case True
  then show ?thesis by (simp add: next_power_of_two_size_def exI[of _ 0])
next
  case False
  then show ?thesis
    using next_pow2_loop_spec[of 1 0 n] assms by (auto simp: next_power_of_two_size_def)
qed

end
