(* ===== verification/CG_Eval.thy ===== *)
theory CG_Eval
  imports CG_Mpz
begin

text \<open>
  The mathematics behind the polynomial routines. A coefficient vector is a list of integers,
  lowest degree first; its meaning is the function \<open>peval\<close>. Two vectors are congruent modulo
  \<open>q\<close> when they differ, as polynomials over the integers, by \<open>q\<close> times a polynomial. Since an
  integer polynomial is determined by its values, ring identities are proved by evaluation, and
  congruence is compared coefficient by coefficient where a normal form is needed.
\<close>

subsection \<open>Evaluation\<close>

primrec peval :: "int list \<Rightarrow> int \<Rightarrow> int" where
  "peval [] x = 0"
| "peval (c # cs) x = c + x * peval cs x"

text \<open>The value of a vector at a point modulo \<open>q\<close>: what every evaluator of the code is specified by.\<close>

definition pvalue :: "int list \<Rightarrow> int \<Rightarrow> int \<Rightarrow> int" where
  "pvalue p x q = peval p x mod q"

lemma pvalue_eq: "pvalue p x q = peval p x mod q"
  by (simp add: pvalue_def)

definition coef :: "int list \<Rightarrow> nat \<Rightarrow> int" where
  "coef p i = (if i < length p then p ! i else 0)"

fun padd :: "int list \<Rightarrow> int list \<Rightarrow> int list" where
  "padd [] r = r"
| "padd p [] = p"
| "padd (a # p) (b # r) = (a + b) # padd p r"

definition pscale :: "int \<Rightarrow> int list \<Rightarrow> int list" where
  "pscale c p = map (\<lambda>a. c * a) p"

primrec pmul :: "int list \<Rightarrow> int list \<Rightarrow> int list" where
  "pmul [] r = []"
| "pmul (a # p) r = padd (pscale a r) (0 # pmul p r)"

lemma peval_padd [simp]: "peval (padd p r) x = peval p x + peval r x"
  by (induction p r rule: padd.induct) (auto simp: algebra_simps)

lemma peval_pscale [simp]: "peval (pscale c p) x = c * peval p x"
  by (induction p) (auto simp: pscale_def algebra_simps)

lemma peval_pmul [simp]: "peval (pmul p r) x = peval p x * peval r x"
  by (induction p) (auto simp: algebra_simps)

lemma peval_append: "peval (p @ r) x = peval p x + x ^ length p * peval r x"
  by (induction p) (auto simp: algebra_simps)

lemma peval_replicate0 [simp]: "peval (replicate n 0) x = 0"
  by (induction n) auto

lemma peval_all0: "list_all (\<lambda>c. c = 0) p \<Longrightarrow> peval p x = 0"
  by (induction p) auto

lemma length_padd [simp]: "length (padd p r) = max (length p) (length r)"
  by (induction p r rule: padd.induct) auto

lemma coef_Nil [simp]: "coef [] i = 0"
  by (simp add: coef_def)

lemma coef_Cons: "coef (c # p) i = (case i of 0 \<Rightarrow> c | Suc j \<Rightarrow> coef p j)"
  by (auto simp: coef_def split: nat.splits)

lemma coef_padd: "coef (padd p r) i = coef p i + coef r i"
  by (induction p r arbitrary: i rule: padd.induct) (auto simp: coef_Cons split: nat.splits)

lemma coef_pscale: "coef (pscale c p) i = c * coef p i"
  by (auto simp: coef_def pscale_def)

lemma peval_eq_sum: "peval p x = (\<Sum>i < length p. p ! i * x ^ i)"
proof (induction p)
  case (Cons c p)
  have "(\<Sum>i < length (c # p). (c # p) ! i * x ^ i) = c + (\<Sum>i < length p. p ! i * x ^ Suc i)"
    by (simp only: length_Cons sum.lessThan_Suc_shift) simp
  also have "(\<Sum>i < length p. p ! i * x ^ Suc i) = x * (\<Sum>i < length p. p ! i * x ^ i)"
    by (simp add: sum_distrib_left algebra_simps)
  finally show ?case
    using Cons by simp
qed simp

lemma peval_mod_cong: "x mod q = y mod q \<Longrightarrow> peval p x mod q = peval p y mod q"
  by (induction p) (auto intro!: mod_cong_add mod_cong_mult)

subsection \<open>Values determine an integer polynomial\<close>

lemma peval_zero_imp:
  assumes "\<And>x. x \<ge> m \<Longrightarrow> peval p x = 0"
  shows "list_all (\<lambda>c. c = 0) p"
  using assms
proof (induction p arbitrary: m)
  case (Cons c p)
  define x where "x = max m (\<bar>c\<bar> + 1)"
  have "c + x * peval p x = 0"
    using Cons.prems[of x] by (simp add: x_def)
  then have "x dvd c"
    by (metis add_eq_0_iff dvd_minus_iff dvd_triv_left)
  then have c: "c = 0"
    using zdvd_imp_le[of x "\<bar>c\<bar>"] by (cases "c = 0") (auto simp: x_def)
  have "peval p y = 0" if "y \<ge> max m 1" for y
    using Cons.prems[of y] that c by simp
  then show ?case
    using Cons.IH[of "max m 1"] c by simp
qed simp

lemma peval_eq_coef:
  assumes "\<And>x. peval p x = peval r x"
  shows "coef p i = coef r i"
proof -
  have "list_all (\<lambda>c. c = 0) (padd p (pscale (- 1) r))"
    by (rule peval_zero_imp[where m = 0]) (simp add: assms)
  then have "coef (padd p (pscale (- 1) r)) i = 0"
    unfolding coef_def list_all_length by simp
  then show ?thesis
    by (simp add: coef_padd coef_pscale)
qed

lemma coef_all0:
  assumes "\<And>i. coef p i = 0"
  shows "list_all (\<lambda>c. c = 0) p"
  unfolding list_all_length
proof (intro allI impI)
  fix n assume "n < length p"
  then show "p ! n = 0"
    using assms[of n] by (simp add: coef_def)
qed

lemma coef_eq_peval:
  assumes "\<And>i. coef p i = coef r i"
  shows "peval p x = peval r x"
  using assms
proof (induction p r rule: padd.induct)
  case (1 r)
  then have "list_all (\<lambda>c. c = 0) r"
    by (intro coef_all0) simp
  then show ?case by (simp add: peval_all0)
next
  case (2 v va)
  then have "list_all (\<lambda>c. c = 0) (v # va)"
    by (intro coef_all0) simp
  from peval_all0[OF this, of x] show ?case by simp
next
  case (3 a p b r)
  have "coef p i = coef r i" for i
    using 3(2)[of "Suc i"] by (simp add: coef_Cons)
  moreover have "a = b"
    using 3(2)[of 0] by (simp add: coef_Cons)
  ultimately show ?case
    using 3(1) by simp
qed

subsection \<open>Congruence modulo \<open>q\<close>\<close>

definition pcong :: "int \<Rightarrow> int list \<Rightarrow> int list \<Rightarrow> bool" where
  "pcong q p r \<longleftrightarrow> (\<exists>d. \<forall>x. peval p x = peval r x + q * peval d x)"

lemma pcongI: "(\<And>x. peval p x = peval r x + q * peval d x) \<Longrightarrow> pcong q p r"
  by (auto simp: pcong_def)

lemma pcong_eqI: "(\<And>x. peval p x = peval r x) \<Longrightarrow> pcong q p r"
  by (rule pcongI[where d = "[]"]) simp

lemma pcong_refl [simp]: "pcong q p p"
  by (rule pcong_eqI) simp

lemma pcong_sym: "pcong q p r \<Longrightarrow> pcong q r p"
  unfolding pcong_def
proof (elim exE)
  fix d assume "\<forall>x. peval p x = peval r x + q * peval d x"
  then show "\<exists>d. \<forall>x. peval r x = peval p x + q * peval d x"
    by (intro exI[of _ "pscale (- 1) d"]) simp
qed

lemma pcong_trans [trans]: "pcong q p r \<Longrightarrow> pcong q r s \<Longrightarrow> pcong q p s"
  unfolding pcong_def
proof (elim exE)
  fix d e assume "\<forall>x. peval p x = peval r x + q * peval d x" "\<forall>x. peval r x = peval s x + q * peval e x"
  then show "\<exists>d. \<forall>x. peval p x = peval s x + q * peval d x"
    by (intro exI[of _ "padd d e"]) (simp add: algebra_simps)
qed

lemma pcong_padd: "pcong q p p' \<Longrightarrow> pcong q r r' \<Longrightarrow> pcong q (padd p r) (padd p' r')"
  unfolding pcong_def
proof (elim exE)
  fix d e assume "\<forall>x. peval p x = peval p' x + q * peval d x" "\<forall>x. peval r x = peval r' x + q * peval e x"
  then show "\<exists>d. \<forall>x. peval (padd p r) x = peval (padd p' r') x + q * peval d x"
    by (intro exI[of _ "padd d e"]) (simp add: algebra_simps)
qed

lemma pcong_pscale: "pcong q p p' \<Longrightarrow> pcong q (pscale c p) (pscale c p')"
  unfolding pcong_def
proof (elim exE)
  fix d assume "\<forall>x. peval p x = peval p' x + q * peval d x"
  then show "\<exists>d. \<forall>x. peval (pscale c p) x = peval (pscale c p') x + q * peval d x"
    by (intro exI[of _ "pscale c d"]) (simp add: algebra_simps)
qed

lemma pcong_pmul: "pcong q p p' \<Longrightarrow> pcong q r r' \<Longrightarrow> pcong q (pmul p r) (pmul p' r')"
  unfolding pcong_def
proof (elim exE)
  fix d e assume "\<forall>x. peval p x = peval p' x + q * peval d x" "\<forall>x. peval r x = peval r' x + q * peval e x"
  then show "\<exists>d. \<forall>x. peval (pmul p r) x = peval (pmul p' r') x + q * peval d x"
    by (intro exI[of _ "padd (pmul d r') (padd (pmul p' e) (pscale q (pmul d e)))"]) (simp add: algebra_simps)
qed

lemma pcong_peval: "pcong q p r \<Longrightarrow> peval p x mod q = peval r x mod q"
  by (auto simp: pcong_def)

lemma pcong_iff_coef: "pcong q p r \<longleftrightarrow> (\<forall>i. coef p i mod q = coef r i mod q)"
proof
  assume "pcong q p r"
  then obtain d where "\<And>x. peval p x = peval (padd r (pscale q d)) x"
    by (auto simp: pcong_def)
  then have "coef p i = coef r i + q * coef d i" for i
    using peval_eq_coef[of p "padd r (pscale q d)"] by (simp add: coef_padd coef_pscale)
  then show "\<forall>i. coef p i mod q = coef r i mod q"
    by simp
next
  assume a: "\<forall>i. coef p i mod q = coef r i mod q"
  define d where "d = map (\<lambda>i. (coef p i - coef r i) div q) [0..<max (length p) (length r)]"
  have "coef p i = coef r i + q * coef d i" for i
  proof (cases "i < max (length p) (length r)")
    case True
    have "q dvd coef p i - coef r i"
      using a mod_cong_dvd by blast
    then have "q * ((coef p i - coef r i) div q) = coef p i - coef r i"
      by simp
    moreover have "coef d i = (coef p i - coef r i) div q"
      using True by (simp add: d_def coef_def)
    ultimately show ?thesis by simp
  qed (simp add: coef_def d_def not_less)
  then have "peval p x = peval (padd r (pscale q d)) x" for x
    by (intro coef_eq_peval) (simp add: coef_padd coef_pscale)
  then show "pcong q p r"
    by (intro pcongI[where d = d]) simp
qed

lemma pcong_map_mod: "pcong q (map (\<lambda>c. c mod q) p) p"
  by (auto simp: pcong_iff_coef coef_def)

subsection \<open>Normal forms\<close>

definition reduced :: "int \<Rightarrow> int list \<Rightarrow> bool" where
  "reduced q p \<longleftrightarrow> (\<forall>c \<in> set p. 0 \<le> c \<and> c < q)"

definition canonical :: "int \<Rightarrow> int list \<Rightarrow> bool" where
  "canonical q p \<longleftrightarrow> p \<noteq> [] \<and> reduced q p \<and> (length p = 1 \<or> last p \<noteq> 0)"

lemma reduced_coef: "0 < q \<Longrightarrow> reduced q p \<Longrightarrow> 0 \<le> coef p i \<and> coef p i < q"
  by (auto simp: reduced_def coef_def)

lemma reduced_map_mod [simp]: "0 < q \<Longrightarrow> reduced q (map (\<lambda>c. c mod q) p)"
  by (simp add: reduced_def)

lemma canonical_length_le:
  assumes "canonical q p" "canonical q r" "\<And>i. coef p i = coef r i"
  shows "length p \<le> length r"
proof (cases "length p = 1")
  case True
  then show ?thesis
    using assms(2) by (cases r) (auto simp: canonical_def)
next
  case False
  then have "coef p (length p - 1) \<noteq> 0"
    using assms(1) by (auto simp: canonical_def coef_def last_conv_nth)
  then have "length p - 1 < length r"
    using assms(3)[of "length p - 1"] by (auto simp: coef_def split: if_splits)
  then show ?thesis by simp
qed

lemma canonical_pcong_length:
  assumes "canonical q p" "pcong q p r" "r \<noteq> []"
  shows "length p \<le> length r"
proof (rule ccontr)
  assume long: "\<not> length p \<le> length r"
  then have "1 < length p"
    using assms(3) by (cases r) auto
  then have "coef p (length p - 1) = last p" "last p \<noteq> 0" "0 \<le> last p" "last p < q"
    using assms(1) by (auto simp: canonical_def reduced_def coef_def last_conv_nth)
  moreover have "\<not> length p - 1 < length r"
    using long assms(3) by simp
  then have "coef r (length p - 1) = 0"
    by (simp add: coef_def)
  moreover have "coef p (length p - 1) mod q = coef r (length p - 1) mod q"
    using assms(2) by (simp add: pcong_iff_coef)
  ultimately show False
    by simp
qed

lemma canonical_unique:
  assumes "0 < q" "canonical q p" "canonical q r" "pcong q p r"
  shows "p = r"
proof -
  have e: "coef p i = coef r i" for i
  proof -
    have "coef p i mod q = coef r i mod q"
      using assms(4) by (simp add: pcong_iff_coef)
    then show ?thesis
      using reduced_coef[OF assms(1), of p i] reduced_coef[OF assms(1), of r i] assms(2,3)
      by (simp add: canonical_def)
  qed
  have "length p = length r"
    using canonical_length_le[OF assms(2,3) e] canonical_length_le[OF assms(3,2)] e by fastforce
  moreover have "p ! i = r ! i" if "i < length p" for i
    using e[of i] that \<open>length p = length r\<close> by (simp add: coef_def)
  ultimately show ?thesis
    by (intro nth_equalityI) auto
qed

subsection \<open>Roots\<close>

definition unit_mod :: "int \<Rightarrow> int \<Rightarrow> bool" where
  "unit_mod q a \<longleftrightarrow> (\<exists>c. (a * c) mod q = 1 mod q)"

lemma unit_mod_cancel:
  assumes "unit_mod q a" "(a * b) mod q = 0"
  shows "b mod q = 0"
proof -
  obtain c where "(a * c) mod q = 1 mod q"
    using assms(1) by (auto simp: unit_mod_def)
  then have "b mod q = (a * c * b) mod q"
    by (metis mod_mult_left_eq mult_1)
  also have "\<dots> = (a * b mod q * c) mod q"
    by (simp add: mod_simps algebra_simps)
  finally show ?thesis
    by (simp add: assms(2))
qed

text \<open>Synthetic division by \<open>X - a\<close>.\<close>

fun synth :: "int list \<Rightarrow> int \<Rightarrow> int list" where
  "synth [] a = []"
| "synth (c # cs) a = (if cs = [] then [] else peval cs a # synth cs a)"

lemma peval_synth: "peval p x = peval p a + (x - a) * peval (synth p a) x"
proof (induction p)
  case (Cons c p)
  have "x * peval p x = x * (peval p a + (x - a) * peval (synth p a) x)"
    using Cons by simp
  then show ?case
    by (cases "p = []") (simp_all add: algebra_simps)
qed simp

lemma length_synth [simp]: "length (synth p a) = length p - 1"
  by (induction p) auto

lemma many_roots:
  assumes "sorted_wrt (\<lambda>a b. unit_mod q (b - a)) pts"
    and "\<forall>a \<in> set pts. peval p a mod q = 0" "length p \<le> length pts"
  shows "pcong q p []"
  using assms
proof (induction pts arbitrary: p)
  case (Cons a pts)
  have "peval (synth p a) b mod q = 0" if "b \<in> set pts" for b
  proof (rule unit_mod_cancel)
    show "unit_mod q (b - a)"
      using Cons.prems(1) that by simp
    have "peval p b mod q = 0" "peval p a mod q = 0"
      using Cons.prems(2) that by auto
    then have "(peval p b - peval p a) mod q = 0"
      by (metis mod_0 mod_diff_eq diff_zero)
    then show "(b - a) * peval (synth p a) b mod q = 0"
      using peval_synth[of p b a] by simp
  qed
  then have "pcong q (synth p a) []"
    using Cons.IH[of "synth p a"] Cons.prems by simp
  then obtain d where d: "\<And>x. peval (synth p a) x = q * peval d x"
    by (auto simp: pcong_def)
  obtain k where k: "peval p a = q * k"
    using Cons.prems(2) by (auto simp: mod_eq_0_iff_dvd dvd_def)
  have "peval p x = peval [] x + q * peval (padd [k] (pmul [- a, 1] d)) x" for x
    using peval_synth[of p x a] d k by (simp add: algebra_simps)
  then show ?case
    by (rule pcongI)
qed simp

lemma agree_imp_pcong:
  assumes "sorted_wrt (\<lambda>a b. unit_mod q (b - a)) pts"
    and "\<forall>a \<in> set pts. peval p a mod q = peval r a mod q"
    and "length p \<le> length pts" "length r \<le> length pts"
  shows "pcong q p r"
proof -
  have "pcong q (padd p (pscale (- 1) r)) []"
  proof (rule many_roots[OF assms(1)])
    show "\<forall>a \<in> set pts. peval (padd p (pscale (- 1) r)) a mod q = 0"
      using assms(2) by (simp add: mod_cong_dvd mod_eq_0_iff_dvd)
    show "length (padd p (pscale (- 1) r)) \<le> length pts"
      using assms(3,4) by (simp add: pscale_def)
  qed
  then obtain d where "\<And>x. peval p x - peval r x = q * peval d x"
    by (auto simp: pcong_def)
  then show ?thesis
    by (intro pcongI[where d = d]) (simp add: algebra_simps)
qed

end
