(* ===== verification/CG_PolyOps.thy ===== *)
theory CG_PolyOps
  imports CG_Eval
begin

text \<open>
  The elementary operations on coefficient vectors of \<^verbatim>\<open>cg_rf_common.hpp\<close> (trimming, reduction,
  slices, addition, subtraction, schoolbook multiplication, Horner evaluation, division by a
  monic polynomial), with what each means in terms of \<open>peval\<close> and congruence modulo \<open>q\<close>.
\<close>

subsection \<open>Normalisation\<close>

function poly_trim :: "int list \<Rightarrow> int list" where
  "poly_trim p = (if length p > 1 \<and> last p = 0 then poly_trim (butlast p) else p)"
  by auto
termination by (relation "measure length") auto

declare poly_trim.simps [simp del]

definition poly_mod_q_inplace :: "int list \<Rightarrow> int \<Rightarrow> int list" where
  "poly_mod_q_inplace p q = poly_trim (map (\<lambda>c. c mod q) p)"

subsection \<open>Slices, sums and products\<close>

definition poly_slice :: "int list \<Rightarrow> nat \<Rightarrow> nat \<Rightarrow> int list" where
  "poly_slice p b e =
     (let b' = min b (length p); e' = min e (length p)
      in if e' \<le> b' then [0] else take (e' - b') (drop b' p))"

definition poly_add_mod :: "int list \<Rightarrow> int list \<Rightarrow> int \<Rightarrow> int list" where
  "poly_add_mod a b q = poly_trim
     (map (\<lambda>i. ((if i < length a then 0 + a ! i else 0) + (if i < length b then b ! i else 0)) mod q)
       [0..<max (length a) (length b)])"

definition poly_sub_mod :: "int list \<Rightarrow> int list \<Rightarrow> int \<Rightarrow> int list" where
  "poly_sub_mod a b q = poly_trim
     (map (\<lambda>i. ((if i < length a then 0 + a ! i else 0) - (if i < length b then b ! i else 0)) mod q)
       [0..<max (length a) (length b)])"

text \<open>The double loop accumulates unreduced products, one row of the second factor at a time.\<close>

definition mul_row :: "int list \<Rightarrow> int \<Rightarrow> nat \<Rightarrow> int list \<Rightarrow> int list" where
  "mul_row b ai i out = fold (\<lambda>j out. out[i + j := out ! (i + j) + ai * b ! j]) [0..<length b] out"

definition naive_out :: "int list \<Rightarrow> int list \<Rightarrow> int list" where
  "naive_out a b = fold (\<lambda>i out. mul_row b (a ! i) i out) [0..<length a] (replicate (length a + length b - 1) 0)"

definition poly_mul_naive_mod :: "int list \<Rightarrow> int list \<Rightarrow> int \<Rightarrow> int list" where
  "poly_mul_naive_mod a b q =
     (if a = [] \<or> b = [] then [0] else poly_trim (map (\<lambda>c. c mod q) (naive_out a b)))"

subsection \<open>Linear factors and evaluation\<close>

definition poly_linear_from_root :: "int \<Rightarrow> int \<Rightarrow> int list" where
  "poly_linear_from_root root q =
     (let x = root mod q; c0 = (if x \<noteq> 0 then q - x else 0) in [c0, 1])"

text \<open>
  Horner's rule counts down with a 32-bit \<^verbatim>\<open>int\<close> index from \<^verbatim>\<open>(int)coeffs.size() - 2\<close> to 0; a negative
  start skips the loop.
\<close>

definition poly_eval :: "int list \<Rightarrow> int \<Rightarrow> int \<Rightarrow> int" where
  "poly_eval coeffs x q =
     (if coeffs = [] then 0
      else fold (\<lambda>i res. (res * x + coeffs ! i) mod q) (rev [0..<nat (int32_of (length coeffs) - 2 + 1)]) (last coeffs mod q))"

text \<open>One step of the division loop: cancel the coefficient of degree \<open>k\<close>.\<close>

definition mod_monic_step :: "int list \<Rightarrow> int \<Rightarrow> nat \<Rightarrow> nat \<Rightarrow> int list \<Rightarrow> int list" where
  "mod_monic_step divisor q d k rem =
     (let c = rem ! k in
      if c \<noteq> 0
      then fold (\<lambda>j rem. rem[k - d + j := (rem ! (k - d + j) - c * divisor ! j) mod q]) [0..<d] rem
      else rem)"

definition poly_mod_monic :: "int list \<Rightarrow> int list \<Rightarrow> int \<Rightarrow> int list result" where
  "poly_mod_monic dividend divisor q =
     (if divisor = [] then Inl (Runtime_error ''poly_mod_monic: empty divisor'')
      else if dividend = [] then Inr [0]
      else let rem = poly_mod_q_inplace dividend q; d = length divisor - 1 in
        if length rem < length divisor then Inr rem
        else if d = 0 then Inr [0]
        else let rem' = fold (mod_monic_step divisor q d) (rev [d..<length rem]) rem;
                 r = take d rem'
             in Inr (poly_trim (if r = [] then [0] else r)))"

definition poly_derivative_mod :: "int list \<Rightarrow> int \<Rightarrow> int list" where
  "poly_derivative_mod p q =
     (if length p \<le> 1 then [0]
      else poly_trim (map (\<lambda>i. (p ! i * int i) mod q) [1..<length p]))"

subsection \<open>What they compute\<close>

lemma poly_trim_drop: "length p > 1 \<Longrightarrow> last p = 0 \<Longrightarrow> poly_trim p = poly_trim (butlast p)"
  by (subst poly_trim.simps) simp

lemma poly_trim_keep: "\<not> (length p > 1 \<and> last p = 0) \<Longrightarrow> poly_trim p = p"
  by (subst poly_trim.simps) (rule if_not_P)

text \<open>Trimming removes zeros at the end, and stops at a non-zero coefficient or at length one.\<close>

lemma poly_trim_split:
  "\<exists>n. p = poly_trim p @ replicate n 0 \<and> (length (poly_trim p) > 1 \<longrightarrow> last (poly_trim p) \<noteq> 0)
    \<and> (p \<noteq> [] \<longrightarrow> poly_trim p \<noteq> [])"
proof (induction p rule: poly_trim.induct)
  case (1 p)
  show ?case
  proof (cases "length p > 1 \<and> last p = 0")
    case True
    then obtain n where n: "butlast p = poly_trim p @ replicate n 0"
        "length (poly_trim p) > 1 \<longrightarrow> last (poly_trim p) \<noteq> 0" "butlast p \<noteq> [] \<longrightarrow> poly_trim p \<noteq> []"
      using 1 poly_trim_drop[of p] by auto
    have "p = butlast p @ [0]"
      using True by (metis append_butlast_last_id list.size(3) not_less_zero)
    also have "\<dots> = poly_trim p @ replicate (Suc n) 0"
      using n(1) by (simp add: replicate_append_same)
    finally have "p = poly_trim p @ replicate (Suc n) 0" .
    moreover have "butlast p \<noteq> []"
      using True by (simp add: length_butlast[symmetric] del: length_butlast flip: length_greater_0_conv) simp
    ultimately show ?thesis
      using n(2,3) by blast
  next
    case False
    then show ?thesis
      using poly_trim_keep[OF False] by (intro exI[of _ 0]) auto
  qed
qed

lemma length_poly_trim_le: "length (poly_trim p) \<le> length p"
  using poly_trim_split[of p] by (metis length_append le_add1)

lemma poly_trim_Nil [simp]: "poly_trim [] = []"
  by (simp add: poly_trim.simps)

lemma poly_trim_eq_Nil [simp]: "poly_trim p = [] \<longleftrightarrow> p = []"
  using poly_trim_split[of p] by auto

lemma peval_poly_trim [simp]: "peval (poly_trim p) x = peval p x"
  using poly_trim_split[of p] by (metis peval_append peval_replicate0 mult_zero_right add.right_neutral)

lemma set_poly_trim: "set (poly_trim p) \<subseteq> set p"
  using poly_trim_split[of p] by (metis set_append Un_upper1)

lemma canonical_poly_trim:
  assumes "reduced q p" "p \<noteq> []"
  shows "canonical q (poly_trim p)"
proof -
  have "reduced q (poly_trim p)"
    using assms(1) set_poly_trim[of p] by (auto simp: reduced_def)
  moreover have "length (poly_trim p) > 1 \<longrightarrow> last (poly_trim p) \<noteq> 0" "poly_trim p \<noteq> []"
    using poly_trim_split[of p] assms(2) by auto
  ultimately show ?thesis
    unfolding canonical_def by (metis One_nat_def length_greater_0_conv less_one linorder_neqE_nat not_less0)
qed

lemma poly_mod_q_canonical: "0 < q \<Longrightarrow> p \<noteq> [] \<Longrightarrow> canonical q (poly_mod_q_inplace p q)"
  by (simp add: poly_mod_q_inplace_def canonical_poly_trim)

lemma pcong_poly_trim: "pcong q (poly_trim p) p"
  by (rule pcong_eqI) simp

lemma poly_mod_q_pcong: "pcong q (poly_mod_q_inplace p q) p"
  unfolding poly_mod_q_inplace_def using pcong_trans[OF pcong_poly_trim pcong_map_mod] .

lemma pcong_map_upt:
  assumes "\<And>i. i < n \<Longrightarrow> f i mod q = coef p i mod q" "length p \<le> n"
  shows "pcong q (map f [0..<n]) p"
  unfolding pcong_iff_coef
proof
  fix i
  show "coef (map f [0..<n]) i mod q = coef p i mod q"
    using assms by (cases "i < n") (auto simp: coef_def)
qed

lemma poly_add_mod_pcong: "pcong q (poly_add_mod a b q) (padd a b)"
proof -
  have "pcong q (map (\<lambda>i. ((if i < length a then 0 + a ! i else 0) + (if i < length b then b ! i else 0)) mod q)
       [0..<max (length a) (length b)]) (padd a b)"
    by (rule pcong_map_upt) (simp_all only: coef_padd length_padd, simp_all add: coef_def)
  then show ?thesis
    unfolding poly_add_mod_def using pcong_trans[OF pcong_poly_trim] by blast
qed

lemma poly_sub_mod_pcong: "pcong q (poly_sub_mod a b q) (padd a (pscale (- 1) b))"
proof -
  have "pcong q (map (\<lambda>i. ((if i < length a then 0 + a ! i else 0) - (if i < length b then b ! i else 0)) mod q)
       [0..<max (length a) (length b)]) (padd a (pscale (- 1) b))"
    by (rule pcong_map_upt) (simp_all only: coef_padd coef_pscale length_padd, simp_all add: coef_def pscale_def)
  then show ?thesis
    unfolding poly_sub_mod_def using pcong_trans[OF pcong_poly_trim] by blast
qed

lemma length_poly_add_mod: "length (poly_add_mod a b q) \<le> max (length a) (length b)"
  unfolding poly_add_mod_def by (rule le_trans[OF length_poly_trim_le]) simp

lemma length_poly_sub_mod: "length (poly_sub_mod a b q) \<le> max (length a) (length b)"
  unfolding poly_sub_mod_def by (rule le_trans[OF length_poly_trim_le]) simp

lemma reduced_map_upt: "0 < q \<Longrightarrow> reduced q (map (\<lambda>i. f i mod q) xs)"
  by (auto simp: reduced_def)

lemma poly_add_mod_canonical: "0 < q \<Longrightarrow> a \<noteq> [] \<Longrightarrow> canonical q (poly_add_mod a b q)"
  unfolding poly_add_mod_def by (rule canonical_poly_trim) (auto simp: reduced_map_upt max_def)

lemma poly_slice_split:
  assumes "p \<noteq> []"
  shows "peval p x = peval (poly_slice p 0 h) x + x ^ h * peval (poly_slice p h (length p)) x"
proof (cases "h = 0 \<or> length p \<le> h")
  case True
  then show ?thesis
    using assms by (auto simp: poly_slice_def)
next
  case False
  have "peval p x = peval (take h p @ drop h p) x"
    by simp
  also have "\<dots> = peval (take h p) x + x ^ h * peval (drop h p) x"
    using False by (simp only: peval_append) simp
  finally show ?thesis
    using False by (simp add: poly_slice_def min_def)
qed

lemma length_poly_slice: "0 < length (poly_slice p b e) \<and> length (poly_slice p b e) \<le> max 1 (e - b)"
  by (auto simp: poly_slice_def Let_def)

subsection \<open>Schoolbook multiplication\<close>

lemma peval_list_update:
  "k < length p \<Longrightarrow> peval (p[k := p ! k + t]) x = peval p x + t * x ^ k"
  by (induction p arbitrary: k) (auto simp: algebra_simps nth_Cons split: nat.splits)

lemma mul_row_spec:
  assumes "i + length b \<le> length out"
  shows "length (mul_row b ai i out) = length out \<and>
    peval (mul_row b ai i out) x = peval out x + ai * x ^ i * peval b x"
proof -
  have "length (fold (\<lambda>j out. out[i + j := out ! (i + j) + ai * b ! j]) [0..<m] out) = length out \<and>
    peval (fold (\<lambda>j out. out[i + j := out ! (i + j) + ai * b ! j]) [0..<m] out) x
      = peval out x + ai * x ^ i * (\<Sum>j < m. b ! j * x ^ j)" if "m \<le> length b" for m
    using that
  proof (induction m)
    case (Suc m)
    then show ?case
      using assms by (simp add: peval_list_update) (simp add: algebra_simps power_add)
  qed simp
  from this[of "length b"] show ?thesis
    by (simp add: mul_row_def peval_eq_sum[of b])
qed

lemma naive_out_spec:
  "length (naive_out a b) = length a + length b - 1 \<and> peval (naive_out a b) x = peval a x * peval b x"
proof -
  let ?z = "replicate (length a + length b - 1) (0 :: int)"
  have "length (fold (\<lambda>i out. mul_row b (a ! i) i out) [0..<m] ?z) = length a + length b - 1 \<and>
    peval (fold (\<lambda>i out. mul_row b (a ! i) i out) [0..<m] ?z) x = (\<Sum>i < m. a ! i * x ^ i) * peval b x"
    if "m \<le> length a" for m
    using that
  proof (induction m)
    case (Suc m)
    let ?o = "fold (\<lambda>i out. mul_row b (a ! i) i out) [0..<m] ?z"
    have "m + length b \<le> length ?o"
      using Suc by simp
    from mul_row_spec[OF this, of "a ! m" x] show ?case
      using Suc by (simp add: algebra_simps)
  qed simp
  from this[of "length a"] show ?thesis
    by (simp add: naive_out_def peval_eq_sum[of a])
qed

lemma poly_mul_naive_pcong: "pcong q (poly_mul_naive_mod a b q) (pmul a b)"
proof (cases "a = [] \<or> b = []")
  case True
  then show ?thesis
    by (intro pcong_eqI) (auto simp: poly_mul_naive_mod_def)
next
  case False
  have "pcong q (poly_mul_naive_mod a b q) (map (\<lambda>c. c mod q) (naive_out a b))"
    using False by (simp add: poly_mul_naive_mod_def pcong_poly_trim)
  also have "pcong q \<dots> (naive_out a b)"
    by (rule pcong_map_mod)
  also have "pcong q \<dots> (pmul a b)"
    by (rule pcong_eqI) (simp add: naive_out_spec)
  finally show ?thesis .
qed

lemma poly_mul_naive_canonical:
  assumes "0 < q"
  shows "canonical q (poly_mul_naive_mod a b q)"
proof (cases "a = [] \<or> b = []")
  case True
  then show ?thesis
    using assms by (auto simp: poly_mul_naive_mod_def canonical_def reduced_def)
next
  case False
  then have "length (naive_out a b) > 0"
    using naive_out_spec[of a b] by (cases a; cases b) auto
  then show ?thesis
    using False assms by (simp add: poly_mul_naive_mod_def canonical_poly_trim)
qed

lemma length_poly_mul_naive:
  "a \<noteq> [] \<Longrightarrow> b \<noteq> [] \<Longrightarrow> length (poly_mul_naive_mod a b q) \<le> length a + length b - 1"
  using length_poly_trim_le[of "map (\<lambda>c. c mod q) (naive_out a b)"] naive_out_spec[of a b]
  by (simp add: poly_mul_naive_mod_def)

subsection \<open>Linear factors and Horner evaluation\<close>

lemma canonical_linear: "1 < q \<Longrightarrow> canonical q (poly_linear_from_root a q)"
  using pos_mod_bound[of q a] pos_mod_sign[of q a]
  by (auto simp: poly_linear_from_root_def canonical_def reduced_def Let_def order.strict_iff_order)

lemma linear_pcong: "0 < q \<Longrightarrow> pcong q (poly_linear_from_root a q) [- a, 1]"
  unfolding pcong_iff_coef
  by (auto simp: poly_linear_from_root_def Let_def coef_Cons mod_simps split: nat.splits)

lemma peval_linear: "0 < q \<Longrightarrow> peval (poly_linear_from_root a q) x mod q = (x - a) mod q"
  using pcong_peval[OF linear_pcong, of q a x] by simp

lemma horner_foldl:
  "foldl (\<lambda>res c. (res * x + c) mod q) (c mod q) (rev cs) = peval (cs @ [c]) x mod q"
proof (induction cs)
  case (Cons d cs)
  have "foldl (\<lambda>res c. (res * x + c) mod q) (c mod q) (rev (d # cs)) = ((peval (cs @ [c]) x mod q) * x + d) mod q"
    by (simp add: Cons)
  also have "\<dots> = (peval (cs @ [c]) x * x + d) mod q"
    by (intro mod_cong_add mod_cong_mult) simp_all
  finally show ?case
    by (simp add: algebra_simps)
qed simp

lemma fold_rev_nth: "fold (\<lambda>i r. g r (p ! i)) (rev [0..<length p]) r = foldl g r (rev p)"
proof -
  have "rev p = map ((!) p) (rev [0..<length p])"
    using map_nth[of p] by (metis rev_map)
  then show ?thesis
    by (simp add: foldl_conv_fold fold_map comp_def)
qed

lemma poly_eval_pvalue:
  assumes "length p < 2 ^ 31"
  shows "poly_eval p x q = pvalue p x q"
proof (cases "p = []")
  case True
  then show ?thesis
    by (simp add: poly_eval_def pvalue_eq)
next
  case False
  then obtain cs c where p: "p = cs @ [c]"
    by (cases p rule: rev_cases) auto
  have "fold (\<lambda>i res. (res * x + p ! i) mod q) (rev [0..<length cs]) r = fold (\<lambda>i res. (res * x + cs ! i) mod q) (rev [0..<length cs]) r" for r
    by (rule fold_cong) (simp_all add: p nth_append)
  moreover have "nat (int32_of (length p) - 2 + 1) = length cs"
    using assms by (simp add: p)
  ultimately show ?thesis
    using horner_foldl[of x q c cs] fold_rev_nth[of "\<lambda>r d. (r * x + d) mod q" cs] by (simp add: poly_eval_def pvalue_eq p)
qed

subsection \<open>Division by a monic polynomial\<close>

lemma coef_shift: "coef (replicate m 0 @ p) i = (if i < m then 0 else coef p (i - m))"
  by (auto simp: coef_def nth_append)

lemma mod_monic_step_spec:
  assumes "length rem = n" "d \<le> k" "k < n" "length divisor = Suc d" "divisor ! d = 1" "0 < q" "reduced q rem"
  defines "rem' \<equiv> mod_monic_step divisor q d k rem"
  shows "length rem' = n \<and> reduced q rem' \<and>
    pcong q (take (Suc k) rem) (padd (take k rem') (pscale (rem ! k) (replicate (k - d) 0 @ divisor)))"
proof (cases "rem ! k = 0")
  case True
  then have "coef (take (Suc k) rem) i = coef (take k rem) i" for i
    using assms(1,3) by (auto simp: coef_def less_Suc_eq)
  then show ?thesis
    using True assms by (auto simp: mod_monic_step_def pcong_iff_coef coef_padd coef_pscale)
next
  case False
  let ?f = "\<lambda>j y. (y - rem ! k * divisor ! j) mod q"
  have r: "rem' = fold (\<lambda>j rem. rem[k - d + j := ?f j (rem ! (k - d + j))]) [0..<d] rem"
    using False by (simp add: rem'_def mod_monic_step_def)
  have "k - d + d \<le> length rem"
    using assms by simp
  note u = fold_range_upd[OF this, of ?f, folded r]
  have len: "length rem' = n"
    using u assms(1) by simp
  have nth: "rem' ! p = (if k - d \<le> p \<and> p < k then (rem ! p - rem ! k * divisor ! (p - (k - d))) mod q else rem ! p)"
    if "p < n" for p
    using u that assms(1,2) by simp
  have "reduced q rem'"
    unfolding reduced_def
  proof
    fix c assume "c \<in> set rem'"
    then obtain p where "p < n" "c = rem' ! p"
      using len by (auto simp: in_set_conv_nth)
    moreover have "rem ! p \<in> set rem"
      using \<open>p < n\<close> assms(1) by simp
    ultimately show "0 \<le> c \<and> c < q"
      using nth[of p] assms(6,7) by (auto simp: reduced_def)
  qed
  moreover have "coef (take (Suc k) rem) i mod q =
      (coef (take k rem') i + rem ! k * coef (replicate (k - d) 0 @ divisor) i) mod q" for i
  proof -
    consider "i < k - d" | "k - d \<le> i \<and> i < k" | "i = k" | "k < i" by linarith
    then show ?thesis
    proof cases
      case 1
      then show ?thesis using nth[of i] assms(1,3) len by (simp add: coef_shift) (simp add: coef_def)
    next
      case 2
      then have "coef divisor (i - (k - d)) = divisor ! (i - (k - d))"
        using assms(2,4) by (auto simp: coef_def)
      then show ?thesis
        using 2 nth[of i] assms(1-3) len by (simp add: coef_shift) (simp add: coef_def mod_simps)
    next
      case 3
      then have "coef divisor (i - (k - d)) = 1"
        using assms(2,4,5) by (simp add: coef_def)
      then show ?thesis using 3 assms(1-3) len by (simp add: coef_shift) (simp add: coef_def)
    next
      case 4
      then have "\<not> i - (k - d) < length divisor"
        using assms(2,4) by linarith
      then have "coef divisor (i - (k - d)) = 0"
        by (simp only: coef_def if_False)
      then show ?thesis using 4 assms(1-3) len by (simp add: coef_shift) (simp add: coef_def)
    qed
  qed
  ultimately show ?thesis
    using len by (simp add: pcong_iff_coef coef_padd coef_pscale)
qed

lemma mod_monic_loop:
  assumes "length rem = n" "length divisor = Suc d" "divisor ! d = 1" "0 < q" "reduced q rem" "d + m \<le> n"
  defines "rem' \<equiv> fold (mod_monic_step divisor q d) (rev [d..<d + m]) rem"
  shows "length rem' = n \<and> reduced q rem' \<and>
    (\<exists>s. pcong q (take (d + m) rem) (padd (take d rem') (pmul s divisor)))"
  using assms(1,5,6) unfolding rem'_def
proof (induction m arbitrary: rem)
  case 0
  then show ?case
    by (auto intro!: exI[of _ "[]"] pcong_eqI)
next
  case (Suc m)
  let ?r = "mod_monic_step divisor q d (d + m) rem"
  have step: "length ?r = n \<and> reduced q ?r \<and>
    pcong q (take (Suc (d + m)) rem) (padd (take (d + m) ?r) (pscale (rem ! (d + m)) (replicate (d + m - d) 0 @ divisor)))"
    using Suc.prems assms(2-4) by (intro mod_monic_step_spec) auto
  let ?f = "fold (mod_monic_step divisor q d) (rev [d..<d + m]) ?r"
  from Suc.IH[of ?r] step Suc.prems obtain s where s: "length ?f = n" "reduced q ?f"
      "pcong q (take (d + m) ?r) (padd (take d ?f) (pmul s divisor))"
    by auto
  let ?t = "padd s (replicate m 0 @ [rem ! (d + m)])"
  have "pcong q (take (Suc (d + m)) rem) (padd (take (d + m) ?r) (pscale (rem ! (d + m)) (replicate m 0 @ divisor)))"
    using step by simp
  also have "pcong q \<dots> (padd (padd (take d ?f) (pmul s divisor)) (pscale (rem ! (d + m)) (replicate m 0 @ divisor)))"
    by (rule pcong_padd[OF s(3) pcong_refl])
  also have "pcong q \<dots> (padd (take d ?f) (pmul ?t divisor))"
    by (rule pcong_eqI) (simp add: peval_append algebra_simps)
  finally show ?case
    using s by auto
qed

lemma poly_mod_monic_spec:
  assumes "divisor \<noteq> []" "last divisor = 1" "0 < q"
  shows "\<exists>r. poly_mod_monic p divisor q = Inr r \<and> canonical q r \<and> length r \<le> max 1 (length divisor - 1)
    \<and> (\<exists>s. pcong q p (padd r (pmul s divisor)))"
proof -
  define d where "d = length divisor - 1"
  have d: "length divisor = Suc d" "divisor ! d = 1"
    using assms(1,2) by (simp_all add: d_def last_conv_nth)
  define rem where "rem = poly_mod_q_inplace p q"
  have z: "canonical q [0]"
    using assms(3) by (simp add: canonical_def reduced_def)
  consider (empty) "p = []" | (small) "p \<noteq> []" "length rem < length divisor"
    | (const) "p \<noteq> []" "\<not> length rem < length divisor" "d = 0"
    | (long) "p \<noteq> []" "\<not> length rem < length divisor" "d \<noteq> 0"
    by blast
  then show ?thesis
  proof cases
    case empty
    have "pcong q p (padd [0] (pmul [] divisor))"
      unfolding empty by (rule pcong_eqI) simp
    then show ?thesis
      using z empty assms(1) unfolding poly_mod_monic_def by (auto intro!: exI[of _ "[]"])
  next
    case small
    have "pcong q p (padd rem (pmul [] divisor))"
      using pcong_sym[OF poly_mod_q_pcong[of q p]] by (simp add: rem_def pcong_def)
    moreover have "canonical q rem"
      using small(1) assms(3) by (simp add: rem_def poly_mod_q_canonical)
    ultimately show ?thesis
      using small assms(1) d unfolding poly_mod_monic_def
      by (intro exI[of _ rem]) (auto simp: Let_def rem_def[symmetric] intro!: exI[of _ "[]"])
  next
    case const
    then have "divisor = [1]"
      using d by (cases divisor) auto
    then have "pcong q p (padd [0] (pmul p divisor))"
      by (intro pcong_eqI) simp
    then show ?thesis
      using const z assms(1) d unfolding poly_mod_monic_def
      by (intro exI[of _ "[0]"]) (auto simp: Let_def rem_def[symmetric] d_def[symmetric])
  next
    case long
    define n where "n = length rem"
    have n: "d + (n - d) \<le> n" "d + (n - d) = n" "d \<le> n"
      using long d by (auto simp: n_def)
    have "reduced q rem"
      using poly_mod_q_canonical[OF assms(3) long(1)] by (simp add: rem_def canonical_def)
    note l = mod_monic_loop[OF n_def[symmetric] d assms(3) this n(1)]
    define rem' where "rem' = fold (mod_monic_step divisor q d) (rev [d..<n]) rem"
    from l obtain s where s: "length rem' = n" "reduced q rem'" "pcong q rem (padd (take d rem') (pmul s divisor))"
      using n(2) by (auto simp: rem'_def n_def)
    have ne: "take d rem' \<noteq> []"
      using s(1) n long by auto
    have "reduced q (take d rem')"
      using s(2) by (auto simp: reduced_def dest: in_set_takeD)
    then have "canonical q (poly_trim (take d rem'))"
      using ne by (rule canonical_poly_trim)
    moreover have "pcong q p (padd (poly_trim (take d rem')) (pmul s divisor))"
    proof -
      have "pcong q p rem"
        unfolding rem_def by (rule pcong_sym[OF poly_mod_q_pcong])
      also note s(3)
      also have "pcong q (padd (take d rem') (pmul s divisor)) (padd (poly_trim (take d rem')) (pmul s divisor))"
        by (rule pcong_eqI) simp
      finally show ?thesis .
    qed
    moreover have "length (poly_trim (take d rem')) \<le> d"
      using length_poly_trim_le[of "take d rem'"] by simp
    moreover have "poly_mod_monic p divisor q = Inr (poly_trim (take d rem'))"
      using long assms(1) ne
      by (simp add: poly_mod_monic_def Let_def rem_def[symmetric] d(1) n_def[symmetric] rem'_def[symmetric])
    ultimately show ?thesis
      by (auto simp: d_def)
  qed
qed

end
