(* ===== verification/CG_NTT.thy ===== *)
theory CG_NTT
  imports CG_PolyOps
begin

text \<open>
  The number-theoretic transform of \<^verbatim>\<open>cg_rf_common.hpp\<close> over the fixed 128-bit prime: the
  primitive roots, the in-place bit reversal, the butterfly stages, and multiplication by
  transform. The root cache of the code is a pure memo of \<open>ntt_primitive_root\<close> and is not part of
  the state.
\<close>

unbundle bit_operations_syntax

subsection \<open>The domain\<close>

definition ntt128_prime :: int where
  "ntt128_prime = 170141183460469232709364739622490341377"

definition ntt_runtime_enabled :: "env \<Rightarrow> bool" where
  "ntt_runtime_enabled env \<longleftrightarrow> env_value env ''CG_USE_NTT_POLY'' \<noteq> Some ''0''"

definition is_ntt128_prime :: "int \<Rightarrow> bool" where
  "is_ntt128_prime q \<longleftrightarrow> q = ntt128_prime"

definition ntt_domain_supported :: "env \<Rightarrow> int \<Rightarrow> nat \<Rightarrow> bool" where
  "ntt_domain_supported env q n \<longleftrightarrow>
     ntt_runtime_enabled env \<and> is_ntt128_prime q \<and> is_power_of_two_size n"

definition ntt_primitive_root :: "env \<Rightarrow> nat \<Rightarrow> int \<Rightarrow> int result" where
  "ntt_primitive_root env n q =
     (if \<not> ntt_domain_supported env q n
      then Inl (Runtime_error ''ntt_primitive_root: unsupported q or domain size'')
      else if n = 1 then Inr 1
      else let e = (q - 1) div int n; root = powm 3 (nat e) q in
        if powm root n q \<noteq> 1 then Inl (Runtime_error ''ntt_primitive_root: root order check failed'')
        else if powm root (n div 2) q = 1 then Inl (Runtime_error ''ntt_primitive_root: non-primitive root'')
        else Inr root)"

definition ntt_domain_points :: "env \<Rightarrow> nat \<Rightarrow> int \<Rightarrow> int list result" where
  "ntt_domain_points env n q =
     (if n = 0 then Inr []
      else bind_r (ntt_primitive_root env n q) (\<lambda>omega.
        Inr (fold (\<lambda>i pts. pts[i := pts ! (i - 1) * omega mod q]) [1..<n] (replicate n 1))))"

subsection \<open>The transform\<close>

text \<open>Adding one to a bit-reversed counter: clear the leading ones, set the next bit.\<close>

function rev_carry :: "nat \<Rightarrow> nat \<Rightarrow> nat" where
  "rev_carry j msk = (if j AND msk \<noteq> 0 then rev_carry (j XOR msk) (msk div 2) else j XOR msk)"
  by auto
termination
proof (relation "measure (\<lambda>(j, msk). msk)")
  fix j msk :: nat assume "j AND msk \<noteq> 0"
  then have "msk \<noteq> 0" by (cases "msk = 0") auto
  then show "((j XOR msk, msk div 2), (j, msk)) \<in> measure (\<lambda>(j, msk). msk)" by simp
qed simp

declare rev_carry.simps [simp del]

definition swap_at :: "nat \<Rightarrow> nat \<Rightarrow> 'a list \<Rightarrow> 'a list" where
  "swap_at i j a = a[i := a ! j, j := a ! i]"

definition bit_reverse_step :: "nat \<Rightarrow> nat \<Rightarrow> int list \<times> nat \<Rightarrow> int list \<times> nat" where
  "bit_reverse_step n i st =
     (case st of (a, j) \<Rightarrow> let j' = rev_carry j (n div 2) in (if i < j' then swap_at i j' a else a, j'))"

definition bit_reverse :: "int list \<Rightarrow> int list" where
  "bit_reverse a = fst (fold (bit_reverse_step (length a)) [1..<length a] (a, 0))"

definition butterfly :: "int \<Rightarrow> int \<Rightarrow> nat \<Rightarrow> nat \<Rightarrow> nat \<Rightarrow> int list \<times> int \<Rightarrow> int list \<times> int" where
  "butterfly q wlen i len j st =
     (case st of (a, w) \<Rightarrow>
        let u = a ! (i + j); v = a ! (i + j + len div 2) * w mod q
        in (a[i + j := (u + v) mod q, i + j + len div 2 := (u - v) mod q], w * wlen mod q))"

definition ntt_block :: "int \<Rightarrow> int \<Rightarrow> nat \<Rightarrow> nat \<Rightarrow> int list \<Rightarrow> int list" where
  "ntt_block q wlen len i a = fst (fold (butterfly q wlen i len) [0..<len div 2] (a, 1))"

definition ntt_stage :: "int \<Rightarrow> int \<Rightarrow> nat \<Rightarrow> int list \<Rightarrow> int list" where
  "ntt_stage q wlen len a =
     fold (ntt_block q wlen len) (map (\<lambda>t. t * len) [0..<(length a + len - 1) div len]) a"

function ntt_stages :: "env \<Rightarrow> int \<Rightarrow> bool \<Rightarrow> nat \<Rightarrow> nat \<Rightarrow> int list \<Rightarrow> int list result" where
  "ntt_stages env q backward n len a =
     (if 2 \<le> len \<and> len \<le> n
      then bind_r (ntt_primitive_root env len q) (\<lambda>w0.
           bind_r (if backward then mod_inverse w0 q else Inr w0) (\<lambda>wlen.
           ntt_stages env q backward n (2 * len) (ntt_stage q wlen len a)))
      else Inr a)"
  by pat_completeness auto
termination by (relation "measure (\<lambda>(env, q, backward, n, len, a). Suc n - len)") auto

declare ntt_stages.simps [simp del]

definition ntt_inplace :: "env \<Rightarrow> int list \<Rightarrow> int \<Rightarrow> bool \<Rightarrow> int list result" where
  "ntt_inplace env a q backward =
     (if \<not> ntt_domain_supported env q (length a)
      then Inl (Runtime_error ''ntt_inplace: unsupported q or non-power-of-two size'')
      else bind_r (ntt_stages env q backward (length a) 2 (bit_reverse a)) (\<lambda>a'.
        if backward
        then bind_r (mod_inverse (int (length a)) q) (\<lambda>n_inv. Inr (map (\<lambda>x. x * n_inv mod q) a'))
        else Inr a'))"

subsection \<open>Multiplication, evaluation and interpolation by transform\<close>

definition zero_pad :: "int \<Rightarrow> nat \<Rightarrow> int list \<Rightarrow> int list" where
  "zero_pad q n a = map (\<lambda>c. c mod q) a @ replicate (n - length a) 0"

definition poly_mul_ntt_mod :: "env \<Rightarrow> int list \<Rightarrow> int list \<Rightarrow> int \<Rightarrow> int list result" where
  "poly_mul_ntt_mod env a b q =
     (if a = [] \<or> b = [] then Inr [0]
      else let need = length a + length b - 1 in
        bind_r (next_power_of_two_size need) (\<lambda>n.
        if \<not> ntt_domain_supported env q n
        then Inl (Runtime_error ''poly_mul_ntt_mod: unsupported NTT domain'')
        else bind_r (ntt_inplace env (zero_pad q n a) q False) (\<lambda>fa.
             bind_r (ntt_inplace env (zero_pad q n b) q False) (\<lambda>fb.
             bind_r (ntt_inplace env (map (\<lambda>i. fa ! i * fb ! i mod q) [0..<n]) q True) (\<lambda>fc.
             Inr (poly_trim (take need fc)))))))"

definition poly_eval_batch_ntt :: "env \<Rightarrow> int list \<Rightarrow> nat \<Rightarrow> int \<Rightarrow> int list result" where
  "poly_eval_batch_ntt env coeffs n_points q =
     (if \<not> ntt_domain_supported env q n_points
      then Inl (Runtime_error ''poly_eval_batch_ntt: unsupported NTT domain'')
      else if length coeffs > n_points
      then Inl (Runtime_error ''poly_eval_batch_ntt: polynomial degree exceeds NTT domain'')
      else ntt_inplace env (zero_pad q n_points coeffs) q False)"

definition lagrange_interpolate_ntt :: "env \<Rightarrow> int list \<Rightarrow> int \<Rightarrow> int list result" where
  "lagrange_interpolate_ntt env y q =
     (if \<not> ntt_domain_supported env q (length y)
      then Inl (Runtime_error ''lagrange_interpolate_ntt: unsupported NTT domain'')
      else bind_r (ntt_inplace env (map (\<lambda>c. c mod q) y) q True) (\<lambda>coeffs. Inr (poly_trim coeffs)))"

subsection \<open>Bit reversal\<close>

fun bitrev :: "nat \<Rightarrow> nat \<Rightarrow> nat" where
  "bitrev 0 i = 0"
| "bitrev (Suc m) i = (i mod 2) * 2 ^ m + bitrev m (i div 2)"

lemma bitrev_less: "bitrev m i < 2 ^ m"
proof (induction m arbitrary: i)
  case (Suc m)
  show ?case using Suc[of "i div 2"] by (cases "even i") (simp_all add: mod_2_eq_odd)
qed simp

lemma bitrev_0 [simp]: "bitrev m 0 = 0"
  by (induction m) auto

lemma bitrev_add: "bitrev (m + k) i = bitrev m (i mod 2 ^ m) * 2 ^ k + bitrev k (i div 2 ^ m)"
proof (induction m arbitrary: i)
  case (Suc m)
  have "i div 2 mod 2 ^ m = (i mod 2 ^ Suc m) div 2"
    by (simp add: mod_mult2_eq)
  moreover have "i mod 2 ^ Suc m mod 2 = i mod 2"
    by (simp add: mod_mod_cancel)
  ultimately show ?case
    using Suc[of "i div 2"] by (simp add: algebra_simps power_add div_mult2_eq)
qed simp

lemma bitrev_top: "b < 2 ^ m \<Longrightarrow> bitrev (Suc m) b = 2 * bitrev m b"
  using bitrev_add[of m 1 b] by simp

lemma bitrev_involution: "i < 2 ^ m \<Longrightarrow> bitrev m (bitrev m i) = i"
proof (induction m arbitrary: i)
  case (Suc m)
  let ?j = "bitrev m (i div 2)"
  have j: "?j < 2 ^ m" by (rule bitrev_less)
  have id2: "i div 2 < 2 ^ m" using Suc.prems by simp
  have "bitrev (Suc m) (bitrev (Suc m) i) = bitrev (m + 1) ((i mod 2) * 2 ^ m + ?j)"
    by simp
  also have "\<dots> = bitrev m ?j * 2 ^ 1 + bitrev 1 (i mod 2)"
    using j by (subst bitrev_add) simp
  also have "\<dots> = i"
    using Suc.IH[OF id2] by simp
  finally show ?case .
qed simp

lemma bit_small: "j < 2 ^ m \<Longrightarrow> bit (j :: nat) n \<Longrightarrow> n < m"
  by (metis bit_take_bit_iff take_bit_nat_eq_self)

lemma add_top: "j < 2 ^ m \<Longrightarrow> 2 ^ m + j = 2 ^ m OR (j :: nat)"
  by (rule disjunctive_add) (auto simp: bit_exp_iff dest: bit_small)

lemma xor_top:
  assumes "j < 2 ^ m"
  shows "(2 ^ m + j) XOR 2 ^ m = (j :: nat)" "j XOR 2 ^ m = 2 ^ m + (j :: nat)"
    "(2 ^ m + j) AND 2 ^ m = (2 ^ m :: nat)" "j AND 2 ^ m = (0 :: nat)"
  unfolding add_top[OF assms]
  by (rule bit_eqI; auto simp: bit_simps bit_exp_iff dest: bit_small[OF assms])+

lemma rev_carry_bitrev:
  "Suc i < 2 ^ m \<Longrightarrow> rev_carry (bitrev m i) (2 ^ m div 2) = bitrev m (Suc i)"
proof (induction m arbitrary: i)
  case (Suc m)
  let ?j = "bitrev m (i div 2)"
  have j: "?j < 2 ^ m" by (rule bitrev_less)
  show ?case
  proof (cases "even i")
    case True
    then have e: "bitrev (Suc m) i = ?j" "bitrev (Suc m) (Suc i) = 2 ^ m + ?j"
      by (simp_all add: mod_2_eq_odd)
    show ?thesis
      using xor_top[OF j] unfolding e by (subst rev_carry.simps) simp
  next
    case False
    then have e: "bitrev (Suc m) i = 2 ^ m + ?j" "bitrev (Suc m) (Suc i) = bitrev m (Suc (i div 2))"
      by (simp_all add: mod_2_eq_odd)
    have "Suc (i div 2) < 2 ^ m"
      using Suc.prems False by (auto elim!: oddE)
    note IH = Suc.IH[OF this]
    show ?thesis
      using xor_top[OF j] IH unfolding e by (subst rev_carry.simps) simp
  qed
qed simp

lemma bit_reverse_loop:
  assumes "length a = 2 ^ m" "1 \<le> t" "t \<le> 2 ^ m"
  shows "\<exists>a'. fold (bit_reverse_step (2 ^ m)) [1..<t] (a, 0) = (a', bitrev m (t - 1)) \<and> length a' = 2 ^ m \<and>
    (\<forall>x < 2 ^ m. a' ! x = (if x < t \<or> bitrev m x < t then a ! bitrev m x else a ! x))"
  using assms(2,3)
proof (induction t rule: dec_induct)
  case base
  have "a ! x = a ! bitrev m x" if "x < 2 ^ m" "x < 1 \<or> bitrev m x < 1" for x
    using that bitrev_involution[OF that(1)] by auto
  then show ?case using assms(1) by auto
next
  case (step t)
  then obtain a' where a': "fold (bit_reverse_step (2 ^ m)) [1..<t] (a, 0) = (a', bitrev m (t - 1))"
      "length a' = 2 ^ m" "\<forall>x < 2 ^ m. a' ! x = (if x < t \<or> bitrev m x < t then a ! bitrev m x else a ! x)"
    by auto
  define j where "j = bitrev m t"
  have t: "t < 2 ^ m" "1 \<le> t" using step by auto
  have jt: "bitrev m j = t" "j < 2 ^ m"
    using bitrev_involution[OF t(1)] bitrev_less by (auto simp: j_def)
  have "rev_carry (bitrev m (t - 1)) (2 ^ m div 2) = j"
    using rev_carry_bitrev[of "t - 1" m] t by (simp add: j_def)
  then have s: "bit_reverse_step (2 ^ m) t (a', bitrev m (t - 1)) = (if t < j then swap_at t j a' else a', j)"
    by (simp add: bit_reverse_step_def Let_def)
  let ?b = "if t < j then swap_at t j a' else a'"
  have "?b ! x = (if x < Suc t \<or> bitrev m x < Suc t then a ! bitrev m x else a ! x)" if x: "x < 2 ^ m" for x
  proof -
    have inv: "bitrev m x = t \<longleftrightarrow> x = j" "bitrev m x = j \<longleftrightarrow> x = t"
      by (metis bitrev_involution[OF x] jt(1) j_def)+
    show ?thesis
    proof (cases "x = t \<or> x = j")
      case True
      have nt: "a' ! t = (if j < t then a ! j else a ! t)" and nj: "a' ! j = (if j < t then a ! t else a ! j)"
        using a'(3) t(1) jt j_def by simp_all
      consider "x = t" | "x = j" "x \<noteq> t" using True by blast
      then show ?thesis
      proof cases
        case 1
        have "?b ! t = a ! j"
          using nt nj a'(2) t(1) jt(2) by (cases "t < j") (simp_all add: swap_at_def nth_list_update not_less)
        then show ?thesis using 1 by (simp add: j_def)
      next
        case 2
        have "?b ! j = a ! t"
          using nt nj 2 a'(2) t(1) jt(2) by (cases "t < j") (simp_all add: swap_at_def nth_list_update not_less)
        then show ?thesis using 2 jt(1) by simp
      qed
    next
      case False
      then have "x < Suc t \<or> bitrev m x < Suc t \<longleftrightarrow> x < t \<or> bitrev m x < t"
        using inv by (auto simp: less_Suc_eq)
      then show ?thesis
        using False a'(2,3) t jt x by (auto simp: swap_at_def nth_list_update)
    qed
  qed
  moreover have "length ?b = 2 ^ m"
    using a'(2) by (simp add: swap_at_def)
  ultimately show ?case
    using a'(1) s t by (simp add: j_def)
qed

lemma bit_reverse_spec:
  assumes "length a = 2 ^ m"
  shows "length (bit_reverse a) = 2 ^ m \<and> (\<forall>x < 2 ^ m. bit_reverse a ! x = a ! bitrev m x)"
  using bit_reverse_loop[OF assms, of "2 ^ m"] assms by (auto simp: bit_reverse_def)

subsection \<open>Butterflies\<close>

definition bf :: "int \<Rightarrow> int \<Rightarrow> nat \<Rightarrow> int list \<Rightarrow> nat \<Rightarrow> int" where
  "bf q w h a p =
     (let r = p mod (2 * h) in
      if r < h then (a ! p + a ! (p + h) * (w ^ r mod q) mod q) mod q
      else (a ! (p - h) - a ! p * (w ^ (r - h) mod q) mod q) mod q)"

lemma bf_range: "1 < q \<Longrightarrow> 0 \<le> bf q w h a p \<and> bf q w h a p < q"
  by (simp add: bf_def Let_def)

lemma div_block: "t * n \<le> p \<Longrightarrow> p < t * n + n \<Longrightarrow> p div n = (t :: nat)"
  by (intro div_nat_eqI) (simp_all add: algebra_simps)

lemma butterfly_loop:
  assumes "i + 2 * h \<le> length a" "m \<le> h" "1 < q"
  shows "\<exists>a'. fold (butterfly q w i (2 * h)) [0..<m] (a, 1) = (a', w ^ m mod q) \<and> length a' = length a \<and>
    (\<forall>p < length a. a' ! p =
       (if i \<le> p \<and> p < i + m then (a ! p + a ! (p + h) * (w ^ (p - i) mod q) mod q) mod q
        else if i + h \<le> p \<and> p < i + h + m then (a ! (p - h) - a ! p * (w ^ (p - i - h) mod q) mod q) mod q
        else a ! p))"
  using assms(2)
proof (induction m)
  case 0
  then show ?case using assms(3) by auto
next
  case (Suc m)
  then obtain a' where a': "fold (butterfly q w i (2 * h)) [0..<m] (a, 1) = (a', w ^ m mod q)" "length a' = length a"
    "\<And>p. p < length a \<Longrightarrow> a' ! p =
       (if i \<le> p \<and> p < i + m then (a ! p + a ! (p + h) * (w ^ (p - i) mod q) mod q) mod q
        else if i + h \<le> p \<and> p < i + h + m then (a ! (p - h) - a ! p * (w ^ (p - i - h) mod q) mod q) mod q
        else a ! p)"
    by auto
  have b: "i + m < length a" "i + m + h < length a" "m < h"
    using assms(1) Suc.prems by auto
  have old: "a' ! (i + m) = a ! (i + m)" "a' ! (i + m + h) = a ! (i + m + h)"
    using a'(3)[of "i + m"] a'(3)[of "i + m + h"] b by auto
  let ?v = "a ! (i + m + h) * (w ^ m mod q) mod q"
  let ?b = "a'[i + m := (a ! (i + m) + ?v) mod q, i + m + h := (a ! (i + m) - ?v) mod q]"
  have "fold (butterfly q w i (2 * h)) [0..<Suc m] (a, 1) = (?b, w ^ Suc m mod q)"
    using a'(1) old by (simp add: butterfly_def Let_def mod_mult_left_eq power_Suc2 del: power_Suc)
  moreover have "?b ! p =
       (if i \<le> p \<and> p < i + Suc m then (a ! p + a ! (p + h) * (w ^ (p - i) mod q) mod q) mod q
        else if i + h \<le> p \<and> p < i + h + Suc m then (a ! (p - h) - a ! p * (w ^ (p - i - h) mod q) mod q) mod q
        else a ! p)" if p: "p < length a" for p
  proof -
    consider "p = i + m" | "p = i + m + h" | "p \<noteq> i + m" "p \<noteq> i + m + h" by blast
    then show ?thesis
    proof cases
      case 1
      then show ?thesis using b a'(2) by simp
    next
      case 2
      then show ?thesis using b a'(2) by simp
    next
      case 3
      then show ?thesis using a'(3)[OF p] by (simp add: nth_list_update)
    qed
  qed
  ultimately show ?case
    using a'(2) by (intro exI[of _ ?b]) simp
qed

lemma ntt_block_nth:
  assumes "t * (2 * h) + 2 * h \<le> length a" "0 < h" "1 < q"
  shows "length (ntt_block q w (2 * h) (t * (2 * h)) a) = length a \<and>
    (\<forall>p < length a. ntt_block q w (2 * h) (t * (2 * h)) a ! p =
       (if p div (2 * h) = t then bf q w h a p else a ! p))"
proof -
  let ?i = "t * (2 * h)"
  obtain a' where a': "fold (butterfly q w ?i (2 * h)) [0..<h] (a, 1) = (a', w ^ h mod q)" "length a' = length a"
    "\<And>p. p < length a \<Longrightarrow> a' ! p =
       (if ?i \<le> p \<and> p < ?i + h then (a ! p + a ! (p + h) * (w ^ (p - ?i) mod q) mod q) mod q
        else if ?i + h \<le> p \<and> p < ?i + h + h then (a ! (p - h) - a ! p * (w ^ (p - ?i - h) mod q) mod q) mod q
        else a ! p)"
    using butterfly_loop[OF assms(1) order_refl assms(3), of w] by auto
  have "a' ! p = (if p div (2 * h) = t then bf q w h a p else a ! p)" if p: "p < length a" for p
  proof (cases "p div (2 * h) = t")
    case True
    then have e: "p = ?i + p mod (2 * h)"
      by (metis div_mult_mod_eq)
    define r where "r = p mod (2 * h)"
    have "r < 2 * h" "p = ?i + r"
      using e assms(2) by (simp_all add: r_def)
    then show ?thesis
      using True a'(3)[OF p] by (simp add: bf_def Let_def r_def[symmetric] not_less)
  next
    case False
    then have "\<not> (?i \<le> p \<and> p < ?i + h)" "\<not> (?i + h \<le> p \<and> p < ?i + h + h)"
      using div_block[of t "2 * h" p] by auto
    then show ?thesis
      unfolding a'(3)[OF p] using False by (simp only: if_False simp_thms)
  qed
  then show ?thesis
    using a'(1,2) by (simp add: ntt_block_def)
qed

lemma ntt_stage_nth:
  assumes "length a = c * (2 * h)" "0 < h" "1 < q"
  shows "length (ntt_stage q w (2 * h) a) = length a \<and>
    (\<forall>p < length a. ntt_stage q w (2 * h) a ! p = bf q w h a p)"
proof -
  have "length (fold (ntt_block q w (2 * h)) (map (\<lambda>t. t * (2 * h)) [0..<T]) a) = length a \<and>
    (\<forall>p < length a. fold (ntt_block q w (2 * h)) (map (\<lambda>t. t * (2 * h)) [0..<T]) a ! p =
       (if p div (2 * h) < T then bf q w h a p else a ! p))" if "T \<le> c" for T
    using that
  proof (induction T)
    case (Suc T)
    define x where "x = fold (ntt_block q w (2 * h)) (map (\<lambda>t. t * (2 * h)) [0..<T]) a"
    have x: "length x = length a"
        "\<And>p. p < length a \<Longrightarrow> x ! p = (if p div (2 * h) < T then bf q w h a p else a ! p)"
      using Suc by (simp_all add: x_def)
    have "(T + 1) * (2 * h) \<le> c * (2 * h)"
      using Suc.prems by (intro mult_right_mono) auto
    then have fit: "T * (2 * h) + 2 * h \<le> length x"
      using x(1) assms(1) by simp
    note b = ntt_block_nth[OF fit assms(2,3), of w]
    have same: "bf q w h x p = bf q w h a p" if p: "p < length a" "p div (2 * h) = T" for p
    proof -
      define r where "r = p mod (2 * h)"
      have r: "p = T * (2 * h) + r" "r < 2 * h"
        using p(2) assms(2) div_mult_mod_eq[of p "2 * h"] by (simp_all add: r_def)
      have "(p + h) div (2 * h) = T" if "r < h"
        using that r assms(2) by (intro div_block) auto
      moreover have "p + h < length a" if "r < h"
        using that fit r x(1) by simp
      moreover have "(p - h) div (2 * h) = T" if "\<not> r < h"
        using that r assms(2) by (intro div_block) linarith+
      ultimately show ?thesis
        using p x(2) by (simp add: bf_def r_def[symmetric] Let_def)
    qed
    have e: "fold (ntt_block q w (2 * h)) (map (\<lambda>t. t * (2 * h)) [0..<Suc T]) a = ntt_block q w (2 * h) (T * (2 * h)) x"
      by (simp add: x_def)
    show ?case
      unfolding e using b x same by (auto simp: less_Suc_eq)
  qed simp
  from this[of c] have "length (fold (ntt_block q w (2 * h)) (map (\<lambda>t. t * (2 * h)) [0..<c]) a) = length a \<and>
    (\<forall>p < length a. fold (ntt_block q w (2 * h)) (map (\<lambda>t. t * (2 * h)) [0..<c]) a ! p =
       (if p div (2 * h) < c then bf q w h a p else a ! p))"
    by simp
  moreover have "p div (2 * h) < c" if "p < length a" for p
    using that assms(1) by (simp add: less_mult_imp_div_less)
  moreover have "(length a + 2 * h - 1) div (2 * h) = c"
    using assms(1,2) by (intro div_block) simp_all
  ultimately show ?thesis
    by (simp add: ntt_stage_def)
qed

subsection \<open>Decimation in time\<close>

definition dec :: "int list \<Rightarrow> nat \<Rightarrow> nat \<Rightarrow> nat \<Rightarrow> int list" where
  "dec A r st c = map (\<lambda>j. A ! (r + j * st)) [0..<c]"

lemma dec_Suc: "dec A r st (Suc c) = dec A r st c @ [A ! (r + c * st)]"
  by (simp add: dec_def)

lemma length_dec [simp]: "length (dec A r st c) = c"
  by (simp add: dec_def)

lemma dec_split:
  "peval (dec A r st (2 * c)) x = peval (dec A r (2 * st) c) (x * x) + x * peval (dec A (r + st) (2 * st) c) (x * x)"
proof (induction c)
  case (Suc c)
  have "r + 2 * c * st = r + c * (2 * st)" "r + Suc (2 * c) * st = r + st + c * (2 * st)"
    by simp_all
  then have "peval (dec A r st (2 * Suc c)) x =
      peval (dec A r st (2 * c)) x + x ^ (2 * c) * (A ! (r + c * (2 * st)) + x * A ! (r + st + c * (2 * st)))"
    by (simp add: dec_Suc peval_append algebra_simps)
  moreover have "x ^ (2 * c) = (x * x) ^ c"
    by (simp only: power_mult power2_eq_square)
  ultimately show ?case
    using Suc by (simp add: dec_Suc peval_append algebra_simps)
qed (simp add: dec_def)

lemma dec_all: "dec A 0 1 (length A) = A"
  by (simp add: dec_def map_nth)

text \<open>
  A family of roots: \<open>W s\<close> is a principal root for transforms of length \<open>2^s\<close>, squaring goes down
  one level, and the root of length two is -1. No primality of \<open>q\<close> is used.
\<close>

definition root_family :: "int \<Rightarrow> (nat \<Rightarrow> int) \<Rightarrow> nat \<Rightarrow> bool" where
  "root_family q W m \<longleftrightarrow> W 0 mod q = 1 mod q \<and> (0 < m \<longrightarrow> W 1 mod q = (- 1) mod q) \<and>
     (\<forall>s < m. (W (Suc s) * W (Suc s)) mod q = W s mod q)"

lemma root_family_pow:
  assumes "root_family q W m" "s + k \<le> m"
  shows "W (s + k) ^ (2 ^ k) mod q = W s mod q"
  using assms(2)
proof (induction k)
  case (Suc k)
  have "W (s + Suc k) ^ (2 ^ Suc k) mod q = (W (Suc (s + k)) * W (Suc (s + k))) ^ (2 ^ k) mod q"
    by (simp add: power_mult power2_eq_square)
  also have "\<dots> = W (s + k) ^ (2 ^ k) mod q"
    using assms(1) Suc.prems by (intro mod_cong_power) (simp add: root_family_def)
  finally show ?case
    using Suc by simp
qed simp

lemma root_family_half:
  assumes "root_family q W m" "Suc s \<le> m"
  shows "W (Suc s) ^ (2 ^ s) mod q = (- 1) mod q"
  using root_family_pow[OF assms(1), of 1 s] assms by (simp add: root_family_def)

text \<open>One stage carries the values of the decimated polynomials up one level.\<close>

definition dit_inv :: "int \<Rightarrow> (nat \<Rightarrow> int) \<Rightarrow> nat \<Rightarrow> int list \<Rightarrow> nat \<Rightarrow> int list \<Rightarrow> bool" where
  "dit_inv q W m A s a \<longleftrightarrow> length a = 2 ^ m \<and>
     (\<forall>b < 2 ^ (m - s). \<forall>k < 2 ^ s. a ! (b * 2 ^ s + k) mod q =
        peval (dec A (bitrev (m - s) b) (2 ^ (m - s)) (2 ^ s)) (W s ^ k) mod q)"

lemma dit_stage:
  assumes "dit_inv q W m A s a" "s < m" "root_family q W m" "1 < q" "w mod q = W (Suc s) mod q"
  shows "dit_inv q W m A (Suc s) (ntt_stage q w (2 ^ Suc s) a) \<and> reduced q (ntt_stage q w (2 ^ Suc s) a)"
proof -
  let ?h = "2 ^ s :: nat" and ?d = "m - Suc s" and ?a = "ntt_stage q w (2 ^ Suc s) a"
  have len: "length a = 2 ^ m"
    using assms(1) by (simp add: dit_inv_def)
  have "2 ^ m = 2 ^ ?d * (2 * ?h)"
    using assms(2) by (simp add: power_Suc[symmetric] power_add[symmetric] del: power_Suc)
  then have la: "length a = 2 ^ ?d * (2 * ?h)"
    using len by simp
  from ntt_stage_nth[OF la _ assms(4), of w] have st: "length ?a = length a" "\<forall>p < length a. ?a ! p = bf q w ?h a p"
    by simp_all
  have "reduced q ?a"
    unfolding reduced_def all_set_conv_all_nth using st bf_range[OF assms(4)] by simp
  moreover have "?a ! (b * 2 ^ Suc s + k) mod q =
      peval (dec A (bitrev ?d b) (2 ^ ?d) (2 ^ Suc s)) (W (Suc s) ^ k) mod q"
    if b: "b < 2 ^ ?d" and k: "k < 2 ^ Suc s" for b k
  proof -
    have p: "b * 2 ^ Suc s + k < length a"
    proof -
      have "(b + 1) * (2 * ?h) \<le> 2 ^ ?d * (2 * ?h)"
        using b by (intro mult_right_mono) auto
      then show ?thesis using k la by (simp add: algebra_simps)
    qed
    define r where "r = (if k < ?h then k else k - ?h)"
    have r: "r < ?h" "k = r \<or> k = r + ?h"
      using k by (auto simp: r_def)
    define E where "E = dec A (bitrev ?d b) (2 * 2 ^ ?d) ?h"
    define O' where "O' = dec A (bitrev ?d b + 2 ^ ?d) (2 * 2 ^ ?d) ?h"
    have ms: "m - s = Suc ?d" using assms(2) by simp
    have "2 * b < 2 ^ (m - s)" "2 * b + 1 < 2 ^ (m - s)"
      using b ms by auto
    moreover have "bitrev (m - s) (2 * b) = bitrev ?d b" "bitrev (m - s) (2 * b + 1) = bitrev ?d b + 2 ^ ?d"
      by (simp_all add: ms)
    moreover have inv: "a ! (b * 2 ^ s + k) mod q =
        peval (dec A (bitrev (m - s) b) (2 ^ (m - s)) (2 ^ s)) (W s ^ k) mod q"
      if "b < 2 ^ (m - s)" "k < 2 ^ s" for b k
      using assms(1) that unfolding dit_inv_def by blast
    moreover have "2 ^ (m - s) = 2 * (2 ^ ?d :: nat)"
      by (simp add: ms)
    ultimately have u: "a ! (2 * b * ?h + r) mod q = peval E (W s ^ r) mod q"
      and v: "a ! ((2 * b + 1) * ?h + r) mod q = peval O' (W s ^ r) mod q"
      using inv[of "2 * b" r] inv[of "2 * b + 1" r] r(1) by (simp_all only: E_def O'_def)
    define x where "x = W (Suc s) ^ r"
    have xx: "(x * x) mod q = W s ^ r mod q"
      unfolding x_def power_mult_distrib[symmetric]
      using assms(2,3) by (intro mod_cong_power) (simp add: root_family_def)
    have u': "a ! (2 * b * ?h + r) mod q = peval E (x * x) mod q"
      and v': "a ! ((2 * b + 1) * ?h + r) mod q = peval O' (x * x) mod q"
      using u v peval_mod_cong[OF xx] by simp_all
    have wr: "w ^ r mod q = x mod q"
      unfolding x_def using assms(5) by (rule mod_cong_power)
    have pm: "(b * 2 ^ Suc s + k) mod (2 * ?h) = k"
      using k by simp
    show ?thesis
    proof (cases "k < ?h")
      case True
      then have kr: "k = r" by (simp add: r_def)
      have "?a ! (b * 2 ^ Suc s + k) mod q =
          (a ! (2 * b * ?h + r) + a ! ((2 * b + 1) * ?h + r) * (w ^ r mod q)) mod q"
      proof -
        have e: "b * 2 ^ Suc s + k = 2 * b * ?h + r" "2 * b * ?h + r + ?h = (2 * b + 1) * ?h + r"
          by (simp_all add: kr algebra_simps)
        have "?a ! (b * 2 ^ Suc s + k) = bf q w ?h a (b * 2 ^ Suc s + k)"
          using st(2) p by blast
        also have "\<dots> = (a ! (2 * b * ?h + r) + a ! ((2 * b + 1) * ?h + r) * (w ^ r mod q) mod q) mod q"
          unfolding bf_def Let_def pm using r(1) by (simp only: kr e[unfolded kr] if_True)
        finally show ?thesis
          by (simp only: mod_mod_trivial mod_add_right_eq)
      qed
      also have "\<dots> = (peval E (x * x) + peval O' (x * x) * x) mod q"
        using u' v' wr by (intro mod_cong_add mod_cong_mult) simp_all
      also have "peval E (x * x) + peval O' (x * x) * x = peval (dec A (bitrev ?d b) (2 ^ ?d) (2 ^ Suc s)) x"
        unfolding E_def O'_def by (simp add: dec_split)
      finally show ?thesis by (simp add: kr x_def)
    next
      case False
      then have kr: "k = r + ?h" by (simp add: r_def)
      have "?a ! (b * 2 ^ Suc s + k) mod q =
          (a ! (2 * b * ?h + r) - a ! ((2 * b + 1) * ?h + r) * (w ^ r mod q)) mod q"
      proof -
        have e: "b * 2 ^ Suc s + k = (2 * b + 1) * ?h + r" "(2 * b + 1) * ?h + r - ?h = 2 * b * ?h + r" "k - ?h = r"
          by (simp_all add: kr algebra_simps)
        have "?a ! (b * 2 ^ Suc s + k) = bf q w ?h a (b * 2 ^ Suc s + k)"
          using st(2) p by blast
        also have "\<dots> = (a ! (2 * b * ?h + r) - a ! ((2 * b + 1) * ?h + r) * (w ^ r mod q) mod q) mod q"
          unfolding bf_def Let_def pm using False by (simp only: e if_False)
        finally show ?thesis
          by (simp only: mod_mod_trivial mod_diff_right_eq)
      qed
      also have "\<dots> = (peval E (x * x) - peval O' (x * x) * x) mod q"
        using u' v' wr by (intro mod_cong_diff mod_cong_mult) simp_all
      also have "peval E (x * x) - peval O' (x * x) * x = peval (dec A (bitrev ?d b) (2 ^ ?d) (2 ^ Suc s)) (- x)"
        unfolding E_def O'_def by (simp add: dec_split)
      also have "\<dots> mod q = peval (dec A (bitrev ?d b) (2 ^ ?d) (2 ^ Suc s)) (W (Suc s) ^ k) mod q"
      proof (rule peval_mod_cong)
        have "(x * W (Suc s) ^ ?h) mod q = (x * (- 1)) mod q"
          using root_family_half[OF assms(3), of s] assms(2) by (intro mod_cong_mult) simp_all
        then show "(- x) mod q = W (Suc s) ^ k mod q"
          by (simp add: kr x_def power_add)
      qed
      finally show ?thesis .
    qed
  qed
  ultimately show ?thesis
    using st(1) len by (simp add: dit_inv_def)
qed

lemma dit_start:
  assumes "length A = 2 ^ m"
  shows "dit_inv q W m A 0 (bit_reverse A)"
  using bit_reverse_spec[OF assms] by (simp add: dit_inv_def dec_def)

lemma dit_end:
  assumes "dit_inv q W m A m a" "length A = 2 ^ m" "k < 2 ^ m"
  shows "a ! k mod q = peval A (W m ^ k) mod q"
  using assms dec_all[of A] by (simp add: dit_inv_def)

subsection \<open>Orthogonality\<close>

lemma sum_split_at:
  fixes f :: "nat \<Rightarrow> int"
  shows "(\<Sum>k < m + n. f k) = (\<Sum>k < m. f k) + (\<Sum>k < n. f (m + k))"
  by (induction n) simp_all

lemma sum_double: "(\<Sum>k < 2 * n. z ^ k) = (1 + z ^ n) * (\<Sum>k < n. z ^ k :: int)"
  using sum_split_at[of "\<lambda>k. z ^ k" n n]
  by (simp add: mult_2 power_add distrib_right sum_distrib_left[symmetric])

lemma geometric_vanishes:
  fixes w :: int
  assumes "w ^ (2 ^ m) mod q = (- 1) mod q" "0 < d" "d < 2 ^ Suc m"
  shows "(\<Sum>k < 2 ^ Suc m. (w ^ d) ^ k) mod q = 0"
  using assms
proof (induction m arbitrary: w d)
  case 0
  then have "d = 1" by simp
  then show ?case
    using 0 by (simp add: numeral_2_eq_2) (metis add.commute add.right_inverse mod_0 mod_add_right_eq)
next
  case (Suc m)
  define N :: nat where "N = 2 ^ Suc m"
  have s: "(\<Sum>k < 2 ^ Suc (Suc m). (w ^ d) ^ k) = (1 + (w ^ d) ^ N) * (\<Sum>k < N. (w ^ d) ^ k)"
    using sum_double[of "w ^ d" N] by (simp add: N_def)
  show ?case
  proof (cases "odd d")
    case True
    have "(w ^ d) ^ N mod q = (w ^ N) ^ d mod q"
      by (simp add: power_mult[symmetric] mult.commute)
    also have "\<dots> = (- 1) ^ d mod q"
      using Suc.prems(1) unfolding N_def by (rule mod_cong_power)
    finally have "(1 + (w ^ d) ^ N) mod q = (1 + (- 1) ^ d) mod q"
      by (intro mod_cong_add) simp_all
    then have "(1 + (w ^ d) ^ N) mod q = 0"
      using True by simp
    then show ?thesis
      unfolding s by (simp add: mod_eq_0_iff_dvd)
  next
    case False
    then have "even d" by simp
    then obtain e where e: "d = 2 * e" by (elim evenE)
    have "(w * w) ^ (2 ^ m) mod q = (- 1) mod q"
      using Suc.prems(1) by (simp add: power_mult power2_eq_square)
    then have "(\<Sum>k < N. ((w * w) ^ e) ^ k) mod q = 0"
      using Suc.IH[of "w * w" e] Suc.prems(2,3) e by (simp add: N_def)
    moreover have "(w * w) ^ e = w ^ d"
      by (simp add: e power_mult power2_eq_square)
    ultimately show ?thesis
      unfolding s by (simp add: mod_eq_0_iff_dvd)
  qed
qed

text \<open>Two mutually inverse roots of the order of the transform.\<close>

definition root_pair :: "int \<Rightarrow> nat \<Rightarrow> int \<Rightarrow> int \<Rightarrow> bool" where
  "root_pair q m w v \<longleftrightarrow> (w * v) mod q = 1 mod q \<and>
     (0 < m \<longrightarrow> w ^ (2 ^ (m - 1)) mod q = (- 1) mod q \<and> v ^ (2 ^ (m - 1)) mod q = (- 1) mod q)"

lemma root_pair_sym: "root_pair q m w v \<Longrightarrow> root_pair q m v w"
  by (simp add: root_pair_def mult.commute)

lemma root_pair_sum:
  assumes "root_pair q m w v" "i < 2 ^ m" "j < 2 ^ m"
  shows "(\<Sum>k < 2 ^ m. (w ^ i * v ^ j) ^ k) mod q = (if i = j then 2 ^ m else 0) mod q"
proof -
  have pw: "(w ^ t * v ^ t) mod q = 1 mod q" for t
    using mod_cong_power[of "w * v" q 1 t] assms(1) by (simp add: root_pair_def power_mult_distrib)
  consider "i = j" | "j < i" | "i < j" by linarith
  then show ?thesis
  proof cases
    case 1
    have "(\<Sum>k < 2 ^ m. (w ^ i * v ^ j) ^ k) mod q = (\<Sum>k < (2 ^ m :: nat). 1 ^ k) mod q"
      using pw[of i] 1 by (intro mod_cong_sum mod_cong_power) simp
    then show ?thesis using 1 by simp
  next
    case 2
    then obtain m' where m: "m = Suc m'" using assms(2) by (cases m) auto
    have "(w ^ i * v ^ j) mod q = (w ^ (i - j) * (w ^ j * v ^ j)) mod q"
      using 2 by (simp add: power_add[symmetric] mult.assoc[symmetric])
    also have "\<dots> = (w ^ (i - j) * 1) mod q"
      using pw[of j] by (intro mod_cong_mult) simp_all
    finally have "(\<Sum>k < 2 ^ m. (w ^ i * v ^ j) ^ k) mod q = (\<Sum>k < 2 ^ m. (w ^ (i - j)) ^ k) mod q"
      by (intro mod_cong_sum mod_cong_power) simp
    also have "\<dots> = 0"
      using assms 2 unfolding m by (intro geometric_vanishes) (auto simp: root_pair_def)
    finally show ?thesis using 2 by simp
  next
    case 3
    then obtain m' where m: "m = Suc m'" using assms(3) by (cases m) auto
    have "(w ^ i * v ^ j) mod q = (v ^ (j - i) * (w ^ i * v ^ i)) mod q"
      using 3 by (simp add: power_add[symmetric] mult.left_commute)
    also have "\<dots> = (v ^ (j - i) * 1) mod q"
      using pw[of i] by (intro mod_cong_mult) simp_all
    finally have "(\<Sum>k < 2 ^ m. (w ^ i * v ^ j) ^ k) mod q = (\<Sum>k < 2 ^ m. (v ^ (j - i)) ^ k) mod q"
      by (intro mod_cong_sum mod_cong_power) simp
    also have "\<dots> = 0"
      using assms 3 unfolding m by (intro geometric_vanishes) (auto simp: root_pair_def)
    finally show ?thesis using 3 by simp
  qed
qed

lemma dft_inverse:
  assumes "root_pair q m w v" "length A = 2 ^ m" "length Y = 2 ^ m" "j < 2 ^ m"
    and "\<And>k. k < 2 ^ m \<Longrightarrow> Y ! k mod q = peval A (w ^ k) mod q"
  shows "peval Y (v ^ j) mod q = (2 ^ m * A ! j) mod q"
proof -
  let ?n = "2 ^ m :: nat"
  have "peval Y (v ^ j) mod q = (\<Sum>k < ?n. (\<Sum>i < ?n. A ! i * (w ^ k) ^ i) * (v ^ j) ^ k) mod q"
    unfolding peval_eq_sum assms(3)
    using assms(2,5) by (intro mod_cong_sum mod_cong_mult) (simp_all add: peval_eq_sum)
  also have "(\<Sum>k < ?n. (\<Sum>i < ?n. A ! i * (w ^ k) ^ i) * (v ^ j) ^ k) = (\<Sum>i < ?n. A ! i * (\<Sum>k < ?n. (w ^ i * v ^ j) ^ k))"
    unfolding sum_distrib_right sum_distrib_left
    by (subst sum.swap) (simp add: power_mult_distrib power_mult[symmetric] mult.commute mult.left_commute)
  also have "\<dots> mod q = (\<Sum>i < ?n. A ! i * (if i = j then 2 ^ m else 0)) mod q"
    using root_pair_sum[OF assms(1)] assms(4) by (intro mod_cong_sum mod_cong_mult) auto
  also have "(\<Sum>i < ?n. A ! i * (if i = j then 2 ^ m else 0)) = 2 ^ m * A ! j"
    using assms(4) by (simp add: if_distrib[of "(*) _"] cong: if_cong)
  finally show ?thesis .
qed

subsection \<open>The fixed prime\<close>

text \<open>
  \<open>2^64\<close> divides \<open>q - 1\<close>, and 3 is a non-residue: \<open>3^((q-1)/2) = -1\<close>. These two computed facts are
  all the transform needs.
\<close>

text \<open>
  A chain of squarings with the quotients supplied, so that each step is one multiplication and
  one comparison: \<open>(odd, k, r)\<close> claims that \<open>h * h\<close>, times the base if \<open>odd\<close>, is \<open>m * k + r\<close>.
\<close>

fun square_chain :: "int \<Rightarrow> int \<Rightarrow> int \<Rightarrow> (bool \<times> int \<times> int) list \<Rightarrow> int option" where
  "square_chain b m h [] = Some h"
| "square_chain b m h ((c, k, r) # cs) =
     (if h * h * (if c then b else 1) = m * k + r then square_chain b m r cs else None)"

fun chain_exponent :: "nat \<Rightarrow> (bool \<times> int \<times> int) list \<Rightarrow> nat" where
  "chain_exponent e [] = e"
| "chain_exponent e ((c, k, r) # cs) = chain_exponent (2 * e + (if c then 1 else 0)) cs"

lemma square_chain_power:
  assumes "square_chain b m h cs = Some x" "b ^ e mod m = h mod m"
  shows "b ^ chain_exponent e cs mod m = x mod m"
  using assms
proof (induction cs arbitrary: h e)
  case (Cons s cs)
  obtain c k r where s: "s = (c, k, r)" by (cases s)
  have step: "h * h * (if c then b else 1) = m * k + r" "square_chain b m r cs = Some x"
    using Cons.prems(1) by (auto simp: s split: if_splits)
  have "b ^ (2 * e + (if c then 1 else 0)) = b ^ e * b ^ e * (if c then b else 1)"
    by (simp add: power_add mult_2)
  also have "\<dots> mod m = (h * h * (if c then b else 1)) mod m"
    using Cons.prems(2) by (intro mod_cong_mult) simp_all
  also have "\<dots> = r mod m"
    by (simp add: step(1))
  finally show ?case
    using Cons.IH[OF step(2)] by (simp add: s)
qed simp

definition pow3 :: "nat \<Rightarrow> int" where
  "pow3 e = 3 ^ e mod ntt128_prime"

lemma pow3_chain:
  assumes "square_chain 3 ntt128_prime h cs = Some x" "pow3 e = h" "chain_exponent e cs = e'"
    and "0 \<le> x" "x < ntt128_prime"
  shows "pow3 e' = x"
proof -
  have "3 ^ e mod ntt128_prime = h mod ntt128_prime"
    using assms(2) by (auto simp: pow3_def)
  from square_chain_power[OF assms(1) this] show ?thesis
    using assms(3-5) by (simp add: pow3_def)
qed

lemma pow3_part1: "pow3 4294967296 = 150189137049559859638640384334626985151"
proof (rule pow3_chain)
  show "square_chain 3 ntt128_prime 3
    [(False, 0, 9),
     (False, 0, 81),
     (False, 0, 6561),
     (False, 0, 43046721),
     (False, 0, 1853020188851841),
     (False, 0, 3433683820292512484657849089281),
     (False, 69296476831418808552043, 70285953908777477995565678986968313750),
     (False, 29035388236937844112115688232802409470, 107522404173075658165245296150001422310),
     (False, 67949847085931122032909710519182520453, 25828733182657702365652384263711052319),
     (False, 3920999279847628384658843525888132704, 158212481298670977843221787168317184353),
     (False, 147120107722173477451372496497558748864, 76264637353843001188883247057417082881),
     (False, 34185109051298851446147675638036076353, 96758451558923450753450298743016102080),
     (False, 55026053996243408597190814869076113073, 12098484831390525798637495748957804879),
     (False, 860305143283519959064407047201059451, 151360535333291151140099360161174000614),
     (False, 134652946396740053796284451056509217013, 140212950465050377414497130552326130095),
     (False, 115549163807729231842228973261061217119, 120888346380739509312439759017438276162),
     (False, 85893326903213203156405900106462287242, 88575018914878090752513724453365638010),
     (False, 46111904338515727493778095117646299207, 132543730495035762064616465108242372061),
     (False, 103254486281520441456449700875308110815, 159400338669923838143945943105657695466),
     (False, 149337552797673145167702884048238463389, 17004778485544799489488205665470610503),
     (False, 1699544375213727002768584788691521588, 1479427917691319558127458775848766333),
     (False, 12864063356847403686792734804808949, 39076686277736125760712985313759684116),
     (False, 8974825373795478299812920642500211840, 58441928949615366212355093495685397776),
     (False, 20074264148664756914149070616171299654, 166993340315393828954707540023123762618),
     (False, 163903736546961179402207585414898800883, 122026837690537369562682557046995178033),
     (False, 87518781836923311111595749897321376005, 77657578279164695052303778121539290204),
     (False, 35445265758279921638838267325634944845, 134609240333495652508478392447514010051),
     (False, 106497716864481133860890629802680463893, 99254038414338039689464130524236621940),
     (False, 57901114481455142378729296266345298356, 106864091274315414336734809277132487388),
     (False, 67120339541652091534354973676757843438, 18783239060811877246021855577039728418),
     (False, 2073631218731832117258955585746293622, 100193249753905337690912982647938985230),
     (False, 59002101032057593141871711828953618437, 150189137049559859638640384334626985151)] = Some 150189137049559859638640384334626985151"
    by (simp add: ntt128_prime_def)
  show "pow3 1 = 3"
    by (simp add: pow3_def ntt128_prime_def)
qed (simp_all add: ntt128_prime_def)

lemma pow3_part2: "pow3 18446744073709551722 = 118969741317218048184888579511707462973"
proof (rule pow3_chain)
  show "square_chain 3 ntt128_prime 150189137049559859638640384334626985151
    [(False, 132576819021200340253028621184155334148, 129851282359881278738819850063549051005),
     (False, 99102140866577424637375717783307468382, 108447396519384960461722380371277668011),
     (False, 69123992043732513949009588565626299635, 1706125615238398244077831085892198726),
     (False, 17108524554543938678392047161761884, 17148145695615828581098874729348808),
     (False, 1728322883485699975745081282989, 64640026786384292833303386631978085011),
     (False, 24558034556726101749787486045881394766, 132728543002760497277705039430501837339),
     (False, 103542633061141027595224972182360571100, 118354899221142775773730892511134196221),
     (False, 82330931787020675900947522854438823198, 112949938848730674074336956202563817195),
     (False, 74982954899312384834926267391430866040, 40958631954671646940870230875021530945),
     (False, 9860102636396829581274782717010146237, 87014976641565165896731658488770644676),
     (False, 44501901338257269988248127970040476363, 114459386722048974046606296281077773125),
     (False, 77000470681640983599652918718338703648, 1761037866940331018943728753817022329),
     (False, 18227534954923476603992010944980823, 123729470491755571379586147086096170970),
     (False, 89978108514374571418468685503719390739, 18450912154513616719168970360908433297),
     (False, 2000903910561287358789348264962647516, 115606135209801416465005980506537220677),
     (False, 78551108122814206060407121791856265914, 88257168407488963935423497857447414751),
     (False, 45781553982887676452172262687801320790, 118277049406122861402089995054825064171),
     (False, 82222658451583846531507982690432617689, 106095139103592998177650683312929099488),
     (False, 66157871436376951692568213168433252077, 58980013112958923561687125720577572115),
     (False, 20445619785012472367470516232354480698, 122404036018594919463007820974448332079),
     (False, 88060678366696494544187468139832342106, 148534023940467521386321308435669342279),
     (False, 129670875794004148352256452612455994667, 45575437950233452333135150165535477382),
     (False, 12208217329334492289020926744966327709, 27134205927118585696097169141169258631),
     (False, 4327377512725141824107942240669845830, 102271195355081469404831866559508086251),
     (False, 61474812779748790457253739638738784129, 22567895681895814738037595065335629368),
     (True, 8980363927477887558205211730769966993, 162646162545554435491151559206400068911),
     (True, 466443931788117777979417155401640905020, 90994502201894831179662541529613165223),
     (False, 48665462779588731167650822060369603551, 70442674549090986541382857268555210002),
     (True, 87495049053459766813928916832193521409, 26039707669041089801932925038794479819),
     (False, 3985315969350007163821393459182452042, 71213010210918365297626289474287530927),
     (True, 89419140977327792771019525736255015942, 114858646731160164468734119225787205853),
     (False, 77538597420057383022035618012839453068, 118969741317218048184888579511707462973)] = Some 118969741317218048184888579511707462973"
    by (simp add: ntt128_prime_def)
  show "pow3 4294967296 = 150189137049559859638640384334626985151"
    by (rule pow3_part1)
qed (simp_all add: ntt128_prime_def)

lemma pow3_part3: "pow3 39614081257132169024405241856 = 55584354710996144147779103951000329702"
proof (rule pow3_chain)
  show "square_chain 3 ntt128_prime 118969741317218048184888579511707462973
    [(False, 83188555887612516876773312927650763586, 75519848643556902480533214980305300807),
     (False, 33520676318034671355626290326524986395, 136409562354817358985112702158924285334),
     (False, 109365459457710341550924308297047897015, 113802737932324728587060385735358201901),
     (False, 76119507913864042181352626011078973736, 106128552072317664691813824042422939329),
     (False, 66199548727034457452394341929361235538, 103067767839550945068439061711890714415),
     (False, 62436175365476530881325911126672364477, 13808779425071393774098543979590727396),
     (False, 1120730356589875156855249390644159219, 112756456918836373488628513057933236253),
     (False, 74726285066915562314014395765827499039, 105042827001357594133094392064664043306),
     (False, 64851996912321873261176262312603327858, 91975071631837648265974290767569229170),
     (False, 49719965675724448640127592781450601546, 53657807488295087404887764996434920058),
     (False, 16922183364969265357915819628031740799, 133643690416292679406768585431761983141),
     (False, 104975383530440983577040724232777636366, 157418480189791357637695307446658509899),
     (False, 145647146688745570946632979811317245235, 53137496316833190116122751812704401606),
     (False, 16595591128455370690766325582100810048, 135846466374532028357561642158783623140),
     (False, 108464406154401425400064275977123035776, 65685557509379663635869490932719356048),
     (False, 25358895345408712940474124601669006082, 17745348645949213430231848651324923390),
     (False, 1850800565516550253681954481792099840, 20012007311827609481524148846102012420),
     (False, 2353812454476606582998331189380770289, 115566925150759177166070035735005308447),
     (False, 78497832900664251163913627008506126155, 2425681822751196481100437247831136374),
     (False, 34582645927067067280115716741966894, 94490561047869549388542360359693494838),
     (False, 52476807469812919337176748947691119323, 66722490585970508375063508448821518473),
     (False, 26165862135485143848775019701266778146, 116643053801715540161470830957017104687),
     (False, 79966541453798250251097996009550169920, 168621975338298574123379177779160588129),
     (False, 167116332381665896764061212303803533448, 15736133328412107937777515944817842745),
     (False, 1455414186578148294202197431827516559, 56591014802045342719436750521518773282),
     (False, 18822855767130578419264662989074546012, 59169651720690723231915649250943113000),
     (False, 20577308876902666385975639564449462759, 88836841717252255514811395216610720857),
     (False, 46384915666992301023930272883124099018, 75302279927304475841322698218804346663),
     (False, 33327811920196244272163603692092204056, 157082513265334188356060584442495210457),
     (False, 145026121670811612291418623282612079971, 72344488806328499162568474972907888782),
     (False, 30761071212749606043127134957969240286, 55584354710996144147779103951000329702)] = Some 55584354710996144147779103951000329702"
    by (simp add: ntt128_prime_def)
  show "pow3 18446744073709551722 = 118969741317218048184888579511707462973"
    by (rule pow3_part2)
qed (simp_all add: ntt128_prime_def)

lemma pow3_part4: "pow3 85070591730234616354682369811245170688 = 170141183460469232709364739622490341376"
proof (rule pow3_chain)
  show "square_chain 3 ntt128_prime 55584354710996144147779103951000329702
    [(False, 18159157152892877690667786732283480074, 132819996470184577752376201310866186906),
     (False, 103685369429904111981889533982732817016, 110356257940741056317841861805411381804),
     (False, 71578811308274100377865718277354853462, 85476774470284537426480909300471997242),
     (False, 42942448296425741003849249020452248087, 35596799146136519926320022992730410765),
     (False, 7447533182022284306122197908134322093, 155806812373302443966373945803584743164),
     (False, 142680110060300161128063309962725127619, 130058803583478012402407128184643539533),
     (False, 99419153232208640954078528229380720738, 138108172562947388635025543774610481863),
     (False, 112106116465967187020870059175264810852, 94302186110390775625721020392237727565),
     (False, 52267782110878313333766734227669566153, 92311481000889653723729784620706216544),
     (False, 50084343785921085030747623768824489606, 140072663986331043413381549530291076474),
     (False, 115318059961574283198514194430488324991, 117602603312901710605060370493205820069),
     (False, 81287622577193854362904021457609685282, 159641774497845627285454486321090651447),
     (False, 149790283848250763678502261253915228091, 108297766785264878602475269473433172502),
     (False, 68933376694188858931471797336088565443, 120604668900601794323030219789213704993),
     (False, 85490684058885119705302214083251785328, 83657855952688482120548743706593213393),
     (False, 41134290477219148807423258641944726723, 144613435559806760946640565080390054878),
     (False, 122915835655212424700448071417770502134, 17494753219649268751323779653484596366),
     (False, 1798896563379907466922914549763637260, 16766011553908732570949962995343498936),
     (False, 1652152275590065826191570631130962237, 107881467849764447580280568654407551747),
     (False, 68404432534841512049861412084235487521, 134553260954577962999404649497169295592),
     (False, 106409157767009362879844875577015121948, 40642795545080218140898207343665388068),
     (False, 9708624309075537812385839828356736978, 6918245442925104701440079556017433918),
     (False, 281308258442167880150476569016532003, 41066961680947810224202940053381242593),
     (False, 9912328734308338434824788409442156077, 12429838877990275923394411266072265620),
     (False, 908074643601473766002379495081739153, 91572979316916859603687407289997150719),
     (False, 49286189095568409694789071328735509443, 2703666874997214481838051223325093950),
     (False, 42963228668593179223913006986170461, 90397187877534377076533972590523137703),
     (False, 48028651323357331506073557598065236822, 51668464412618238040947912553169532315),
     (False, 15690676181162580163481449852770735481, 87626449793522925652318063712772961888),
     (False, 45129547986251075061212108006020111919, 84865701026470410905782706006243952081),
     (False, 42330651898795708710510127781648159905, 170141183460469232709364739622490341376)] = Some 170141183460469232709364739622490341376"
    by (simp add: ntt128_prime_def)
  show "pow3 39614081257132169024405241856 = 55584354710996144147779103951000329702"
    by (rule pow3_part3)
qed (simp_all add: ntt128_prime_def)

lemma ntt128_nonresidue: "pow3 85070591730234616354682369811245170688 = ntt128_prime - 1"
  unfolding pow3_part4 by (simp add: ntt128_prime_def)

lemma ntt128_facts:
  "1 < ntt128_prime" "odd ntt128_prime" "nat (ntt128_prime - 1) = 2 * 85070591730234616354682369811245170688"
  "(2 :: nat) ^ 64 dvd nat (ntt128_prime - 1)"
  by (simp_all add: ntt128_prime_def)

subsection \<open>Roots of the fixed prime\<close>

definition ntt_root :: "nat \<Rightarrow> int" where
  "ntt_root s = pow3 (nat (ntt128_prime - 1) div 2 ^ s)"

lemma ntt_root_sq:
  assumes "s < 64"
  shows "(ntt_root (Suc s) * ntt_root (Suc s)) mod ntt128_prime = ntt_root s mod ntt128_prime"
proof -
  let ?N = "nat (ntt128_prime - 1)"
  have "(2 :: nat) ^ Suc s dvd 2 ^ 64"
    using assms by (intro le_imp_power_dvd) simp
  then have "2 ^ Suc s dvd ?N"
    using ntt128_facts(4) dvd_trans by blast
  then obtain c where "?N = 2 ^ Suc s * c" ..
  then have "?N div 2 ^ s = 2 * (?N div 2 ^ Suc s)"
    by simp
  then have "3 ^ (?N div 2 ^ s) = (3 :: int) ^ (?N div 2 ^ Suc s) * 3 ^ (?N div 2 ^ Suc s)"
    by (simp add: mult_2 power_add)
  then show ?thesis
    unfolding ntt_root_def pow3_def by (simp add: mod_simps)
qed

lemma ntt_root_1: "ntt_root 1 mod ntt128_prime = (- 1) mod ntt128_prime"
proof -
  have "nat (ntt128_prime - 1) div 2 ^ 1 = 85070591730234616354682369811245170688"
    unfolding ntt128_facts(3) by simp
  then have "ntt_root 1 = ntt128_prime - 1"
    unfolding ntt_root_def using ntt128_nonresidue by (simp only:)
  then show ?thesis
    by (metis minus_mod_self1 mod_minus_eq uminus_add_conv_diff add.commute diff_conv_add_uminus)
qed

lemma ntt_root_0: "ntt_root 0 mod ntt128_prime = 1"
proof -
  have "(ntt_root 1 * ntt_root 1) mod ntt128_prime = (- 1 * - 1) mod ntt128_prime"
    by (rule mod_cong_mult; rule ntt_root_1)
  then show ?thesis
    using ntt_root_sq[of 0] ntt128_facts(1) by simp
qed

lemma ntt_root_family: "m \<le> 64 \<Longrightarrow> root_family ntt128_prime ntt_root m"
  using ntt_root_sq ntt_root_0 ntt_root_1 ntt128_facts(1) by (simp add: root_family_def)

lemma ntt_root_range: "0 \<le> ntt_root s \<and> ntt_root s < ntt128_prime"
  using ntt128_facts(1) by (simp add: ntt_root_def pow3_def)

lemma ntt_root_order:
  assumes "m \<le> 64"
  shows "ntt_root m ^ (2 ^ m) mod ntt128_prime = 1"
  using root_family_pow[OF ntt_root_family[OF assms], of 0 m] ntt_root_0 by simp

lemma ntt_primitive_root_eq:
  assumes "ntt_runtime_enabled env" "m \<le> 64"
  shows "ntt_primitive_root env (2 ^ m) ntt128_prime = Inr (if m = 0 then 1 else ntt_root m)"
proof (cases m)
  case 0
  then show ?thesis
    using assms by (simp add: ntt_primitive_root_def ntt_domain_supported_def is_ntt128_prime_def
        is_power_of_two_size_def)
next
  case (Suc k)
  let ?q = ntt128_prime
  have d: "ntt_domain_supported env ?q (2 ^ m)"
    using assms(1) is_power_of_two_size_iff by (auto simp: ntt_domain_supported_def is_ntt128_prime_def)
  have "nat ((?q - 1) div int (2 ^ m)) = nat (?q - 1) div 2 ^ m"
    using ntt128_facts(1) by (simp add: nat_div_distrib nat_power_eq)
  then have r: "powm 3 (nat ((?q - 1) div int (2 ^ m))) ?q = ntt_root m"
    by (simp only: powm_eq ntt_root_def pow3_def)
  have "powm (ntt_root m) (2 ^ m) ?q = 1"
    using ntt_root_order[OF assms(2)] by (simp add: powm_eq)
  moreover have "powm (ntt_root m) (2 ^ m div 2) ?q = ?q - 1"
  proof -
    have "powm (ntt_root m) (2 ^ m div 2) ?q = (- 1) mod ?q"
      using root_family_half[OF ntt_root_family[OF assms(2)], of k] Suc by (simp add: powm_eq)
    also have "\<dots> = ?q - 1"
      using ntt128_facts(1) by (simp add: zmod_minus1)
    finally show ?thesis .
  qed
  moreover have "?q - 1 \<noteq> 1"
    by (simp add: ntt128_prime_def)
  moreover have "(2 :: nat) ^ m \<noteq> 1"
    using Suc by simp
  moreover define n :: nat where "n = 2 ^ m"
  ultimately have n: "ntt_domain_supported env ?q n" "n \<noteq> 1" "powm 3 (nat ((?q - 1) div int n)) ?q = ntt_root m"
      "powm (ntt_root m) n ?q = 1" "powm (ntt_root m) (n div 2) ?q \<noteq> 1"
    using d r by simp_all
  have "ntt_primitive_root env n ?q = Inr (ntt_root m)"
    unfolding ntt_primitive_root_def Let_def n(3) using n(1,2,4,5) by simp
  then show ?thesis
    using Suc by (simp add: n_def)
qed

text \<open>The inverse roots the backward transform computes.\<close>

definition ntt_iroot :: "nat \<Rightarrow> int" where
  "ntt_iroot s = projr (mod_inverse (ntt_root s) ntt128_prime)"

lemma ntt_iroot_props:
  assumes "s \<le> 64"
  shows "mod_inverse (ntt_root s) ntt128_prime = Inr (ntt_iroot s)"
    "(ntt_root s * ntt_iroot s) mod ntt128_prime = 1"
proof -
  have "(ntt_root s * ntt_root s ^ (2 ^ s - 1)) mod ntt128_prime = 1"
    using ntt_root_order[OF assms] by (metis power_minus_mult mult.commute zero_less_power zero_less_numeral)
  then obtain b where b: "mod_inverse (ntt_root s) ntt128_prime = Inr b"
    using mod_inverse_exists[OF ntt128_facts(1)] by blast
  then show "mod_inverse (ntt_root s) ntt128_prime = Inr (ntt_iroot s)"
    by (simp add: ntt_iroot_def)
  then show "(ntt_root s * ntt_iroot s) mod ntt128_prime = 1"
    using mod_inverse_Inr ntt128_facts(1) by blast
qed

lemma inverse_cancel:
  fixes a :: int
  assumes "(a * b) mod q = 1 mod q" "(a * c) mod q = 1 mod q"
  shows "b mod q = c mod q"
proof -
  have "b mod q = ((a * c) * b) mod q"
    using mod_cong_mult[OF assms(2) refl, of b] by simp
  also have "\<dots> = (c * (a * b)) mod q"
    by (simp add: ac_simps)
  also have "\<dots> = (c * 1) mod q"
    by (rule mod_cong_mult[OF refl assms(1)])
  finally show ?thesis by simp
qed

lemma ntt_iroot_family: "m \<le> 64 \<Longrightarrow> root_family ntt128_prime ntt_iroot m"
proof -
  let ?q = ntt128_prime
  assume m: "m \<le> 64"
  have "(ntt_iroot (Suc s) * ntt_iroot (Suc s)) mod ?q = ntt_iroot s mod ?q" if s: "s < m" for s
  proof (rule inverse_cancel[where a = "ntt_root s"])
    have "(ntt_root s * (ntt_iroot (Suc s) * ntt_iroot (Suc s))) mod ?q =
        ((ntt_root (Suc s) * ntt_root (Suc s)) * (ntt_iroot (Suc s) * ntt_iroot (Suc s))) mod ?q"
      using ntt_root_sq[of s] s m by (intro mod_cong_mult) simp_all
    also have "\<dots> = ((ntt_root (Suc s) * ntt_iroot (Suc s)) * (ntt_root (Suc s) * ntt_iroot (Suc s))) mod ?q"
      by (simp add: ac_simps)
    also have "\<dots> = (1 * 1) mod ?q"
      using ntt_iroot_props(2)[of "Suc s"] s m ntt128_facts(1) by (intro mod_cong_mult) simp_all
    finally show "(ntt_root s * (ntt_iroot (Suc s) * ntt_iroot (Suc s))) mod ?q = 1 mod ?q" by simp
    show "(ntt_root s * ntt_iroot s) mod ?q = 1 mod ?q"
      using ntt_iroot_props(2)[of s] s m ntt128_facts(1) by simp
  qed
  moreover have "ntt_iroot 0 mod ?q = 1 mod ?q"
  proof (rule inverse_cancel[where a = "ntt_root 0"])
    show "(ntt_root 0 * ntt_iroot 0) mod ?q = 1 mod ?q"
      using ntt_iroot_props(2)[of 0] ntt128_facts(1) by simp
    show "(ntt_root 0 * 1) mod ?q = 1 mod ?q"
      using ntt_root_0 ntt128_facts(1) by simp
  qed
  moreover have "ntt_iroot 1 mod ?q = (- 1) mod ?q"
  proof (rule inverse_cancel[where a = "ntt_root 1"])
    show "(ntt_root 1 * ntt_iroot 1) mod ?q = 1 mod ?q"
      using ntt_iroot_props(2)[of 1] ntt128_facts(1) by simp
    have "(ntt_root 1 * - 1) mod ?q = (- 1 * - 1) mod ?q"
      by (intro mod_cong_mult ntt_root_1 refl)
    then show "(ntt_root 1 * - 1) mod ?q = 1 mod ?q" by simp
  qed
  ultimately show ?thesis
    by (simp add: root_family_def)
qed

lemma ntt_root_pair:
  assumes "m \<le> 64"
  shows "root_pair ntt128_prime m (ntt_root m) (ntt_iroot m)"
proof (cases m)
  case 0
  then show ?thesis
    using ntt_iroot_props(2)[of 0] ntt128_facts(1) by (simp add: root_pair_def)
next
  case (Suc k)
  then show ?thesis
    using root_family_half[OF ntt_root_family[OF assms], of k] root_family_half[OF ntt_iroot_family[OF assms], of k]
      ntt_iroot_props(2)[OF assms] ntt128_facts(1)
    by (simp add: root_pair_def)
qed

subsection \<open>The transforms\<close>

lemma ntt_stages_spec:
  assumes "ntt_runtime_enabled env" "m \<le> 64" "s \<le> m"
    and "dit_inv ntt128_prime (if back then ntt_iroot else ntt_root) m A s a" "s = 0 \<longrightarrow> reduced ntt128_prime a"
    and "0 < s \<longrightarrow> reduced ntt128_prime a"
  shows "\<exists>a'. ntt_stages env ntt128_prime back (2 ^ m) (2 ^ Suc s) a = Inr a' \<and>
    dit_inv ntt128_prime (if back then ntt_iroot else ntt_root) m A m a' \<and> reduced ntt128_prime a'"
  using assms(3-6)
proof (induction "m - s" arbitrary: s a)
  case 0
  then have "s = m" by simp
  then show ?case
    using 0 by (subst ntt_stages.simps) auto
next
  case (Suc k)
  let ?q = ntt128_prime and ?W = "if back then ntt_iroot else ntt_root"
  have s: "Suc s \<le> m" using Suc by simp
  have r: "ntt_primitive_root env (2 ^ Suc s) ?q = Inr (ntt_root (Suc s))"
    using ntt_primitive_root_eq[OF assms(1), of "Suc s"] s assms(2) by simp
  have w: "(if back then mod_inverse (ntt_root (Suc s)) ?q else Inr (ntt_root (Suc s))) = Inr (?W (Suc s))"
    using ntt_iroot_props(1)[of "Suc s"] s assms(2) by simp
  have fam: "root_family ?q ?W m"
    using ntt_root_family[OF assms(2)] ntt_iroot_family[OF assms(2)] by simp
  let ?a = "ntt_stage ?q (?W (Suc s)) (2 ^ Suc s) a"
  have st: "dit_inv ?q ?W m A (Suc s) ?a \<and> reduced ?q ?a"
    using dit_stage[OF Suc.prems(2) _ fam ntt128_facts(1) refl] s by simp
  have "k = m - Suc s"
    using Suc.hyps(2) by simp
  from Suc.hyps(1)[OF this s] st obtain a' where
    a': "ntt_stages env ?q back (2 ^ m) (2 ^ Suc (Suc s)) ?a = Inr a'" "dit_inv ?q ?W m A m a'" "reduced ?q a'"
    by blast
  have "(2 :: nat) ^ Suc s \<le> 2 ^ m"
    using s by (intro power_increasing) auto
  moreover have "(2 :: nat) \<le> 2 ^ Suc s" by simp
  ultimately have "ntt_stages env ?q back (2 ^ m) (2 ^ Suc s) a = ntt_stages env ?q back (2 ^ m) (2 * 2 ^ Suc s) ?a"
    by (subst ntt_stages.simps) (simp only: r w bind_r_simps if_True simp_thms)
  then show ?case
    using a' by (intro exI[of _ a']) simp
qed

lemma ntt_domain_supported_pow:
  assumes "ntt_domain_supported env q n" "n < size_limit"
  shows "q = ntt128_prime \<and> ntt_runtime_enabled env \<and> (\<exists>m < 64. n = 2 ^ m)"
proof -
  obtain m where m: "n = 2 ^ m"
    using assms(1) by (auto simp: ntt_domain_supported_def is_power_of_two_size_iff)
  have "m < 64"
    using assms(2) unfolding m size_limit_pow by (simp only: power_strict_increasing_iff)
  then show ?thesis
    using assms(1) m by (auto simp: ntt_domain_supported_def is_ntt128_prime_def)
qed

lemma reduced_bit_reverse:
  assumes "length A = 2 ^ m" "reduced q A"
  shows "reduced q (bit_reverse A)"
  using bit_reverse_spec[OF assms(1)] assms bitrev_less[of m]
  unfolding reduced_def all_set_conv_all_nth by simp

lemma ntt_forward:
  assumes "ntt_domain_supported env q (length A)" "length A = 2 ^ m" "m < 64" "reduced q A"
  shows "\<exists>a. ntt_inplace env A q False = Inr a \<and> length a = 2 ^ m \<and> reduced q a \<and>
    (\<forall>k < 2 ^ m. a ! k mod q = peval A (ntt_root m ^ k) mod q)"
proof -
  have q: "q = ntt128_prime" "ntt_runtime_enabled env"
    using assms(1) by (auto simp: ntt_domain_supported_def is_ntt128_prime_def)
  obtain a where a: "ntt_stages env q False (2 ^ m) (2 ^ Suc 0) (bit_reverse A) = Inr a"
      "dit_inv q ntt_root m A m a" "reduced q a"
    using ntt_stages_spec[OF q(2), of m 0 False A "bit_reverse A"] dit_start[OF assms(2)]
      reduced_bit_reverse[OF assms(2,4)] assms(3) q(1) by auto
  then have "ntt_inplace env A q False = Inr a"
    using assms(1,2) by (simp add: ntt_inplace_def numeral_2_eq_2)
  then show ?thesis
    using a(2,3) dit_end[OF a(2) assms(2)] by (auto simp: dit_inv_def)
qed

lemma two_pow_inverse:
  "\<exists>b. mod_inverse (2 ^ m) ntt128_prime = Inr b \<and> (2 ^ m * b) mod ntt128_prime = 1"
proof -
  have "coprime 2 ntt128_prime"
    using ntt128_facts(2) by simp
  then have "coprime (2 ^ m) ntt128_prime"
    by simp
  then show ?thesis
    using mod_inverse_coprime[OF ntt128_facts(1)] mod_inverse_Inr[OF _ ntt128_facts(1)] by blast
qed

lemma ntt_backward:
  assumes "ntt_domain_supported env q (length Y)" "length Y = 2 ^ m" "m < 64" "reduced q Y"
  shows "\<exists>a b. ntt_inplace env Y q True = Inr a \<and> length a = 2 ^ m \<and> reduced q a \<and> (2 ^ m * b) mod q = 1 \<and>
    (\<forall>k < 2 ^ m. a ! k mod q = (peval Y (ntt_iroot m ^ k) * b) mod q)"
proof -
  have q: "q = ntt128_prime" "ntt_runtime_enabled env"
    using assms(1) by (auto simp: ntt_domain_supported_def is_ntt128_prime_def)
  obtain a where a: "ntt_stages env q True (2 ^ m) (2 ^ Suc 0) (bit_reverse Y) = Inr a"
      "dit_inv q ntt_iroot m Y m a" "reduced q a"
    using ntt_stages_spec[OF q(2), of m 0 True Y "bit_reverse Y"] dit_start[OF assms(2)]
      reduced_bit_reverse[OF assms(2,4)] assms(3) q(1) by auto
  obtain b where b: "mod_inverse (2 ^ m) q = Inr b" "(2 ^ m * b) mod q = 1"
    using two_pow_inverse[of m] q by auto
  let ?a = "map (\<lambda>x. x * b mod q) a"
  have len: "length a = 2 ^ m"
    using a(2) by (simp add: dit_inv_def)
  have "ntt_inplace env Y q True = Inr ?a"
    using a(1) b(1) assms(1,2) by (simp add: ntt_inplace_def numeral_2_eq_2)
  moreover have "reduced q ?a"
    using q ntt128_facts(1) by (simp add: reduced_def)
  moreover have "?a ! k mod q = (peval Y (ntt_iroot m ^ k) * b) mod q" if "k < 2 ^ m" for k
  proof -
    have "(a ! k * b) mod q = (peval Y (ntt_iroot m ^ k) * b) mod q"
      using dit_end[OF a(2) assms(2) that] by (intro mod_cong_mult) simp_all
    then show ?thesis using that len by simp
  qed
  ultimately show ?thesis
    using len b(2) by (intro exI[of _ ?a] exI[of _ b]) simp
qed

subsection \<open>Round trips\<close>

lemma reduced_list_eq:
  assumes "reduced q a" "reduced q b" "length a = n" "length b = n"
    and "\<And>k. k < n \<Longrightarrow> a ! k mod q = b ! k mod q"
  shows "a = b"
proof (rule nth_equalityI)
  fix k assume k: "k < length a"
  then have "0 \<le> a ! k \<and> a ! k < q" "0 \<le> b ! k \<and> b ! k < q"
    using assms(1-4) by (simp_all add: reduced_def)
  then show "a ! k = b ! k"
    using assms(5)[of k] k assms(3) by simp
qed (simp add: assms)

lemma ntt_roundtrip:
  assumes "ntt_domain_supported env q (length A)" "length A = 2 ^ m" "m < 64" "reduced q A"
  shows "bind_r (ntt_inplace env A q False) (\<lambda>a. ntt_inplace env a q True) = Inr A"
proof -
  have q: "q = ntt128_prime"
    using assms(1) by (simp add: ntt_domain_supported_def is_ntt128_prime_def)
  obtain a where a: "ntt_inplace env A q False = Inr a" "length a = 2 ^ m" "reduced q a"
      "\<And>k. k < 2 ^ m \<Longrightarrow> a ! k mod q = peval A (ntt_root m ^ k) mod q"
    using ntt_forward[OF assms] by blast
  have "ntt_domain_supported env q (length a)"
    using assms(1,2) a(2) by simp
  then obtain b c where b: "ntt_inplace env a q True = Inr b" "length b = 2 ^ m" "reduced q b" "(2 ^ m * c) mod q = 1"
      "\<And>k. k < 2 ^ m \<Longrightarrow> b ! k mod q = (peval a (ntt_iroot m ^ k) * c) mod q"
    using ntt_backward[OF _ a(2) assms(3) a(3)] by blast
  have "b ! k mod q = A ! k mod q" if k: "k < 2 ^ m" for k
  proof -
    have "b ! k mod q = (peval a (ntt_iroot m ^ k) * c) mod q"
      by (rule b(5)[OF k])
    also have "\<dots> = ((2 ^ m * A ! k) * c) mod q"
      using dft_inverse[OF ntt_root_pair assms(2) a(2) k] a(4) assms(3) unfolding q
      by (intro mod_cong_mult) auto
    also have "\<dots> = (A ! k * (2 ^ m * c)) mod q"
      by (simp add: ac_simps)
    also have "\<dots> = (A ! k * 1) mod q"
      using b(4) ntt128_facts(1) q by (intro mod_cong_mult) simp_all
    finally show ?thesis by simp
  qed
  then have "b = A"
    using reduced_list_eq[OF b(3) assms(4) b(2) assms(2)] by blast
  then show ?thesis
    using a(1) b(1) by simp
qed

lemma ntt_interpolates:
  assumes "ntt_domain_supported env q (length Y)" "length Y = 2 ^ m" "m < 64" "reduced q Y"
  shows "\<exists>c. ntt_inplace env Y q True = Inr c \<and> length c = 2 ^ m \<and> reduced q c \<and>
    (\<forall>k < 2 ^ m. peval c (ntt_root m ^ k) mod q = Y ! k mod q)"
proof -
  have q: "q = ntt128_prime"
    using assms(1) by (simp add: ntt_domain_supported_def is_ntt128_prime_def)
  obtain c d where c: "ntt_inplace env Y q True = Inr c" "length c = 2 ^ m" "reduced q c" "(2 ^ m * d) mod q = 1"
      "\<And>k. k < 2 ^ m \<Longrightarrow> c ! k mod q = (peval Y (ntt_iroot m ^ k) * d) mod q"
    using ntt_backward[OF assms] by blast
  define Y' where "Y' = map (\<lambda>k. peval Y (ntt_iroot m ^ k)) [0..<2 ^ m]"
  have Y': "length Y' = 2 ^ m" "\<And>k. k < 2 ^ m \<Longrightarrow> Y' ! k mod q = peval Y (ntt_iroot m ^ k) mod q"
    by (simp_all add: Y'_def)
  have "pcong q c (pscale d Y')"
    unfolding pcong_iff_coef
  proof
    fix i
    show "coef c i mod q = coef (pscale d Y') i mod q"
      unfolding coef_pscale using c(2,5) Y'(1)
      by (cases "i < 2 ^ m") (simp_all add: coef_def, simp_all add: Y'_def mult.commute)
  qed
  have "peval c (ntt_root m ^ k) mod q = Y ! k mod q" if k: "k < 2 ^ m" for k
  proof -
    have "peval c (ntt_root m ^ k) mod q = (peval Y' (ntt_root m ^ k) * d) mod q"
      using pcong_peval[OF \<open>pcong q c (pscale d Y')\<close>] by (simp add: mult.commute)
    also have "\<dots> = ((2 ^ m * Y ! k) * d) mod q"
      using dft_inverse[OF root_pair_sym[OF ntt_root_pair] assms(2) Y'(1) k] Y'(2) assms(3) unfolding q
      by (intro mod_cong_mult) auto
    also have "\<dots> = (Y ! k * (2 ^ m * d)) mod q"
      by (simp add: ac_simps)
    also have "\<dots> = (Y ! k * 1) mod q"
      using c(4) ntt128_facts(1) q by (intro mod_cong_mult) simp_all
    finally show ?thesis by simp
  qed
  then show ?thesis
    using c(1-3) by blast
qed

subsection \<open>Multiplication by transform\<close>

lemma zero_pad_props:
  assumes "0 < q" "length a \<le> n"
  shows "length (zero_pad q n a) = n" "reduced q (zero_pad q n a)" "peval (zero_pad q n a) x mod q = peval a x mod q"
  using assms pcong_peval[OF pcong_map_mod, of q a x]
  by (auto simp: zero_pad_def reduced_def peval_append)

lemma poly_mul_ntt_naive:
  assumes "next_power_of_two_size (length a + length b - 1) = Inr n" "ntt_domain_supported env q n"
    and "a \<noteq> []" "b \<noteq> []" "length a + length b - 1 \<le> 2 ^ 63 "
  shows "poly_mul_ntt_mod env a b q = Inr (poly_mul_naive_mod a b q)"
proof -
  let ?need = "length a + length b - 1"
  obtain m where m: "n = 2 ^ m" "?need \<le> n" "?need \<le> 1 \<and> m = 0 \<or> n < 2 * ?need"
    using next_power_of_two_size_spec[OF assms(5)] assms(1) by auto
  have "2 ^ m < (2 :: nat) ^ 64"
    using m assms(5) by auto
  then have m64: "m < 64"
    by (simp only: power_strict_increasing_iff)
  have q: "q = ntt128_prime"
    using assms(2) by (simp add: ntt_domain_supported_def is_ntt128_prime_def)
  then have q0: "0 < q"
    using ntt128_facts(1) by simp
  have ab: "length a \<le> n" "length b \<le> n"
    using m(2) assms(3,4) by (cases a; cases b; simp)+
  have dom: "ntt_domain_supported env q (length xs)" if "length xs = 2 ^ m" for xs :: "int list"
    using that assms(2) m(1) by simp
  have la: "length (zero_pad q n a) = 2 ^ m" and lb: "length (zero_pad q n b) = 2 ^ m"
    using zero_pad_props(1)[OF q0] ab m(1) by simp_all
  obtain fa where fa: "ntt_inplace env (zero_pad q n a) q False = Inr fa" "length fa = 2 ^ m"
      "\<And>k. k < 2 ^ m \<Longrightarrow> fa ! k mod q = peval a (ntt_root m ^ k) mod q"
    using ntt_forward[OF dom[OF la] la m64 zero_pad_props(2)[OF q0 ab(1)]] zero_pad_props(3)[OF q0 ab(1)] by auto
  obtain fb where fb: "ntt_inplace env (zero_pad q n b) q False = Inr fb" "length fb = 2 ^ m"
      "\<And>k. k < 2 ^ m \<Longrightarrow> fb ! k mod q = peval b (ntt_root m ^ k) mod q"
    using ntt_forward[OF dom[OF lb] lb m64 zero_pad_props(2)[OF q0 ab(2)]] zero_pad_props(3)[OF q0 ab(2)] by auto
  let ?prod = "map (\<lambda>i. fa ! i * fb ! i mod q) [0..<n]"
  let ?C = "zero_pad q n (naive_out a b)"
  have no: "length (naive_out a b) = ?need" "\<And>x. peval (naive_out a b) x = peval a x * peval b x"
    using naive_out_spec by blast+
  have lC: "length ?C = 2 ^ m"
    using zero_pad_props(1)[OF q0] no m by simp
  have nn: "length (naive_out a b) \<le> n"
    using no m(2) by simp
  obtain c where c: "ntt_inplace env ?C q False = Inr c" "length c = 2 ^ m" "reduced q c"
      "\<And>k. k < 2 ^ m \<Longrightarrow> c ! k mod q = (peval a (ntt_root m ^ k) * peval b (ntt_root m ^ k)) mod q"
    using ntt_forward[OF dom[OF lC] lC m64 zero_pad_props(2)[OF q0 nn]] zero_pad_props(3)[OF q0 nn] no(2) by auto
  have "?prod = c"
  proof (rule reduced_list_eq[OF _ c(3) _ c(2)])
    show "reduced q ?prod"
      using q0 by (rule reduced_map_upt)
    show "length ?prod = 2 ^ m"
      using m(1) by simp
    show "?prod ! k mod q = c ! k mod q" if "k < 2 ^ m" for k
    proof -
      have "(fa ! k * fb ! k) mod q = c ! k mod q"
        unfolding c(4)[OF that] by (intro mod_cong_mult fa(3) fb(3) that)
      then show ?thesis
        using that m(1) by simp
    qed
  qed
  then have "ntt_inplace env ?prod q True = Inr ?C"
    using ntt_roundtrip[OF dom[OF lC] lC m64 zero_pad_props(2)[OF q0 nn]] c(1) by simp
  moreover have "take ?need ?C = map (\<lambda>c. c mod q) (naive_out a b)"
    using no(1) by (simp add: zero_pad_def)
  ultimately show ?thesis
    using assms(1-4) fa(1) fb(1) by (simp add: poly_mul_ntt_mod_def poly_mul_naive_mod_def Let_def)
qed

lemma poly_eval_batch_ntt_spec:
  assumes "ntt_domain_supported env q n" "n < size_limit" "length p \<le> n"
  shows "\<exists>m < 64. n = 2 ^ m \<and> poly_eval_batch_ntt env p n q = Inr (map (\<lambda>k. peval p (ntt_root m ^ k) mod q) [0..<n])"
proof -
  obtain m where m: "q = ntt128_prime" "m < 64" "n = 2 ^ m"
    using ntt_domain_supported_pow[OF assms(1,2)] by auto
  have q0: "0 < q"
    using m(1) ntt128_facts(1) by simp
  have l: "length (zero_pad q n p) = 2 ^ m"
    using zero_pad_props(1)[OF q0 assms(3)] m by simp
  then have "ntt_domain_supported env q (length (zero_pad q n p))"
    using assms(1) m(3) by simp
  from ntt_forward[OF this l m(2) zero_pad_props(2)[OF q0 assms(3)]] zero_pad_props(3)[OF q0 assms(3)]
  obtain a where a: "ntt_inplace env (zero_pad q n p) q False = Inr a" "length a = 2 ^ m" "reduced q a"
      "\<And>k. k < 2 ^ m \<Longrightarrow> a ! k mod q = peval p (ntt_root m ^ k) mod q"
    by auto
  have "a = map (\<lambda>k. peval p (ntt_root m ^ k) mod q) [0..<n]"
    using a q0 m(3) by (intro reduced_list_eq[OF a(3) _ a(2)] reduced_map_upt) simp_all
  then show ?thesis
    using m assms a(1) by (intro exI[of _ m]) (simp add: poly_eval_batch_ntt_def)
qed

lemma lagrange_interpolate_ntt_spec:
  assumes "ntt_domain_supported env q (length y)" "length y < size_limit"
  shows "\<exists>m p. m < 64 \<and> length y = 2 ^ m \<and> lagrange_interpolate_ntt env y q = Inr p \<and> canonical q p \<and>
    length p \<le> length y \<and> (\<forall>k < length y. peval p (ntt_root m ^ k) mod q = y ! k mod q)"
proof -
  obtain m where m: "q = ntt128_prime" "m < 64" "length y = 2 ^ m"
    using ntt_domain_supported_pow[OF assms] by auto
  have q0: "0 < q"
    using m(1) ntt128_facts(1) by simp
  have "ntt_domain_supported env q (length (map (\<lambda>c. c mod q) y))" "length (map (\<lambda>c. c mod q) y) = 2 ^ m"
    using assms(1) m(3) by simp_all
  from ntt_interpolates[OF this m(2) reduced_map_mod[OF q0]] obtain c where
    c: "ntt_inplace env (map (\<lambda>c. c mod q) y) q True = Inr c" "length c = 2 ^ m" "reduced q c"
      "\<And>k. k < 2 ^ m \<Longrightarrow> peval c (ntt_root m ^ k) mod q = map (\<lambda>c. c mod q) y ! k mod q"
    by blast
  have "canonical q (poly_trim c)"
    using c(2,3) by (intro canonical_poly_trim) auto
  moreover have "lagrange_interpolate_ntt env y q = Inr (poly_trim c)"
    using assms(1) c(1) by (simp add: lagrange_interpolate_ntt_def)
  ultimately show ?thesis
    using m c(2,4) length_poly_trim_le[of c] by (intro exI[of _ m] exI[of _ "poly_trim c"]) simp
qed

lemma domain_points_loop:
  fixes w q :: int
  assumes "0 < n" "t \<le> n" "1 \<le> t"
  shows "length (fold (\<lambda>i pts. pts[i := pts ! (i - 1) * w mod q]) [1..<t] (replicate n 1)) = n \<and>
    (\<forall>i < n. fold (\<lambda>i pts. pts[i := pts ! (i - 1) * w mod q]) [1..<t] (replicate n 1) ! i =
      (if i < t \<and> 0 < i then w ^ i mod q else 1))"
  using assms(3,2)
proof (induction t rule: dec_induct)
  case (step t)
  define x where "x = fold (\<lambda>i pts. pts[i := pts ! (i - 1) * w mod q]) [1..<t] (replicate n 1)"
  have x: "length x = n" "\<And>i. i < n \<Longrightarrow> x ! i = (if i < t \<and> 0 < i then w ^ i mod q else 1)"
    using step by (simp_all add: x_def)
  have "x ! (t - 1) * w mod q = w ^ t mod q"
  proof (cases "t = 1")
    case True
    then show ?thesis using x(2)[of 0] step by simp
  next
    case False
    then have "x ! (t - 1) * w mod q = (w ^ (t - 1) * w) mod q"
      using x(2)[of "t - 1"] step by (simp add: mod_mult_left_eq)
    moreover have "w ^ (t - 1) * w = w ^ t"
      using step(1) by (intro power_minus_mult) simp
    ultimately show ?thesis by simp
  qed
  then show ?case
    using step x by (auto simp: x_def[symmetric] nth_list_update less_Suc_eq)
qed auto

lemma ntt_domain_points_spec:
  assumes "ntt_domain_supported env q n" "n < size_limit"
  shows "\<exists>m < 64. n = 2 ^ m \<and> ntt_domain_points env n q = Inr (map (\<lambda>i. ntt_root m ^ i mod q) [0..<n])"
proof -
  obtain m where m: "q = ntt128_prime" "m < 64" "n = 2 ^ m" "ntt_runtime_enabled env"
    using ntt_domain_supported_pow[OF assms] by auto
  have q1: "1 < q"
    using m(1) ntt128_facts(1) by simp
  define w where "w = (if m = 0 then 1 else ntt_root m)"
  have r: "ntt_primitive_root env n q = Inr w"
    using ntt_primitive_root_eq[OF m(4), of m] m by (simp add: w_def)
  have n0: "0 < n" by (simp add: m(3))
  from domain_points_loop[OF n0 order_refl, of w q] n0 have
    "fold (\<lambda>i pts. pts[i := pts ! (i - 1) * w mod q]) [1..<n] (replicate n 1) = map (\<lambda>i. ntt_root m ^ i mod q) [0..<n]"
    using q1 m(3) by (intro nth_equalityI) (auto simp: w_def)
  then show ?thesis
    using m n0 r by (intro exI[of _ m]) (simp add: ntt_domain_points_def)
qed

end
