(* ===== verification/CG_PolyMul.thy ===== *)
theory CG_PolyMul
  imports CG_NTT
begin

text \<open>
  Polynomial multiplication as the protocols call it: transform, the optional NTL backend,
  Karatsuba or schoolbook, chosen by size and configuration. NTL is third-party code that is
  present only when the build enables it; its operations are arguments of the model.
\<close>

record ntl_ops =
  ntl_mul :: "int list \<Rightarrow> int list \<Rightarrow> int \<Rightarrow> int list"
  ntl_from_roots :: "int list \<Rightarrow> int \<Rightarrow> int list"
  ntl_eval :: "int list \<Rightarrow> int list \<Rightarrow> int \<Rightarrow> int list"
  ntl_interpolate :: "int list \<Rightarrow> int list \<Rightarrow> int \<Rightarrow> int list"

text \<open>The process-wide configuration: the environment and the backend compiled in, if any.\<close>

record poly_cfg =
  pc_env :: env
  pc_ntl :: "ntl_ops option"

definition ntt_poly_threshold :: "env \<Rightarrow> nat result" where
  "ntt_poly_threshold env =
     (case env_value env ''CG_NTT_POLY_THRESHOLD'' of
        None \<Rightarrow> Inr 512
      | Some v \<Rightarrow> cg_parse_size env (Some v) ''polynomial threshold'' True 0)"

definition ntl_poly_threshold :: "env \<Rightarrow> nat result" where
  "ntl_poly_threshold env =
     (case env_value env ''CG_NTL_POLY_THRESHOLD'' of
        None \<Rightarrow> Inr 512
      | Some v \<Rightarrow> cg_parse_size env (Some v) ''polynomial threshold'' True 0)"

definition ntl_poly_enabled :: "env \<Rightarrow> bool" where
  "ntl_poly_enabled env \<longleftrightarrow> env_value env ''CG_USE_NTL_POLY_RUNTIME'' \<noteq> Some ''0''"

text \<open>The guard in front of every call of the backend: compiled in, enabled, and large enough.\<close>

definition ntl_applies :: "poly_cfg \<Rightarrow> nat \<Rightarrow> ntl_ops option result" where
  "ntl_applies cfg n =
     (case pc_ntl cfg of
        None \<Rightarrow> Inr None
      | Some ops \<Rightarrow>
          if ntl_poly_enabled (pc_env cfg)
          then bind_r (ntl_poly_threshold (pc_env cfg)) (\<lambda>t. Inr (if n \<ge> t then Some ops else None))
          else Inr None)"

subsection \<open>Karatsuba recombination\<close>

definition add_at :: "int \<Rightarrow> nat \<Rightarrow> int list \<Rightarrow> int list \<Rightarrow> int list" where
  "add_at q off z out =
     fold (\<lambda>i out. if i + off \<ge> length out then out
                   else out[i + off := (out ! (i + off) + z ! i) mod q]) [0..<length z] out"

definition kara_combine :: "int \<Rightarrow> nat \<Rightarrow> nat \<Rightarrow> int list \<Rightarrow> int list \<Rightarrow> int list \<Rightarrow> int list" where
  "kara_combine q half need z0 z1 z2 =
     poly_trim (add_at q (2 * half) z2 (add_at q half z1 (add_at q 0 z0 (replicate need 0))))"

subsection \<open>The dispatcher\<close>

lemma kara_size:
  assumes "\<not> (length a < 32 \<or> length b < 32)"
  defines "half \<equiv> (max (length a) (length b) + 1) div 2"
  shows "length (poly_slice a 0 half) \<le> half" "length (poly_slice b 0 half) \<le> half"
    "length (poly_slice a half (length a)) \<le> half" "length (poly_slice b half (length b)) \<le> half"
    "half < max (length a) (length b)" "1 < half"
proof -
  show h: "half < max (length a) (length b)" "1 < half"
    using assms(1) by (auto simp: half_def max_def)
  show "length (poly_slice a 0 half) \<le> half" "length (poly_slice b 0 half) \<le> half"
    using length_poly_slice[of a 0 half] length_poly_slice[of b 0 half] h by (auto simp: max_def split: if_splits)
  have "length a - half \<le> half" "length b - half \<le> half"
    by (auto simp: half_def max_def)
  then show "length (poly_slice a half (length a)) \<le> half" "length (poly_slice b half (length b)) \<le> half"
    using length_poly_slice[of a half "length a"] length_poly_slice[of b half "length b"] h
    by (auto simp: max_def split: if_splits)
qed

function poly_mul_mod :: "poly_cfg \<Rightarrow> int list \<Rightarrow> int list \<Rightarrow> int \<Rightarrow> int list result" where
  "poly_mul_mod cfg a b q =
     (if a = [] \<or> b = [] then Inr [0]
      else bind_r (next_power_of_two_size (length a + length b - 1)) (\<lambda>ntt_n.
           bind_r (ntt_poly_threshold (pc_env cfg)) (\<lambda>t.
           if max (length a) (length b) \<ge> t \<and> ntt_domain_supported (pc_env cfg) q ntt_n
           then poly_mul_ntt_mod (pc_env cfg) a b q
           else bind_r (ntl_applies cfg (max (length a) (length b))) (\<lambda>ntl.
             if ntl \<noteq> None then Inr (ntl_mul (the ntl) a b q)
             else if length a < 32 \<or> length b < 32 then Inr (poly_mul_naive_mod a b q)
             else let half = (max (length a) (length b) + 1) div 2;
                      a0 = poly_slice a 0 half; a1 = poly_slice a half (length a);
                      b0 = poly_slice b 0 half; b1 = poly_slice b half (length b) in
               bind_r (poly_mul_mod cfg a0 b0 q) (\<lambda>z0.
               bind_r (poly_mul_mod cfg a1 b1 q) (\<lambda>z2.
               bind_r (poly_mul_mod cfg (poly_add_mod a0 a1 q) (poly_add_mod b0 b1 q) q) (\<lambda>z1.
               Inr (kara_combine q half (length a + length b - 1) z0
                      (poly_sub_mod (poly_sub_mod z1 z0 q) z2 q) z2))))))))"
  by pat_completeness auto

termination
proof (relation "measure (\<lambda>(cfg, a, b, q). max (length a) (length b))", goal_cases)
  case 1
  show ?case by simp
next
  case (2 cfg a b q n t ntl half a0 a1 b0 b1)
  have n: "\<not> (length a < 32 \<or> length b < 32)" and h: "half = (max (length a) (length b) + 1) div 2"
    and p: "a0 = poly_slice a 0 half" "b0 = poly_slice b 0 half"
    by fact+
  note k = kara_size[OF n, folded h]
  have "max (length a0) (length b0) < max (length a) (length b)"
    unfolding p by (rule le_less_trans[OF max.boundedI[OF k(1,2)] k(5)])
  then show ?case
    by (simp only: in_measure prod.case)
next
  case (3 cfg a b q n t ntl half a0 a1 b0 b1)
  have n: "\<not> (length a < 32 \<or> length b < 32)" and h: "half = (max (length a) (length b) + 1) div 2"
    and p: "a1 = poly_slice a half (length a)" "b1 = poly_slice b half (length b)"
    by fact+
  note k = kara_size[OF n, folded h]
  have "max (length a1) (length b1) < max (length a) (length b)"
    unfolding p by (rule le_less_trans[OF max.boundedI[OF k(3,4)] k(5)])
  then show ?case
    by (simp only: in_measure prod.case)
next
  case (4 cfg a b q n t ntl half a0 a1 b0 b1)
  have n: "\<not> (length a < 32 \<or> length b < 32)" and h: "half = (max (length a) (length b) + 1) div 2"
    and p: "a0 = poly_slice a 0 half" "b0 = poly_slice b 0 half"
      "a1 = poly_slice a half (length a)" "b1 = poly_slice b half (length b)"
    by fact+
  note k = kara_size[OF n, folded h]
  have "length (poly_add_mod a0 a1 q) \<le> half" "length (poly_add_mod b0 b1 q) \<le> half"
    unfolding p
    by (rule le_trans[OF length_poly_add_mod max.boundedI[OF k(1,3)]] le_trans[OF length_poly_add_mod max.boundedI[OF k(2,4)]])+
  then have "max (length (poly_add_mod a0 a1 q)) (length (poly_add_mod b0 b1 q)) < max (length a) (length b)"
    by (rule le_less_trans[OF max.boundedI k(5)])
  then show ?case
    by (simp only: in_measure prod.case)
qed

declare poly_mul_mod.simps [simp del]

subsection \<open>Correctness\<close>

text \<open>
  What the code relies on from the backend: each operation returns the canonical coefficient
  vector, or the reduced values, of the polynomial operation it is named after.
\<close>

definition ntl_documented :: "ntl_ops \<Rightarrow> int \<Rightarrow> bool" where
  "ntl_documented ops q \<longleftrightarrow>
     (\<forall>a b. canonical q (ntl_mul ops a b q) \<and> pcong q (ntl_mul ops a b q) (pmul a b)) \<and>
     (\<forall>rs. canonical q (ntl_from_roots ops rs q) \<and>
        pcong q (ntl_from_roots ops rs q) (foldr (\<lambda>r p. pmul [- r, 1] p) rs [1])) \<and>
     (\<forall>p xs. ntl_eval ops p xs q = map (\<lambda>x. peval p x mod q) xs) \<and>
     (\<forall>xs ys. length xs = length ys \<and> xs \<noteq> [] \<and> sorted_wrt (\<lambda>a b. unit_mod q (b - a)) xs \<longrightarrow>
        canonical q (ntl_interpolate ops xs ys q) \<and> length (ntl_interpolate ops xs ys q) \<le> length xs \<and>
        (\<forall>i < length xs. peval (ntl_interpolate ops xs ys q) (xs ! i) mod q = ys ! i mod q))"

definition cfg_ok :: "poly_cfg \<Rightarrow> int \<Rightarrow> bool" where
  "cfg_ok cfg q \<longleftrightarrow> (case pc_ntl cfg of None \<Rightarrow> True | Some ops \<Rightarrow> ntl_documented ops q) \<and>
     (\<exists>t. ntt_poly_threshold (pc_env cfg) = Inr t) \<and> (\<exists>t. ntl_poly_threshold (pc_env cfg) = Inr t)"

lemma ntl_applies_Inr:
  assumes "cfg_ok cfg q"
  shows "\<exists>r. ntl_applies cfg n = Inr r \<and> (\<forall>ops. r = Some ops \<longrightarrow> ntl_documented ops q)"
  using assms by (auto simp: cfg_ok_def ntl_applies_def split: option.splits)

lemma add_at_spec:
  assumes "0 < q"
  shows "length (add_at q off z out) = length out \<and> (reduced q out \<longrightarrow> reduced q (add_at q off z out)) \<and>
    (\<forall>i < length out. add_at q off z out ! i mod q = (out ! i + (if off \<le> i then coef z (i - off) else 0)) mod q)"
proof -
  let ?f = "\<lambda>i out. if i + off \<ge> length out then out else out[i + off := (out ! (i + off) + z ! i) mod q]"
  have "length (fold ?f [0..<m] out) = length out \<and> (reduced q out \<longrightarrow> reduced q (fold ?f [0..<m] out)) \<and>
    (\<forall>i < length out. fold ?f [0..<m] out ! i mod q = (out ! i + (if off \<le> i \<and> i < off + m then z ! (i - off) else 0)) mod q
       \<and> (off + m \<le> i \<longrightarrow> fold ?f [0..<m] out ! i = out ! i))" for m
  proof (induction m)
    case (Suc m)
    define x where "x = fold ?f [0..<m] out"
    have x: "length x = length out" "reduced q out \<longrightarrow> reduced q x"
      "\<And>i. i < length out \<Longrightarrow> x ! i mod q = (out ! i + (if off \<le> i \<and> i < off + m then z ! (i - off) else 0)) mod q"
      "\<And>i. i < length out \<Longrightarrow> off + m \<le> i \<Longrightarrow> x ! i = out ! i"
      using Suc unfolding x_def by auto
    show ?case
    proof (cases "m + off \<ge> length out")
      case True
      then have e: "fold ?f [0..<Suc m] out = x"
        by (simp add: x_def[symmetric] x(1))
      have "(off \<le> i \<and> i < off + Suc m) = (off \<le> i \<and> i < off + m)" if "i < length out" for i
        using that True by auto
      then show ?thesis
        unfolding e using x(1,2,3) x(4) by simp
    next
      case False
      then have e: "fold ?f [0..<Suc m] out = x[m + off := (x ! (m + off) + z ! m) mod q]"
        by (simp add: x_def[symmetric] x(1))
      have "x ! (m + off) = out ! (m + off)"
        using x(4)[of "m + off"] False by simp
      moreover have "reduced q out \<longrightarrow> reduced q (x[m + off := (x ! (m + off) + z ! m) mod q])"
        using x(2) assms set_update_subset_insert[of x "m + off"] unfolding reduced_def
        by (metis (no_types, lifting) insertE pos_mod_bound pos_mod_sign subsetD)
      ultimately show ?thesis
        unfolding e using x(1,3,4) False by (auto simp: nth_list_update)
    qed
  qed auto
  note this[of "length z"]
  moreover have "(if off \<le> i \<and> i < off + length z then z ! (i - off) else 0) = (if off \<le> i then coef z (i - off) else 0)" for i
    by (auto simp: coef_def)
  ultimately show ?thesis
    by (simp add: add_at_def)
qed

lemma kara_combine_spec:
  assumes "0 < q" "0 < need" "length w = need" "pcong q (padd z0 (padd (replicate half 0 @ z1) (replicate (2 * half) 0 @ z2))) w"
  shows "canonical q (kara_combine q half need z0 z1 z2)" "pcong q (kara_combine q half need z0 z1 z2) w"
proof -
  let ?o0 = "add_at q 0 z0 (replicate need 0)"
  let ?o1 = "add_at q half z1 ?o0"
  let ?o2 = "add_at q (2 * half) z2 ?o1"
  note a0 = add_at_spec[OF assms(1), of 0 z0 "replicate need 0"]
  note a1 = add_at_spec[OF assms(1), of half z1 ?o0]
  note a2 = add_at_spec[OF assms(1), of "2 * half" z2 ?o1]
  have len: "length ?o0 = need" "length ?o1 = need" "length ?o2 = need"
    using a0 a1 a2 by simp_all
  have red: "reduced q ?o2"
    using a0 a1 a2 assms(1) by (simp add: reduced_def)
  then show "canonical q (kara_combine q half need z0 z1 z2)"
    unfolding kara_combine_def using len assms(2) by (intro canonical_poly_trim) auto
  have "coef ?o2 i mod q = coef w i mod q" for i
  proof (cases "i < need")
    case True
    let ?c0 = "coef z0 i" and ?c1 = "if half \<le> i then coef z1 (i - half) else 0"
      and ?c2 = "if 2 * half \<le> i then coef z2 (i - 2 * half) else 0"
    have "?o0 ! i mod q = ?c0 mod q"
      using a0 True by simp
    then have "?o1 ! i mod q = (?c0 + ?c1) mod q"
      using a1 len True mod_cong_add[of "?o0 ! i" q ?c0 ?c1 ?c1] by simp
    then have "?o2 ! i mod q = (?c0 + ?c1 + ?c2) mod q"
      using a2 len True mod_cong_add[of "?o1 ! i" q "?c0 + ?c1" ?c2 ?c2] by simp
    also have "?c0 + ?c1 + ?c2 = coef (padd z0 (padd (replicate half 0 @ z1) (replicate (2 * half) 0 @ z2))) i"
      unfolding coef_padd coef_shift by auto
    also have "\<dots> mod q = coef w i mod q"
      using assms(4) by (simp add: pcong_iff_coef)
    finally show ?thesis
      using True len by (simp add: coef_def)
  qed (use len assms(3) in \<open>simp add: coef_def\<close>)
  then have "pcong q ?o2 w"
    by (simp add: pcong_iff_coef)
  then show "pcong q (kara_combine q half need z0 z1 z2) w"
    unfolding kara_combine_def by (rule pcong_trans[OF pcong_poly_trim])
qed

lemma karatsuba_step:
  fixes half :: nat and a b :: "int list"
  assumes q: "0 < q" and ne: "a \<noteq> []" "b \<noteq> []"
  defines "a0 \<equiv> poly_slice a 0 half" and "a1 \<equiv> poly_slice a half (length a)"
    and "b0 \<equiv> poly_slice b 0 half" and "b1 \<equiv> poly_slice b half (length b)"
  assumes z0: "pcong q z0 (pmul a0 b0)" and z2: "pcong q z2 (pmul a1 b1)"
    and z1: "pcong q z1 (pmul (poly_add_mod a0 a1 q) (poly_add_mod b0 b1 q))"
  shows "kara_combine q half (length a + length b - 1) z0 (poly_sub_mod (poly_sub_mod z1 z0 q) z2 q) z2
    = poly_mul_naive_mod a b q"
proof -
  let ?m = "poly_sub_mod (poly_sub_mod z1 z0 q) z2 q"
  let ?T = "padd z0 (padd (replicate half 0 @ ?m) (replicate (2 * half) 0 @ z2))"
  let ?z1 = "pmul (padd a0 a1) (padd b0 b1)"
  have "pcong q z1 ?z1"
    using pcong_trans[OF z1 pcong_pmul[OF poly_add_mod_pcong poly_add_mod_pcong]] .
  then have "pcong q (poly_sub_mod z1 z0 q) (padd ?z1 (pscale (- 1) (pmul a0 b0)))"
    by (intro pcong_trans[OF poly_sub_mod_pcong] pcong_padd pcong_pscale z0)
  then have mid: "pcong q ?m (padd (padd ?z1 (pscale (- 1) (pmul a0 b0))) (pscale (- 1) (pmul a1 b1)))"
    by (rule pcong_trans[OF poly_sub_mod_pcong pcong_padd[OF _ pcong_pscale[OF z2]]])
  have shift: "pcong q (replicate k 0 @ p) (pmul (replicate k 0 @ [1]) p')" if "pcong q p p'" for k p p'
  proof -
    have "pcong q (replicate k 0 @ p) (pmul (replicate k 0 @ [1]) p)"
      by (rule pcong_eqI) (simp add: peval_append)
    also have "pcong q \<dots> (pmul (replicate k 0 @ [1]) p')"
      by (rule pcong_pmul[OF pcong_refl that])
    finally show ?thesis .
  qed
  have "pcong q ?T (padd (pmul a0 b0) (padd
      (pmul (replicate half 0 @ [1]) (padd (padd ?z1 (pscale (- 1) (pmul a0 b0))) (pscale (- 1) (pmul a1 b1))))
      (pmul (replicate (2 * half) 0 @ [1]) (pmul a1 b1))))"
    by (intro pcong_padd z0 shift mid z2)
  also have "pcong q \<dots> (naive_out a b)"
  proof (rule pcong_eqI)
    fix x
    have "peval a x = peval a0 x + x ^ half * peval a1 x" "peval b x = peval b0 x + x ^ half * peval b1 x"
      unfolding a0_def a1_def b0_def b1_def by (rule poly_slice_split[OF ne(1)] poly_slice_split[OF ne(2)])+
    moreover have "x ^ (2 * half) = x ^ half * x ^ half"
      by (simp add: mult_2 power_add)
    ultimately show "peval (padd (pmul a0 b0) (padd
      (pmul (replicate half 0 @ [1]) (padd (padd ?z1 (pscale (- 1) (pmul a0 b0))) (pscale (- 1) (pmul a1 b1))))
      (pmul (replicate (2 * half) 0 @ [1]) (pmul a1 b1)))) x = peval (naive_out a b) x"
      by (simp add: naive_out_spec peval_append algebra_simps)
  qed
  finally have T: "pcong q ?T (naive_out a b)" .
  have need: "0 < length a + length b - 1" "length (naive_out a b) = length a + length b - 1"
    using ne naive_out_spec[of a b] by (cases a; cases b; simp)+
  note k = kara_combine_spec[OF q need T]
  have "pcong q (naive_out a b) (poly_mul_naive_mod a b q)"
    using pcong_trans[OF pcong_eqI pcong_sym[OF poly_mul_naive_pcong]] by (simp add: naive_out_spec)
  then show ?thesis
    using canonical_unique[OF q k(1) poly_mul_naive_canonical[OF q]] pcong_trans[OF k(2)] by blast
qed

text \<open>All strategies compute the same vector; in the supported sizes the dispatcher is total.\<close>

lemma poly_mul_mod_naive:
  assumes "cfg_ok cfg q" "1 < q" "length a \<le> 2 ^ 61" "length b \<le> 2 ^ 61"
  shows "poly_mul_mod cfg a b q = Inr (poly_mul_naive_mod a b q)"
  using assms(3,4)
proof (induction "max (length a) (length b)" arbitrary: a b rule: less_induct)
  case less
  show ?case
  proof (cases "a = [] \<or> b = []")
    case True
    then show ?thesis
      by (subst poly_mul_mod.simps) (auto simp: poly_mul_naive_mod_def)
  next
    case False
    have sz: "length a + length b - 1 \<le> 2 ^ 63"
      using less.prems by simp
    obtain n where n: "next_power_of_two_size (length a + length b - 1) = Inr n"
      using next_power_of_two_size_spec[OF sz] by blast
    obtain t where t: "ntt_poly_threshold (pc_env cfg) = Inr t"
      using assms(1) by (auto simp: cfg_ok_def)
    obtain r where r: "ntl_applies cfg (max (length a) (length b)) = Inr r" "\<forall>ops. r = Some ops \<longrightarrow> ntl_documented ops q"
      using ntl_applies_Inr[OF assms(1)] by blast
    consider (ntt) "max (length a) (length b) \<ge> t \<and> ntt_domain_supported (pc_env cfg) q n"
      | (ntl) ops where "\<not> (max (length a) (length b) \<ge> t \<and> ntt_domain_supported (pc_env cfg) q n)" "r = Some ops"
      | (small) "\<not> (max (length a) (length b) \<ge> t \<and> ntt_domain_supported (pc_env cfg) q n)" "r = None"
          "length a < 32 \<or> length b < 32"
      | (kara) "\<not> (max (length a) (length b) \<ge> t \<and> ntt_domain_supported (pc_env cfg) q n)" "r = None"
          "\<not> (length a < 32 \<or> length b < 32)"
      by blast
    then show ?thesis
    proof cases
      case ntt
      then show ?thesis
        using False n t poly_mul_ntt_naive[OF n _ _ _ sz] by (subst poly_mul_mod.simps) simp
    next
      case ntl
      have "canonical q (ntl_mul ops a b q)" "pcong q (ntl_mul ops a b q) (pmul a b)"
        using r(2) ntl(2) by (auto simp: ntl_documented_def)
      then have "ntl_mul ops a b q = poly_mul_naive_mod a b q"
        using canonical_unique poly_mul_naive_canonical pcong_trans[OF _ pcong_sym[OF poly_mul_naive_pcong]] assms(2)
        by (meson less_trans zero_less_one)
      then show ?thesis
        using False n t r(1) ntl by (subst poly_mul_mod.simps) (simp only: bind_r_simps if_False if_True option.simps simp_thms option.sel)
    next
      case small
      then show ?thesis
        using False n t r(1) by (subst poly_mul_mod.simps) (simp only: bind_r_simps if_False if_True simp_thms)
    next
      case kara
      define half where "half = (max (length a) (length b) + 1) div 2"
      note ks = kara_size[OF kara(3), folded half_def]
      let ?a0 = "poly_slice a 0 half" and ?a1 = "poly_slice a half (length a)"
      let ?b0 = "poly_slice b 0 half" and ?b1 = "poly_slice b half (length b)"
      let ?as = "poly_add_mod ?a0 ?a1 q" and ?bs = "poly_add_mod ?b0 ?b1 q"
      have half: "half \<le> 2 ^ 61"
        using ks(5) less.prems by simp
      have s: "length ?as \<le> half" "length ?bs \<le> half"
        using length_poly_add_mod[of ?a0 ?a1 q] length_poly_add_mod[of ?b0 ?b1 q] ks(1-4)
        by (meson le_trans max.boundedI)+
      have z: "poly_mul_mod cfg x y q = Inr (poly_mul_naive_mod x y q)" if "length x \<le> half" "length y \<le> half" for x y
        using that half ks(5) by (intro less.hyps) (simp_all add: le_less_trans)
      have "kara_combine q half (length a + length b - 1) (poly_mul_naive_mod ?a0 ?b0 q)
          (poly_sub_mod (poly_sub_mod (poly_mul_naive_mod ?as ?bs q) (poly_mul_naive_mod ?a0 ?b0 q) q)
             (poly_mul_naive_mod ?a1 ?b1 q) q) (poly_mul_naive_mod ?a1 ?b1 q) = poly_mul_naive_mod a b q"
        using False assms(2) by (intro karatsuba_step poly_mul_naive_pcong) auto
      then show ?thesis
        using False n t r(1) kara z[OF ks(1,2)] z[OF ks(3,4)] z[OF s]
        by (subst poly_mul_mod.simps) (simp only: bind_r_simps if_False if_True simp_thms Let_def half_def[symmetric])
    qed
  qed
qed

subsection \<open>The contract the tree algorithms rely on\<close>

text \<open>
  A multiplier returns the canonical representative of the product. The tree algorithms are
  proved against this contract only; every strategy of the code provides it.
\<close>

locale poly_multiplier =
  fixes mul :: "int \<Rightarrow> int list \<Rightarrow> int list \<Rightarrow> int list result"
    and ok :: "int \<Rightarrow> int list \<Rightarrow> int list \<Rightarrow> bool"
  assumes modulus: "ok q a b \<Longrightarrow> 0 < q"
    and product: "ok q a b \<Longrightarrow> \<exists>c. mul q a b = Inr c \<and> canonical q c \<and> pcong q c (pmul a b)"
begin

lemma mul_iff: "ok q a b \<Longrightarrow> mul q a b = Inr c \<longleftrightarrow> canonical q c \<and> pcong q c (pmul a b)"
  using product[of q a b] modulus[of q a b] canonical_unique pcong_sym pcong_trans
  by (metis sum.inject(2))

lemma mul_cong:
  assumes "ok q a b" "pcong q a a'" "pcong q b b'"
  shows "\<exists>c. mul q a b = Inr c \<and> canonical q c \<and> pcong q c (pmul a' b')"
  using product[OF assms(1)] pcong_trans[OF _ pcong_pmul[OF assms(2,3)]] by blast

lemma mul_comm: "ok q a b \<Longrightarrow> ok q b a \<Longrightarrow> mul q a b = mul q b a"
  using product[of q a b] mul_iff[of q b a] pcong_trans[OF _ pcong_eqI[of "pmul a b" "pmul b a"]]
  by (metis mult.commute peval_pmul)

lemma mul_eval:
  assumes "ok q a b" "mul q a b = Inr c"
  shows "peval c x mod q = (peval a x * peval b x) mod q"
  using assms mul_iff[OF assms(1)] pcong_peval by fastforce

end

interpretation schoolbook: poly_multiplier "\<lambda>q a b. Inr (poly_mul_naive_mod a b q)" "\<lambda>q a b. 0 < q"
  by unfold_locales (simp_all add: poly_mul_naive_canonical poly_mul_naive_pcong)

definition mul_sizes_ok :: "poly_cfg \<Rightarrow> int \<Rightarrow> int list \<Rightarrow> int list \<Rightarrow> bool" where
  "mul_sizes_ok cfg q a b \<longleftrightarrow> cfg_ok cfg q \<and> 1 < q \<and> length a \<le> 2 ^ 61 \<and> length b \<le> 2 ^ 61"

interpretation pm: poly_multiplier "\<lambda>q a b. poly_mul_mod cfg a b q" "mul_sizes_ok cfg" for cfg
  by unfold_locales (auto simp: mul_sizes_ok_def poly_mul_mod_naive poly_mul_naive_canonical poly_mul_naive_pcong)

end
