(* ===== verification/CG_Tree.thy ===== *)
theory CG_Tree
  imports CG_PolyMul
begin

text \<open>
  Subproduct trees of \<open>cg_rf_common.hpp\<close>: construction, the vanishing polynomial, and
  evaluation at many points by remainder descent. The worker pool computes the entries of one
  level independently of each other, so a level is the pointwise image of the one below.
\<close>

type_synonym level = "int list list"

record product_tree =
  pt_levels :: "level list"

definition next_level :: "poly_cfg \<Rightarrow> int \<Rightarrow> level \<Rightarrow> level result" where
  "next_level cfg q prev =
     map_r (\<lambda>i. let li = 2 * i; ri = li + 1 in
        if ri < length prev then poly_mul_mod cfg (prev ! li) (prev ! ri) q else Inr (prev ! li))
       [0..<(length prev + 1) div 2]"

lemma next_level_length: "next_level cfg q prev = Inr nx \<Longrightarrow> length nx = (length prev + 1) div 2"
  unfolding next_level_def by (drule map_r_InrD) simp

lemma bind_r_fundef_cong [fundef_cong]:
  "m = m' \<Longrightarrow> (\<And>x. m' = Inr x \<Longrightarrow> f x = f' x) \<Longrightarrow> bind_r m f = bind_r m' f'"
  by (cases m') simp_all

function build_levels :: "poly_cfg \<Rightarrow> int \<Rightarrow> level list \<Rightarrow> level list result" where
  "build_levels cfg q levels =
     (if length (last levels) > 1
      then bind_r (next_level cfg q (last levels)) (\<lambda>nx. build_levels cfg q (levels @ [nx]))
      else Inr levels)"
  by pat_completeness auto

termination
proof (relation "measure (\<lambda>(cfg, q, levels). length (last levels))", goal_cases)
  case (2 cfg q levels nx)
  then show ?case
    using next_level_length[of cfg q "last levels" nx] by simp
qed simp

declare build_levels.simps [simp del]

definition poly_build_product_tree :: "poly_cfg \<Rightarrow> int list \<Rightarrow> int \<Rightarrow> product_tree result" where
  "poly_build_product_tree cfg points q =
     (if points = [] then Inr \<lparr> pt_levels = [] \<rparr>
      else bind_r (build_levels cfg q [map (\<lambda>x. poly_linear_from_root x q) points])
             (\<lambda>ls. Inr \<lparr> pt_levels = ls \<rparr>))"

definition poly_from_roots :: "poly_cfg \<Rightarrow> int list \<Rightarrow> int \<Rightarrow> int list result" where
  "poly_from_roots cfg roots q =
     (if roots = [] then Inr [1]
      else bind_r (ntl_applies cfg (length roots)) (\<lambda>ntl.
        if ntl \<noteq> None then Inr (ntl_from_roots (the ntl) roots q)
        else bind_r (poly_build_product_tree cfg roots q) (\<lambda>tree. Inr (hd (last (pt_levels tree))))))"

text \<open>One step of the descent: the remainders of a level from those of the level above.\<close>

definition descend :: "int \<Rightarrow> level \<Rightarrow> level \<Rightarrow> level result" where
  "descend q children rems =
     fold_r (\<lambda>i cr.
        bind_r (poly_mod_monic (rems ! i) (children ! (2 * i)) q) (\<lambda>l.
        let cr = cr[2 * i := l] in
        if 2 * i + 1 < length cr
        then bind_r (poly_mod_monic (rems ! i) (children ! (2 * i + 1)) q) (\<lambda>r. Inr (cr[2 * i + 1 := r]))
        else Inr cr)) [0..<length rems] (replicate (length children) [])"

definition poly_eval_batch_with_product_tree :: "int list \<Rightarrow> product_tree \<Rightarrow> nat \<Rightarrow> int \<Rightarrow> int list result" where
  "poly_eval_batch_with_product_tree coeffs tree n_points q =
     (if n_points = 0 then Inr []
      else if coeffs = [] then Inr (replicate n_points 0)
      else if pt_levels tree = [] \<or> length (hd (pt_levels tree)) \<noteq> n_points
        then Inl (Runtime_error ''poly_eval_batch_with_product_tree: bad tree'')
      else bind_r (poly_mod_monic coeffs (hd (last (pt_levels tree))) q) (\<lambda>top.
        bind_r (fold_r (\<lambda>level rems. descend q (pt_levels tree ! (level - 1)) rems)
                  (rev [1..<length (pt_levels tree)]) [top]) (\<lambda>rems.
        Inr (map (\<lambda>i. if rems ! i \<noteq> [] then rems ! i ! 0 mod q else 0) [0..<n_points]))))"

subsection \<open>Vanishing polynomials\<close>

text \<open>The product of \<open>X - r\<close> over a list of roots, over the integers.\<close>

definition roots_poly :: "int list \<Rightarrow> int list" where
  "roots_poly rs = foldr (\<lambda>r p. pmul [- r, 1] p) rs [1]"

lemma peval_roots_poly: "peval (roots_poly rs) x = (\<Prod>r \<leftarrow> rs. x - r)"
  by (induction rs) (simp_all add: roots_poly_def algebra_simps)

lemma coef_roots_poly: "length rs < i \<Longrightarrow> coef (roots_poly rs) i = 0" "coef (roots_poly rs) (length rs) = 1"
  by (induction rs arbitrary: i)
    (auto simp: roots_poly_def coef_Cons coef_padd coef_pscale split: nat.splits)

lemma root_vanishes:
  assumes "x \<in> set rs"
  shows "peval (roots_poly rs) x = 0"
  using assms by (induction rs) (auto simp: roots_poly_def)

text \<open>A node of a tree carries the canonical form of the vanishing polynomial of its segment.\<close>

definition node :: "int \<Rightarrow> int list \<Rightarrow> int list \<Rightarrow> bool" where
  "node q seg p \<longleftrightarrow> canonical q p \<and> pcong q p (roots_poly seg)"

lemma node_shape:
  assumes "node q seg p" "1 < q"
  shows "length p = Suc (length seg)" "last p = 1" "p \<noteq> []"
proof -
  have c: "canonical q p" and p: "pcong q p (roots_poly seg)"
    using assms(1) by (simp_all add: node_def)
  have co: "coef p i = coef (roots_poly seg) i mod q" for i
    using p reduced_coef[of q p i] c assms(2) by (simp add: pcong_iff_coef canonical_def) (metis mod_pos_pos_trivial)
  show ne: "p \<noteq> []"
    using c by (simp add: canonical_def)
  have "coef p (length seg) = 1"
    using co[of "length seg"] coef_roots_poly(2)[of seg] assms(2) by simp
  then have le: "length seg < length p"
    by (auto simp: coef_def split: if_splits)
  moreover have "\<not> length seg < length p - 1"
  proof
    assume "length seg < length p - 1"
    then have "coef p (length p - 1) = 0"
      using co[of "length p - 1"] coef_roots_poly(1)[of seg "length p - 1"] by simp
    then have "last p = 0"
      using ne by (simp add: coef_def last_conv_nth)
    then show False
      using c \<open>length seg < length p - 1\<close> by (auto simp: canonical_def)
  qed
  ultimately show l: "length p = Suc (length seg)"
    by simp
  show "last p = 1"
    using \<open>coef p (length seg) = 1\<close> l ne by (simp add: coef_def last_conv_nth)
qed

lemma node_leaf: "1 < q \<Longrightarrow> node q [x] (poly_linear_from_root x q)"
  using canonical_linear linear_pcong pcong_trans[OF linear_pcong pcong_eqI[of "[- x, 1]" "roots_poly [x]"]]
  by (simp add: node_def roots_poly_def)

lemma node_merge:
  assumes "node q s p" "node q t r" "mul_sizes_ok cfg q p r"
  shows "\<exists>c. poly_mul_mod cfg p r q = Inr c \<and> node q (s @ t) c"
proof -
  obtain c where c: "poly_mul_mod cfg p r q = Inr c" "canonical q c" "pcong q c (pmul (roots_poly s) (roots_poly t))"
    using pm.mul_cong[OF assms(3)] assms(1,2) unfolding node_def by blast
  have "pcong q (pmul (roots_poly s) (roots_poly t)) (roots_poly (s @ t))"
    by (rule pcong_eqI) (simp add: peval_roots_poly)
  then show ?thesis
    using c pcong_trans unfolding node_def by blast
qed

subsection \<open>Levels\<close>

fun pair_up :: "'a list list \<Rightarrow> 'a list list" where
  "pair_up (x # y # r) = (x @ y) # pair_up r"
| "pair_up xs = xs"

lemma length_pair_up: "length (pair_up xs) = (length xs + 1) div 2"
  by (induction xs rule: pair_up.induct) auto

lemma concat_pair_up [simp]: "concat (pair_up xs) = concat xs"
  by (induction xs rule: pair_up.induct) auto

lemma nth_pair_up:
  "i < (length xs + 1) div 2 \<Longrightarrow>
     pair_up xs ! i = (if 2 * i + 1 < length xs then xs ! (2 * i) @ xs ! (2 * i + 1) else xs ! (2 * i))"
proof (induction xs arbitrary: i rule: pair_up.induct)
  case (1 x y r)
  show ?case
  proof (cases i)
    case (Suc j)
    then show ?thesis
      using 1 by auto
  qed simp
qed auto

lemma map_r_ex:
  assumes "\<And>x. x \<in> set xs \<Longrightarrow> \<exists>y. f x = Inr y \<and> P x y"
  shows "\<exists>ys. map_r f xs = Inr ys \<and> list_all2 P xs ys"
  using assms
proof (induction xs)
  case (Cons x xs)
  then obtain y ys where "f x = Inr y" "P x y" "map_r f xs = Inr ys" "list_all2 P xs ys"
    by (metis list.set_intros(1,2))
  then show ?case
    by simp
qed simp

lemma length_segment: "i < length segs \<Longrightarrow> length (segs ! i) \<le> length (concat segs)"
  unfolding length_concat by (rule member_le_sum_list) simp_all

lemma next_level_spec:
  assumes "list_all2 (node q) segs prev" "cfg_ok cfg q" "1 < q" "length (concat segs) < 2 ^ 61"
  shows "\<exists>nx. next_level cfg q prev = Inr nx \<and> list_all2 (node q) (pair_up segs) nx"
proof -
  have l: "length prev = length segs"
    using assms(1) by (simp add: list_all2_lengthD)
  have n: "node q (segs ! i) (prev ! i)" if "i < length segs" for i
    using assms(1) that by (simp add: list_all2_nthD)
  have sz: "mul_sizes_ok cfg q (prev ! i) (prev ! j)" if "i < length segs" "j < length segs" for i j
    using node_shape(1)[OF n[OF that(1)]] node_shape(1)[OF n[OF that(2)]] assms(2-4)
      length_segment[OF that(1)] length_segment[OF that(2)] by (simp add: mul_sizes_ok_def)
  have "\<exists>nx. next_level cfg q prev = Inr nx \<and> list_all2 (\<lambda>i p. node q (pair_up segs ! i) p) [0..<(length segs + 1) div 2] nx"
    unfolding next_level_def l
  proof (rule map_r_ex)
    fix i assume "i \<in> set [0..<(length segs + 1) div 2]"
    then have i: "i < (length segs + 1) div 2"
      by simp
    then show "\<exists>y. (let li = 2 * i; ri = li + 1 in if ri < length segs then poly_mul_mod cfg (prev ! li) (prev ! ri) q
        else Inr (prev ! li)) = Inr y \<and> node q (pair_up segs ! i) y"
      using node_merge[OF n n sz] n[of "2 * i"] nth_pair_up[OF i] by (auto simp: Let_def)
  qed
  then show ?thesis
    by (auto simp: list_all2_conv_all_nth length_pair_up)
qed

text \<open>The segments of the levels of a tree, from the singletons to the whole list.\<close>

definition seg_levels :: "int list list list \<Rightarrow> int list \<Rightarrow> bool" where
  "seg_levels segss points \<longleftrightarrow> segss \<noteq> [] \<and> hd segss = map (\<lambda>x. [x]) points \<and>
     (\<forall>k. Suc k < length segss \<longrightarrow> segss ! Suc k = pair_up (segss ! k))"

lemma seg_levels_snoc:
  "seg_levels segss points \<Longrightarrow> seg_levels (segss @ [pair_up (last segss)]) points"
  by (auto simp: seg_levels_def nth_append last_conv_nth less_Suc_eq)
    (metis diff_Suc_Suc diff_zero)

lemma seg_levels_concat:
  assumes "seg_levels segss points" "k < length segss"
  shows "concat (segss ! k) = points"
  using assms(2)
proof (induction k)
  case 0
  then show ?case
    using assms(1) by (simp add: seg_levels_def hd_conv_nth[symmetric] comp_def)
next
  case (Suc k)
  then show ?case
    using assms(1) by (simp add: seg_levels_def)
qed

definition tree_ok :: "int \<Rightarrow> int list \<Rightarrow> product_tree \<Rightarrow> bool" where
  "tree_ok q points tree \<longleftrightarrow> (\<exists>segss. seg_levels segss points \<and>
     list_all2 (list_all2 (node q)) segss (pt_levels tree) \<and> length (last segss) = 1)"

lemma build_levels_spec:
  assumes "cfg_ok cfg q" "1 < q" "points \<noteq> []" "length points < 2 ^ 61"
  shows "seg_levels segss points \<Longrightarrow> list_all2 (list_all2 (node q)) segss levels \<Longrightarrow> levels \<noteq> [] \<Longrightarrow>
    \<exists>ls. build_levels cfg q levels = Inr ls \<and> tree_ok q points \<lparr> pt_levels = ls \<rparr>"
proof (induction "length (last segss)" arbitrary: segss levels rule: less_induct)
  case less
  have ne: "segss \<noteq> []"
    using less.prems(1) by (simp add: seg_levels_def)
  have c: "concat (last segss) = points"
    using seg_levels_concat[OF less.prems(1), of "length segss - 1"] ne by (simp add: last_conv_nth)
  have last: "list_all2 (node q) (last segss) (last levels)"
    using less.prems(2,3) ne by (simp add: last_conv_nth list_all2_conv_all_nth)
  then have len: "length (last levels) = length (last segss)"
    by (simp add: list_all2_lengthD)
  show ?case
  proof (cases "length (last levels) > 1")
    case True
    obtain nx where nx: "next_level cfg q (last levels) = Inr nx" "list_all2 (node q) (pair_up (last segss)) nx"
      using next_level_spec[OF last assms(1,2)] c assms(4) by blast
    have "\<exists>ls. build_levels cfg q (levels @ [nx]) = Inr ls \<and> tree_ok q points \<lparr> pt_levels = ls \<rparr>"
    proof (rule less.hyps)
      show "length (last (segss @ [pair_up (last segss)])) < length (last segss)"
        using True len by (simp add: length_pair_up)
      show "seg_levels (segss @ [pair_up (last segss)]) points"
        by (rule seg_levels_snoc[OF less.prems(1)])
      show "list_all2 (list_all2 (node q)) (segss @ [pair_up (last segss)]) (levels @ [nx])"
        using less.prems(2) nx(2) by (simp add: list_all2_appendI)
    qed simp
    then show ?thesis
      using True nx(1) by (subst build_levels.simps) simp
  next
    case False
    have "last segss \<noteq> []"
      using c assms(3) by auto
    then have "length (last segss) = 1"
      using False len by (cases "last segss") auto
    then show ?thesis
      using False less.prems(1,2) by (subst build_levels.simps) (auto simp: tree_ok_def)
  qed
qed

lemma poly_build_product_tree_ok:
  assumes "cfg_ok cfg q" "1 < q" "points \<noteq> []" "length points < 2 ^ 61"
  shows "\<exists>tree. poly_build_product_tree cfg points q = Inr tree \<and> tree_ok q points tree"
proof -
  have "seg_levels [map (\<lambda>x. [x]) points] points"
    by (simp add: seg_levels_def)
  moreover have "list_all2 (list_all2 (node q)) [map (\<lambda>x. [x]) points] [map (\<lambda>x. poly_linear_from_root x q) points]"
    using node_leaf[OF assms(2)] by (simp add: list_all2_conv_all_nth)
  ultimately show ?thesis
    using build_levels_spec[OF assms, of "[map (\<lambda>x. [x]) points]" "[map (\<lambda>x. poly_linear_from_root x q) points]"] assms(3)
    by (auto simp: poly_build_product_tree_def)
qed

lemma tree_ok_root:
  assumes "tree_ok q points tree"
  shows "node q points (hd (last (pt_levels tree)))" "pt_levels tree \<noteq> []"
    "length (hd (pt_levels tree)) = length points"
proof -
  obtain segss where s: "seg_levels segss points" "list_all2 (list_all2 (node q)) segss (pt_levels tree)"
    "length (last segss) = 1"
    using assms by (auto simp: tree_ok_def)
  have ne: "segss \<noteq> []"
    using s(1) by (simp add: seg_levels_def)
  then show ne': "pt_levels tree \<noteq> []"
    using s(2) by auto
  have "last segss = [points]"
    using s(3) seg_levels_concat[OF s(1), of "length segss - 1"] ne
    by (cases "last segss") (auto simp: last_conv_nth)
  moreover have "list_all2 (node q) (last segss) (last (pt_levels tree))"
    using s(2) ne ne' by (simp add: last_conv_nth list_all2_conv_all_nth)
  ultimately show "node q points (hd (last (pt_levels tree)))"
    by (auto simp: list_all2_Cons1)
  have "list_all2 (node q) (hd segss) (hd (pt_levels tree))"
    using s(2) ne ne' by (simp add: hd_conv_nth list_all2_conv_all_nth)
  then show "length (hd (pt_levels tree)) = length points"
    using s(1) by (simp add: seg_levels_def list_all2_lengthD[symmetric])
qed

lemma poly_from_roots_ok:
  assumes "cfg_ok cfg q" "1 < q" "length roots < 2 ^ 61"
  shows "\<exists>p. poly_from_roots cfg roots q = Inr p \<and> node q roots p"
proof (cases "roots = []")
  case True
  then show ?thesis
    using assms(2) by (simp add: poly_from_roots_def node_def roots_poly_def canonical_def reduced_def)
next
  case False
  obtain tree where tree: "poly_build_product_tree cfg roots q = Inr tree" "tree_ok q roots tree"
    using poly_build_product_tree_ok[OF assms(1,2) False assms(3)] by blast
  obtain r where r: "ntl_applies cfg (length roots) = Inr r" "\<forall>ops. r = Some ops \<longrightarrow> ntl_documented ops q"
    using ntl_applies_Inr[OF assms(1)] by blast
  show ?thesis
  proof (cases r)
    case None
    then show ?thesis
      using False tree r tree_ok_root(1)[OF tree(2)] by (simp add: poly_from_roots_def)
  next
    case (Some ops)
    then show ?thesis
      using False r by (auto simp: poly_from_roots_def ntl_documented_def node_def roots_poly_def)
  qed
qed

subsection \<open>Remainder descent\<close>

text \<open>A remainder of a node agrees with the evaluated polynomial on the segment of the node.\<close>

definition rem_ok :: "int \<Rightarrow> int list \<Rightarrow> int list \<Rightarrow> int list \<Rightarrow> bool" where
  "rem_ok q f seg r \<longleftrightarrow> r \<noteq> [] \<and> length r \<le> max 1 (length seg) \<and> (\<forall>x \<in> set seg. peval r x mod q = peval f x mod q)"

lemma node_remainder:
  assumes "node q seg p" "1 < q" "\<And>x. x \<in> set seg \<Longrightarrow> peval m x mod q = peval f x mod q"
  shows "\<exists>r. poly_mod_monic m p q = Inr r \<and> rem_ok q f seg r"
proof -
  obtain r s where r: "poly_mod_monic m p q = Inr r" "canonical q r" "length r \<le> max 1 (length p - 1)"
    "pcong q m (padd r (pmul s p))"
    using poly_mod_monic_spec[of p q m] node_shape[OF assms(1,2)] assms(2) by auto
  have "peval r x mod q = peval f x mod q" if "x \<in> set seg" for x
  proof -
    have "peval p x mod q = 0"
      using assms(1) root_vanishes[OF that] pcong_peval[of q p "roots_poly seg" x] by (simp add: node_def)
    then have "(peval s x * peval p x) mod q = 0"
      by (metis mod_mult_right_eq mult_zero_right mod_0)
    then have "(peval r x + peval s x * peval p x) mod q = peval r x mod q"
      by (metis add.right_neutral mod_add_right_eq)
    then show ?thesis
      using pcong_peval[OF r(4), of x] assms(3)[OF that] by simp
  qed
  then show ?thesis
    using r(1-3) node_shape(1)[OF assms(1,2)] by (auto simp: rem_ok_def canonical_def)
qed

lemma descend_map:
  assumes "\<And>k. k < length ch \<Longrightarrow> poly_mod_monic (rems ! (k div 2)) (ch ! k) q = Inr (h k)"
    and "length rems = (length ch + 1) div 2"
  shows "descend q ch rems = Inr (map h [0..<length ch])"
proof -
  let ?n = "length ch"
  let ?f = "\<lambda>i cr.
        bind_r (poly_mod_monic (rems ! i) (ch ! (2 * i)) q) (\<lambda>l.
        let cr = cr[2 * i := l] in
        if 2 * i + 1 < length cr
        then bind_r (poly_mod_monic (rems ! i) (ch ! (2 * i + 1)) q) (\<lambda>r. Inr (cr[2 * i + 1 := r]))
        else Inr cr)"
  have "fold_r ?f [0..<m] (replicate ?n []) = Inr (map (\<lambda>k. if k < 2 * m then h k else []) [0..<?n])"
    if "m \<le> length rems" for m
    using that
  proof (induction m)
    case (Suc m)
    let ?g = "\<lambda>k. if k < 2 * m then h k else []"
    have m: "2 * m < ?n"
      using Suc.prems assms(2) by simp
    have a: "poly_mod_monic (rems ! m) (ch ! (2 * m)) q = Inr (h (2 * m))"
      using assms(1)[OF m] by simp
    have b: "poly_mod_monic (rems ! m) (ch ! Suc (2 * m)) q = Inr (h (Suc (2 * m)))" if "Suc (2 * m) < ?n"
      using assms(1)[OF that] by simp
    have "?f m (map ?g [0..<?n]) = Inr (map (\<lambda>k. if k < 2 * Suc m then h k else []) [0..<?n])"
      using a b m by (auto simp: Let_def intro!: nth_equalityI simp: nth_list_update less_Suc_eq)
    then show ?case
      using Suc by (simp add: fold_r_append)
  qed (simp add: map_replicate_trivial)
  moreover have "map (\<lambda>k. if k < 2 * length rems then h k else []) [0..<?n] = map h [0..<?n]"
    using assms(2) by (intro map_cong refl) auto
  ultimately show ?thesis
    unfolding descend_def by (simp only: le_refl)
qed

lemma descend_spec:
  assumes "list_all2 (node q) segs ch" "list_all2 (rem_ok q f) (pair_up segs) rems" "1 < q"
  shows "\<exists>rs. descend q ch rems = Inr rs \<and> list_all2 (rem_ok q f) segs rs"
proof -
  have n: "length ch = length segs" "length rems = (length ch + 1) div 2"
    using assms(1,2)[THEN list_all2_lengthD] by (simp_all add: length_pair_up)
  have "\<exists>r. poly_mod_monic (rems ! (k div 2)) (ch ! k) q = Inr r \<and> rem_ok q f (segs ! k) r" if k: "k < length ch" for k
  proof (rule node_remainder[OF _ assms(3)])
    show "node q (segs ! k) (ch ! k)"
      using assms(1) k n by (simp add: list_all2_nthD)
    have i: "k div 2 < (length segs + 1) div 2"
      using k n by simp
    then have "rem_ok q f (pair_up segs ! (k div 2)) (rems ! (k div 2))"
      using assms(2) n by (simp add: list_all2_nthD length_pair_up)
    moreover have "set (segs ! k) \<subseteq> set (pair_up segs ! (k div 2))"
      using nth_pair_up[OF i] k n by (cases "even k") (auto elim!: evenE oddE)
    ultimately show "peval (rems ! (k div 2)) x mod q = peval f x mod q" if "x \<in> set (segs ! k)" for x
      using that by (auto simp: rem_ok_def)
  qed
  then obtain h where h: "\<And>k. k < length ch \<Longrightarrow> poly_mod_monic (rems ! (k div 2)) (ch ! k) q = Inr (h k) \<and> rem_ok q f (segs ! k) (h k)"
    by metis
  then show ?thesis
    using descend_map[OF _ n(2), of q h] n by (simp add: list_all2_conv_all_nth)
qed

text \<open>Evaluation by remainder descent gives the value at every point.\<close>

lemma eval_with_tree:
  assumes "tree_ok q points tree" "1 < q" "points \<noteq> []"
  shows "poly_eval_batch_with_product_tree f tree (length points) q = Inr (map (\<lambda>x. pvalue f x q) points)"
proof (cases "f = []")
  case True
  then show ?thesis
    using assms(3) by (simp add: poly_eval_batch_with_product_tree_def pvalue_eq map_replicate_const)
next
  case False
  obtain segss where s: "seg_levels segss points" "list_all2 (list_all2 (node q)) segss (pt_levels tree)"
    "length (last segss) = 1"
    using assms(1) by (auto simp: tree_ok_def)
  let ?L = "length segss"
  have ne: "segss \<noteq> []" and L: "length (pt_levels tree) = ?L"
    using s by (auto simp: seg_levels_def list_all2_lengthD[symmetric])
  have last: "segss ! (?L - 1) = [points]"
    using s(3) seg_levels_concat[OF s(1), of "?L - 1"] ne
    by (cases "last segss") (auto simp: last_conv_nth)
  obtain top where top: "poly_mod_monic f (hd (last (pt_levels tree))) q = Inr top" "rem_ok q f points top"
    using node_remainder[OF tree_ok_root(1)[OF assms(1)] assms(2)] by blast
  let ?g = "\<lambda>level rems. descend q (pt_levels tree ! (level - 1)) rems"
  have down: "\<exists>rs. fold_r ?g (rev [Suc k..<?L]) [top] = Inr rs \<and> list_all2 (rem_ok q f) (segss ! k) rs" if "k < ?L" for k
    using that
  proof (induction "?L - Suc k" arbitrary: k)
    case 0
    then have "k = ?L - 1"
      by simp
    then show ?case
      using top(2) last by simp
  next
    case (Suc n)
    have k: "Suc k < ?L"
      using Suc(2) by simp
    obtain rs where rs: "fold_r ?g (rev [Suc (Suc k)..<?L]) [top] = Inr rs" "list_all2 (rem_ok q f) (segss ! Suc k) rs"
      using Suc(1)[OF _ k] Suc(2) by force
    have "segss ! Suc k = pair_up (segss ! k)"
      using s(1) k by (simp add: seg_levels_def)
    moreover have "list_all2 (node q) (segss ! k) (pt_levels tree ! k)"
      using s(2) k by (simp add: list_all2_nthD)
    ultimately obtain rs' where "descend q (pt_levels tree ! k) rs = Inr rs'" "list_all2 (rem_ok q f) (segss ! k) rs'"
      using descend_spec[OF _ _ assms(2)] rs(2) by metis
    then show ?case
      using rs(1) k by (simp add: upt_conv_Cons[of "Suc k"] fold_r_append)
  qed
  from down[of 0] ne obtain rs where rs: "fold_r ?g (rev [1..<?L]) [top] = Inr rs" "list_all2 (rem_ok q f) (hd segss) rs"
    by (auto simp: hd_conv_nth)
  have v: "rs ! i \<noteq> [] \<and> rs ! i ! 0 mod q = pvalue f (points ! i) q" if "i < length points" for i
  proof -
    have "rem_ok q f [points ! i] (rs ! i)"
      using rs(2) s(1) that by (auto simp: seg_levels_def list_all2_conv_all_nth)
    then show ?thesis
      by (cases "rs ! i") (auto simp: rem_ok_def pvalue_eq)
  qed
  have "poly_eval_batch_with_product_tree f tree (length points) q
    = Inr (map (\<lambda>i. if rs ! i \<noteq> [] then rs ! i ! 0 mod q else 0) [0..<length points])"
    using False assms(3) tree_ok_root(2,3)[OF assms(1)] top(1) rs(1) L
    by (simp add: poly_eval_batch_with_product_tree_def)
  also have "map (\<lambda>i. if rs ! i \<noteq> [] then rs ! i ! 0 mod q else 0) [0..<length points] = map (\<lambda>x. pvalue f x q) points"
    using v by (intro nth_equalityI) auto
  finally show ?thesis .
qed

end
