(* ===== verification/CG_BatchEval.thy ===== *)
theory CG_BatchEval
  imports CG_Tree
begin

text \<open>
  Public evaluation points, the process-wide caches in front of them, and the evaluation of one
  polynomial at many points by Horner, transform or remainder descent
  (\<open>cg_rf_common.hpp\<close>, from \<open>public_poly_cache_key\<close> to \<open>require_public_eval_points_distinct\<close>).
\<close>

subsection \<open>Caches\<close>

text \<open>Decimal output of an integer, as the stream operators print it.\<close>

fun dec_string :: "nat \<Rightarrow> string" where
  "dec_string n = (if n < 10 then [char_of (48 + n)] else dec_string (n div 10) @ [char_of (48 + n mod 10)])"

declare dec_string.simps [simp del]

definition public_poly_cache_key :: "nat \<Rightarrow> int \<Rightarrow> string" where
  "public_poly_cache_key n q =
     dec_string n @ '':'' @ (if q < 0 then ''-'' @ dec_string (nat (- q)) else dec_string (nat q))"

text \<open>The points that are entered when the key is not in the cache.\<close>

definition public_eval_points :: "env \<Rightarrow> nat \<Rightarrow> int \<Rightarrow> int list result" where
  "public_eval_points env n q =
     (if ntt_domain_supported env q n then ntt_domain_points env n q
      else Inr (map (\<lambda>i. int (i + 1)) [0..<n]))"

definition public_eval_points_cached ::
  "env \<Rightarrow> nat \<Rightarrow> int \<Rightarrow> (string \<rightharpoonup> int list) \<Rightarrow> (int list \<times> (string \<rightharpoonup> int list)) result" where
  "public_eval_points_cached env n q cache =
     (let key = public_poly_cache_key n q in
      case cache key of
        Some alpha \<Rightarrow> Inr (alpha, cache)
      | None \<Rightarrow> bind_r (public_eval_points env n q) (\<lambda>alpha. Inr (alpha, cache(key \<mapsto> alpha))))"

record poly_caches =
  point_cache :: "string \<rightharpoonup> int list"
  tree_cache :: "string \<rightharpoonup> product_tree"

definition public_product_tree_cached :: "poly_cfg \<Rightarrow> nat \<Rightarrow> int \<Rightarrow> poly_caches \<Rightarrow> (product_tree \<times> poly_caches) result" where
  "public_product_tree_cached cfg n q cs =
     (let key = public_poly_cache_key n q in
      case tree_cache cs key of
        Some tree \<Rightarrow> Inr (tree, cs)
      | None \<Rightarrow>
          bind_r (public_eval_points_cached (pc_env cfg) n q (point_cache cs)) (\<lambda>(alpha, pc).
          bind_r (poly_build_product_tree cfg alpha q) (\<lambda>tree.
          Inr (tree, \<lparr> point_cache = pc, tree_cache = (tree_cache cs)(key \<mapsto> tree) \<rparr>))))"

text \<open>
  Every entry of a cache was computed for its key. A cache that satisfies this is transparent,
  so the operations below read the points and the trees directly.
\<close>

definition caches_ok :: "poly_cfg \<Rightarrow> poly_caches \<Rightarrow> bool" where
  "caches_ok cfg cs \<longleftrightarrow>
     (\<forall>n q a. point_cache cs (public_poly_cache_key n q) = Some a \<longrightarrow> public_eval_points (pc_env cfg) n q = Inr a) \<and>
     (\<forall>n q t. tree_cache cs (public_poly_cache_key n q) = Some t \<longrightarrow>
        bind_r (public_eval_points (pc_env cfg) n q) (\<lambda>a. poly_build_product_tree cfg a q) = Inr t)"

lemma dec_string_digits: "set (dec_string n) \<subseteq> {c. 48 \<le> (of_char c :: nat) \<and> (of_char c :: nat) < 58}"
proof (induction n rule: dec_string.induct)
  case (1 n)
  then show ?case
    by (subst dec_string.simps) (auto simp: of_char_of)
qed

lemma dec_string_value: "foldl (\<lambda>v c. 10 * v + (of_char c - 48)) 0 (dec_string n) = n"
proof (induction n rule: dec_string.induct)
  case (1 n)
  then show ?case
    by (subst dec_string.simps) (auto simp: of_char_of)
qed

lemma dec_string_inject [simp]: "dec_string a = dec_string b \<longleftrightarrow> a = b"
  using dec_string_value by metis

lemma cache_key_inject: "public_poly_cache_key n q = public_poly_cache_key n' q' \<longleftrightarrow> n = n' \<and> q = q'"
proof
  assume eq: "public_poly_cache_key n q = public_poly_cache_key n' q'"
  let ?s = "\<lambda>q :: int. if q < 0 then ''-'' @ dec_string (nat (- q)) else dec_string (nat q)"
  have colon: "CHR '':'' \<notin> set (dec_string k)" "CHR ''-'' \<notin> set (dec_string k)" for k
    using dec_string_digits[of k] by auto
  have "takeWhile (\<lambda>c. c \<noteq> CHR '':'') (dec_string k @ '':'' @ s) = dec_string k" for k s
    using colon(1) by (subst takeWhile_append2) auto
  then have "dec_string n = dec_string n'"
    using eq unfolding public_poly_cache_key_def by metis
  then have n: "n = n'" "?s q = ?s q'"
    using eq by (simp_all add: public_poly_cache_key_def)
  have ne: "''-'' @ dec_string a \<noteq> dec_string b" for a b
    using colon(2)[of b] by (metis append_Cons list.set_intros(1))
  from n(2) have "q = q'"
    using ne ne[symmetric] by (auto split: if_splits)
  with n show "n = n' \<and> q = q'"
    by simp
qed simp

lemma caches_start: "caches_ok cfg \<lparr> point_cache = Map.empty, tree_cache = Map.empty \<rparr>"
  by (simp add: caches_ok_def)

lemma public_eval_points_cached_spec:
  assumes "caches_ok cfg cs"
  shows "(case public_eval_points_cached (pc_env cfg) n q (point_cache cs) of
            Inl e \<Rightarrow> public_eval_points (pc_env cfg) n q = Inl e
          | Inr (a, pc) \<Rightarrow> public_eval_points (pc_env cfg) n q = Inr a \<and> caches_ok cfg (cs\<lparr> point_cache := pc \<rparr>))"
proof (cases "point_cache cs (public_poly_cache_key n q)")
  case None
  then show ?thesis
    using assms by (cases "public_eval_points (pc_env cfg) n q")
      (auto simp: public_eval_points_cached_def caches_ok_def Let_def cache_key_inject)
next
  case (Some a)
  then show ?thesis
    using assms by (auto simp: public_eval_points_cached_def caches_ok_def Let_def)
qed

lemma public_product_tree_cached_spec:
  assumes "caches_ok cfg cs"
  shows "(case public_product_tree_cached cfg n q cs of
            Inl e \<Rightarrow> bind_r (public_eval_points (pc_env cfg) n q) (\<lambda>a. poly_build_product_tree cfg a q) = Inl e
          | Inr (t, cs') \<Rightarrow> bind_r (public_eval_points (pc_env cfg) n q) (\<lambda>a. poly_build_product_tree cfg a q) = Inr t
              \<and> caches_ok cfg cs')"
proof (cases "tree_cache cs (public_poly_cache_key n q)")
  case (Some t)
  then show ?thesis
    using assms by (auto simp: public_product_tree_cached_def caches_ok_def Let_def)
next
  case None
  show ?thesis
  proof (cases "public_eval_points_cached (pc_env cfg) n q (point_cache cs)")
    case (Inl e)
    then show ?thesis
      using None public_eval_points_cached_spec[OF assms, of n q] by (simp add: public_product_tree_cached_def Let_def)
  next
    case (Inr r)
    obtain a pc where r: "r = (a, pc)" by (cases r)
    have a: "public_eval_points (pc_env cfg) n q = Inr a" "caches_ok cfg (cs\<lparr> point_cache := pc \<rparr>)"
      using public_eval_points_cached_spec[OF assms, of n q] Inr r by simp_all
    then show ?thesis
      using None Inr r by (cases "poly_build_product_tree cfg a q")
        (auto simp: public_product_tree_cached_def Let_def caches_ok_def cache_key_inject)
  qed
qed

subsection \<open>Batch evaluation\<close>

definition is_public_eval_points :: "env \<Rightarrow> int list \<Rightarrow> int \<Rightarrow> bool result" where
  "is_public_eval_points env points q =
     bind_r (public_eval_points env (length points) q) (\<lambda>pub.
       Inr (list_all (\<lambda>i. points ! i = pub ! i) [0..<length points]))"

definition poly_eval_batch_product_tree :: "poly_cfg \<Rightarrow> int list \<Rightarrow> int list \<Rightarrow> int \<Rightarrow> int list result" where
  "poly_eval_batch_product_tree cfg coeffs points q =
     (if points = [] then Inr []
      else bind_r (is_public_eval_points (pc_env cfg) points q) (\<lambda>pub.
        if pub
        then bind_r (public_eval_points (pc_env cfg) (length points) q) (\<lambda>alpha.
             bind_r (poly_build_product_tree cfg alpha q) (\<lambda>tree.
             poly_eval_batch_with_product_tree coeffs tree (length points) q))
        else bind_r (poly_build_product_tree cfg points q) (\<lambda>tree.
             poly_eval_batch_with_product_tree coeffs tree (length points) q)))"

definition poly_eval_batch_ntl :: "ntl_ops \<Rightarrow> int list \<Rightarrow> int list \<Rightarrow> int \<Rightarrow> int list" where
  "poly_eval_batch_ntl ops coeffs points q =
     (if points = [] \<or> coeffs = [] then replicate (length points) 0
      else ntl_eval ops coeffs points q)"

definition poly_eval_batch_horner :: "int list \<Rightarrow> int list \<Rightarrow> int \<Rightarrow> int list" where
  "poly_eval_batch_horner coeffs points q =
     (if points = [] \<or> coeffs = [] then replicate (length points) 0
      else map (\<lambda>i. poly_eval coeffs (points ! i) q) [0..<length points])"

definition poly_eval_auto_horner_max_points :: "env \<Rightarrow> nat result" where
  "poly_eval_auto_horner_max_points env =
     (case env_value env ''CG_POLY_HORNER_MAX_POINTS'' of
        None \<Rightarrow> Inr 65536
      | Some v \<Rightarrow> cg_parse_size env (Some v) ''CG_POLY_HORNER_MAX_POINTS'' True 0)"

definition poly_eval_method_env :: "env \<Rightarrow> string" where
  "poly_eval_method_env env =
     (case env_value env ''CG_POLY_EVAL_METHOD'' of Some v \<Rightarrow> v | None \<Rightarrow> ''auto'')"

text \<open>The automatic choice, once no method is forced. The warning on an unknown name is output only.\<close>

definition poly_eval_batch_choice :: "poly_cfg \<Rightarrow> int list \<Rightarrow> int list \<Rightarrow> int \<Rightarrow> int list result" where
  "poly_eval_batch_choice cfg coeffs points q =
     bind_r (if ntt_domain_supported (pc_env cfg) q (length points) \<and> length coeffs \<le> length points
             then is_public_eval_points (pc_env cfg) points q else Inr False) (\<lambda>use_ntt.
     if use_ntt then poly_eval_batch_ntt (pc_env cfg) coeffs (length points) q
     else bind_r (poly_eval_auto_horner_max_points (pc_env cfg)) (\<lambda>hmax.
       if length points \<le> hmax then Inr (poly_eval_batch_horner coeffs points q)
       else bind_r (ntl_applies cfg (max (length coeffs) (length points))) (\<lambda>ntl.
         if ntl \<noteq> None then Inr (poly_eval_batch_ntl (the ntl) coeffs points q)
         else poly_eval_batch_product_tree cfg coeffs points q)))"

definition poly_eval_batch_auto :: "poly_cfg \<Rightarrow> int list \<Rightarrow> int list \<Rightarrow> int \<Rightarrow> int list result" where
  "poly_eval_batch_auto cfg coeffs points q =
     (let m = poly_eval_method_env (pc_env cfg) in
      if m = ''ntt''
      then bind_r (is_public_eval_points (pc_env cfg) points q) (\<lambda>pub.
        if \<not> pub then Inl (Runtime_error ''CG_POLY_EVAL_METHOD=ntt requires public NTT points'')
        else poly_eval_batch_ntt (pc_env cfg) coeffs (length points) q)
      else if m = ''horner'' then Inr (poly_eval_batch_horner coeffs points q)
      else if m = ''ntl'' \<and> pc_ntl cfg \<noteq> None
      then Inr (poly_eval_batch_ntl (the (pc_ntl cfg)) coeffs points q)
      else if m = ''multipoint'' \<or> m = ''product_tree''
      then poly_eval_batch_product_tree cfg coeffs points q
      else poly_eval_batch_choice cfg coeffs points q)"

subsection \<open>Point counts\<close>

definition psi_opa_point_count :: "env \<Rightarrow> nat \<Rightarrow> int \<Rightarrow> nat result" where
  "psi_opa_point_count env degree_bound_plus_one q =
     bind_r (cg_validate_count env degree_bound_plus_one False) (\<lambda>_.
     if ntt_runtime_enabled env \<and> is_ntt128_prime q
     then bind_r (next_power_of_two_size degree_bound_plus_one) (\<lambda>count.
          bind_r (cg_validate_count env count False) (\<lambda>_. Inr count))
     else Inr degree_bound_plus_one)"

definition require_public_eval_points_distinct :: "nat \<Rightarrow> int \<Rightarrow> unit result" where
  "require_public_eval_points_distinct n_pts q =
     (if n_pts = 0 then Inr ()
      else throw_if (int n_pts > q)
        (Runtime_error ''public OPA/Lagrange point count exceeds plaintext field size''))"

definition rf_opa_eval_points :: "env \<Rightarrow> nat \<Rightarrow> int \<Rightarrow> int list result" where
  "rf_opa_eval_points env n_pts q = public_eval_points env n_pts q"

subsection \<open>All evaluators agree\<close>

text \<open>
  The contract of a batch evaluator: the values of the polynomial, reduced modulo \<open>q\<close>, in the
  order of the points.
\<close>

locale batch_evaluator =
  fixes ev :: "int \<Rightarrow> int list \<Rightarrow> int list \<Rightarrow> int list result"
    and ok :: "int \<Rightarrow> int list \<Rightarrow> int list \<Rightarrow> bool"
  assumes ev_values: "ok q f xs \<Longrightarrow> ev q f xs = Inr (map (\<lambda>x. pvalue f x q) xs)"
begin

lemma values_length: "ok q f xs \<Longrightarrow> ev q f xs = Inr ys \<Longrightarrow> length ys = length xs"
  using ev_values by auto

lemma values_cong:
  assumes "ok q f xs" "ok q g xs" "pcong q f g"
  shows "ev q f xs = ev q g xs"
  using assms pcong_peval[OF assms(3)] by (simp add: ev_values pvalue_eq)

lemma values_product:
  assumes "ok q f xs" "ok q g xs" "ok q h xs" "pcong q h (pmul f g)"
    and "ev q f xs = Inr ys" "ev q g xs = Inr zs"
  shows "ev q h xs = Inr (map2 (\<lambda>y z. y * z mod q) ys zs)"
proof -
  have "peval h x mod q = (peval f x mod q) * (peval g x mod q) mod q" for x
    using pcong_peval[OF assms(4), of x] by (simp add: mod_simps)
  then show ?thesis
    using assms ev_values by (auto simp: pvalue_eq intro!: nth_equalityI)
qed

lemma values_sum:
  assumes "ok q f xs" "ok q g xs" "ok q h xs" "pcong q h (padd f g)"
    and "ev q f xs = Inr ys" "ev q g xs = Inr zs"
  shows "ev q h xs = Inr (map2 (\<lambda>y z. (y + z) mod q) ys zs)"
proof -
  have "peval h x mod q = ((peval f x mod q) + (peval g x mod q)) mod q" for x
    using pcong_peval[OF assms(4), of x] by (simp add: mod_simps)
  then show ?thesis
    using assms ev_values by (auto simp: pvalue_eq intro!: nth_equalityI)
qed

end

lemma horner_values:
  assumes "length f < 2 ^ 31"
  shows "poly_eval_batch_horner f xs q = map (\<lambda>x. pvalue f x q) xs"
proof (cases "xs = [] \<or> f = []")
  case True
  then show ?thesis
    by (auto simp: poly_eval_batch_horner_def pvalue_eq map_replicate_const)
next
  case False
  then show ?thesis
    by (auto simp: poly_eval_batch_horner_def poly_eval_pvalue[OF assms] intro: nth_equalityI)
qed

interpretation horner: batch_evaluator "\<lambda>q f xs. Inr (poly_eval_batch_horner f xs q)" "\<lambda>q f xs. length f < 2 ^ 31"
  by unfold_locales (simp add: horner_values)

lemma ntl_values: "ntl_documented ops q \<Longrightarrow> poly_eval_batch_ntl ops f xs q = map (\<lambda>x. pvalue f x q) xs"
  by (auto simp: poly_eval_batch_ntl_def ntl_documented_def pvalue_eq map_replicate_const)

lemma public_eval_points_ok:
  assumes "n < size_limit"
  shows "\<exists>pts. public_eval_points env n q = Inr pts \<and> length pts = n"
proof (cases "ntt_domain_supported env q n")
  case True
  then show ?thesis
    using ntt_domain_points_spec[OF True assms] by (auto simp: public_eval_points_def)
qed (simp add: public_eval_points_def)

lemma is_public_eval_points_iff:
  assumes "length points < size_limit"
  shows "\<exists>pts. public_eval_points env (length points) q = Inr pts \<and> is_public_eval_points env points q = Inr (points = pts)"
proof -
  obtain pts where p: "public_eval_points env (length points) q = Inr pts" "length pts = length points"
    using public_eval_points_ok[OF assms] by blast
  have "list_all (\<lambda>i. points ! i = pts ! i) [0..<length points] = (points = pts)"
    unfolding list_all_iff set_upt atLeast0LessThan Ball_def lessThan_iff
    using nth_equalityI[OF p(2)[symmetric]] by metis
  then show ?thesis
    using p by (simp add: is_public_eval_points_def)
qed

definition tree_eval_ok :: "poly_cfg \<Rightarrow> int \<Rightarrow> int list \<Rightarrow> int list \<Rightarrow> bool" where
  "tree_eval_ok cfg q f xs \<longleftrightarrow> cfg_ok cfg q \<and> 1 < q \<and> length xs < 2 ^ 61"

lemma product_tree_values:
  assumes "tree_eval_ok cfg q f xs"
  shows "poly_eval_batch_product_tree cfg f xs q = Inr (map (\<lambda>x. pvalue f x q) xs)"
proof (cases "xs = []")
  case False
  have l: "length xs < size_limit" "length xs < 2 ^ 61"
    using assms by (simp_all add: tree_eval_ok_def size_limit_def)
  obtain pts where p: "public_eval_points (pc_env cfg) (length xs) q = Inr pts"
      "is_public_eval_points (pc_env cfg) xs q = Inr (xs = pts)"
    using is_public_eval_points_iff[OF l(1)] by blast
  obtain tree where "poly_build_product_tree cfg xs q = Inr tree" "tree_ok q xs tree"
    using poly_build_product_tree_ok[OF _ _ False l(2)] assms by (auto simp: tree_eval_ok_def)
  then show ?thesis
    using False p eval_with_tree[of q xs tree f] assms
    by (cases "xs = pts") (simp_all add: poly_eval_batch_product_tree_def tree_eval_ok_def)
qed (simp add: poly_eval_batch_product_tree_def)

interpretation descent: batch_evaluator "\<lambda>q f xs. poly_eval_batch_product_tree cfg f xs q" "tree_eval_ok cfg" for cfg
  by unfold_locales (rule product_tree_values)

lemma ntt_values:
  assumes "ntt_domain_supported env q (length xs)" "length xs < size_limit" "length f \<le> length xs"
    and "public_eval_points env (length xs) q = Inr xs"
  shows "poly_eval_batch_ntt env f (length xs) q = Inr (map (\<lambda>x. pvalue f x q) xs)"
proof -
  obtain m where m: "m < 64" "length xs = 2 ^ m"
      "poly_eval_batch_ntt env f (length xs) q = Inr (map (\<lambda>k. peval f (ntt_root m ^ k) mod q) [0..<length xs])"
    using poly_eval_batch_ntt_spec[OF assms(1-3)] by blast
  obtain m' where m': "length xs = 2 ^ m'" "ntt_domain_points env (length xs) q = Inr (map (\<lambda>i. ntt_root m' ^ i mod q) [0..<length xs])"
    using ntt_domain_points_spec[OF assms(1,2)] by blast
  have "m' = m"
    using m(2) m'(1) by simp
  then have xs: "xs = map (\<lambda>i. ntt_root m ^ i mod q) [0..<length xs]"
    using m'(2) assms(1,4) by (simp add: public_eval_points_def)
  have "map (\<lambda>x. pvalue f x q) xs = map (\<lambda>k. peval f (ntt_root m ^ k) mod q) [0..<length xs]"
    by (subst xs) (auto simp: pvalue_eq intro: peval_mod_cong)
  then show ?thesis
    using m(3) by simp
qed

text \<open>The configurations in which the automatic choice is total, and vectors whose length fits an \<^verbatim>\<open>int\<close>.\<close>

definition eval_ok :: "poly_cfg \<Rightarrow> int \<Rightarrow> int list \<Rightarrow> int list \<Rightarrow> bool" where
  "eval_ok cfg q f xs \<longleftrightarrow> tree_eval_ok cfg q f xs \<and> length f < 2 ^ 31 \<and> (\<exists>t. poly_eval_auto_horner_max_points (pc_env cfg) = Inr t) \<and>
     poly_eval_method_env (pc_env cfg) \<noteq> ''ntt''"

lemma choice_values:
  assumes "tree_eval_ok cfg q f xs" "poly_eval_auto_horner_max_points (pc_env cfg) = Inr t" "length f < 2 ^ 31"
  shows "poly_eval_batch_choice cfg f xs q = Inr (map (\<lambda>x. pvalue f x q) xs)"
proof -
  have l: "length xs < size_limit"
    using assms(1) by (simp add: tree_eval_ok_def size_limit_def)
  obtain pts where p: "public_eval_points (pc_env cfg) (length xs) q = Inr pts"
      "is_public_eval_points (pc_env cfg) xs q = Inr (xs = pts)"
    using is_public_eval_points_iff[OF l] by blast
  obtain r where r: "ntl_applies cfg (max (length f) (length xs)) = Inr r" "\<forall>ops. r = Some ops \<longrightarrow> ntl_documented ops q"
    using ntl_applies_Inr assms(1) by (metis tree_eval_ok_def)
  show ?thesis
  proof (cases "ntt_domain_supported (pc_env cfg) q (length xs) \<and> length f \<le> length xs \<and> xs = pts")
    case True
    then show ?thesis
      using p ntt_values[of "pc_env cfg" q xs f] l by (auto simp: poly_eval_batch_choice_def)
  next
    case False
    then have "(if ntt_domain_supported (pc_env cfg) q (length xs) \<and> length f \<le> length xs
             then is_public_eval_points (pc_env cfg) xs q else Inr False) = Inr False"
      using p(2) by auto
    then show ?thesis
      using assms(2) r product_tree_values[OF assms(1)] unfolding poly_eval_batch_choice_def
      by (auto simp: horner_values[OF assms(3)] ntl_values)
  qed
qed

lemma auto_values:
  assumes "eval_ok cfg q f xs"
  shows "poly_eval_batch_auto cfg f xs q = Inr (map (\<lambda>x. pvalue f x q) xs)"
proof -
  obtain t where t: "poly_eval_auto_horner_max_points (pc_env cfg) = Inr t"
    and e: "tree_eval_ok cfg q f xs" "poly_eval_method_env (pc_env cfg) \<noteq> ''ntt''" "length f < 2 ^ 31"
    using assms by (auto simp: eval_ok_def)
  have "ntl_documented ops q" if "pc_ntl cfg = Some ops" for ops
    using e(1) that by (simp add: tree_eval_ok_def cfg_ok_def)
  then show ?thesis
    using e(2) choice_values[OF e(1) t e(3)] product_tree_values[OF e(1)]
    by (auto simp: poly_eval_batch_auto_def Let_def horner_values[OF e(3)] ntl_values)
qed

interpretation auto_eval: batch_evaluator "\<lambda>q f xs. poly_eval_batch_auto cfg f xs q" "eval_ok cfg" for cfg
  by unfold_locales (rule auto_values)

end
