(* ===== verification/CG_Lagrange.thy ===== *)
theory CG_Lagrange
  imports CG_BatchEval
begin

text \<open>
  Interpolation at the public points (\<open>cg_rf_common.hpp\<close>, from
  \<open>lagrange_interpolate_from_tree\<close> to \<open>lagrange_eval_batch_auto\<close>): recombination along the
  product tree, inverse transform, and the barycentric evaluation that never builds
  coefficients.
\<close>

subsection \<open>Operations\<close>

definition interp_level :: "poly_cfg \<Rightarrow> int \<Rightarrow> level \<Rightarrow> level \<Rightarrow> level result" where
  "interp_level cfg q polys acc =
     map_r (\<lambda>i. let li = 2 * i; ri = li + 1 in
        if ri \<ge> length acc then Inr (acc ! li)
        else bind_r (poly_mul_mod cfg (acc ! li) (polys ! ri) q) (\<lambda>left.
             bind_r (poly_mul_mod cfg (acc ! ri) (polys ! li) q) (\<lambda>right.
             Inr (poly_add_mod left right q))))
       [0..<(length acc + 1) div 2]"

definition lagrange_interpolate_from_tree :: "poly_cfg \<Rightarrow> int list \<Rightarrow> product_tree \<Rightarrow> int \<Rightarrow> int list result" where
  "lagrange_interpolate_from_tree cfg y tree q =
     (if y = [] then Inr [0]
      else if pt_levels tree = [] \<or> length (hd (pt_levels tree)) \<noteq> length y
      then Inl (Runtime_error ''lagrange_interpolate_from_tree: bad tree'')
      else let P_deriv = poly_derivative_mod (hd (last (pt_levels tree))) q in
        bind_r (rf_opa_eval_points (pc_env cfg) (length y) q) (\<lambda>pts.
        bind_r (poly_eval_batch_product_tree cfg P_deriv pts q) (\<lambda>denom.
        bind_r (map_r (\<lambda>i. bind_r (mod_inverse (denom ! i) q) (\<lambda>v. Inr [y ! i * v mod q])) [0..<length y]) (\<lambda>acc.
        bind_r (fold_r (\<lambda>level acc. interp_level cfg q (pt_levels tree ! level) acc)
                  [0..<length (pt_levels tree) - 1] acc) (\<lambda>acc.
        Inr (hd acc))))))"

definition lagrange_interpolate_public_points :: "poly_cfg \<Rightarrow> int list \<Rightarrow> int \<Rightarrow> int list result" where
  "lagrange_interpolate_public_points cfg y q =
     (if ntt_domain_supported (pc_env cfg) q (length y) then lagrange_interpolate_ntt (pc_env cfg) y q
      else bind_r (ntl_applies cfg (length y)) (\<lambda>ntl.
        if ntl \<noteq> None
        then bind_r (rf_opa_eval_points (pc_env cfg) (length y) q) (\<lambda>pts. Inr (ntl_interpolate (the ntl) pts y q))
        else bind_r (public_eval_points (pc_env cfg) (length y) q) (\<lambda>alpha.
             bind_r (poly_build_product_tree cfg alpha q) (\<lambda>tree.
             lagrange_interpolate_from_tree cfg y tree q))))"

text \<open>The factorials modulo \<open>q\<close>, and the inverses of \<open>i! (-1)^(N-1-i) (N-1-i)!\<close>.\<close>

definition factorials_mod :: "nat \<Rightarrow> int \<Rightarrow> int list" where
  "factorials_mod N q =
     fold (\<lambda>i fact. fact[i := fact ! (i - 1) * int i mod q]) [1..<N] (replicate N 1)"

definition lagrange_denominator_inverses :: "nat \<Rightarrow> int \<Rightarrow> int list result" where
  "lagrange_denominator_inverses N q =
     bind_r (require_public_eval_points_distinct N q) (\<lambda>_.
     let fact = factorials_mod N q in
     map_r (\<lambda>i. let D = fact ! i * fact ! (N - 1 - i) mod q;
                    D = (if (N - 1 - i) mod 2 \<noteq> 0 then q - D else D)
                in mod_inverse D q) [0..<N])"

definition prefix_products :: "int \<Rightarrow> nat \<Rightarrow> int \<Rightarrow> int list" where
  "prefix_products xi N q =
     snd (fold (\<lambda>i (cur, L). let cur = cur * ((xi - int (i + 1)) mod q) mod q in (cur, L[i + 1 := cur]))
            [0..<N - 1] (1, replicate N 1))"

text \<open>The second loop counts down with a 32-bit \<^verbatim>\<open>int\<close> index from \<^verbatim>\<open>(int)N - 1\<close> to 1.\<close>

definition suffix_products :: "int \<Rightarrow> nat \<Rightarrow> int \<Rightarrow> int list" where
  "suffix_products xi N q =
     snd (fold (\<lambda>i (cur, R). let cur = cur * ((xi - int (i + 1)) mod q) mod q in (cur, R[i - 1 := cur]))
            (rev [1..<nat (int32_of N - 1 + 1)]) (1, replicate N 1))"

definition barycentric_value :: "int list \<Rightarrow> int \<Rightarrow> int \<Rightarrow> int" where
  "barycentric_value W xi q =
     (let L = prefix_products xi (length W) q; R = suffix_products xi (length W) q in
      fold (\<lambda>i res. (res + (W ! i * L ! i mod q) * R ! i mod q) mod q) [0..<length W] 0)"

definition lagrange_eval_batch :: "int list \<Rightarrow> int list \<Rightarrow> int \<Rightarrow> int list result" where
  "lagrange_eval_batch y targets q =
     (if y = [] then Inr (replicate (length targets) 0)
      else bind_r (lagrange_denominator_inverses (length y) q) (\<lambda>D_inv.
        let W = map (\<lambda>i. y ! i * D_inv ! i mod q) [0..<length y] in
        Inr (map (\<lambda>xi. barycentric_value W xi q) targets)))"

definition psi_lagrange_to_coeff_threshold :: "env \<Rightarrow> nat result" where
  "psi_lagrange_to_coeff_threshold env =
     (case env_value env ''CG_PSI_INTERP_TO_COEFF_THRESHOLD'' of
        None \<Rightarrow> Inr 4096
      | Some v \<Rightarrow> cg_parse_size env (Some v) ''polynomial threshold'' True 0)"

definition lagrange_eval_batch_auto :: "poly_cfg \<Rightarrow> int list \<Rightarrow> int list \<Rightarrow> int \<Rightarrow> int list result" where
  "lagrange_eval_batch_auto cfg y targets q =
     bind_r (psi_lagrange_to_coeff_threshold (pc_env cfg)) (\<lambda>threshold.
     if y = [] \<or> targets = [] then Inr (replicate (length targets) 0)
     else if ntt_domain_supported (pc_env cfg) q (length y)
     then bind_r (lagrange_interpolate_ntt (pc_env cfg) y q) (\<lambda>coeffs.
          poly_eval_batch_auto cfg coeffs targets q)
     else if max (length y) (length targets) < threshold
     then lagrange_eval_batch y targets q
     else bind_r (lagrange_interpolate_public_points cfg y q) (\<lambda>coeffs.
          poly_eval_batch_auto cfg coeffs targets q))"

subsection \<open>Interpolation sums\<close>

text \<open>The sum of \<open>w\<close> times the product of \<open>X - b\<close> over the other points, for weighted points.\<close>

fun lag :: "(int \<times> int) list \<Rightarrow> int \<Rightarrow> int" where
  "lag [] x = 0"
| "lag ((a, w) # r) x = w * (\<Prod>b \<leftarrow> map fst r. x - b) + (x - a) * lag r x"

lemma lag_append: "lag (r @ s) x = lag r x * (\<Prod>b \<leftarrow> map fst s. x - b) + lag s x * (\<Prod>b \<leftarrow> map fst r. x - b)"
  by (induction r x rule: lag.induct) (simp_all add: algebra_simps)

lemma lag_at:
  "lag (l @ (a, w) # r) a = w * ((\<Prod>b \<leftarrow> map fst l. a - b) * (\<Prod>b \<leftarrow> map fst r. a - b))"
  by (simp add: lag_append)

lemma prod_list_nth: "(\<Prod>b \<leftarrow> xs. f b) = (\<Prod>j < length xs. f (xs ! j) :: int)"
  by (induction xs rule: rev_induct) (simp_all add: nth_append cong: prod.cong_simp)

lemma lag_sum:
  "lag ps x = (\<Sum>i < length ps. snd (ps ! i) * ((\<Prod>j < i. x - fst (ps ! j)) * (\<Prod>j \<in> {i<..<length ps}. x - fst (ps ! j))))"
proof (induction ps rule: rev_induct)
  case (snoc p ps)
  obtain a w where p: "p = (a, w)" by (cases p)
  have prods: "(\<Prod>b \<leftarrow> map fst ps. x - b) = (\<Prod>j < length ps. x - fst (ps ! j))"
    using prod_list_nth[of "\<lambda>b. x - b" "map fst ps"] by (simp cong: prod.cong_simp)
  have "(\<Prod>j \<in> {i<..<Suc (length ps)}. x - fst ((ps @ [p]) ! j)) = (\<Prod>j \<in> {i<..<length ps}. x - fst (ps ! j)) * (x - a)"
    if i: "i < length ps" for i
  proof -
    have "{i<..<Suc (length ps)} = insert (length ps) {i<..<length ps}"
      using i by auto
    then show ?thesis
      by (simp add: p nth_append mult.commute cong: prod.cong_simp)
  qed
  then have "(\<Sum>i < length ps. snd ((ps @ [p]) ! i) * ((\<Prod>j < i. x - fst ((ps @ [p]) ! j)) *
      (\<Prod>j \<in> {i<..<Suc (length ps)}. x - fst ((ps @ [p]) ! j)))) =
    (\<Sum>i < length ps. snd (ps ! i) * ((\<Prod>j < i. x - fst (ps ! j)) * (\<Prod>j \<in> {i<..<length ps}. x - fst (ps ! j))) * (x - a))"
    by (intro sum.cong refl) (simp add: nth_append cong: prod.cong_simp)
  moreover have "{length ps<..<Suc (length ps)} = {}"
    by auto
  ultimately show ?case
    using snoc prods by (simp add: p lag_append sum_distrib_right[symmetric] nth_append cong: prod.cong_simp)
qed simp

subsection \<open>The derivative\<close>

definition dval :: "int list \<Rightarrow> int \<Rightarrow> int" where
  "dval p x = (\<Sum>i < length p. int i * (p ! i) * x ^ (i - 1))"

lemma dval_coef: "length p \<le> N \<Longrightarrow> dval p x = (\<Sum>i < N. int i * coef p i * x ^ (i - 1))"
  unfolding dval_def by (rule sum.mono_neutral_cong_left) (auto simp: coef_def)

lemma dval_coef_cong: "(\<And>i. coef p i = coef r i) \<Longrightarrow> dval p x = dval r x"
  using dval_coef[of p "max (length p) (length r)" x] dval_coef[of r "max (length p) (length r)" x] by simp

lemma dval_pcong:
  assumes "pcong q p r"
  shows "dval p x mod q = dval r x mod q"
proof -
  let ?N = "max (length p) (length r)"
  have "(int i * coef p i * x ^ (i - 1)) mod q = (int i * coef r i * x ^ (i - 1)) mod q" for i
    using assms by (intro mod_cong_mult refl) (simp add: pcong_iff_coef)
  then have "(\<Sum>i < ?N. int i * coef p i * x ^ (i - 1)) mod q = (\<Sum>i < ?N. int i * coef r i * x ^ (i - 1)) mod q"
    by (intro mod_cong_sum) simp
  then show ?thesis
    using dval_coef[of p ?N x] dval_coef[of r ?N x] by simp
qed

lemma dval_Cons: "dval (c # p) x = peval p x + x * dval p x"
proof -
  have "dval (c # p) x = (\<Sum>i < length p. int (Suc i) * (p ! i) * x ^ i)"
    unfolding dval_def by (simp only: length_Cons sum.lessThan_Suc_shift) simp
  also have "\<dots> = (\<Sum>i < length p. p ! i * x ^ i) + x * (\<Sum>i < length p. int i * (p ! i) * x ^ (i - 1))"
    unfolding sum_distrib_left sum.distrib[symmetric]
  proof (rule sum.cong[OF refl])
    fix i
    show "int (Suc i) * (p ! i) * x ^ i = p ! i * x ^ i + x * (int i * (p ! i) * x ^ (i - 1))"
      by (cases i) (simp_all add: algebra_simps)
  qed
  finally show ?thesis
    by (simp add: peval_eq_sum dval_def)
qed

lemma dval_padd: "dval (padd p r) x = dval p x + dval r x"
proof -
  let ?N = "max (length p) (length r)"
  show ?thesis
    using dval_coef[of p ?N x] dval_coef[of r ?N x] dval_coef[of "padd p r" ?N x]
    by (simp add: coef_padd sum.distrib[symmetric] algebra_simps)
qed

lemma dval_pscale: "dval (pscale c p) x = c * dval p x"
  by (simp add: dval_def pscale_def sum_distrib_left algebra_simps)

lemma dval_linear_factor: "dval (pmul [- a, 1] p) x = peval p x + (x - a) * dval p x"
proof -
  have "dval (pmul [- a, 1] p) x = - a * dval p x + dval (0 # padd (pscale 1 p) [0]) x"
    by (simp add: dval_padd dval_pscale)
  also have "dval (0 # padd (pscale 1 p) [0]) x = peval p x + x * dval p x"
    by (simp add: dval_Cons dval_padd dval_pscale dval_def[of "[]"])
  finally show ?thesis
    by (simp add: algebra_simps)
qed

text \<open>The derivative of a vanishing polynomial is its interpolation sum with unit weights.\<close>

lemma dval_roots_poly: "dval (roots_poly rs) x = lag (map (\<lambda>a. (a, 1)) rs) x"
proof (induction rs)
  case (Cons a rs)
  have "dval (roots_poly (a # rs)) x = peval (roots_poly rs) x + (x - a) * dval (roots_poly rs) x"
    using dval_linear_factor[of a "roots_poly rs" x] by (simp add: roots_poly_def)
  then show ?case
    using Cons by (simp add: peval_roots_poly comp_def)
qed (simp add: roots_poly_def dval_def)

lemma poly_derivative_mod_spec:
  assumes "0 < q"
  shows "peval (poly_derivative_mod p q) x mod q = dval p x mod q"
proof (cases "length p \<le> 1")
  case True
  then show ?thesis
    by (cases p) (auto simp: poly_derivative_mod_def dval_def)
next
  case False
  then obtain c r where p: "p = c # r" by (cases p) auto
  let ?d = "map (\<lambda>i. (p ! i * int i) mod q) [1..<length p]"
  have "peval ?d x = (\<Sum>i < length r. (r ! i * int (Suc i)) mod q * x ^ i)"
    unfolding peval_eq_sum p by (rule sum.cong) (simp_all add: nth_map nth_upt del: upt_Suc)
  moreover have "dval p x = (\<Sum>i < length r. (r ! i * int (Suc i)) * x ^ i)"
    unfolding dval_def p by (simp only: length_Cons sum.lessThan_Suc_shift) (simp add: algebra_simps)
  moreover have "(\<Sum>i < length r. (r ! i * int (Suc i)) mod q * x ^ i) mod q = (\<Sum>i < length r. (r ! i * int (Suc i)) * x ^ i) mod q"
    by (rule mod_cong_sum) (simp add: mod_simps)
  ultimately show ?thesis
    using False by (simp add: poly_derivative_mod_def)
qed

subsection \<open>Interpolation along the tree\<close>

text \<open>A partial result of a segment: the interpolation sum of the weighted points.\<close>

definition part_ok :: "int \<Rightarrow> (int \<times> int) list \<Rightarrow> int list \<Rightarrow> bool" where
  "part_ok q ps p \<longleftrightarrow> canonical q p \<and> length p \<le> length ps \<and> (\<exists>r. pcong q p r \<and> (\<forall>x. peval r x = lag ps x))"

lemma part_leaf: "0 < q \<Longrightarrow> part_ok q [(a, w)] [w mod q]"
  by (auto simp: part_ok_def canonical_def reduced_def pcong_iff_coef coef_def intro!: exI[of _ "[w]"])

lemma canonical_poly_add: "0 < q \<Longrightarrow> canonical q a \<Longrightarrow> canonical q (poly_add_mod a b q)"
  by (rule poly_add_mod_canonical) (auto simp: canonical_def)

lemma part_merge:
  assumes "part_ok q ps a" "part_ok q rs b" "node q (map fst ps) f" "node q (map fst rs) g"
    and "1 < q" "cfg_ok cfg q" "length ps + length rs < 2 ^ 61" "ps \<noteq> []" "rs \<noteq> []"
  shows "\<exists>c d. poly_mul_mod cfg a g q = Inr c \<and> poly_mul_mod cfg b f q = Inr d \<and>
    part_ok q (ps @ rs) (poly_add_mod c d q)"
proof -
  obtain a' b' where a': "pcong q a a'" "\<And>x. peval a' x = lag ps x" and b': "pcong q b b'" "\<And>x. peval b' x = lag rs x"
    using assms(1,2) by (auto simp: part_ok_def)
  have q: "0 < q" using assms(5) by simp
  have l: "length f = Suc (length ps)" "length g = Suc (length rs)"
    using node_shape(1)[OF assms(3,5)] node_shape(1)[OF assms(4,5)] by simp_all
  have la: "length a \<le> length ps" "length b \<le> length rs" "a \<noteq> []" "b \<noteq> []"
    using assms(1,2) by (auto simp: part_ok_def canonical_def)
  have "mul_sizes_ok cfg q a g" "mul_sizes_ok cfg q b f"
    using assms(5-7) l la by (simp_all add: mul_sizes_ok_def)
  then have c: "poly_mul_mod cfg a g q = Inr (poly_mul_naive_mod a g q)" "poly_mul_mod cfg b f q = Inr (poly_mul_naive_mod b f q)"
    by (simp_all add: mul_sizes_ok_def poly_mul_mod_naive)
  let ?c = "poly_mul_naive_mod a g q" and ?d = "poly_mul_naive_mod b f q"
  have can: "canonical q ?c" "canonical q (poly_add_mod ?c ?d q)"
    using poly_mul_naive_canonical[OF q] canonical_poly_add[OF q] by simp_all
  have g: "pcong q g (roots_poly (map fst rs))" "pcong q f (roots_poly (map fst ps))"
    using assms(3,4) by (simp_all add: node_def)
  have "pcong q (poly_add_mod ?c ?d q) (padd (pmul a' (roots_poly (map fst rs))) (pmul b' (roots_poly (map fst ps))))"
    by (rule pcong_trans[OF poly_add_mod_pcong pcong_padd[OF pcong_trans[OF poly_mul_naive_pcong pcong_pmul[OF a'(1) g(1)]]
        pcong_trans[OF poly_mul_naive_pcong pcong_pmul[OF b'(1) g(2)]]]])
  moreover have "peval (padd (pmul a' (roots_poly (map fst rs))) (pmul b' (roots_poly (map fst ps)))) x = lag (ps @ rs) x" for x
    by (simp add: a'(2) b'(2) peval_roots_poly lag_append)
  moreover have "length (poly_add_mod ?c ?d q) \<le> length (ps @ rs)"
  proof -
    have "g \<noteq> []" "f \<noteq> []"
      using l by auto
    then have "length ?c \<le> length ps + length rs" "length ?d \<le> length ps + length rs"
      using length_poly_mul_naive[OF la(3), of g q] length_poly_mul_naive[OF la(4), of f q] l la(1,2) by simp_all
    then show ?thesis
      using length_poly_add_mod[of ?c ?d q] by simp
  qed
  ultimately show ?thesis
    using c can(2) by (auto simp: part_ok_def)
qed

lemma interp_level_spec:
  assumes "list_all2 (part_ok q) pss acc" "list_all2 (node q) (map (map fst) pss) polys"
    and "1 < q" "cfg_ok cfg q" "length (concat pss) < 2 ^ 61" "[] \<notin> set pss"
  shows "\<exists>nx. interp_level cfg q polys acc = Inr nx \<and> list_all2 (part_ok q) (pair_up pss) nx"
proof -
  have l: "length acc = length pss"
    using assms(1) by (simp add: list_all2_lengthD)
  have p: "part_ok q (pss ! i) (acc ! i)" "node q (map fst (pss ! i)) (polys ! i)" if "i < length pss" for i
    using assms(1,2) that by (simp_all add: list_all2_conv_all_nth)
  have "\<exists>nx. interp_level cfg q polys acc = Inr nx \<and> list_all2 (\<lambda>i p. part_ok q (pair_up pss ! i) p) [0..<(length pss + 1) div 2] nx"
    unfolding interp_level_def l
  proof (rule map_r_ex)
    fix i assume "i \<in> set [0..<(length pss + 1) div 2]"
    then have i: "i < (length pss + 1) div 2"
      by simp
    show "\<exists>y. (let li = 2 * i; ri = li + 1 in
        if ri \<ge> length pss then Inr (acc ! li)
        else bind_r (poly_mul_mod cfg (acc ! li) (polys ! ri) q) (\<lambda>left.
             bind_r (poly_mul_mod cfg (acc ! ri) (polys ! li) q) (\<lambda>right.
             Inr (poly_add_mod left right q)))) = Inr y \<and> part_ok q (pair_up pss ! i) y"
    proof (cases "2 * i + 1 < length pss")
      case True
      then have b: "2 * i < length pss"
        by simp
      have "length (concat (pair_up pss)) < 2 ^ 61"
        using assms(5) by simp
      then have sz: "length (pss ! (2 * i)) + length (pss ! (2 * i + 1)) < 2 ^ 61"
        using length_segment[of i "pair_up pss"] i nth_pair_up[OF i] True by (simp add: length_pair_up)
      have ne: "pss ! (2 * i) \<noteq> []" "pss ! (2 * i + 1) \<noteq> []"
        using assms(6) b True by (metis nth_mem)+
      obtain c d where "poly_mul_mod cfg (acc ! (2 * i)) (polys ! (2 * i + 1)) q = Inr c"
          "poly_mul_mod cfg (acc ! (2 * i + 1)) (polys ! (2 * i)) q = Inr d"
          "part_ok q (pss ! (2 * i) @ pss ! (2 * i + 1)) (poly_add_mod c d q)"
        using part_merge[OF p(1)[OF b] p(1)[OF True] p(2)[OF b] p(2)[OF True] assms(3,4) sz ne] by blast
      then show ?thesis
        using True nth_pair_up[OF i] by (simp add: Let_def)
    next
      case False
      then have "2 * i < length pss"
        using i by simp
      then show ?thesis
        using False p(1)[of "2 * i"] nth_pair_up[OF i] by (simp add: Let_def)
    qed
  qed
  then show ?thesis
    by (auto simp: list_all2_conv_all_nth length_pair_up)
qed

lemma pair_up_map: "pair_up (map (map f) xs) = map (map f) (pair_up xs)"
  by (induction xs rule: pair_up.induct) auto

lemma pair_up_nonempty: "[] \<notin> set xs \<Longrightarrow> [] \<notin> set (pair_up xs)"
  by (induction xs rule: pair_up.induct) auto

text \<open>The levels above the leaves combine the weighted points into their interpolation sum.\<close>

lemma interp_levels_spec:
  assumes "seg_levels segss (map fst ps)" "list_all2 (list_all2 (node q)) segss levels" "length (last segss) = 1"
    and "1 < q" "cfg_ok cfg q" "length ps < 2 ^ 61"
    and "list_all2 (part_ok q) (map (\<lambda>p. [p]) ps) acc"
  shows "\<exists>out. fold_r (\<lambda>level acc. interp_level cfg q (levels ! level) acc) [0..<length levels - 1] acc = Inr out \<and>
    part_ok q ps (hd out)"
proof -
  let ?pss = "\<lambda>k. (pair_up ^^ k) (map (\<lambda>p. [p]) ps)"
  have ne: "segss \<noteq> []" and L: "length levels = length segss"
    using assms(1,2) by (auto simp: seg_levels_def list_all2_lengthD)
  have segs: "segss ! k = map (map fst) (?pss k)" if "k < length segss" for k
    using that
  proof (induction k)
    case 0
    then show ?case
      using assms(1) ne by (simp add: seg_levels_def hd_conv_nth)
  next
    case (Suc k)
    then show ?case
      using assms(1) by (simp add: seg_levels_def pair_up_map)
  qed
  have c: "concat (?pss k) = ps" "[] \<notin> set (?pss k)" for k
    by (induction k) (auto simp: pair_up_nonempty comp_def)
  have "\<exists>out. fold_r (\<lambda>level acc. interp_level cfg q (levels ! level) acc) [0..<k] acc = Inr out \<and>
      list_all2 (part_ok q) (?pss k) out" if "k < length segss" for k
    using that
  proof (induction k)
    case 0
    then show ?case
      using assms(7) by simp
  next
    case (Suc k)
    then obtain out where o: "fold_r (\<lambda>level acc. interp_level cfg q (levels ! level) acc) [0..<k] acc = Inr out"
        "list_all2 (part_ok q) (?pss k) out"
      by auto
    have nodes: "list_all2 (node q) (map (map fst) (?pss k)) (levels ! k)"
      using list_all2_nthD[OF assms(2), of k] segs[of k] Suc.prems by simp
    have "length (concat (?pss k)) < 2 ^ 61"
      using c(1)[of k] assms(6) by simp
    from interp_level_spec[OF o(2) nodes assms(4,5) this c(2)] obtain nx where
      "interp_level cfg q (levels ! k) out = Inr nx" "list_all2 (part_ok q) (pair_up (?pss k)) nx"
      by blast
    then show ?case
      using o(1) by (simp add: fold_r_append)
  qed
  from this[of "length segss - 1"] ne obtain out where
    o: "fold_r (\<lambda>level acc. interp_level cfg q (levels ! level) acc) [0..<length levels - 1] acc = Inr out"
      "list_all2 (part_ok q) (?pss (length segss - 1)) out"
    using L by auto
  have "length (?pss (length segss - 1)) = 1"
    using segs[of "length segss - 1"] assms(3) ne by (simp add: last_conv_nth)
  then have "?pss (length segss - 1) = [ps]"
    using c(1)[of "length segss - 1"] by (cases "?pss (length segss - 1)") auto
  then show ?thesis
    using o by (auto simp: list_all2_Cons1)
qed

subsection \<open>Points with invertible differences\<close>

definition distinct_units :: "int \<Rightarrow> int list \<Rightarrow> bool" where
  "distinct_units q pts \<longleftrightarrow> sorted_wrt (\<lambda>a b. unit_mod q (b - a)) pts"

lemma unit_mod_mult: "unit_mod q a \<Longrightarrow> unit_mod q b \<Longrightarrow> unit_mod q (a * b)"
proof -
  assume "unit_mod q a" "unit_mod q b"
  then obtain c d where "(a * c) mod q = 1 mod q" "(b * d) mod q = 1 mod q"
    by (auto simp: unit_mod_def)
  then have "((a * c) * (b * d)) mod q = (1 * 1) mod q"
    by (rule mod_cong_mult)
  then show ?thesis
    by (auto simp: unit_mod_def algebra_simps intro!: exI[of _ "c * d"])
qed

lemma unit_mod_minus: "unit_mod q (a - b) \<Longrightarrow> unit_mod q (b - a)"
  unfolding unit_mod_def by (metis minus_diff_eq minus_mult_minus)

lemma unit_mod_1: "unit_mod q 1"
  by (auto simp: unit_mod_def)

lemma unit_mod_cong: "a mod q = b mod q \<Longrightarrow> unit_mod q a \<Longrightarrow> unit_mod q b"
  unfolding unit_mod_def by (metis mod_mult_left_eq)

lemma unit_mod_dvd: "a dvd b \<Longrightarrow> unit_mod q b \<Longrightarrow> unit_mod q a"
  unfolding unit_mod_def by (metis dvdE mult.assoc)

lemma unit_mod_prod: "(\<And>b. b \<in> set xs \<Longrightarrow> unit_mod q (f b)) \<Longrightarrow> unit_mod q (\<Prod>b \<leftarrow> xs. f b)"
  by (induction xs) (auto simp: unit_mod_1 unit_mod_mult)

lemma unit_mod_inverse:
  assumes "unit_mod q a" "1 < q"
  shows "\<exists>b. mod_inverse a q = Inr b \<and> (a * b) mod q = 1"
proof -
  obtain c where "(a * c) mod q = 1"
    using assms by (auto simp: unit_mod_def)
  then obtain b where "mod_inverse a q = Inr b"
    using mod_inverse_exists[OF assms(2)] by blast
  then show ?thesis
    using mod_inverse_Inr[OF _ assms(2)] by blast
qed

lemma mod_inverse_cong: "a mod q = b mod q \<Longrightarrow> mod_inverse a q = mod_inverse b q"
  by (simp add: mod_inverse_def)

lemma denominator_unit:
  assumes "distinct_units q (l @ a # r)"
  shows "unit_mod q ((\<Prod>b \<leftarrow> l. a - b) * (\<Prod>b \<leftarrow> r. a - b))"
proof (rule unit_mod_mult; rule unit_mod_prod)
  show "unit_mod q (a - b)" if "b \<in> set l" for b
    using assms that by (auto simp: distinct_units_def sorted_wrt_append)
  show "unit_mod q (a - b)" if "b \<in> set r" for b
    using assms that by (auto simp: distinct_units_def sorted_wrt_append intro: unit_mod_minus)
qed

subsection \<open>Interpolation from a tree\<close>

text \<open>The denominator of a point is the derivative of the vanishing polynomial there.\<close>

definition denom_at :: "int list \<Rightarrow> nat \<Rightarrow> int" where
  "denom_at pts i = (\<Prod>b \<leftarrow> take i pts. pts ! i - b) * (\<Prod>b \<leftarrow> drop (Suc i) pts. pts ! i - b)"

lemma lag_zip_at:
  assumes "length ws = length pts" "i < length pts"
  shows "lag (zip pts ws) (pts ! i) = ws ! i * denom_at pts i"
proof -
  have z: "zip pts ws = zip (take i pts) (take i ws) @ (pts ! i, ws ! i) # zip (drop (Suc i) pts) (drop (Suc i) ws)"
    using id_take_nth_drop[of i "zip pts ws"] assms by (simp add: take_zip drop_zip)
  show ?thesis
    unfolding z lag_at denom_at_def using assms by simp
qed

lemma dval_denom:
  assumes "i < length pts"
  shows "dval (roots_poly pts) (pts ! i) = denom_at pts i"
proof -
  have "map (\<lambda>a. (a, 1 :: int)) pts = zip pts (replicate (length pts) 1)"
    by (simp add: zip_replicate2)
  then show ?thesis
    using lag_zip_at[of "replicate (length pts) 1" pts i] assms by (simp add: dval_roots_poly)
qed

lemma denom_at_unit:
  assumes "distinct_units q pts" "i < length pts"
  shows "unit_mod q (denom_at pts i)"
  using denominator_unit[of q "take i pts" "pts ! i" "drop (Suc i) pts"] assms id_take_nth_drop[OF assms(2)]
  by (simp add: denom_at_def)

lemma weighted_value:
  assumes "i < length pts" "length ws = length pts" "ws ! i mod q = (y * v) mod q" "(denom_at pts i * v) mod q = 1 mod q"
  shows "lag (zip pts ws) (pts ! i) mod q = y mod q"
proof -
  have "lag (zip pts ws) (pts ! i) mod q = (ws ! i * denom_at pts i) mod q"
    using lag_zip_at[OF assms(2,1)] by simp
  also have "\<dots> = (y * v * denom_at pts i) mod q"
    by (rule mod_cong_mult[OF assms(3) refl])
  also have "y * v * denom_at pts i = y * (denom_at pts i * v)"
    by (simp add: algebra_simps)
  also have "\<dots> mod q = (y * 1) mod q"
    by (rule mod_cong_mult[OF refl assms(4)])
  finally show ?thesis by simp
qed

text \<open>What interpolation promises: a polynomial of small degree through the given values.\<close>

definition interpolant :: "int \<Rightarrow> int list \<Rightarrow> int list \<Rightarrow> int list \<Rightarrow> bool" where
  "interpolant q pts y p \<longleftrightarrow> canonical q p \<and> length p \<le> max 1 (length pts) \<and>
     (\<forall>i < length pts. peval p (pts ! i) mod q = y ! i mod q)"

lemma interpolant_unique:
  assumes "interpolant q pts y p" "distinct_units q pts" "pts \<noteq> []" "length f \<le> length pts"
    and "\<And>i. i < length pts \<Longrightarrow> peval f (pts ! i) mod q = y ! i mod q"
  shows "pcong q p f"
proof (rule agree_imp_pcong)
  show "sorted_wrt (\<lambda>a b. unit_mod q (b - a)) pts"
    using assms(2) by (simp add: distinct_units_def)
  show "\<forall>a \<in> set pts. peval p a mod q = peval f a mod q"
    using assms(1,5) by (auto simp: interpolant_def in_set_conv_nth)
  have "1 \<le> length pts"
    using assms(3) by (simp add: Suc_leI)
  then show "length p \<le> length pts" "length f \<le> length pts"
    using assms(1,4) by (auto simp: interpolant_def)
qed

lemma from_tree_interpolant:
  assumes "cfg_ok cfg q" "1 < q" "length y < 2 ^ 61" "y \<noteq> []"
    and "rf_opa_eval_points (pc_env cfg) (length y) q = Inr pts" "length pts = length y"
    and "tree_ok q pts tree" "distinct_units q pts"
  shows "\<exists>p. lagrange_interpolate_from_tree cfg y tree q = Inr p \<and> interpolant q pts y p"
proof -
  let ?N = "length y" and ?P = "hd (last (pt_levels tree))"
  let ?d = "poly_derivative_mod ?P q"
  have q: "0 < q" using assms(2) by simp
  note root = tree_ok_root[OF assms(7)]
  have denom: "poly_eval_batch_product_tree cfg ?d pts q = Inr (map (\<lambda>x. pvalue ?d x q) pts)"
    by (rule product_tree_values) (use assms in \<open>simp add: tree_eval_ok_def\<close>)
  have dv: "pvalue ?d (pts ! i) q mod q = denom_at pts i mod q" if "i < ?N" for i
    using poly_derivative_mod_spec[OF q, of ?P "pts ! i"] dval_pcong[of q ?P "roots_poly pts" "pts ! i"]
      root(1) dval_denom[of i pts] that assms(6) by (simp add: pvalue_eq node_def)
  have "\<exists>v. mod_inverse (map (\<lambda>x. pvalue ?d x q) pts ! i) q = Inr v \<and> (denom_at pts i * v) mod q = 1" if i: "i < ?N" for i
    using unit_mod_inverse[OF denom_at_unit[OF assms(8)] assms(2), of i] mod_inverse_cong[OF dv[OF i]] i assms(6) by simp
  then obtain v where v: "\<And>i. i < ?N \<Longrightarrow> mod_inverse (map (\<lambda>x. pvalue ?d x q) pts ! i) q = Inr (v i) \<and>
      (denom_at pts i * v i) mod q = 1"
    by metis
  let ?w = "map (\<lambda>i. y ! i * v i mod q) [0..<?N]"
  have acc: "map_r (\<lambda>i. bind_r (mod_inverse (map (\<lambda>x. pvalue ?d x q) pts ! i) q) (\<lambda>v. Inr [y ! i * v mod q])) [0..<?N]
      = Inr (map (\<lambda>i. [y ! i * v i mod q]) [0..<?N])"
    by (rule map_r_Inr_all) (simp add: v)
  let ?ps = "zip pts ?w"
  have ps: "map fst ?ps = pts" "length ?ps = ?N"
    using assms(6) by simp_all
  have leaves: "list_all2 (part_ok q) (map (\<lambda>p. [p]) ?ps) (map (\<lambda>i. [y ! i * v i mod q]) [0..<?N])"
    using part_leaf[OF q, of _ "y ! _ * v _ mod q"] assms(6) by (auto simp: list_all2_conv_all_nth)
  obtain segss where s: "seg_levels segss pts" "list_all2 (list_all2 (node q)) segss (pt_levels tree)" "length (last segss) = 1"
    using assms(7) by (auto simp: tree_ok_def)
  obtain out where out: "fold_r (\<lambda>level acc. interp_level cfg q (pt_levels tree ! level) acc) [0..<length (pt_levels tree) - 1]
      (map (\<lambda>i. [y ! i * v i mod q]) [0..<?N]) = Inr out" "part_ok q ?ps (hd out)"
    using interp_levels_spec[of segss ?ps q "pt_levels tree" cfg] s ps leaves assms(1-3) by auto
  obtain r where r: "canonical q (hd out)" "length (hd out) \<le> ?N" "pcong q (hd out) r" "\<And>x. peval r x = lag ?ps x"
    using out(2) ps(2) by (auto simp: part_ok_def)
  have "peval (hd out) (pts ! i) mod q = y ! i mod q" if i: "i < ?N" for i
    using pcong_peval[OF r(3), of "pts ! i"] r(4) weighted_value[of i pts ?w q "y ! i" "v i"] v[OF i] i assms(2,6) by simp
  then have "interpolant q pts y (hd out)"
    using r(1,2) assms(6) by (auto simp: interpolant_def)
  moreover have "lagrange_interpolate_from_tree cfg y tree q = Inr (hd out)"
    using assms(4,5) root(2,3) assms(6) denom acc out(1)
    by (simp add: lagrange_interpolate_from_tree_def Let_def)
  ultimately show ?thesis
    by blast
qed

subsection \<open>The public points\<close>

text \<open>
  The modulus suits \<open>n\<close> public points when the small differences are invertible: the
  consecutive points need it, the points of a transform domain have it already.
\<close>

definition small_units :: "int \<Rightarrow> nat \<Rightarrow> bool" where
  "small_units q n \<longleftrightarrow> (\<forall>d. 0 < d \<and> d < n \<longrightarrow> unit_mod q (int d))"

lemma consecutive_units:
  assumes "small_units q n"
  shows "distinct_units q (map (\<lambda>i. int (i + 1)) [0..<n])"
  unfolding distinct_units_def sorted_wrt_iff_nth_less
proof (intro allI impI)
  fix i j assume ij: "i < j" "j < length (map (\<lambda>i. int (i + 1)) [0..<n])"
  then have "unit_mod q (int (j - i))"
    using assms by (simp add: small_units_def del: of_nat_diff)
  then show "unit_mod q (map (\<lambda>i. int (i + 1)) [0..<n] ! j - map (\<lambda>i. int (i + 1)) [0..<n] ! i)"
    using ij by (simp add: of_nat_diff)
qed

text \<open>A power of two times an odd number: the differences of the transform domain divide \<open>2\<close>.\<close>

lemma power_minus_one_dvd: "(x :: int) - 1 dvd x ^ n - 1"
proof (induction n)
  case (Suc n)
  have "x ^ Suc n - 1 = x * (x ^ n - 1) + (x - 1)"
    by (simp add: algebra_simps)
  then show ?case
    by (simp only:) (rule dvd_add[OF dvd_mult[OF Suc] dvd_refl])
qed simp

lemma odd_part:
  assumes "0 < (d :: nat)" "d < 2 ^ m"
  shows "\<exists>s c. s < m \<and> d * 2 ^ s = 2 ^ (m - 1) * (2 * c + 1)"
  using assms
proof (induction m arbitrary: d)
  case (Suc m)
  show ?case
  proof (cases "even d")
    case True
    then obtain e where e: "d = 2 * e" by (elim evenE)
    then obtain s c where "s < m" "e * 2 ^ s = 2 ^ (m - 1) * (2 * c + 1)"
      using Suc.IH[of e] Suc.prems by auto
    moreover from this have "d * 2 ^ s = 2 ^ m * (2 * c + 1)"
      using e by (cases m) (auto simp: algebra_simps)
    ultimately show ?thesis
      by (metis diff_Suc_1 less_Suc_eq)
  next
    case False
    then obtain c where "d = 2 * c + 1" by (elim oddE)
    then show ?thesis
      by (intro exI[of _ m] exI[of _ c]) (simp add: algebra_simps)
  qed
qed simp

lemma unit_two: "unit_mod ntt128_prime 2"
  unfolding unit_mod_def by (rule exI[of _ "(ntt128_prime + 1) div 2"]) (simp add: ntt128_prime_def)

lemma ntt_root_minus_one_unit:
  assumes "0 < d" "d < 2 ^ m" "m < 64"
  shows "unit_mod ntt128_prime (ntt_root m ^ d - 1)"
proof -
  let ?q = ntt128_prime
  obtain s c where s: "s < m" "d * 2 ^ s = 2 ^ (m - 1) * (2 * c + 1)"
    using odd_part[OF assms(1,2)] by blast
  obtain k where k: "m = Suc k" using s(1) by (cases m) auto
  have "ntt_root m ^ (d * 2 ^ s) mod ?q = (ntt_root m ^ 2 ^ k) ^ (2 * c + 1) mod ?q"
    using s(2) by (simp only: k power_mult diff_Suc_1)
  also have "\<dots> = (- 1) ^ (2 * c + 1) mod ?q"
    using root_family_half[OF ntt_root_family, of m k] assms(3) k by (intro mod_cong_power) simp
  finally have "(ntt_root m ^ (d * 2 ^ s) - 1) mod ?q = (- 2) mod ?q"
    using mod_cong_diff[of "ntt_root m ^ (d * 2 ^ s)" ?q "- 1" 1 1] by simp
  moreover have "unit_mod ?q (- 2)"
    using unit_two unit_mod_minus[of ?q 2 0] by simp
  ultimately have "unit_mod ?q (ntt_root m ^ (d * 2 ^ s) - 1)"
    using unit_mod_cong[of "- 2" ?q] by metis
  then show ?thesis
    using power_minus_one_dvd[of "ntt_root m ^ d" "2 ^ s"] unit_mod_dvd by (simp add: power_mult)
qed

lemma ntt_points_units:
  assumes "m < 64"
  shows "distinct_units ntt128_prime (map (\<lambda>i. ntt_root m ^ i mod ntt128_prime) [0..<2 ^ m])"
  unfolding distinct_units_def sorted_wrt_iff_nth_less
proof (intro allI impI)
  let ?q = ntt128_prime
  fix i j assume ij: "i < j" "j < length (map (\<lambda>i. ntt_root m ^ i mod ?q) [0..<2 ^ m])"
  have w: "unit_mod ?q (ntt_root m ^ i)"
  proof (rule unit_mod_dvd)
    show "ntt_root m ^ i dvd ntt_root m ^ 2 ^ m"
      using ij by (intro le_imp_power_dvd) simp
    show "unit_mod ?q (ntt_root m ^ 2 ^ m)"
      using ntt_root_order[of m] assms by (auto simp: unit_mod_def ntt128_facts intro!: exI[of _ 1])
  qed
  have "unit_mod ?q (ntt_root m ^ i * (ntt_root m ^ (j - i) - 1))"
    using ij assms by (intro unit_mod_mult w ntt_root_minus_one_unit) auto
  moreover have "ntt_root m ^ i * (ntt_root m ^ (j - i) - 1) = ntt_root m ^ j - ntt_root m ^ i"
    using ij by (simp add: right_diff_distrib power_add[symmetric])
  ultimately show "unit_mod ?q (map (\<lambda>i. ntt_root m ^ i mod ?q) [0..<2 ^ m] ! j - map (\<lambda>i. ntt_root m ^ i mod ?q) [0..<2 ^ m] ! i)"
    using ij unit_mod_cong[of "ntt_root m ^ j - ntt_root m ^ i" ?q] by (simp add: mod_simps)
qed

definition field_for :: "int \<Rightarrow> nat \<Rightarrow> bool" where
  "field_for q n \<longleftrightarrow> 1 < q \<and> n < 2 ^ 61 \<and> int n \<le> q \<and> small_units q n"

lemma public_points_spec:
  assumes "n < size_limit" "ntt_domain_supported env q n \<or> small_units q n"
  shows "\<exists>pts. public_eval_points env n q = Inr pts \<and> length pts = n \<and> distinct_units q pts"
proof (cases "ntt_domain_supported env q n")
  case True
  then obtain m where "m < 64" "n = 2 ^ m" "ntt_domain_points env n q = Inr (map (\<lambda>i. ntt_root m ^ i mod q) [0..<n])"
    using ntt_domain_points_spec[OF True assms(1)] by blast
  moreover have "q = ntt128_prime"
    using True by (simp add: ntt_domain_supported_def is_ntt128_prime_def)
  ultimately show ?thesis
    using True ntt_points_units[of m] by (simp add: public_eval_points_def)
next
  case False
  then show ?thesis
    using assms(2) consecutive_units[of q n] by (simp add: public_eval_points_def)
qed

subsection \<open>Barycentric evaluation\<close>

lemma iterate_loop:
  assumes "h 0 = a" "\<And>i. h (Suc i) = g (h i) (Suc i)" "1 \<le> k" "k \<le> N"
  shows "length (fold (\<lambda>i xs. xs[i := g (xs ! (i - 1)) i]) [1..<k] (replicate N a)) = N \<and>
    (\<forall>i < k. fold (\<lambda>i xs. xs[i := g (xs ! (i - 1)) i]) [1..<k] (replicate N a) ! i = h i)"
  using assms(3,4)
proof (induction k rule: dec_induct)
  case (step k)
  let ?xs = "fold (\<lambda>i xs. xs[i := g (xs ! (i - 1)) i]) [1..<k] (replicate N a)"
  have x: "length ?xs = N" "\<And>i. i < k \<Longrightarrow> ?xs ! i = h i"
    using step by auto
  have "?xs ! (k - 1) = h (k - 1)" "h k = g (h (k - 1)) k"
    using x(2)[of "k - 1"] step(1) assms(2)[of "k - 1"] by simp_all
  then show ?case
    using x step(1,4) by (auto simp: nth_list_update less_Suc_eq)
qed (use assms(1) in simp)

lemma factorials_mod_nth:
  assumes "i < N"
  shows "factorials_mod N q ! i mod q = fact i mod q"
proof -
  define h where "h = rec_nat (1 :: int) (\<lambda>i v. v * int (Suc i) mod q)"
  have h: "h 0 = 1" "\<And>i. h (Suc i) = h i * int (Suc i) mod q"
    by (simp_all add: h_def)
  have "h i mod q = fact i mod q" for i
  proof (induction i)
    case (Suc i)
    then show ?case
      using mod_cong_mult[OF Suc refl, of "int (Suc i)"] by (simp add: h(2) mult.commute)
  qed (simp add: h(1))
  moreover have "factorials_mod N q ! i = h i"
    using iterate_loop[of h 1 "\<lambda>v i. v * int i mod q" N N] h assms by (simp add: factorials_mod_def)
  ultimately show ?thesis by simp
qed

lemma prod_consecutive: "(\<Prod>j < n. int n - int j) = fact n"
proof (induction n)
  case (Suc n)
  have "(\<Prod>j < Suc n. int (Suc n) - int j) = (int (Suc n) - int 0) * (\<Prod>j < n. int (Suc n) - int (Suc j))"
    by (simp only: prod.lessThan_Suc_shift)
  then show ?case
    using Suc by simp
qed simp

lemma prod_negated: "(\<Prod>j < n. - int (Suc j)) = (- 1) ^ n * fact n"
  by (induction n) (simp_all add: algebra_simps)

abbreviation consecutive :: "nat \<Rightarrow> int list" where
  "consecutive N \<equiv> map (\<lambda>i. int (i + 1)) [0..<N]"

lemma denom_consecutive:
  assumes "i < N"
  shows "denom_at (consecutive N) i = fact i * ((- 1) ^ (N - 1 - i) * fact (N - 1 - i))"
proof -
  have "(\<Prod>b \<leftarrow> take i (consecutive N). int (i + 1) - b) = (\<Prod>j < i. int i - int j)"
    unfolding prod_list_nth using assms by (intro prod.cong) auto
  moreover have "(\<Prod>b \<leftarrow> drop (Suc i) (consecutive N). int (i + 1) - b) = (\<Prod>j < N - 1 - i. - int (Suc j))"
    unfolding prod_list_nth using assms by (intro prod.cong) auto
  ultimately show ?thesis
    using assms prod_consecutive prod_negated by (simp add: denom_at_def)
qed

lemma denominator_inverses_spec:
  assumes "1 < q" "int N \<le> q" "small_units q N"
  shows "\<exists>ds. lagrange_denominator_inverses N q = Inr ds \<and> length ds = N \<and>
    (\<forall>i < N. (denom_at (consecutive N) i * ds ! i) mod q = 1)"
proof -
  let ?f = "factorials_mod N q"
  let ?D = "\<lambda>i. let D = ?f ! i * ?f ! (N - 1 - i) mod q in if (N - 1 - i) mod 2 \<noteq> 0 then q - D else D"
  have D: "?D i mod q = denom_at (consecutive N) i mod q" if i: "i < N" for i
  proof -
    define n where "n = N - 1 - i"
    have m: "(?f ! i * ?f ! n) mod q = (fact i * fact n) mod q"
      using factorials_mod_nth[of i N q] factorials_mod_nth[of n N q] i by (intro mod_cong_mult) (simp_all add: n_def)
    have d: "denom_at (consecutive N) i = fact i * ((- 1) ^ n * fact n)"
      using denom_consecutive[OF i] by (simp only: n_def)
    show ?thesis
    proof (cases "even n")
      case True
      then show ?thesis
        using m d by (simp add: Let_def n_def[symmetric] even_iff_mod_2_eq_zero del: One_nat_def diff_diff_left)
    next
      case False
      have "(q - ?f ! i * ?f ! n mod q) mod q = (- (fact i * fact n)) mod q"
        using m by (metis diff_0 mod_diff_right_eq mod_self minus_mod_self1 mod_diff_left_eq)
      then show ?thesis
        unfolding n_def[symmetric] d using False by (simp add: Let_def odd_iff_mod_2_eq_one)
    qed
  qed
  have "distinct_units q (consecutive N)"
    by (rule consecutive_units[OF assms(3)])
  then have "\<exists>v. mod_inverse (?D i) q = Inr v \<and> (denom_at (consecutive N) i * v) mod q = 1" if i: "i < N" for i
    using unit_mod_inverse[OF denom_at_unit assms(1), of "consecutive N" i] mod_inverse_cong[OF D[OF i]] i by auto
  then obtain v where v: "\<And>i. i < N \<Longrightarrow> mod_inverse (?D i) q = Inr (v i) \<and> (denom_at (consecutive N) i * v i) mod q = 1"
    by metis
  have "require_public_eval_points_distinct N q = Inr ()"
    using assms(2) by (simp add: require_public_eval_points_distinct_def)
  moreover have "map_r (\<lambda>i. let D = ?f ! i * ?f ! (N - 1 - i) mod q;
                    D = (if (N - 1 - i) mod 2 \<noteq> 0 then q - D else D)
                in mod_inverse D q) [0..<N] = Inr (map v [0..<N])"
    using v by (intro map_r_Inr_all) (simp add: Let_def)
  ultimately show ?thesis
    using v by (simp add: lagrange_denominator_inverses_def Let_def)
qed

lemma prefix_products_spec:
  assumes "i < N"
  shows "length (prefix_products xi N q) = N \<and> prefix_products xi N q ! i mod q = (\<Prod>j < i. xi - int (j + 1)) mod q"
proof -
  let ?s = "\<lambda>i (cur, L). let cur = cur * ((xi - int (i + 1)) mod q) mod q in (cur, L[i + 1 := cur])"
  have "\<exists>cur L. fold ?s [0..<m] (1, replicate N 1) = (cur, L) \<and> length L = N \<and> cur mod q = (\<Prod>j < m. xi - int (j + 1)) mod q \<and>
      (\<forall>i \<le> m. L ! i mod q = (\<Prod>j < i. xi - int (j + 1)) mod q)" if "m < N" for m
    using that
  proof (induction m)
    case (Suc m)
    then obtain cur L where c: "fold ?s [0..<m] (1, replicate N 1) = (cur, L)" "length L = N"
        "cur mod q = (\<Prod>j < m. xi - int (j + 1)) mod q" "\<And>i. i \<le> m \<Longrightarrow> L ! i mod q = (\<Prod>j < i. xi - int (j + 1)) mod q"
      by auto
    have "(cur * ((xi - int (m + 1)) mod q)) mod q = ((\<Prod>j < m. xi - int (j + 1)) * (xi - int (m + 1))) mod q"
      by (intro mod_cong_mult c(3)) simp
    then show ?case
      using c Suc.prems by (auto simp: Let_def nth_list_update le_Suc_eq)
  qed simp
  from this[of "N - 1"] assms show ?thesis
    by (auto simp: prefix_products_def)
qed

lemma suffix_products_spec:
  assumes "i < N" "N < 2 ^ 31"
  shows "length (suffix_products xi N q) = N \<and> suffix_products xi N q ! i mod q = (\<Prod>j \<in> {i<..<N}. xi - int (j + 1)) mod q"
proof -
  let ?s = "\<lambda>i (cur, R). let cur = cur * ((xi - int (i + 1)) mod q) mod q in (cur, R[i - 1 := cur])"
  have "\<exists>cur R. fold ?s (rev [k..<N]) (1, replicate N 1) = (cur, R) \<and> length R = N \<and>
      cur mod q = (\<Prod>j \<in> {k..<N}. xi - int (j + 1)) mod q \<and>
      (\<forall>i. k \<le> Suc i \<and> i < N \<longrightarrow> R ! i mod q = (\<Prod>j \<in> {i<..<N}. xi - int (j + 1)) mod q)" if "1 \<le> k" "k \<le> N" for k
    using that(2,1)
  proof (induction k rule: inc_induct)
    case base
    have "{i<..<N} = {}" if "N \<le> Suc i" for i
      using that by auto
    then show ?case
      by auto
  next
    case (step k)
    then obtain cur R where c: "fold ?s (rev [Suc k..<N]) (1, replicate N 1) = (cur, R)" "length R = N"
        "cur mod q = (\<Prod>j \<in> {Suc k..<N}. xi - int (j + 1)) mod q"
        "\<And>i. k \<le> i \<Longrightarrow> i < N \<Longrightarrow> R ! i mod q = (\<Prod>j \<in> {i<..<N}. xi - int (j + 1)) mod q"
      by auto
    have s: "{k..<N} = insert k {Suc k..<N}" "{k - 1<..<N} = {k..<N}"
      using step(1,2,4) by auto
    then have "(cur * ((xi - int (k + 1)) mod q)) mod q = (\<Prod>j \<in> {k..<N}. xi - int (j + 1)) mod q"
      using mod_cong_mult[OF c(3), of "(xi - int (k + 1)) mod q" "xi - int (k + 1)"] by (simp add: mult.commute)
    moreover have "[k..<N] = k # [Suc k..<N]"
      using step(2) by (rule upt_conv_Cons)
    ultimately show ?case
      using c s(2) step(1,2,4) by (auto simp: Let_def nth_list_update)
  qed
  from this[of 1] assms show ?thesis
    by (auto simp: suffix_products_def)
qed

lemma barycentric_value_spec:
  assumes "W \<noteq> []" "length W < 2 ^ 31"
  shows "barycentric_value W xi q = lag (zip (consecutive (length W)) W) xi mod q"
proof -
  let ?N = "length W"
  let ?L = "prefix_products xi ?N q" and ?R = "suffix_products xi ?N q"
  let ?t = "\<lambda>i. W ! i * ((\<Prod>j < i. xi - int (j + 1)) * (\<Prod>j \<in> {i<..<?N}. xi - int (j + 1)))"
  have step: "((W ! i * ?L ! i mod q) * ?R ! i mod q) mod q = ?t i mod q" if "i < ?N" for i
  proof -
    have "(W ! i * ?L ! i) mod q = (W ! i * (\<Prod>j < i. xi - int (j + 1))) mod q"
      using prefix_products_spec[OF that] by (intro mod_cong_mult) simp_all
    then have "(W ! i * ?L ! i mod q * ?R ! i) mod q = (W ! i * (\<Prod>j < i. xi - int (j + 1)) * (\<Prod>j \<in> {i<..<?N}. xi - int (j + 1))) mod q"
      using suffix_products_spec[OF that assms(2)] by (intro mod_cong_mult) simp_all
    then show ?thesis
      by (simp add: mult.assoc)
  qed
  have "fold (\<lambda>i res. (res + (W ! i * ?L ! i mod q) * ?R ! i mod q) mod q) [0..<m] 0 mod q = (\<Sum>i < m. ?t i) mod q"
    if "m \<le> ?N" for m
    using that
  proof (induction m)
    case (Suc m)
    then show ?case
      using mod_cong_add[OF Suc.IH step[of m]] by simp
  qed simp
  moreover have "barycentric_value W xi q mod q = barycentric_value W xi q"
    using assms(1) by (cases W rule: rev_cases) (simp_all add: barycentric_value_def Let_def)
  moreover have "lag (zip (consecutive ?N) W) xi = (\<Sum>i < ?N. ?t i)"
    unfolding lag_sum by (rule sum.cong) (auto intro!: arg_cong2[where f = "(*)"] prod.cong)
  ultimately show ?thesis
    by (simp add: barycentric_value_def Let_def)
qed

text \<open>The interpolation sum as a coefficient vector of the expected length.\<close>

fun lag_poly :: "(int \<times> int) list \<Rightarrow> int list" where
  "lag_poly [] = []"
| "lag_poly ((a, w) # r) = padd (pscale w (roots_poly (map fst r))) (padd (pscale (- a) (lag_poly r)) (0 # lag_poly r))"

lemma peval_lag_poly: "peval (lag_poly ps) x = lag ps x"
  by (induction ps rule: lag_poly.induct) (simp_all add: peval_roots_poly algebra_simps)

lemma length_roots_poly: "length (roots_poly rs) = Suc (length rs)"
proof (induction rs)
  case (Cons a rs)
  then have "roots_poly rs \<noteq> []"
    by auto
  with Cons show ?case
    by (simp add: roots_poly_def pscale_def max_def)
qed (simp add: roots_poly_def)

lemma length_lag_poly: "length (lag_poly ps) \<le> length ps"
  by (induction ps rule: lag_poly.induct) (simp_all add: pscale_def length_roots_poly)

lemma lagrange_eval_batch_spec:
  assumes "field_for q (length y)" "y \<noteq> []" "length f \<le> length y" "length y < 2 ^ 31"
    and f: "\<And>i. i < length y \<Longrightarrow> peval f (int (i + 1)) mod q = y ! i mod q"
  shows "lagrange_eval_batch y targets q = Inr (map (\<lambda>t. pvalue f t q) targets)"
proof -
  let ?N = "length y"
  have q: "1 < q" "int ?N \<le> q" "small_units q ?N"
    using assms(1) by (simp_all add: field_for_def)
  obtain ds where ds: "lagrange_denominator_inverses ?N q = Inr ds" "length ds = ?N"
      "\<And>i. i < ?N \<Longrightarrow> (denom_at (consecutive ?N) i * ds ! i) mod q = 1"
    using denominator_inverses_spec[OF q] by blast
  let ?W = "map (\<lambda>i. y ! i * ds ! i mod q) [0..<?N]"
  let ?l = "lag_poly (zip (consecutive ?N) ?W)"
  have "lag (zip (consecutive ?N) ?W) (int (i + 1)) mod q = y ! i mod q" if "i < ?N" for i
    using weighted_value[of i "consecutive ?N" ?W q "y ! i" "ds ! i"] ds(3)[OF that] that q(1) by simp
  then have agree: "\<forall>a \<in> set (consecutive ?N). peval ?l a mod q = peval f a mod q"
    using f by (auto simp: peval_lag_poly)
  have "pcong q ?l f"
  proof (rule agree_imp_pcong)
    show "sorted_wrt (\<lambda>a b. unit_mod q (b - a)) (consecutive ?N)"
      using consecutive_units[OF q(3)] by (simp add: distinct_units_def)
    show "length ?l \<le> length (consecutive ?N)" "length f \<le> length (consecutive ?N)"
      using length_lag_poly[of "zip (consecutive ?N) ?W"] assms(3) by simp_all
  qed (rule agree)
  then have "barycentric_value ?W t q = pvalue f t q" for t
    using barycentric_value_spec[of ?W t q] pcong_peval[of q ?l f t] assms(2,4)
    by (simp add: peval_lag_poly pvalue_eq)
  then show ?thesis
    using assms(2) ds(1) by (simp add: lagrange_eval_batch_def Let_def)
qed

subsection \<open>Interpolators\<close>

text \<open>
  The contract of an interpolator over a family of point lists. Two interpolators that meet it
  agree, and interpolating the values of a polynomial of small degree gives its canonical form.
\<close>

locale interpolator =
  fixes interp :: "int \<Rightarrow> int list \<Rightarrow> int list result"
    and points :: "int \<Rightarrow> nat \<Rightarrow> int list"
    and ok :: "int \<Rightarrow> nat \<Rightarrow> bool"
  assumes modulus: "ok q n \<Longrightarrow> 1 < q"
    and points_units: "ok q n \<Longrightarrow> 0 < n \<Longrightarrow> length (points q n) = n \<and> distinct_units q (points q n)"
    and interpolates: "ok q (length y) \<Longrightarrow> y \<noteq> [] \<Longrightarrow> \<exists>p. interp q y = Inr p \<and> interpolant q (points q (length y)) y p"
begin

lemma interp_value:
  assumes "ok q (length y)" "y \<noteq> []" "length f \<le> length y"
    and "\<And>i. i < length y \<Longrightarrow> peval f (points q (length y) ! i) mod q = y ! i mod q"
  shows "\<exists>p. interp q y = Inr p \<and> pcong q p f \<and> length p \<le> length y"
proof -
  have p: "length (points q (length y)) = length y" "distinct_units q (points q (length y))"
    using points_units[OF assms(1)] assms(2) by simp_all
  have "points q (length y) \<noteq> []"
    using p(1) assms(2) by auto
  moreover obtain r where r: "interp q y = Inr r" "interpolant q (points q (length y)) y r"
    using interpolates[OF assms(1,2)] by blast
  moreover have "length r \<le> length y"
    using r(2) p(1) assms(2) by (cases y) (simp_all add: interpolant_def)
  ultimately show ?thesis
    using interpolant_unique[OF r(2) p(2), of f] assms(3,4) p(1) by simp
qed

lemma interp_evaluations:
  assumes "ok q n" "0 < n" "canonical q f" "length f \<le> n"
  shows "interp q (map (\<lambda>x. pvalue f x q) (points q n)) = Inr f"
proof -
  let ?y = "map (\<lambda>x. pvalue f x q) (points q n)"
  have l: "length ?y = n"
    using points_units[OF assms(1,2)] by simp
  then have y: "?y \<noteq> []"
    using assms(2) by auto
  obtain p where p: "interp q ?y = Inr p" "interpolant q (points q n) ?y p"
    using interpolates[of q ?y] assms(1) l y by auto
  have "pcong q p f"
    using interp_value[of q ?y f] assms(1,4) l y p(1) by (auto simp: pvalue_eq)
  then show ?thesis
    using p canonical_unique[OF _ _ assms(3)] modulus[OF assms(1)] by (auto simp: interpolant_def)
qed

end

definition public_points :: "env \<Rightarrow> int \<Rightarrow> nat \<Rightarrow> int list" where
  "public_points env q n = projr (public_eval_points env n q)"

definition interp_ok :: "poly_cfg \<Rightarrow> int \<Rightarrow> nat \<Rightarrow> bool" where
  "interp_ok cfg q n \<longleftrightarrow> cfg_ok cfg q \<and> 1 < q \<and> n < 2 ^ 61 \<and> (ntt_domain_supported (pc_env cfg) q n \<or> small_units q n)"

lemma public_points_eq:
  assumes "interp_ok cfg q n"
  shows "public_eval_points (pc_env cfg) n q = Inr (public_points (pc_env cfg) q n)"
    "length (public_points (pc_env cfg) q n) = n" "distinct_units q (public_points (pc_env cfg) q n)"
  using public_points_spec[of n "pc_env cfg" q] assms by (auto simp: interp_ok_def public_points_def size_limit_def)

lemma interpolate_public_points_spec:
  assumes "interp_ok cfg q (length y)" "y \<noteq> []"
  shows "\<exists>p. lagrange_interpolate_public_points cfg y q = Inr p \<and> interpolant q (public_points (pc_env cfg) q (length y)) y p"
proof -
  let ?N = "length y" and ?pts = "public_points (pc_env cfg) q (length y)"
  note pts = public_points_eq[OF assms(1)]
  have ok: "cfg_ok cfg q" "1 < q" "?N < 2 ^ 61"
    using assms(1) by (simp_all add: interp_ok_def)
  show ?thesis
  proof (cases "ntt_domain_supported (pc_env cfg) q ?N")
    case True
    have l: "?N < size_limit"
      using ok(3) by (simp add: size_limit_def)
    obtain m p where p: "m < 64" "?N = 2 ^ m" "lagrange_interpolate_ntt (pc_env cfg) y q = Inr p" "canonical q p"
        "length p \<le> ?N" "\<And>k. k < ?N \<Longrightarrow> peval p (ntt_root m ^ k) mod q = y ! k mod q"
      using lagrange_interpolate_ntt_spec[OF True l] by blast
    obtain m' where m': "?N = 2 ^ m'" "ntt_domain_points (pc_env cfg) ?N q = Inr (map (\<lambda>i. ntt_root m' ^ i mod q) [0..<?N])"
      using ntt_domain_points_spec[OF True l] by blast
    have "m' = m"
      using p(2) m'(1) by simp
    then have "?pts = map (\<lambda>i. ntt_root m ^ i mod q) [0..<?N]"
      using m'(2) True by (simp add: public_points_def public_eval_points_def)
    then have "interpolant q ?pts y p"
      using p(4-6) peval_mod_cong[of "ntt_root m ^ _ mod q" q "ntt_root m ^ _" p] by (auto simp: interpolant_def)
    then show ?thesis
      using True p(3) by (simp add: lagrange_interpolate_public_points_def)
  next
    case False
    obtain r where r: "ntl_applies cfg ?N = Inr r" "\<forall>ops. r = Some ops \<longrightarrow> ntl_documented ops q"
      using ntl_applies_Inr[OF ok(1)] by blast
    show ?thesis
    proof (cases r)
      case None
      have ne: "?pts \<noteq> []"
        using pts(2) assms(2) by auto
      obtain tree where t: "poly_build_product_tree cfg ?pts q = Inr tree" "tree_ok q ?pts tree"
        using poly_build_product_tree_ok[OF ok(1,2) ne] pts(2) ok(3) by auto
      obtain p where "lagrange_interpolate_from_tree cfg y tree q = Inr p" "interpolant q ?pts y p"
        using from_tree_interpolant[OF ok assms(2) _ pts(2) t(2) pts(3)] pts(1) by (auto simp: rf_opa_eval_points_def)
      then show ?thesis
        using False r None pts(1) t(1) by (simp add: lagrange_interpolate_public_points_def)
    next
      case (Some ops)
      then have "canonical q (ntl_interpolate ops ?pts y q)" "length (ntl_interpolate ops ?pts y q) \<le> ?N"
          "\<forall>i < ?N. peval (ntl_interpolate ops ?pts y q) (?pts ! i) mod q = y ! i mod q"
        using r(2) pts(2,3) assms(2) unfolding ntl_documented_def distinct_units_def by (metis length_0_conv)+
      then show ?thesis
        using False r Some pts by (auto simp: lagrange_interpolate_public_points_def rf_opa_eval_points_def interpolant_def)
    qed
  qed
qed

interpretation public_interp: interpolator "\<lambda>q y. lagrange_interpolate_public_points cfg y q"
    "public_points (pc_env cfg)" "interp_ok cfg" for cfg
proof unfold_locales
  show "1 < q" if "interp_ok cfg q n" for q n
    using that by (simp add: interp_ok_def)
  show "length (public_points (pc_env cfg) q n) = n \<and> distinct_units q (public_points (pc_env cfg) q n)"
    if "interp_ok cfg q n" for q n
    using public_points_eq[OF that] by simp
  show "\<exists>p. lagrange_interpolate_public_points cfg y q = Inr p \<and> interpolant q (public_points (pc_env cfg) q (length y)) y p"
    if "interp_ok cfg q (length y)" "y \<noteq> []" for q y
    using interpolate_public_points_spec[OF that] .
qed

subsection \<open>The automatic choice\<close>

definition targets_ok :: "poly_cfg \<Rightarrow> int \<Rightarrow> nat \<Rightarrow> nat \<Rightarrow> bool" where
  "targets_ok cfg q n m \<longleftrightarrow> interp_ok cfg q n \<and> int n \<le> q \<and> n < 2 ^ 31 \<and> m < 2 ^ 61 \<and>
     (\<exists>t. psi_lagrange_to_coeff_threshold (pc_env cfg) = Inr t) \<and>
     (\<exists>t. poly_eval_auto_horner_max_points (pc_env cfg) = Inr t) \<and>
     poly_eval_method_env (pc_env cfg) \<noteq> ''ntt''"

lemma lagrange_eval_batch_auto_spec:
  assumes "targets_ok cfg q (length y) (length targets)" "y \<noteq> []" "length f \<le> length y"
    and f: "\<And>i. i < length y \<Longrightarrow> peval f (public_points (pc_env cfg) q (length y) ! i) mod q = y ! i mod q"
  shows "lagrange_eval_batch_auto cfg y targets q = Inr (map (\<lambda>t. pvalue f t q) targets)"
proof (cases "targets = []")
  case True
  then show ?thesis
    using assms(1) by (auto simp: lagrange_eval_batch_auto_def targets_ok_def)
next
  case False
  have io: "interp_ok cfg q (length y)"
    using assms(1) by (simp add: targets_ok_def)
  obtain t where t: "psi_lagrange_to_coeff_threshold (pc_env cfg) = Inr t"
    using assms(1) by (auto simp: targets_ok_def)
  obtain p where p: "lagrange_interpolate_public_points cfg y q = Inr p" "pcong q p f" "length p \<le> length y"
    using public_interp.interp_value[OF io assms(2,3)] f by blast
  have "eval_ok cfg q p targets"
    using assms(1) p(3) by (simp add: targets_ok_def interp_ok_def eval_ok_def tree_eval_ok_def)
  then have ev: "poly_eval_batch_auto cfg p targets q = Inr (map (\<lambda>t. pvalue f t q) targets)"
    using auto_values pcong_peval[OF p(2)] by (simp add: pvalue_eq)
  consider (ntt) "ntt_domain_supported (pc_env cfg) q (length y)"
    | (direct) "\<not> ntt_domain_supported (pc_env cfg) q (length y)" "max (length y) (length targets) < t"
    | (coeffs) "\<not> ntt_domain_supported (pc_env cfg) q (length y)" "\<not> max (length y) (length targets) < t"
    by blast
  then show ?thesis
  proof cases
    case ntt
    then show ?thesis
      using t p(1) ev False assms(2) by (simp add: lagrange_eval_batch_auto_def lagrange_interpolate_public_points_def)
  next
    case direct
    have "field_for q (length y)"
      using assms(1) direct(1) by (simp add: targets_ok_def interp_ok_def field_for_def)
    moreover have "public_points (pc_env cfg) q (length y) = consecutive (length y)"
      using direct(1) by (simp add: public_points_def public_eval_points_def)
    ultimately show ?thesis
      using t direct False assms(2) lagrange_eval_batch_spec[of q y f targets] assms(1,3) f
      by (simp add: lagrange_eval_batch_auto_def targets_ok_def)
  next
    case coeffs
    then show ?thesis
      using t p(1) ev False assms(2) by (auto simp: lagrange_eval_batch_auto_def)
  qed
qed

end
