(* ===== verification/CG_PolyFacts.thy ===== *)
theory CG_PolyFacts
  imports CG_Lagrange
begin

text \<open>
  The properties of the polynomial layer, stated on the operations the protocols call, and a
  concrete polynomial backend that has every property documented for the optional library.
\<close>

subsection \<open>A backend with the documented behaviour\<close>

definition weights :: "int \<Rightarrow> int list \<Rightarrow> int list \<Rightarrow> int list" where
  "weights q xs ys = map (\<lambda>i. ys ! i * projr (mod_inverse (denom_at xs i) q) mod q) [0..<length xs]"

definition reference_ntl :: ntl_ops where
  "reference_ntl = \<lparr> ntl_mul = poly_mul_naive_mod,
     ntl_from_roots = \<lambda>rs q. poly_mod_q_inplace (roots_poly rs) q,
     ntl_eval = \<lambda>p xs q. map (\<lambda>x. peval p x mod q) xs,
     ntl_interpolate = \<lambda>xs ys q. poly_mod_q_inplace (lag_poly (zip xs (weights q xs ys))) q \<rparr>"

lemma length_poly_mod_q: "length (poly_mod_q_inplace p q) \<le> length p"
  using length_poly_trim_le[of "map (\<lambda>c. c mod q) p"] by (simp add: poly_mod_q_inplace_def)

lemma lag_poly_nonempty: "ps \<noteq> [] \<Longrightarrow> lag_poly ps \<noteq> []"
  by (cases ps rule: lag_poly.cases) (simp_all flip: length_greater_0_conv)

lemma reference_interpolates:
  assumes "1 < q" "length xs = length ys" "xs \<noteq> []" "distinct_units q xs"
  shows "interpolant q xs ys (ntl_interpolate reference_ntl xs ys q)"
proof -
  let ?ws = "weights q xs ys" and ?p = "lag_poly (zip xs (weights q xs ys))"
  have ne: "?p \<noteq> []"
    using assms(3) by (intro lag_poly_nonempty) (auto simp: weights_def)
  have v: "peval ?p (xs ! i) mod q = ys ! i mod q" if i: "i < length xs" for i
  proof -
    obtain b where b: "mod_inverse (denom_at xs i) q = Inr b" "(denom_at xs i * b) mod q = 1"
      using unit_mod_inverse[OF denom_at_unit[OF assms(4) i] assms(1)] by blast
    have "?ws ! i mod q = (ys ! i * b) mod q"
      using i b(1) by (simp add: weights_def)
    then show ?thesis
      using weighted_value[OF i, of ?ws q "ys ! i" b] b(2) assms(1) by (simp add: peval_lag_poly weights_def)
  qed
  have "canonical q (poly_mod_q_inplace ?p q)"
    using poly_mod_q_canonical[OF _ ne] assms(1) by simp
  moreover have "length (poly_mod_q_inplace ?p q) \<le> length xs"
    using length_poly_mod_q[of ?p q] length_lag_poly[of "zip xs ?ws"] by simp
  moreover have "peval (poly_mod_q_inplace ?p q) x mod q = peval ?p x mod q" for x
    using pcong_peval[OF poly_mod_q_pcong] .
  ultimately show ?thesis
    using v by (simp add: interpolant_def reference_ntl_def)
qed

lemma reference_ntl_documented: "1 < q \<Longrightarrow> ntl_documented reference_ntl q"
  unfolding ntl_documented_def
proof (intro conjI allI impI)
  assume q: "1 < q"
  show "canonical q (ntl_mul reference_ntl a b q)" "pcong q (ntl_mul reference_ntl a b q) (pmul a b)" for a b
    using q by (simp_all add: reference_ntl_def poly_mul_naive_canonical poly_mul_naive_pcong)
  have "roots_poly rs \<noteq> []" for rs
    using length_roots_poly[of rs] by auto
  then show "canonical q (ntl_from_roots reference_ntl rs q)"
      "pcong q (ntl_from_roots reference_ntl rs q) (foldr (\<lambda>r p. pmul [- r, 1] p) rs [1])" for rs
    using q poly_mod_q_pcong[of q "roots_poly rs"] by (simp_all add: reference_ntl_def poly_mod_q_canonical roots_poly_def)
  show "ntl_eval reference_ntl p xs q = map (\<lambda>x. peval p x mod q) xs" for p xs
    by (simp add: reference_ntl_def)
  fix xs ys assume a: "length xs = length (ys :: int list) \<and> xs \<noteq> [] \<and> sorted_wrt (\<lambda>a b. unit_mod q (b - a)) xs"
  then have i: "interpolant q xs ys (ntl_interpolate reference_ntl xs ys q)"
    using reference_interpolates[OF q] by (simp add: distinct_units_def)
  then show "canonical q (ntl_interpolate reference_ntl xs ys q)"
    and "length (ntl_interpolate reference_ntl xs ys q) \<le> length xs"
    using a by (auto simp: interpolant_def Suc_le_eq max_def split: if_splits)
  show "peval (ntl_interpolate reference_ntl xs ys q) (xs ! i) mod q = ys ! i mod q" if "i < length xs" for i
    using i that by (simp add: interpolant_def)
qed

definition reference_cfg :: poly_cfg where
  "reference_cfg = \<lparr> pc_env = \<lambda>_. None, pc_ntl = Some reference_ntl \<rparr>"

lemma reference_cfg_env [simp]: "pc_env reference_cfg = (\<lambda>_. None)"
  by (simp add: reference_cfg_def)

lemma reference_cfg_ok: "1 < q \<Longrightarrow> cfg_ok reference_cfg q"
  by (simp add: cfg_ok_def reference_cfg_def reference_ntl_documented ntt_poly_threshold_def ntl_poly_threshold_def env_value_def)


subsection \<open>The transform\<close>

text \<open>
  C23: The in-place transform evaluates. On a supported domain of \<open>n\<close> points the forward
  transform of a reduced vector of \<open>n\<close> coefficients does not throw, and gives the values of the
  polynomial at the domain points, in the order in which \<open>ntt_domain_points\<close> lists them.
\<close>

theorem transform_evaluates:
  assumes "ntt_domain_supported env q (length a)" "length a < size_limit" "reduced q a"
  shows "\<exists>pts. ntt_domain_points env (length a) q = Inr pts \<and> length pts = length a \<and>
    ntt_inplace env a q False = Inr (map (\<lambda>x. pvalue a x q) pts)"
proof -
  obtain m where m: "m < 64" "length a = 2 ^ m" "ntt_domain_points env (length a) q = Inr (map (\<lambda>i. ntt_root m ^ i mod q) [0..<length a])"
    using ntt_domain_points_spec[OF assms(1,2)] by blast
  obtain c where c: "ntt_inplace env a q False = Inr c" "length c = 2 ^ m" "reduced q c"
      "\<And>k. k < 2 ^ m \<Longrightarrow> c ! k mod q = peval a (ntt_root m ^ k) mod q"
    using ntt_forward[OF assms(1) m(2,1) assms(3)] by blast
  have "c = map (\<lambda>x. pvalue a x q) (map (\<lambda>i. ntt_root m ^ i mod q) [0..<length a])"
  proof (rule nth_equalityI)
    fix k assume "k < length c"
    then have k: "k < 2 ^ m" "0 \<le> c ! k \<and> c ! k < q"
      using c(2,3) by (simp_all add: reduced_def all_set_conv_all_nth)
    then have "c ! k = peval a (ntt_root m ^ k mod q) mod q"
      using c(4)[OF k(1)] peval_mod_cong[of "ntt_root m ^ k mod q" q "ntt_root m ^ k" a] by simp
    then show "c ! k = map (\<lambda>x. pvalue a x q) (map (\<lambda>i. ntt_root m ^ i mod q) [0..<length a]) ! k"
      using k(1) m(2) by (simp add: pvalue_eq)
  qed (simp add: c(2) m(2))
  then show ?thesis
    using c(1) m(3) by simp
qed

lemma ntt_supported_4: "length a = 4 \<Longrightarrow> ntt_domain_supported (\<lambda>_. None) ntt128_prime (length a)"
  using is_power_of_two_size_iff[of 4]
  by (simp add: ntt_domain_supported_def ntt_runtime_enabled_def env_value_def is_ntt128_prime_def exI[of _ 2])

theorem transform_evaluates_witness:
  "\<exists>pts. ntt_domain_points (\<lambda>_. None) (length [1, 2, 3, 4 :: int]) ntt128_prime = Inr pts \<and> length pts = length [1, 2, 3, 4 :: int] \<and>
    ntt_inplace (\<lambda>_. None) [1, 2, 3, 4] ntt128_prime False = Inr (map (\<lambda>x. pvalue [1, 2, 3, 4] x ntt128_prime) pts)"
  by (rule transform_evaluates[OF ntt_supported_4]) (simp_all add: size_limit_def reduced_def ntt128_prime_def)

text \<open>
  The transform is invertible: on a supported domain, the inverse transform applied to the
  forward transform of a reduced vector returns that vector, and neither call throws.
\<close>

theorem transform_round_trip:
  assumes "ntt_domain_supported env q (length a)" "length a < size_limit" "reduced q a"
  shows "bind_r (ntt_inplace env a q False) (\<lambda>b. ntt_inplace env b q True) = Inr a"
  using ntt_roundtrip[OF assms(1) _ _ assms(3)] ntt_domain_supported_pow[OF assms(1,2)] by auto

theorem transform_round_trip_witness:
  "bind_r (ntt_inplace (\<lambda>_. None) [5, 0, 7, 1] ntt128_prime False) (\<lambda>b. ntt_inplace (\<lambda>_. None) b ntt128_prime True)
    = Inr [5, 0, 7, 1]"
  by (rule transform_round_trip[OF ntt_supported_4]) (simp_all add: size_limit_def reduced_def ntt128_prime_def)

subsection \<open>Multiplication and division\<close>

lemma coef_pmul: "coef (pmul a b) k = (\<Sum>i \<le> k. coef a i * coef b (k - i))"
proof (induction a arbitrary: k)
  case (Cons c a)
  show ?case
  proof (cases k)
    case (Suc k')
    have "(\<Sum>i \<le> Suc k'. coef (c # a) i * coef b (Suc k' - i)) = c * coef b (Suc k') + (\<Sum>i \<le> k'. coef a i * coef b (k' - i))"
      by (subst sum.atMost_Suc_shift) (simp add: coef_Cons)
    then show ?thesis
      using Suc Cons by (simp add: coef_padd coef_pscale coef_Cons)
  qed (simp add: coef_padd coef_pscale coef_Cons)
qed simp

text \<open>
  C22: Every multiplication strategy (transform, library backend, schoolbook, Karatsuba, whichever
  the sizes and the configuration select) computes the product: the dispatcher does not throw, its
  result is canonical, and coefficient \<open>k\<close> is the convolution of the operands modulo \<open>q\<close>.
\<close>

theorem product_is_convolution:
  assumes "cfg_ok cfg q" "1 < q" "length a \<le> 2 ^ 61" "length b \<le> 2 ^ 61"
  shows "\<exists>c. poly_mul_mod cfg a b q = Inr c \<and> canonical q c \<and>
    (\<forall>k. coef c k = (\<Sum>i \<le> k. coef a i * coef b (k - i)) mod q)"
proof -
  let ?c = "poly_mul_naive_mod a b q"
  have q: "0 < q" and cn: "canonical q ?c"
    using assms(2) poly_mul_naive_canonical by simp_all
  have "coef ?c k = (\<Sum>i \<le> k. coef a i * coef b (k - i)) mod q" for k
    using poly_mul_naive_pcong[of q a b] reduced_coef[OF q, of ?c k] cn
    by (simp add: pcong_iff_coef coef_pmul canonical_def) (metis mod_pos_pos_trivial)
  then show ?thesis
    using poly_mul_mod_naive[OF assms] cn by blast
qed

theorem product_is_convolution_witness:
  "\<exists>c. poly_mul_mod reference_cfg [1, 2] [3, 4] 97 = Inr c \<and> canonical 97 c \<and>
    (\<forall>k. coef c k = (\<Sum>i \<le> k. coef [1, 2] i * coef [3, 4] (k - i)) mod 97)"
  by (rule product_is_convolution) (simp_all add: reference_cfg_ok)

text \<open>
  C27: Division by a monic polynomial. The remainder is canonical, shorter than the divisor, and
  differs from the dividend by a multiple of the divisor; it therefore has the dividend's values
  at the divisor's roots.
\<close>

theorem monic_remainder:
  assumes "d \<noteq> []" "last d = 1" "0 < q"
  shows "\<exists>r s. poly_mod_monic p d q = Inr r \<and> canonical q r \<and> length r \<le> max 1 (length d - 1) \<and>
    (\<forall>x. pvalue p x q = (pvalue r x q + pvalue s x q * pvalue d x q) mod q)"
proof -
  obtain r s where r: "poly_mod_monic p d q = Inr r" "canonical q r" "length r \<le> max 1 (length d - 1)"
      "pcong q p (padd r (pmul s d))"
    using poly_mod_monic_spec[OF assms] by blast
  then have "pvalue p x q = (pvalue r x q + pvalue s x q * pvalue d x q) mod q" for x
    using pcong_peval[OF r(4), of x] by (simp add: pvalue_eq) (metis mod_add_eq mod_mult_eq mod_mod_trivial)
  then show ?thesis
    using r by blast
qed

theorem monic_remainder_witness:
  "\<exists>r s. poly_mod_monic [1, 2, 3] [4, 1] 97 = Inr r \<and> canonical 97 r \<and> length r \<le> max 1 (length [4, 1 :: int] - 1) \<and>
    (\<forall>x. pvalue [1, 2, 3] x 97 = (pvalue r x 97 + pvalue s x 97 * pvalue [4, 1] x 97) mod 97)"
  by (rule monic_remainder) simp_all

text \<open>
  C39: The rounding of a size to a transform size: the loop ends and returns the least power of two
  that is not below the argument, without overflow, for every size up to \<open>2^63\<close>.
\<close>

theorem next_power_of_two_least:
  assumes "n \<le> 2 ^ 63"
  shows "\<exists>k. next_power_of_two_size n = Inr (2 ^ k) \<and> n \<le> 2 ^ k \<and> (\<forall>j. n \<le> 2 ^ j \<longrightarrow> k \<le> j)"
proof -
  obtain k where k: "next_power_of_two_size n = Inr (2 ^ k)" "n \<le> 2 ^ k" "n \<le> 1 \<and> k = 0 \<or> 2 ^ k < 2 * n"
    using next_power_of_two_size_spec[OF assms] by blast
  have "k \<le> j" if "n \<le> 2 ^ j" for j
  proof (rule ccontr)
    assume "\<not> k \<le> j"
    then have "(2 :: nat) ^ Suc j \<le> 2 ^ k" "k \<noteq> 0"
      using power_increasing[of "Suc j" k "2 :: nat"] by simp_all
    then show False
      using k(3) that by simp
  qed
  with k show ?thesis by blast
qed

theorem next_power_of_two_least_witness:
  "\<exists>k. next_power_of_two_size 1000 = Inr (2 ^ k) \<and> 1000 \<le> (2 :: nat) ^ k \<and> (\<forall>j. 1000 \<le> (2 :: nat) ^ j \<longrightarrow> k \<le> j)"
  by (rule next_power_of_two_least) simp

subsection \<open>Product trees and evaluation\<close>

text \<open>
  C26: The polynomial built from a list of roots is monic of degree the number of roots, and its
  values are the products of the differences modulo \<open>q\<close>; in particular it vanishes at every root.
\<close>

theorem from_roots_values:
  assumes "cfg_ok cfg q" "1 < q" "length rs < 2 ^ 61"
  shows "\<exists>p. poly_from_roots cfg rs q = Inr p \<and> length p = Suc (length rs) \<and> last p = 1 \<and>
    (\<forall>x. pvalue p x q = (\<Prod>r \<leftarrow> rs. x - r) mod q)"
proof -
  obtain p where p: "poly_from_roots cfg rs q = Inr p" "node q rs p"
    using poly_from_roots_ok[OF assms] by blast
  then show ?thesis
    using node_shape[OF p(2) assms(2)] pcong_peval[of q p "roots_poly rs"]
    by (auto simp: node_def pvalue_eq peval_roots_poly)
qed

theorem from_roots_values_witness:
  "\<exists>p. poly_from_roots reference_cfg [2, 3, 5] 97 = Inr p \<and> length p = Suc (length [2, 3, 5 :: int]) \<and> last p = 1 \<and>
    (\<forall>x. pvalue p x 97 = (\<Prod>r \<leftarrow> [2, 3, 5]. x - r) mod 97)"
  by (rule from_roots_values) (simp_all add: reference_cfg_ok)

text \<open>
  The two evaluators that need no special modulus agree: remainder descent through a product
  tree returns, in order, exactly what Horner's rule returns at each point.
\<close>

theorem product_tree_is_horner:
  assumes "cfg_ok cfg q" "1 < q" "length xs < 2 ^ 61" "length f < 2 ^ 31"
  shows "poly_eval_batch_product_tree cfg f xs q = Inr (poly_eval_batch_horner f xs q)"
  using product_tree_values[of cfg q f xs] assms(1-3) by (simp add: tree_eval_ok_def horner_values[OF assms(4)])

theorem product_tree_is_horner_witness:
  "poly_eval_batch_product_tree reference_cfg [1, 2, 3] [4, 5, 6] 97 = Inr (poly_eval_batch_horner [1, 2, 3] [4, 5, 6] 97)"
  by (rule product_tree_is_horner) (simp_all add: reference_cfg_ok)



text \<open>
  C29: The caches are transparent. Starting from caches whose entries were computed for their keys
  (the empty ones are such), the cached tree is the tree that would be built afresh, the call fails
  exactly when building fails, and the caches keep the invariant. Different counts or moduli never
  share a key.
\<close>

theorem caches_transparent:
  assumes "caches_ok cfg cs"
  shows "(case public_product_tree_cached cfg n q cs of
      Inl e \<Rightarrow> bind_r (public_eval_points (pc_env cfg) n q) (\<lambda>a. poly_build_product_tree cfg a q) = Inl e
    | Inr (t, cs') \<Rightarrow> bind_r (public_eval_points (pc_env cfg) n q) (\<lambda>a. poly_build_product_tree cfg a q) = Inr t
        \<and> caches_ok cfg cs')"
  by (rule public_product_tree_cached_spec[OF assms])

theorem caches_transparent_witness:
  "(case public_product_tree_cached reference_cfg 3 97 \<lparr> point_cache = Map.empty, tree_cache = Map.empty \<rparr> of
      Inl e \<Rightarrow> bind_r (public_eval_points (pc_env reference_cfg) 3 97) (\<lambda>a. poly_build_product_tree reference_cfg a 97) = Inl e
    | Inr (t, cs') \<Rightarrow> bind_r (public_eval_points (pc_env reference_cfg) 3 97) (\<lambda>a. poly_build_product_tree reference_cfg a 97) = Inr t
        \<and> caches_ok reference_cfg cs')"
  by (rule caches_transparent[OF caches_start])

subsection \<open>Interpolation\<close>

lemma small_units_97: "small_units 97 4"
proof -
  have "unit_mod 97 1" "unit_mod 97 2" "unit_mod 97 3"
    unfolding unit_mod_def by (intro exI[of _ 1], simp) (intro exI[of _ 49], simp, intro exI[of _ 65], simp)
  moreover have "int d = 1 \<or> int d = 2 \<or> int d = 3" if "0 < d \<and> d < 4" for d
    using that by linarith
  ultimately show ?thesis
    unfolding small_units_def by metis
qed

text \<open>
  C25: Interpolation inverts evaluation. The values of a canonical polynomial at the \<open>n\<close> public
  points, \<open>n\<close> at least its length, are interpolated to exactly its coefficients, whichever
  strategy is selected. The modulus must be the transform prime on a transform size, or its small
  differences must be invertible, as in a field with more than \<open>n\<close> elements; \<open>n\<close> fits the 32-bit index
  of Horner's rule.
\<close>

theorem interpolation_inverts_evaluation:
  assumes "cfg_ok cfg q" "1 < q" "n < 2 ^ 31" "0 < n" "ntt_domain_supported (pc_env cfg) q n \<or> small_units q n"
    and "canonical q f" "length f \<le> n"
  shows "bind_r (rf_opa_eval_points (pc_env cfg) n q) (\<lambda>alpha.
    lagrange_interpolate_public_points cfg (poly_eval_batch_horner f alpha q) q) = Inr f"
proof -
  have ok: "interp_ok cfg q n"
    using assms(1-3,5) by (simp add: interp_ok_def)
  show ?thesis
    using public_points_eq(1)[OF ok] public_interp.interp_evaluations[OF ok assms(4,6,7)]
      horner_values[of f] assms(3,7) by (simp add: rf_opa_eval_points_def)
qed

theorem interpolation_inverts_evaluation_witness:
  "bind_r (rf_opa_eval_points (pc_env reference_cfg) 4 97) (\<lambda>alpha.
    lagrange_interpolate_public_points reference_cfg (poly_eval_batch_horner [5, 0, 7] alpha 97) 97) = Inr [5, 0, 7]"
  by (rule interpolation_inverts_evaluation)
    (simp_all add: reference_cfg_ok small_units_97 canonical_def reduced_def)

text \<open>
  C24: Evaluation without coefficients. Given the values of a polynomial of small degree at the
  public points, the automatic routine (barycentric for small jobs, interpolation and batch
  evaluation for large ones or on transform domains) returns its values at the targets, which may
  coincide with public points. The number of points fits the 32-bit index of the barycentric loop
  (\<open>targets_ok\<close>).
\<close>

theorem values_carry_over:
  assumes "targets_ok cfg q (length y) (length targets)" "y \<noteq> []" "length f \<le> length y"
    and "rf_opa_eval_points (pc_env cfg) (length y) q = Inr alpha"
    and "\<forall>i < length y. pvalue f (alpha ! i) q = y ! i mod q"
  shows "lagrange_eval_batch_auto cfg y targets q = Inr (map (\<lambda>t. pvalue f t q) targets)"
  by (rule lagrange_eval_batch_auto_spec[OF assms(1-3)])
    (use assms(4,5) in \<open>simp add: rf_opa_eval_points_def public_points_def pvalue_eq\<close>)

theorem values_carry_over_witness:
  "lagrange_eval_batch_auto reference_cfg [3, 5, 7] [2, 10] 97 = Inr (map (\<lambda>t. pvalue [1, 2] t 97) [2, 10])"
proof (rule values_carry_over)
  have "small_units 97 (length [3, 5, 7 :: int])"
    using small_units_97 by (simp add: small_units_def)
  then show "targets_ok reference_cfg 97 (length [3, 5, 7 :: int]) (length [2, 10 :: int])"
    by (simp add: targets_ok_def interp_ok_def reference_cfg_ok psi_lagrange_to_coeff_threshold_def env_value_def
        poly_eval_auto_horner_max_points_def poly_eval_method_env_def)
  show "rf_opa_eval_points (pc_env reference_cfg) (length [3, 5, 7 :: int]) 97 = Inr [1, 2, 3]"
    by (simp add: rf_opa_eval_points_def public_eval_points_def ntt_domain_supported_def is_ntt128_prime_def ntt128_prime_def upt_rec)
  show "\<forall>i < length [3, 5, 7 :: int]. pvalue [1, 2] ([1, 2, 3] ! i) 97 = [3, 5, 7] ! i mod 97"
    by (auto simp: pvalue_eq less_Suc_eq)
qed simp_all

end
