(* ===== verification/CG_AHE.thy ===== *)
theory CG_AHE
  imports CG_Wire
begin

text \<open>
  The additively homomorphic encryption of \<open>cg_ahe.hpp\<close> and \<open>CL_HSM_utils.inl\<close>, and the key
  mauling of \<open>cg_rf_common.hpp\<close>. Composition and exponentiation of quadratic forms, the powers
  of the generators and the discrete logarithm in the subgroup of \<open>f\<close> are class-group
  arithmetic of the BICYCL library: arguments of the model. Random scalars are arguments too;
  every statement holds for all of them.
\<close>

subsection \<open>The class group\<close>

record 'g cl_ops =
  cl_powG :: "'g \<Rightarrow> int \<Rightarrow> 'g"
  cl_compG :: "'g \<Rightarrow> 'g \<Rightarrow> 'g"
  cl_powD :: "'g \<Rightarrow> int \<Rightarrow> 'g"
  cl_compD :: "'g \<Rightarrow> 'g \<Rightarrow> 'g"
  cl_compinvD :: "'g \<Rightarrow> 'g \<Rightarrow> 'g"
  cl_convert :: "'g \<Rightarrow> 'g"
  cl_powh :: "int \<Rightarrow> 'g"
  cl_powf :: "int \<Rightarrow> 'g"
  cl_dlog :: "'g \<Rightarrow> int"
  cl_compact :: bool
  cl_discriminant_ok :: "'g \<Rightarrow> bool"
  cleartext_bound :: int
  secretkey_bound :: int

type_synonym 'g cipher = "'g \<times> 'g"

text \<open>The conversion that follows a power in \<open>Cl_G\<close> when the compact variant is on.\<close>

definition to_delta :: "'g cl_ops \<Rightarrow> 'g \<Rightarrow> 'g" where
  "to_delta cs x = (if cl_compact cs then cl_convert cs x else x)"

subsection \<open>Keys and messages\<close>

definition make_secret_key :: "'g cl_ops \<Rightarrow> int \<Rightarrow> int result" where
  "make_secret_key cs v =
     (if \<not> (v \<ge> 0 \<and> v < secretkey_bound cs) then Inl (Range_error ''Secret key is negative or too large'')
      else Inr v)"

definition keygen_pk :: "'g cl_ops \<Rightarrow> int \<Rightarrow> 'g" where
  "keygen_pk cs sk = cl_powh cs sk"

definition public_key_of :: "'g cl_ops \<Rightarrow> 'g \<Rightarrow> 'g result" where
  "public_key_of cs x =
     (if \<not> cl_discriminant_ok cs x
      then Inl (Invalid_argument ''pk's discriminant does not match Cryptosystem'') else Inr x)"

definition make_cleartext :: "'g cl_ops \<Rightarrow> int \<Rightarrow> int result" where
  "make_cleartext cs v =
     (if \<not> (v \<ge> 0 \<and> v < cleartext_bound cs) then Inl (Range_error ''Cleartext is negative or too large'')
      else Inr v)"

subsection \<open>The scheme\<close>

definition encrypt :: "'g cl_ops \<Rightarrow> 'g \<Rightarrow> int \<Rightarrow> int \<Rightarrow> 'g cipher" where
  "encrypt cs pk m r = (cl_powh cs r, cl_compD cs (to_delta cs (cl_powG cs pk r)) (cl_powf cs m))"

definition decrypt :: "'g cl_ops \<Rightarrow> int \<Rightarrow> 'g cipher \<Rightarrow> int" where
  "decrypt cs sk c = cl_dlog cs (cl_compinvD cs (snd c) (to_delta cs (cl_powG cs (fst c) sk)))"

definition ct_add :: "'g cl_ops \<Rightarrow> 'g cipher \<Rightarrow> 'g cipher \<Rightarrow> 'g cipher" where
  "ct_add cs x y = (cl_compG cs (fst x) (fst y), cl_compD cs (snd x) (snd y))"

definition cmult :: "'g cl_ops \<Rightarrow> 'g cipher \<Rightarrow> int \<Rightarrow> 'g cipher" where
  "cmult cs c alpha = (cl_powG cs (fst c) alpha, cl_powD cs (snd c) alpha)"

definition rerand :: "'g cl_ops \<Rightarrow> 'g \<Rightarrow> 'g cipher \<Rightarrow> int \<Rightarrow> 'g cipher result" where
  "rerand cs pk c r = bind_r (make_cleartext cs 0) (\<lambda>zero. Inr (ct_add cs c (encrypt cs pk zero r)))"

definition maulpk :: "'g cl_ops \<Rightarrow> 'g \<Rightarrow> int \<Rightarrow> 'g result" where
  "maulpk cs pk r = public_key_of cs (cl_compG cs pk (cl_powh cs r))"

definition maulsk :: "'g cl_ops \<Rightarrow> int \<Rightarrow> int \<Rightarrow> int result" where
  "maulsk cs sk r = make_secret_key cs ((sk + r) mod secretkey_bound cs)"

definition maulct :: "'g cl_ops \<Rightarrow> 'g cipher \<Rightarrow> int \<Rightarrow> 'g cipher" where
  "maulct cs c r = (fst c, cl_compD cs (snd c) (to_delta cs (cl_powG cs (fst c) r)))"

subsection \<open>Mauling by the firewalls\<close>

definition maul_ct_forward :: "'g cl_ops \<Rightarrow> 'g cipher \<Rightarrow> int \<Rightarrow> 'g cipher" where
  "maul_ct_forward cs ct r_maul =
     (let R_pow_r = to_delta cs (cl_powG cs (fst ct) r_maul) in (fst ct, cl_compD cs (snd ct) R_pow_r))"

definition maul_ct_inverse :: "'g cl_ops \<Rightarrow> 'g cipher \<Rightarrow> int \<Rightarrow> 'g cipher" where
  "maul_ct_inverse cs ct r_maul =
     (let R_pow_r = to_delta cs (cl_powG cs (fst ct) r_maul) in (fst ct, cl_compinvD cs (snd ct) R_pow_r))"

definition maul_pk :: "'g cl_ops \<Rightarrow> 'g \<Rightarrow> int \<Rightarrow> 'g result" where
  "maul_pk cs pk r_maul = public_key_of cs (cl_compG cs pk (cl_powh cs r_maul))"

record 'g enc_zero =
  ez_R :: 'g
  ez_E :: 'g

definition maul_fwd_rerand :: "'g cl_ops \<Rightarrow> 'g cipher \<Rightarrow> int \<Rightarrow> 'g enc_zero \<Rightarrow> 'g cipher" where
  "maul_fwd_rerand cs ct r_maul pre =
     (let R_pow_r = to_delta cs (cl_powG cs (fst ct) r_maul);
          out_c1 = cl_compG cs (fst ct) (ez_R pre);
          c2_mauled = cl_compD cs (snd ct) R_pow_r;
          out_c2 = cl_compD cs c2_mauled (ez_E pre)
      in (out_c1, out_c2))"

definition maul_inv_rerand :: "'g cl_ops \<Rightarrow> 'g cipher \<Rightarrow> int \<Rightarrow> 'g enc_zero \<Rightarrow> 'g cipher" where
  "maul_inv_rerand cs ct r_maul pre =
     (let R_pow_r = to_delta cs (cl_powG cs (fst ct) r_maul);
          out_c1 = cl_compG cs (fst ct) (ez_R pre);
          c2_unmauled = cl_compinvD cs (snd ct) R_pow_r;
          out_c2 = cl_compD cs c2_unmauled (ez_E pre)
      in (out_c1, out_c2))"

text \<open>
  The noise the firewalls prepare: \<open>h\<close> and the key to the same power. The second component is
  the plain power of the key; no conversion is applied to it.
\<close>

definition make_enc_zero :: "'g cl_ops \<Rightarrow> 'g \<Rightarrow> int \<Rightarrow> 'g enc_zero" where
  "make_enc_zero cs pk s = \<lparr> ez_R = cl_powh cs s, ez_E = cl_powG cs pk s \<rparr>"

text \<open>The profiled variants read a clock around each group operation.\<close>

record maul_rerand_profile =
  nupow_ms :: int
  c1_rerand_ms :: int
  c2_maul_ms :: int
  c2_rerand_ms :: int

definition maul_fwd_rerand_profiled ::
  "'g cl_ops \<Rightarrow> (nat \<Rightarrow> int) \<Rightarrow> 'g cipher \<Rightarrow> int \<Rightarrow> 'g enc_zero \<Rightarrow> 'g cipher \<times> maul_rerand_profile" where
  "maul_fwd_rerand_profiled cs clk ct r_maul pre =
     (let R_pow_r = to_delta cs (cl_powG cs (fst ct) r_maul);
          out_c1 = cl_compG cs (fst ct) (ez_R pre);
          c2_mauled = cl_compD cs (snd ct) R_pow_r;
          out_c2 = cl_compD cs c2_mauled (ez_E pre)
      in ((out_c1, out_c2),
          \<lparr> nupow_ms = clk 1 - clk 0, c1_rerand_ms = clk 3 - clk 2,
            c2_maul_ms = clk 5 - clk 4, c2_rerand_ms = clk 7 - clk 6 \<rparr>))"

definition maul_inv_rerand_profiled ::
  "'g cl_ops \<Rightarrow> (nat \<Rightarrow> int) \<Rightarrow> 'g cipher \<Rightarrow> int \<Rightarrow> 'g enc_zero \<Rightarrow> 'g cipher \<times> maul_rerand_profile" where
  "maul_inv_rerand_profiled cs clk ct r_maul pre =
     (let R_pow_r = to_delta cs (cl_powG cs (fst ct) r_maul);
          out_c1 = cl_compG cs (fst ct) (ez_R pre);
          c2_unmauled = cl_compinvD cs (snd ct) R_pow_r;
          out_c2 = cl_compD cs c2_unmauled (ez_E pre)
      in ((out_c1, out_c2),
          \<lparr> nupow_ms = clk 1 - clk 0, c1_rerand_ms = clk 3 - clk 2,
            c2_maul_ms = clk 5 - clk 4, c2_rerand_ms = clk 7 - clk 6 \<rparr>))"

subsection \<open>What the group arithmetic promises\<close>

definition group_laws :: "'g set \<Rightarrow> ('g \<Rightarrow> 'g \<Rightarrow> 'g) \<Rightarrow> ('g \<Rightarrow> int \<Rightarrow> 'g) \<Rightarrow> bool" where
  "group_laws S mul pow \<longleftrightarrow>
     (\<forall>x \<in> S. \<forall>y \<in> S. mul x y \<in> S \<and> mul x y = mul y x) \<and>
     (\<forall>x \<in> S. \<forall>y \<in> S. \<forall>z \<in> S. mul (mul x y) z = mul x (mul y z)) \<and>
     (\<forall>x \<in> S. \<forall>n. pow x n \<in> S) \<and>
     (\<forall>x \<in> S. \<forall>y \<in> S. mul (pow x 0) y = y) \<and>
     (\<forall>x \<in> S. \<forall>a b. pow x (a + b) = mul (pow x a) (pow x b)) \<and>
     (\<forall>x \<in> S. \<forall>a b. pow (pow x a) b = pow x (a * b)) \<and>
     (\<forall>x \<in> S. \<forall>y \<in> S. \<forall>n. pow (mul x y) n = mul (pow x n) (pow y n))"

text \<open>
  Two class groups \<open>G\<close> and \<open>D\<close>, a homomorphism between them, generators \<open>h\<close> of the first and
  \<open>f\<close> of the second, and the easy discrete logarithm in the subgroup of \<open>f\<close>.
\<close>

definition cl_laws :: "'g cl_ops \<Rightarrow> 'g set \<Rightarrow> 'g set \<Rightarrow> bool" where
  "cl_laws cs G D \<longleftrightarrow>
     group_laws G (cl_compG cs) (cl_powG cs) \<and> group_laws D (cl_compD cs) (cl_powD cs) \<and>
     (\<forall>x \<in> D. \<forall>y \<in> D. cl_compinvD cs x y = cl_compD cs x (cl_powD cs y (- 1))) \<and>
     (\<forall>x \<in> G. to_delta cs x \<in> D \<and> (\<forall>n. to_delta cs (cl_powG cs x n) = cl_powD cs (to_delta cs x) n)) \<and>
     (\<forall>x \<in> G. \<forall>y \<in> G. to_delta cs (cl_compG cs x y) = cl_compD cs (to_delta cs x) (to_delta cs y)) \<and>
     (\<exists>h \<in> G. \<forall>n. cl_powh cs n = cl_powG cs h n) \<and> (\<exists>f \<in> D. \<forall>n. cl_powf cs n = cl_powD cs f n) \<and>
     (\<forall>m. cl_dlog cs (cl_powf cs m) = m mod cleartext_bound cs) \<and>
     (\<forall>x \<in> G. cl_discriminant_ok cs x) \<and> 1 < cleartext_bound cs \<and> 0 < secretkey_bound cs"

subsection \<open>Ciphertexts and what they hold\<close>

text \<open>The ciphertext decrypts to \<open>m\<close> under \<open>sk\<close>: its second part is the mask times \<open>f\<close> to the \<open>m\<close>.\<close>

definition encrypts :: "'g cl_ops \<Rightarrow> 'g set \<Rightarrow> int \<Rightarrow> int \<Rightarrow> 'g cipher \<Rightarrow> bool" where
  "encrypts cs G sk m ct \<longleftrightarrow>
     fst ct \<in> G \<and> snd ct = cl_compD cs (to_delta cs (cl_powG cs (fst ct) sk)) (cl_powf cs m)"

lemma group_lawsD:
  assumes "group_laws S mul pow"
  shows "x \<in> S \<Longrightarrow> y \<in> S \<Longrightarrow> mul x y \<in> S"
    and "x \<in> S \<Longrightarrow> y \<in> S \<Longrightarrow> mul x y = mul y x"
    and "x \<in> S \<Longrightarrow> y \<in> S \<Longrightarrow> z \<in> S \<Longrightarrow> mul (mul x y) z = mul x (mul y z)"
    and "x \<in> S \<Longrightarrow> pow x n \<in> S"
    and "x \<in> S \<Longrightarrow> y \<in> S \<Longrightarrow> mul (pow x 0) y = y"
    and "x \<in> S \<Longrightarrow> pow x (a + b) = mul (pow x a) (pow x b)"
    and "x \<in> S \<Longrightarrow> pow (pow x a) b = pow x (a * b)"
    and "x \<in> S \<Longrightarrow> y \<in> S \<Longrightarrow> pow (mul x y) n = mul (pow x n) (pow y n)"
  using assms unfolding group_laws_def by metis+

lemma cl_lawsD:
  assumes "cl_laws cs G D"
  shows "group_laws G (cl_compG cs) (cl_powG cs)" "group_laws D (cl_compD cs) (cl_powD cs)"
    and "x \<in> D \<Longrightarrow> y \<in> D \<Longrightarrow> cl_compinvD cs x y = cl_compD cs x (cl_powD cs y (- 1))"
    and "x \<in> G \<Longrightarrow> to_delta cs x \<in> D" "x \<in> G \<Longrightarrow> to_delta cs (cl_powG cs x n) = cl_powD cs (to_delta cs x) n"
    and "x \<in> G \<Longrightarrow> z \<in> G \<Longrightarrow> to_delta cs (cl_compG cs x z) = cl_compD cs (to_delta cs x) (to_delta cs z)"
    and "\<exists>h \<in> G. \<forall>n. cl_powh cs n = cl_powG cs h n" "\<exists>f \<in> D. \<forall>n. cl_powf cs n = cl_powD cs f n"
    and "cl_dlog cs (cl_powf cs m) = m mod cleartext_bound cs"
    and "x \<in> G \<Longrightarrow> cl_discriminant_ok cs x" "1 < cleartext_bound cs" "0 < secretkey_bound cs"
  using assms unfolding cl_laws_def by simp_all

lemmas cl_G = cl_lawsD(1)[THEN group_lawsD(1)] cl_lawsD(1)[THEN group_lawsD(4)]
lemmas cl_D = cl_lawsD(2)[THEN group_lawsD(1)] cl_lawsD(2)[THEN group_lawsD(4)]
lemmas cl_D_comm = cl_lawsD(2)[THEN group_lawsD(2)]
lemmas cl_D_assoc = cl_lawsD(2)[THEN group_lawsD(3)]
lemmas cl_powG_add = cl_lawsD(1)[THEN group_lawsD(6)]
lemmas cl_powG_powG = cl_lawsD(1)[THEN group_lawsD(7)]
lemmas cl_powG_comp = cl_lawsD(1)[THEN group_lawsD(8)]
lemmas cl_powD_comp = cl_lawsD(2)[THEN group_lawsD(8)]
lemmas cl_compinv = cl_lawsD(3)
lemmas cl_delta_pow = cl_lawsD(5)
lemmas cl_delta_comp = cl_lawsD(6)
lemmas cl_dlog = cl_lawsD(9)

lemma cl_powh_closed: "cl_laws cs G D \<Longrightarrow> cl_powh cs n \<in> G"
  using cl_lawsD(7)[of cs G D] cl_G(2)[of cs G D] by metis

lemma cl_powf_closed: "cl_laws cs G D \<Longrightarrow> cl_powf cs n \<in> D"
  using cl_lawsD(8)[of cs G D] cl_D(2)[of cs G D] by metis

lemmas cl_closed = cl_G cl_D cl_lawsD(4) cl_powh_closed cl_powf_closed

lemma cl_disc: "cl_laws cs G D \<Longrightarrow> x \<in> G \<Longrightarrow> public_key_of cs x = Inr x"
  using cl_lawsD(10)[of cs G D x] by (simp add: public_key_of_def)

lemma cl_D_unit: "cl_laws cs G D \<Longrightarrow> x \<in> D \<Longrightarrow> y \<in> D \<Longrightarrow> cl_compD cs y (cl_powD cs x 0) = y"
  using cl_lawsD(2)[THEN group_lawsD(5)] cl_D_comm cl_D(2) by metis

lemma cl_powf_add: "cl_laws cs G D \<Longrightarrow> cl_powf cs (a + b) = cl_compD cs (cl_powf cs a) (cl_powf cs b)"
  using cl_lawsD(8)[of cs G D] cl_lawsD(2)[THEN group_lawsD(6)] by metis

lemma cl_powf_mult: "cl_laws cs G D \<Longrightarrow> cl_powf cs (a * b) = cl_powD cs (cl_powf cs a) b"
  using cl_lawsD(8)[of cs G D] cl_lawsD(2)[THEN group_lawsD(7)] by metis

lemma cl_powh_add: "cl_laws cs G D \<Longrightarrow> cl_powh cs (a + b) = cl_compG cs (cl_powh cs a) (cl_powh cs b)"
  using cl_lawsD(7)[of cs G D] cl_powG_add by metis

lemma cl_powh_swap: "cl_laws cs G D \<Longrightarrow> cl_powG cs (cl_powh cs a) b = cl_powG cs (cl_powh cs b) a"
  using cl_lawsD(7)[of cs G D] cl_powG_powG[of cs G D] by (metis mult.commute)

lemma cl_powf_0: "cl_laws cs G D \<Longrightarrow> x \<in> D \<Longrightarrow> cl_compD cs x (cl_powf cs 0) = x"
  using cl_lawsD(8)[of cs G D] cl_D_unit[of cs G D _ x] by metis

lemma cl_D_swap:
  assumes "cl_laws cs G D" "a \<in> D" "b \<in> D" "c \<in> D" "d \<in> D"
  shows "cl_compD cs (cl_compD cs a b) (cl_compD cs c d) = cl_compD cs (cl_compD cs a c) (cl_compD cs b d)"
proof -
  note A = cl_D_assoc[OF assms(1)] and C = cl_D(1)[OF assms(1)]
  have "cl_compD cs (cl_compD cs a b) (cl_compD cs c d) = cl_compD cs a (cl_compD cs (cl_compD cs b c) d)"
    using assms(2-5) by (simp add: A C)
  also have "cl_compD cs b c = cl_compD cs c b"
    by (rule cl_D_comm[OF assms(1,3,4)])
  also have "cl_compD cs a (cl_compD cs (cl_compD cs c b) d) = cl_compD cs (cl_compD cs a c) (cl_compD cs b d)"
    using assms(2-5) by (simp add: A C)
  finally show ?thesis .
qed

lemma encrypts_closed: "cl_laws cs G D \<Longrightarrow> encrypts cs G sk m ct \<Longrightarrow> fst ct \<in> G \<and> snd ct \<in> D"
  unfolding encrypts_def by (simp add: cl_closed)

lemma encrypt_encrypts:
  assumes "cl_laws cs G D"
  shows "encrypts cs G sk m (encrypt cs (keygen_pk cs sk) m r)"
  using cl_powh_closed[OF assms] cl_powh_swap[OF assms, of sk r] by (simp add: encrypts_def encrypt_def keygen_pk_def)

lemma ct_add_encrypts:
  assumes l: "cl_laws cs G D" and "encrypts cs G sk m x" "encrypts cs G sk n y"
  shows "encrypts cs G sk (m + n) (ct_add cs x y)"
proof -
  have g: "fst x \<in> G" "fst y \<in> G"
    using assms(2,3) by (simp_all add: encrypts_def)
  note c = cl_closed[OF l]
  show ?thesis
    using assms(2,3) g
    by (simp add: encrypts_def ct_add_def c cl_powG_comp[OF l] cl_delta_comp[OF l] cl_powf_add[OF l] cl_D_swap[OF l])
qed

lemma cmult_encrypts:
  assumes l: "cl_laws cs G D" and "encrypts cs G sk m x"
  shows "encrypts cs G sk (m * a) (cmult cs x a)"
proof -
  have g: "fst x \<in> G"
    using assms(2) by (simp add: encrypts_def)
  have "cl_powG cs (cl_powG cs (fst x) a) sk = cl_powG cs (cl_powG cs (fst x) sk) a"
    by (simp add: cl_powG_powG[OF l g] mult.commute)
  then show ?thesis
    using assms(2) g
    by (simp add: encrypts_def cmult_def cl_closed[OF l] cl_powD_comp[OF l] cl_powf_mult[OF l] cl_delta_pow[OF l])
qed

lemma maul_forward_encrypts:
  assumes l: "cl_laws cs G D" and "encrypts cs G sk m x"
  shows "encrypts cs G (sk + r) m (maul_ct_forward cs x r)"
proof -
  note c = cl_closed[OF l]
  let ?A = "to_delta cs (cl_powG cs (fst x) sk)" and ?R = "to_delta cs (cl_powG cs (fst x) r)"
  have g: "fst x \<in> G"
    using assms(2) by (simp add: encrypts_def)
  then have d: "?A \<in> D" "?R \<in> D" "cl_powf cs m \<in> D"
    by (simp_all add: c)
  have "cl_compD cs (cl_compD cs ?A (cl_powf cs m)) ?R = cl_compD cs (cl_compD cs ?A ?R) (cl_powf cs m)"
    using d cl_D(1)[OF l] by (metis cl_D_assoc[OF l] cl_D_comm[OF l])
  then show ?thesis
    using assms(2) g
    by (simp add: encrypts_def maul_ct_forward_def Let_def c cl_powG_add[OF l] cl_delta_comp[OF l])
qed

lemma maul_inverse_forward:
  assumes l: "cl_laws cs G D" and "fst x \<in> G" "snd x \<in> D"
  shows "maul_ct_inverse cs x r = maul_ct_forward cs x (- r)"
proof -
  have "to_delta cs (cl_powG cs (fst x) (- r)) = cl_powD cs (to_delta cs (cl_powG cs (fst x) r)) (- 1)"
    using assms(2) cl_delta_pow[OF l, of "cl_powG cs (fst x) r" "- 1"] cl_powG_powG[OF l assms(2), of r "- 1"]
    by (simp add: cl_closed[OF l])
  then show ?thesis
    using assms(2,3) by (simp add: maul_ct_inverse_def maul_ct_forward_def Let_def cl_compinv[OF l] cl_closed[OF l])
qed

lemma maul_inverse_encrypts:
  assumes l: "cl_laws cs G D" and "encrypts cs G (sk + r) m x"
  shows "encrypts cs G sk m (maul_ct_inverse cs x r)"
  using maul_forward_encrypts[OF assms, of "- r"] maul_inverse_forward[OF l, of x r] encrypts_closed[OF assms] by simp

lemma enc_zero_encrypts:
  assumes l: "cl_laws cs G D" and "\<not> cl_compact cs"
  shows "encrypts cs G sk 0 (ez_R (make_enc_zero cs (keygen_pk cs sk) s), ez_E (make_enc_zero cs (keygen_pk cs sk) s))"
proof -
  have "to_delta cs x = x" for x
    using assms(2) by (simp add: to_delta_def)
  then show ?thesis
    using cl_closed[OF l] cl_powh_swap[OF l, of sk s] cl_powf_0[OF l, of "cl_powG cs (cl_powh cs s) sk"]
    by (auto simp: encrypts_def make_enc_zero_def keygen_pk_def)
qed

lemma maul_pk_key:
  assumes l: "cl_laws cs G D"
  shows "maul_pk cs (keygen_pk cs sk) r = Inr (keygen_pk cs (sk + r))"
  using cl_disc[OF l] by (simp add: maul_pk_def keygen_pk_def cl_powh_add[OF l] cl_closed[OF l])

lemma decrypt_encrypts:
  assumes l: "cl_laws cs G D" and "encrypts cs G sk m x"
  shows "decrypt cs sk x = m mod cleartext_bound cs"
proof -
  let ?A = "to_delta cs (cl_powG cs (fst x) sk)"
  have g: "fst x \<in> G"
    using assms(2) by (simp add: encrypts_def)
  then have d: "?A \<in> D" "cl_powf cs m \<in> D"
    by (simp_all add: cl_closed[OF l])
  have "encrypts cs G 0 m (maul_ct_forward cs x (- sk))"
    using maul_forward_encrypts[OF assms, of "- sk"] by simp
  then have "snd (maul_ct_forward cs x (- sk)) = cl_compD cs (to_delta cs (cl_powG cs (fst x) 0)) (cl_powf cs m)"
    using g by (simp add: encrypts_def maul_ct_forward_def Let_def)
  also have "to_delta cs (cl_powG cs (fst x) 0) = cl_powD cs (to_delta cs (fst x)) 0"
    by (rule cl_delta_pow[OF l g])
  also have "cl_compD cs (cl_powD cs (to_delta cs (fst x)) 0) (cl_powf cs m) = cl_powf cs m"
    using cl_D_unit[OF l, of "to_delta cs (fst x)" "cl_powf cs m"] cl_D_comm[OF l] cl_closed[OF l] g by metis
  finally have fwd: "snd (maul_ct_forward cs x (- sk)) = cl_powf cs m" .
  have "maul_ct_inverse cs x sk = maul_ct_forward cs x (- sk)"
    using maul_inverse_forward[OF l g, of sk] encrypts_closed[OF assms] by blast
  then have "cl_compinvD cs (snd x) ?A = snd (maul_ct_forward cs x (- sk))"
    unfolding maul_ct_inverse_def Let_def by (metis snd_conv)
  then have "cl_compinvD cs (snd x) ?A = cl_powf cs m"
    unfolding fwd .
  then show ?thesis
    by (simp add: decrypt_def cl_dlog[OF l])
qed

subsection \<open>The contracts of the protocols\<close>

text \<open>
  What the oblivious-evaluation protocols use of the scheme: an additively homomorphic
  encryption, whose relation \<open>holds sk m c\<close> says that the ciphertext carries the message under
  the key. The flag \<open>ok\<close> stands for the documented behaviour of the class-group arithmetic.
\<close>

locale homomorphic_scheme =
  fixes ok :: bool
    and bound :: int
    and holds :: "int \<Rightarrow> int \<Rightarrow> 'c \<Rightarrow> bool"
    and pk_of :: "int \<Rightarrow> 'k"
    and enc :: "'k \<Rightarrow> int \<Rightarrow> int \<Rightarrow> 'c"
    and dec :: "int \<Rightarrow> 'c \<Rightarrow> int"
    and add :: "'c \<Rightarrow> 'c \<Rightarrow> 'c"
    and mult :: "'c \<Rightarrow> int \<Rightarrow> 'c"
  assumes enc_holds: "ok \<Longrightarrow> holds sk m (enc (pk_of sk) m r)"
    and dec_holds: "ok \<Longrightarrow> holds sk m c \<Longrightarrow> dec sk c = m mod bound"
    and add_holds: "ok \<Longrightarrow> holds sk m c \<Longrightarrow> holds sk n d \<Longrightarrow> holds sk (m + n) (add c d)"
    and mult_holds: "ok \<Longrightarrow> holds sk m c \<Longrightarrow> holds sk (m * a) (mult c a)"
begin

lemma dec_enc: "ok \<Longrightarrow> dec sk (enc (pk_of sk) m r) = m mod bound"
  by (rule dec_holds[OF _ enc_holds])

lemma ole_holds: "ok \<Longrightarrow> holds sk x c \<Longrightarrow> holds sk (a * x + b) (add (mult c a) (enc (pk_of sk) b r))"
  using add_holds[OF _ mult_holds enc_holds, of sk x c a b r] by (simp add: mult.commute)

lemma ole_value: "ok \<Longrightarrow> holds sk x c \<Longrightarrow> dec sk (add (mult c a) (enc (pk_of sk) b r)) = (a * x + b) mod bound"
  by (rule dec_holds[OF _ ole_holds])

lemma linear_holds:
  assumes ok "\<And>i. i < length ws \<Longrightarrow> holds sk (xs ! i) (cs ! i)" "length xs = length ws" "length cs = length ws"
    and "holds sk v c"
  shows "holds sk (v + (\<Sum>i < length ws. ws ! i * xs ! i)) (fold (\<lambda>i acc. add acc (mult (cs ! i) (ws ! i))) [0..<length ws] c)"
proof -
  have "holds sk (v + (\<Sum>i < m. ws ! i * xs ! i)) (fold (\<lambda>i acc. add acc (mult (cs ! i) (ws ! i))) [0..<m] c)"
    if "m \<le> length ws" for m
    using that
  proof (induction m)
    case (Suc m)
    then show ?case
      using add_holds[OF assms(1) Suc.IH mult_holds[OF assms(1) assms(2)[of m]], of "ws ! m"]
      by (simp add: mult.commute add.assoc)
  qed (simp add: assms(5))
  then show ?thesis by simp
qed

end

text \<open>
  What the reverse firewalls use beyond it: a key can be shifted, and ciphertexts follow it in
  both directions and are refreshed by an encryption of zero.
\<close>

locale malleable_scheme = homomorphic_scheme ok bound holds pk_of enc dec add mult
  for ok :: bool
    and bound :: int
    and holds :: "int \<Rightarrow> int \<Rightarrow> 'c \<Rightarrow> bool"
    and pk_of :: "int \<Rightarrow> 'k"
    and enc :: "'k \<Rightarrow> int \<Rightarrow> int \<Rightarrow> 'c"
    and dec :: "int \<Rightarrow> 'c \<Rightarrow> int"
    and add :: "'c \<Rightarrow> 'c \<Rightarrow> 'c"
    and mult :: "'c \<Rightarrow> int \<Rightarrow> 'c" +
  fixes plain :: bool
    and fwd :: "'c \<Rightarrow> int \<Rightarrow> 'c"
    and bwd :: "'c \<Rightarrow> int \<Rightarrow> 'c"
    and shift_pk :: "'k \<Rightarrow> int \<Rightarrow> 'k result"
    and zero :: "'k \<Rightarrow> int \<Rightarrow> 'c"
  assumes fwd_holds: "ok \<Longrightarrow> holds sk m c \<Longrightarrow> holds (sk + r) m (fwd c r)"
    and bwd_holds: "ok \<Longrightarrow> holds (sk + r) m c \<Longrightarrow> holds sk m (bwd c r)"
    and shift_key: "ok \<Longrightarrow> shift_pk (pk_of sk) r = Inr (pk_of (sk + r))"
    and zero_holds: "ok \<Longrightarrow> plain \<Longrightarrow> holds sk 0 (zero (pk_of sk) s)"
begin

lemma round_trip_holds: "ok \<Longrightarrow> holds sk m c \<Longrightarrow> holds sk m (bwd (fwd c r) r)"
  by (rule bwd_holds[OF _ fwd_holds])

lemma refresh_holds: "ok \<Longrightarrow> plain \<Longrightarrow> holds sk m c \<Longrightarrow> holds sk m (add c (zero (pk_of sk) s))"
  using add_holds[of sk m c 0 "zero (pk_of sk) s"] zero_holds[of sk s] by simp

lemma forward_refresh_holds:
  "ok \<Longrightarrow> plain \<Longrightarrow> holds sk m c \<Longrightarrow> holds (sk + r) m (add (fwd c r) (zero (pk_of (sk + r)) s))"
  by (rule refresh_holds[OF _ _ fwd_holds])

lemma backward_refresh_holds:
  "ok \<Longrightarrow> plain \<Longrightarrow> holds (sk + r) m c \<Longrightarrow> holds sk m (add (bwd c r) (zero (pk_of sk) s))"
  by (rule refresh_holds[OF _ _ bwd_holds])

end

definition zero_cipher :: "'g cl_ops \<Rightarrow> 'g \<Rightarrow> int \<Rightarrow> 'g cipher" where
  "zero_cipher cs pk s = (ez_R (make_enc_zero cs pk s), ez_E (make_enc_zero cs pk s))"

interpretation cg: malleable_scheme "cl_laws cs G D" "cleartext_bound cs" "encrypts cs G" "keygen_pk cs"
    "encrypt cs" "decrypt cs" "ct_add cs" "cmult cs" "\<not> cl_compact cs" "maul_ct_forward cs" "maul_ct_inverse cs"
    "maul_pk cs" "zero_cipher cs"
  for cs :: "'g cl_ops" and G D
proof unfold_locales
  show "encrypts cs G sk 0 (zero_cipher cs (keygen_pk cs sk) s)" if "cl_laws cs G D" "\<not> cl_compact cs" for sk s
    using enc_zero_encrypts[OF that] by (simp add: zero_cipher_def)
qed (auto intro: encrypt_encrypts decrypt_encrypts ct_add_encrypts cmult_encrypts maul_forward_encrypts
      maul_inverse_encrypts maul_pk_key)

lemma maul_fwd_rerand_eq:
  "maul_fwd_rerand cs ct r (make_enc_zero cs pk s) = ct_add cs (maul_ct_forward cs ct r) (zero_cipher cs pk s)"
  by (simp add: maul_fwd_rerand_def maul_ct_forward_def ct_add_def zero_cipher_def Let_def)

lemma maul_inv_rerand_eq:
  "maul_inv_rerand cs ct r (make_enc_zero cs pk s) = ct_add cs (maul_ct_inverse cs ct r) (zero_cipher cs pk s)"
  by (simp add: maul_inv_rerand_def maul_ct_inverse_def ct_add_def zero_cipher_def Let_def)

text \<open>Equal powers of the generator, and cancellation in the second group.\<close>

lemma cl_powh_eq_iff:
  assumes l: "cl_laws cs G D"
  shows "cl_powh cs a = cl_powh cs b \<longleftrightarrow> cl_powh cs (a - b) = cl_powh cs 0"
proof -
  obtain h where h: "h \<in> G" "\<And>n. cl_powh cs n = cl_powG cs h n"
    using cl_lawsD(7)[OF l] by blast
  have unit: "cl_compG cs (cl_powG cs h 0) (cl_powG cs h n) = cl_powG cs h n" for n
    using cl_lawsD(1)[OF l, THEN group_lawsD(5)] h(1) cl_G(2)[OF l] by metis
  show ?thesis
  proof
    assume "cl_powh cs a = cl_powh cs b"
    then have "cl_compG cs (cl_powh cs a) (cl_powh cs (- b)) = cl_compG cs (cl_powh cs b) (cl_powh cs (- b))"
      by simp
    then show "cl_powh cs (a - b) = cl_powh cs 0"
      using cl_powh_add[OF l, of a "- b"] cl_powh_add[OF l, of b "- b"] by simp
  next
    assume z: "cl_powh cs (a - b) = cl_powh cs 0"
    have "cl_powh cs a = cl_compG cs (cl_powh cs (a - b)) (cl_powh cs b)"
      using cl_powh_add[OF l, of "a - b" b] by simp
    then show "cl_powh cs a = cl_powh cs b"
      using unit[of b] z by (simp add: h(2))
  qed
qed



subsection \<open>A concrete instance\<close>

text \<open>
  Exponent pairs: the first component counts \<open>h\<close>, the second \<open>f\<close>. The logarithm answers only
  on pure powers of \<open>f\<close>, as the one of the library does. The compact instance converts by a
  non-trivial homomorphism.
\<close>

definition demo_cs :: "bool \<Rightarrow> int \<Rightarrow> (int \<times> int) cl_ops" where
  "demo_cs compact q =
     \<lparr> cl_powG = (\<lambda>(a, b) n. (a * n, b * n)), cl_compG = (\<lambda>(a, b) (c, d). (a + c, b + d)),
       cl_powD = (\<lambda>(a, b) n. (a * n, b * n)), cl_compD = (\<lambda>(a, b) (c, d). (a + c, b + d)),
       cl_compinvD = (\<lambda>(a, b) (c, d). (a - c, b - d)), cl_convert = (\<lambda>(a, b). (2 * a, 2 * b)),
       cl_powh = (\<lambda>n. (n, 0)), cl_powf = (\<lambda>n. (0, n)),
       cl_dlog = (\<lambda>(a, b). if a = 0 then b mod q else - 1), cl_compact = compact,
       cl_discriminant_ok = (\<lambda>x. True), cleartext_bound = q, secretkey_bound = 1000 \<rparr>"

lemma demo_laws: "1 < q \<Longrightarrow> cl_laws (demo_cs compact q) UNIV UNIV"
  by (auto simp: cl_laws_def group_laws_def demo_cs_def to_delta_def algebra_simps
      intro: exI[of _ "(1, 0)"] exI[of _ "(0, 1)"])

lemma demo_simps [simp]:
  "cl_compact (demo_cs c q) = c" "cleartext_bound (demo_cs c q) = q" "secretkey_bound (demo_cs c q) = 1000"
  by (simp_all add: demo_cs_def)

subsection \<open>Properties\<close>

text \<open>
  One oblivious evaluation under encryption. If a ciphertext carries \<open>x\<close> under a key, then
  multiplying it by \<open>a\<close> and adding a fresh encryption of \<open>b\<close> gives a ciphertext that decrypts to
  \<open>a x + b\<close> modulo the plaintext bound, in the compact and in the plain variant.
\<close>

theorem evaluation_decrypts:
  assumes "cl_laws cs G D" "encrypts cs G sk x ct"
  shows "decrypt cs sk (ct_add cs (cmult cs ct a) (encrypt cs (keygen_pk cs sk) b r)) = (a * x + b) mod cleartext_bound cs"
  by (rule cg.ole_value[OF assms])

theorem evaluation_decrypts_witness:
  "decrypt (demo_cs True 97) 5 (ct_add (demo_cs True 97) (cmult (demo_cs True 97)
      (encrypt (demo_cs True 97) (keygen_pk (demo_cs True 97) 5) 7 11) 13) (encrypt (demo_cs True 97) (keygen_pk (demo_cs True 97) 5) 3 2))
    = (13 * 7 + 3) mod 97"
proof -
  have l: "cl_laws (demo_cs True 97) UNIV UNIV"
    by (rule demo_laws) simp
  show ?thesis
    using evaluation_decrypts[OF l cg.enc_holds[OF l]] by simp
qed

text \<open>
  C18: A firewall is transparent. A ciphertext mauled forward and refreshed under the shifted key,
  then mauled back and refreshed under the original key, still carries its message under the
  original key, and in between it carries it under the shifted one. This needs the plain variant.
\<close>

theorem firewall_transparent:
  assumes "cl_laws cs G D" "\<not> cl_compact cs" "encrypts cs G sk m ct"
  shows "encrypts cs G (sk + r) m (maul_fwd_rerand cs ct r (make_enc_zero cs (keygen_pk cs (sk + r)) s)) \<and>
    encrypts cs G sk m (maul_inv_rerand cs (maul_fwd_rerand cs ct r (make_enc_zero cs (keygen_pk cs (sk + r)) s)) r
      (make_enc_zero cs (keygen_pk cs sk) s'))"
  unfolding maul_fwd_rerand_eq maul_inv_rerand_eq
  using cg.backward_refresh_holds[OF assms(1,2) cg.forward_refresh_holds[OF assms]] cg.forward_refresh_holds[OF assms] by blast

theorem firewall_transparent_witness:
  "encrypts (demo_cs False 97) UNIV (5 + 8) 7 (maul_fwd_rerand (demo_cs False 97)
      (encrypt (demo_cs False 97) (keygen_pk (demo_cs False 97) 5) 7 11) 8 (make_enc_zero (demo_cs False 97) (keygen_pk (demo_cs False 97) (5 + 8)) 3)) \<and>
    encrypts (demo_cs False 97) UNIV 5 7 (maul_inv_rerand (demo_cs False 97) (maul_fwd_rerand (demo_cs False 97)
      (encrypt (demo_cs False 97) (keygen_pk (demo_cs False 97) 5) 7 11) 8 (make_enc_zero (demo_cs False 97) (keygen_pk (demo_cs False 97) (5 + 8)) 3))
      8 (make_enc_zero (demo_cs False 97) (keygen_pk (demo_cs False 97) 5) 4))"
proof -
  have l: "cl_laws (demo_cs False 97) UNIV UNIV"
    by (rule demo_laws) simp
  show ?thesis
    by (rule firewall_transparent[OF l _ cg.enc_holds[OF l]]) simp
qed



text \<open>
  Profiling does not change results: for every clock, the profiled forms of both firewall
  operations return the ciphertext of the plain forms.
\<close>

theorem profiling_neutral:
  "fst (maul_fwd_rerand_profiled cs clk ct r pre) = maul_fwd_rerand cs ct r pre \<and>
   fst (maul_inv_rerand_profiled cs clk ct r pre) = maul_inv_rerand cs ct r pre"
  by (simp add: maul_fwd_rerand_profiled_def maul_fwd_rerand_def maul_inv_rerand_profiled_def maul_inv_rerand_def Let_def)

text \<open>
  C37: When the library's two key-mauling functions keep a pair together. \<open>maulpk\<close> shifts the public key
  by the random value it is given, \<open>maulsk\<close> draws its own and reduces the sum modulo the bound of the
  secret keys, which is not the order of the group. Both always succeed, and the results belong
  together exactly if the difference of the exponents is a multiple of the order of the generator.
\<close>

theorem mauled_pair_matches:
  assumes "cl_laws cs G D"
  shows "\<exists>sk' pk'. maulsk cs sk r2 = Inr sk' \<and> maulpk cs (keygen_pk cs sk) r1 = Inr pk' \<and>
    0 \<le> sk' \<and> sk' < secretkey_bound cs \<and> pk' = keygen_pk cs (sk + r1) \<and>
    (pk' = keygen_pk cs sk' \<longleftrightarrow>
       cl_powh cs (r1 - r2 + secretkey_bound cs * ((sk + r2) div secretkey_bound cs)) = cl_powh cs 0)"
proof -
  let ?B = "secretkey_bound cs"
  have B: "0 < ?B"
    using cl_lawsD(12)[OF assms] .
  have d: "sk + r1 - (sk + r2) mod ?B = r1 - r2 + ?B * ((sk + r2) div ?B)"
    using mult_div_mod_eq[of ?B "sk + r2"] by linarith
  have "maulsk cs sk r2 = Inr ((sk + r2) mod ?B)" "0 \<le> (sk + r2) mod ?B" "(sk + r2) mod ?B < ?B"
    using B by (simp_all add: maulsk_def make_secret_key_def)
  moreover have "maulpk cs (keygen_pk cs sk) r1 = Inr (keygen_pk cs (sk + r1))"
    using maul_pk_key[OF assms, of sk r1] by (simp add: maulpk_def maul_pk_def)
  moreover have "keygen_pk cs (sk + r1) = keygen_pk cs ((sk + r2) mod ?B) \<longleftrightarrow> cl_powh cs (r1 - r2 + ?B * ((sk + r2) div ?B)) = cl_powh cs 0"
    unfolding keygen_pk_def d[symmetric] by (rule cl_powh_eq_iff[OF assms])
  ultimately show ?thesis
    by blast
qed

theorem mauled_pair_matches_witness:
  "\<exists>sk' pk'. maulsk (demo_cs False 97) 600 500 = Inr sk' \<and> maulpk (demo_cs False 97) (keygen_pk (demo_cs False 97) 600) 500 = Inr pk' \<and>
    0 \<le> sk' \<and> sk' < secretkey_bound (demo_cs False 97) \<and> pk' = keygen_pk (demo_cs False 97) (600 + 500) \<and>
    (pk' = keygen_pk (demo_cs False 97) sk' \<longleftrightarrow>
       cl_powh (demo_cs False 97) (500 - 500 + secretkey_bound (demo_cs False 97) * ((600 + 500) div secretkey_bound (demo_cs False 97)))
         = cl_powh (demo_cs False 97) 0)"
  by (rule mauled_pair_matches[OF demo_laws]) simp

text \<open>So there are parameters, keys and one random value for both functions for which the pair falls apart.\<close>

lemma mauled_pair_can_split:
  "\<exists>sk' pk'. maulsk (demo_cs False 97) 600 500 = Inr sk' \<and> maulpk (demo_cs False 97) (keygen_pk (demo_cs False 97) 600) 500 = Inr pk' \<and>
    pk' \<noteq> keygen_pk (demo_cs False 97) sk'"
  by (simp add: maulsk_def make_secret_key_def maulpk_def public_key_of_def keygen_pk_def demo_cs_def)

end
