(* ===== verification/CG_Stream.thy ===== *)
theory CG_Stream
  imports CG_Lanes CG_AHE
begin

text \<open>
  The loops the protocol endpoints are built from: a parallel loop over a chunk of a vector, the
  chunked streams of ciphertexts over the lanes, the key on lane 0. What a party writes on a
  lane and what it has not read yet are byte streams; the invariants of a stream say which part
  of a ciphertext vector has passed.
\<close>

subsection \<open>Loops\<close>

type_synonym ct = "qfi cipher"
type_synonym lanes = "byte list list"

text \<open>The default-constructed form, and the elements of a resized vector of ciphertexts.\<close>

definition null_form :: qfi where
  "null_form = \<lparr> qa = 1, qb = 1, qc = 1 \<rparr>"

definition null_ct :: ct where
  "null_ct = (null_form, null_form)"

text \<open>
  \<^verbatim>\<open>pool.parallel_for(b, e, ...)\<close> with a body that assigns \<open>v[i]\<close>. The bodies are independent of
  each other; of several exceptions the model reports the first in index order.
\<close>

definition par_fill :: "(nat \<Rightarrow> 'a result) \<Rightarrow> nat \<Rightarrow> nat \<Rightarrow> 'a list \<Rightarrow> 'a list result" where
  "par_fill f b e v = bind_r (map_r f [b..<e]) (\<lambda>ys. Inr (put_vec b ys v))"

text \<open>\<^verbatim>\<open>for (begin = 0; begin < n; begin += CHUNK) { end = min(n, begin + CHUNK); ... }\<close>\<close>

definition for_chunks :: "env \<Rightarrow> nat \<Rightarrow> (nat \<Rightarrow> nat \<Rightarrow> 's \<Rightarrow> 's result) \<Rightarrow> 's \<Rightarrow> 's result" where
  "for_chunks env n body s =
     bind_r (rf_chunk_size env) (\<lambda>c. fold_r (\<lambda>(b, e). body b e) (chunk_ranges n c 0) s)"

definition send_pk_lane0 :: "env \<Rightarrow> qfi \<Rightarrow> lanes \<Rightarrow> lanes result" where
  "send_pk_lane0 env pk fds = bind_r (send_pk env pk) (\<lambda>bs. Inr (fds[0 := fds ! 0 @ bs]))"

definition recv_pk_lane0 :: "env \<Rightarrow> int \<Rightarrow> lanes \<Rightarrow> (qfi \<times> lanes) result" where
  "recv_pk_lane0 env disc fds = bind_r (recv_pk env disc (fds ! 0)) (\<lambda>(pk, rest). Inr (pk, fds[0 := rest]))"

subsection \<open>Stream invariants\<close>

definition agrees :: "nat \<Rightarrow> 'a list \<Rightarrow> 'a list \<Rightarrow> bool" where
  "agrees b v xs \<longleftrightarrow> length v = length xs \<and> (\<forall>j < b. v ! j = xs ! j)"

abbreviation ct_wire :: "ct list \<Rightarrow> byte list" where
  "ct_wire xs \<equiv> concat (map ct_bytes xs)"

definition lane_wire :: "ct list \<Rightarrow> nat \<Rightarrow> nat \<Rightarrow> byte list" where
  "lane_wire xs k i = ct_wire (vslice (lane_bound (length xs) k i) (lane_bound (length xs) k (Suc i)) xs)"

definition sent :: "nat \<Rightarrow> ct list \<Rightarrow> (nat \<Rightarrow> byte list) \<Rightarrow> nat \<Rightarrow> lanes \<Rightarrow> bool" where
  "sent k xs t b tx \<longleftrightarrow> tx =
     map (\<lambda>i. t i @ ct_wire (vslice (lane_bound (length xs) k i) (min (lane_bound (length xs) k (Suc i)) b) xs)) [0..<k]"

definition unread :: "nat \<Rightarrow> ct list \<Rightarrow> (nat \<Rightarrow> byte list) \<Rightarrow> nat \<Rightarrow> lanes \<Rightarrow> bool" where
  "unread k xs t b rx \<longleftrightarrow> rx =
     map (\<lambda>i. ct_wire (vslice (max (lane_bound (length xs) k i) b) (lane_bound (length xs) k (Suc i)) xs) @ t i) [0..<k]"

text \<open>A vector of ciphertexts that the sender can write and the receiver accepts.\<close>

definition travels :: "env \<Rightarrow> env \<Rightarrow> ct list \<Rightarrow> bool" where
  "travels env env' xs \<longleftrightarrow>
     cg_validate_count env (length xs) False = Inr () \<and> cg_validate_count env' (length xs) False = Inr () \<and>
     (\<forall>x \<in> set xs. send_ct env x = Inr (ct_bytes x) \<and> ct_ok env' x)"

lemma agrees_0: "agrees 0 v xs \<longleftrightarrow> length v = length xs"
  by (simp add: agrees_def)

lemma agrees_all: "agrees (length xs) v xs \<longleftrightarrow> v = xs"
  by (auto simp: agrees_def intro: nth_equalityI)

lemma agreesD: "agrees e v xs \<Longrightarrow> i < e \<Longrightarrow> v ! i = xs ! i"
  by (simp add: agrees_def)

lemma agrees_length: "agrees e v xs \<Longrightarrow> length v = length xs"
  by (simp add: agrees_def)

lemma vslice_cong: "(\<And>j. l \<le> j \<Longrightarrow> j < r \<Longrightarrow> v ! j = xs ! j) \<Longrightarrow> length v = length xs \<Longrightarrow> r \<le> length xs \<Longrightarrow>
   vslice l r v = vslice l r xs"
  by (intro nth_equalityI) (auto simp: nth_vslice)

lemma par_fill_step:
  assumes "agrees b v xs" "b \<le> e" "e \<le> length xs" "\<And>i. b \<le> i \<Longrightarrow> i < e \<Longrightarrow> f i = Inr (xs ! i)"
  shows "\<exists>v'. par_fill f b e v = Inr v' \<and> agrees e v' xs"
proof -
  have "map_r f [b..<e] = Inr (map (\<lambda>i. xs ! i) [b..<e])"
    using assms(4) by (intro map_r_Inr_all) simp
  then show ?thesis
    using assms(1-3) by (auto simp: par_fill_def agrees_def nth_put_vec)
qed

lemma send_ct_lanes_range_cong:
  assumes "length v = length xs" "\<And>j. b \<le> j \<Longrightarrow> j < e \<Longrightarrow> v ! j = xs ! j" "e \<le> length xs"
  shows "send_ct_lanes_range env f fds v n b e = send_ct_lanes_range env f fds xs n b e"
proof -
  have lane: "send_lane env f v n b e i fd = send_lane env f xs n b e i fd" for i fd
  proof -
    have "vslice (max l b) (min r e) v = vslice (max l b) (min r e) xs" for l r
      by (rule vslice_cong) (use assms in auto)
    then show ?thesis
      by (auto simp: send_lane_def rf_lane_range_intersection_def bind_r_def split: sum.splits)
  qed
  have "vslice b e v = vslice b e xs"
    using assms by (intro vslice_cong) auto
  moreover have "send_lane env f v n b e = send_lane env f xs n b e"
    by (intro ext) (rule lane)
  ultimately show ?thesis
    unfolding send_ct_lanes_range_def by (simp only: assms(1))
qed

lemma send_step:
  assumes "travels env env' xs" "0 < k" "k \<le> 64" "sent k xs t b tx" "agrees e v xs" "b < e" "e \<le> length xs"
  shows "\<exists>tx'. send_ct_lanes_range env (send_ct env) tx v (length xs) b e = Inr tx' \<and> sent k xs t e tx'"
proof -
  let ?n = "length xs"
  have v: "cg_validate_count env ?n False = Inr ()"
    using assms(1) by (simp add: travels_def)
  have len: "length tx = k"
    using assms(4) by (simp add: sent_def)
  define tx' where "tx' = map (\<lambda>i. tx ! i @ ct_wire (vslice (lane_lo ?n k b i) (lane_hi ?n k e i) xs)) [0..<k]"
  have "send_ct_lanes_range env ct.put tx xs ?n b e = Inr tx'"
    using ct.send_ct_lanes_range_put[OF v, of tx xs b e] assms(2,3,6,7) len by (simp add: tx'_def)
  then have "send_ct_lanes_range env (send_ct env) tx xs ?n b e = Inr tx'"
    by (rule send_ct_lanes_range_mono) (use assms(1) in \<open>auto simp: travels_def\<close>)
  moreover have "send_ct_lanes_range env (send_ct env) tx v ?n b e = send_ct_lanes_range env (send_ct env) tx xs ?n b e"
    using assms(5,7) by (intro send_ct_lanes_range_cong) (auto simp: agrees_def)
  moreover have "ct_wire (vslice (lane_bound ?n k i) (min (lane_bound ?n k (Suc i)) b) xs)
        @ ct_wire (vslice (lane_lo ?n k b i) (lane_hi ?n k e i) xs)
      = ct_wire (vslice (lane_bound ?n k i) (min (lane_bound ?n k (Suc i)) e) xs)" for i
    unfolding lane_lo_def lane_hi_def
    by (simp only: map_append[symmetric] concat_append[symmetric] vslice_cut less_imp_le[OF assms(6)])
  then have "sent k xs t e tx'"
    using assms(4) by (simp add: tx'_def sent_def)
  ultimately show ?thesis by simp
qed

lemma recv_step:
  assumes "travels env env' xs" "0 < k" "k \<le> 64" "unread k xs t b rx" "agrees b v xs" "b < e" "e \<le> length xs"
  shows "\<exists>v' rx'. recv_ct_lanes_range env' (recv_ct env') rx v (length xs) b e = Inr (v', rx')
    \<and> agrees e v' xs \<and> unread k xs t e rx'"
proof -
  let ?n = "length xs"
  let ?rest = "\<lambda>i. ct_wire (vslice (max (lane_bound ?n k i) e) (lane_bound ?n k (Suc i)) xs) @ t i"
  have v: "cg_validate_count env' ?n False = Inr ()" "list_all (ct_ok env') xs"
    using assms(1) by (simp_all add: travels_def list_all_iff)
  have "ct_wire (vslice (max (lane_bound ?n k i) b) (lane_bound ?n k (Suc i)) xs)
      = ct_wire (vslice (lane_lo ?n k b i) (lane_hi ?n k e i) xs)
        @ ct_wire (vslice (max (lane_bound ?n k i) e) (lane_bound ?n k (Suc i)) xs)" for i
    unfolding lane_lo_def lane_hi_def
    by (simp only: map_append[symmetric] concat_append[symmetric] vslice_cut2 less_imp_le[OF assms(6)])
  then have "\<forall>i < k. rx ! i = ct_wire (vslice (lane_lo ?n k b i) (lane_hi ?n k e i) xs) @ ?rest i"
    using assms(4) by (simp add: unread_def)
  then obtain v' where v': "recv_ct_lanes_range env' (recv_ct env') rx v ?n b e = Inr (v', map ?rest [0..<k])"
      "length v' = length v" "\<forall>j < length v. v' ! j = (if b \<le> j \<and> j < e then xs ! j else v ! j)"
    using ct.recv_ct_lanes_range_wire[OF v(1) assms(2,3), of b e xs env' v rx ?rest] v(2) assms(4-7)
    by (auto simp: agrees_def unread_def)
  have "agrees e v' xs"
    using v'(2,3) assms(5,7) by (auto simp: agrees_def)
  then show ?thesis
    using v'(1) by (auto simp: unread_def)
qed

lemma for_chunks_invariant:
  assumes "rf_chunk_size env = Inr c" "P 0 s"
    and "\<And>b e s. P b s \<Longrightarrow> b < e \<Longrightarrow> e \<le> n \<Longrightarrow> \<exists>s'. body b e s = Inr s' \<and> P e s'"
  shows "\<exists>s'. for_chunks env n body s = Inr s' \<and> P n s'"
proof -
  have "\<exists>s'. fold_r (\<lambda>(b, e). body b e) (chunk_ranges n c 0) s = Inr s' \<and> P n s'"
    using assms(2,3) rf_chunk_size_pos[OF assms(1)] by (intro fold_chunks[where P = P]) auto
  then show ?thesis
    by (simp add: for_chunks_def assms(1))
qed

lemma sent_0: "sent k xs t 0 (map t [0..<k])"
  by (simp add: sent_def)

lemma sent_all:
  assumes "length xs \<le> 2 ^ 24" "0 < k" "k \<le> 64"
  shows "sent k xs t (length xs) tx \<longleftrightarrow> tx = map (\<lambda>i. t i @ lane_wire xs k i) [0..<k]"
proof -
  have "min (lane_bound (length xs) k (Suc i)) (length xs) = lane_bound (length xs) k (Suc i)" if "i < k" for i
    using lane_bound_le[OF assms(2,3,1), of "Suc i"] that by (simp add: min_absorb1)
  then have "map (\<lambda>i. t i @ ct_wire (vslice (lane_bound (length xs) k i) (min (lane_bound (length xs) k (Suc i)) (length xs)) xs)) [0..<k]
      = map (\<lambda>i. t i @ lane_wire xs k i) [0..<k]"
    by (intro map_cong) (auto simp: lane_wire_def)
  then show ?thesis
    by (simp only: sent_def)
qed

lemma unread_0: "unread k xs t 0 (map (\<lambda>i. lane_wire xs k i @ t i) [0..<k])"
  by (simp add: unread_def lane_wire_def)

lemma unread_all:
  assumes "length xs \<le> 2 ^ 24" "0 < k" "k \<le> 64"
  shows "unread k xs t (length xs) rx \<longleftrightarrow> rx = map t [0..<k]"
proof -
  have "vslice (max (lane_bound (length xs) k i) (length xs)) (lane_bound (length xs) k (Suc i)) xs = []" if "i < k" for i
    using lane_bound_le[OF assms(2,3,1), of "Suc i"] that by (intro vslice_empty) simp
  then have "map (\<lambda>i. ct_wire (vslice (max (lane_bound (length xs) k i) (length xs)) (lane_bound (length xs) k (Suc i)) xs) @ t i) [0..<k]
      = map t [0..<k]"
    by (intro map_cong) auto
  then show ?thesis
    by (simp only: unread_def)
qed

lemma travels_bound: "travels env env' xs \<Longrightarrow> length xs \<le> 2 ^ 24"
  unfolding travels_def using validate_count_bound by blast

end
