(* ===== verification/CG_OLE.thy ===== *)
theory CG_OLE
  imports CG_Stream
begin

text \<open>
  Batched OLE: the endpoints of \<^verbatim>\<open>cg_rf_ole_batch.hpp\<close>, the two firewall programs between them,
  and the direct exchange of \<^verbatim>\<open>cg_ope_common.hpp\<close>. A party is a function of the bytes that reach
  it and of its random scalars (\<open>rnd i\<close> is the scalar drawn for index \<open>i\<close>); it returns the bytes
  it writes. Logging and timing have no effect on either and are left out; the profiled variants
  of the firewalls' arithmetic are selected by the flag \<open>prof\<close>, their clock is an argument.
\<close>

subsection \<open>One value\<close>

definition encrypt_value :: "'g cl_ops \<Rightarrow> 'g \<Rightarrow> int \<Rightarrow> int \<Rightarrow> 'g cipher result" where
  "encrypt_value cs pk v r = bind_r (make_cleartext cs v) (\<lambda>m. Inr (encrypt cs pk m r))"

definition ole_reply :: "'g cl_ops \<Rightarrow> 'g cipher \<Rightarrow> int \<Rightarrow> 'g cipher \<Rightarrow> 'g cipher" where
  "ole_reply cs ct_x a enc_b = ct_add cs (cmult cs ct_x a) enc_b"

definition maul_fwd_step ::
  "'g cl_ops \<Rightarrow> bool \<Rightarrow> (nat \<Rightarrow> int) \<Rightarrow> int \<Rightarrow> 'g cipher \<Rightarrow> 'g enc_zero \<Rightarrow> 'g cipher" where
  "maul_fwd_step cs prof clk r ct pre =
     (if prof then fst (maul_fwd_rerand_profiled cs clk ct r pre) else maul_fwd_rerand cs ct r pre)"

definition maul_inv_step ::
  "'g cl_ops \<Rightarrow> bool \<Rightarrow> (nat \<Rightarrow> int) \<Rightarrow> int \<Rightarrow> 'g cipher \<Rightarrow> 'g enc_zero \<Rightarrow> 'g cipher" where
  "maul_inv_step cs prof clk r ct pre =
     (if prof then fst (maul_inv_rerand_profiled cs clk ct r pre) else maul_inv_rerand cs ct r pre)"

subsection \<open>The receiver\<close>

text \<open>Round 1: the key on lane 0, then chunk by chunk the encrypted inputs.\<close>

definition receive_round1 :: "env \<Rightarrow> qfi cl_ops \<Rightarrow> qfi \<Rightarrow> (nat \<Rightarrow> int) \<Rightarrow> int list \<Rightarrow> lanes \<Rightarrow> lanes result" where
  "receive_round1 env cs pk rnd x_vals fds =
     (let N = length x_vals in
      bind_r (send_pk_lane0 env pk fds) (\<lambda>fds.
      bind_r (for_chunks env N (\<lambda>b e (pre_enc_x, fds).
          bind_r (par_fill (\<lambda>i. encrypt_value cs pk (x_vals ! i) (rnd i)) b e pre_enc_x) (\<lambda>pre_enc_x.
          bind_r (send_ct_lanes_range env (send_ct env) fds pre_enc_x N b e) (\<lambda>fds.
          Inr (pre_enc_x, fds))))
        (replicate N null_ct, fds)) (\<lambda>(_, fds).
      Inr fds)))"

text \<open>Round 2: chunk by chunk, receive and decrypt.\<close>

definition receive_round2 :: "env \<Rightarrow> qfi cl_ops \<Rightarrow> int \<Rightarrow> nat \<Rightarrow> lanes \<Rightarrow> (int list \<times> lanes) result" where
  "receive_round2 env cs sk N fds =
     bind_r (for_chunks env N (\<lambda>b e (y_cts, y_vals, fds).
         bind_r (recv_ct_lanes_range env (recv_ct env) fds y_cts N b e) (\<lambda>(y_cts, fds).
         bind_r (par_fill (\<lambda>i. Inr (decrypt cs sk (y_cts ! i))) b e y_vals) (\<lambda>y_vals.
         Inr (y_cts, y_vals, fds))))
       (replicate N null_ct, replicate N 0, fds)) (\<lambda>(_, y_vals, fds).
     Inr (y_vals, fds))"

text \<open>
  The whole call: \<open>conns\<close> are the connections in the order they arrive, each with every byte that
  will arrive on it. \<open>None\<close>: still waiting for a lane.
\<close>

definition rf_ole_batch_receive ::
  "env \<Rightarrow> byte list \<Rightarrow> qfi cl_ops \<Rightarrow> int \<Rightarrow> (nat \<Rightarrow> int) \<Rightarrow> int list \<Rightarrow> byte list list
   \<Rightarrow> (int list \<times> lanes) result option" where
  "rf_ole_batch_receive env digest cs sk rnd x_vals conns =
     (case bind_r (rf_transport_lanes env) (\<lambda>k. bind_r (rf_chunk_size env) (\<lambda>_. Inr k)) of
        Inl err \<Rightarrow> Some (Inl err)
      | Inr k \<Rightarrow> (case accept_rf_lanes env digest conns k (length x_vals) of
          None \<Rightarrow> None
        | Some (Inl err) \<Rightarrow> Some (Inl err)
        | Some (Inr fds) \<Rightarrow> Some (
            bind_r (accepted_tx env digest k (length x_vals)) (\<lambda>tx.
            bind_r (receive_round1 env cs (keygen_pk cs sk) rnd x_vals tx) (\<lambda>tx.
            bind_r (receive_round2 env cs sk (length x_vals) (map the fds)) (\<lambda>(y_vals, _).
            Inr (y_vals, tx)))))))"

subsection \<open>The sender\<close>

text \<open>All of round 1 is read before the first response leaves.\<close>

definition send_collect :: "env \<Rightarrow> nat \<Rightarrow> lanes \<Rightarrow> (ct list \<times> lanes) result" where
  "send_collect env N fds =
     for_chunks env N (\<lambda>b e (ct_x, fds). recv_ct_lanes_range env (recv_ct env) fds ct_x N b e)
       (replicate N null_ct, fds)"

definition send_replies :: "env \<Rightarrow> ct list \<Rightarrow> lanes \<Rightarrow> lanes result" where
  "send_replies env y_vals fds =
     for_chunks env (length y_vals)
       (\<lambda>b e fds. send_ct_lanes_range env (send_ct env) fds y_vals (length y_vals) b e) fds"

text \<open>
  The encryptions of \<open>b\<close> run in a thread of their own while round 1 is read; the thread object is a local
  variable. An exception that leaves its scope destroys it, and the destructor of a thread object that
  is still joinable calls \<^verbatim>\<open>std::terminate\<close>. The receiving loop comes before the join, the rethrown exception
  of the encryptions after it. That every interleaving of the two threads has this outcome is proved in
  CG_SendThread.
\<close>

definition leave_scope :: "bool \<Rightarrow> cg_error \<Rightarrow> cg_error" where
  "leave_scope joinable err = (if joinable then Terminated else err)"

definition send_overlap ::
  "env \<Rightarrow> qfi cl_ops \<Rightarrow> qfi \<Rightarrow> (nat \<Rightarrow> int) \<Rightarrow> int list \<Rightarrow> nat \<Rightarrow> lanes \<Rightarrow> (ct list \<times> ct list \<times> lanes) result" where
  "send_overlap env cs fpk rnd b_vals N rx =
     (case send_collect env N rx of
        Inl err \<Rightarrow> Inl (leave_scope True err)
      | Inr (ct_x, rx) \<Rightarrow>
          (case par_fill (\<lambda>i. encrypt_value cs fpk (b_vals ! i) (rnd i)) 0 N (replicate N null_ct) of
             Inl err \<Rightarrow> Inl (leave_scope False err)
           | Inr pre_enc_b \<Rightarrow> Inr (ct_x, pre_enc_b, rx)))"

definition send_compute ::
  "env \<Rightarrow> qfi cl_ops \<Rightarrow> qfi \<Rightarrow> (nat \<Rightarrow> int) \<Rightarrow> int list \<Rightarrow> int list \<Rightarrow> lanes \<Rightarrow> (ct list \<times> lanes) result" where
  "send_compute env cs fpk rnd a_vals b_vals rx =
     (let N = length a_vals in
      bind_r (send_overlap env cs fpk rnd b_vals N rx) (\<lambda>(ct_x, pre_enc_b, rx).
      bind_r (par_fill (\<lambda>i. Inr (ole_reply cs (ct_x ! i) (a_vals ! i) (pre_enc_b ! i))) 0 N (replicate N null_ct)) (\<lambda>y_vals.
      Inr (y_vals, rx))))"

definition rf_ole_batch_send ::
  "env \<Rightarrow> byte list \<Rightarrow> int \<Rightarrow> qfi cl_ops \<Rightarrow> (nat \<Rightarrow> int) \<Rightarrow> int list \<Rightarrow> int list \<Rightarrow> lanes \<Rightarrow> lanes result" where
  "rf_ole_batch_send env digest disc cs rnd a_vals b_vals rx =
     bind_r (throw_if (length a_vals \<noteq> length b_vals) (Runtime_error ''RF-OLE sender vector size mismatch'')) (\<lambda>_.
     bind_r (rf_transport_lanes env) (\<lambda>k. bind_r (rf_chunk_size env) (\<lambda>_.
     bind_r (connect_rf_lanes env digest k (length a_vals)) (\<lambda>fds.
     bind_r (check_replies env digest k (length a_vals) rx) (\<lambda>rx.
     bind_r (recv_pk_lane0 env disc rx) (\<lambda>(fpk, rx).
     bind_r (send_compute env cs fpk rnd a_vals b_vals rx) (\<lambda>(y_vals, _).
     send_replies env y_vals fds)))))))"

subsection \<open>The firewalls\<close>

definition null_zero :: "qfi enc_zero" where
  "null_zero = \<lparr> ez_R = null_form, ez_E = null_form \<rparr>"

text \<open>
  A forwarding round: prepare the noise of a chunk, receive the chunk, maul it, send it on. The
  buffers live across the two rounds.
\<close>

type_synonym relay_state = "qfi enc_zero list \<times> ct list \<times> ct list \<times> lanes \<times> lanes"

definition maul_stream ::
  "env \<Rightarrow> nat \<Rightarrow> (nat \<Rightarrow> qfi enc_zero) \<Rightarrow> (ct \<Rightarrow> qfi enc_zero \<Rightarrow> ct) \<Rightarrow> relay_state \<Rightarrow> relay_state result" where
  "maul_stream env n noise maul =
     for_chunks env n (\<lambda>b e (pre, in_buf, out_buf, rx, tx).
       bind_r (par_fill (\<lambda>i. Inr (noise i)) b e pre) (\<lambda>pre.
       bind_r (recv_ct_lanes_range env (recv_ct env) rx in_buf n b e) (\<lambda>(in_buf, rx).
       bind_r (par_fill (\<lambda>i. Inr (maul (in_buf ! i) (pre ! i))) b e out_buf) (\<lambda>out_buf.
       bind_r (send_ct_lanes_range env (send_ct env) tx out_buf n b e) (\<lambda>tx.
       Inr (pre, in_buf, out_buf, rx, tx))))))"

definition firewall_key :: "env \<Rightarrow> int \<Rightarrow> qfi cl_ops \<Rightarrow> int \<Rightarrow> lanes \<Rightarrow> lanes \<Rightarrow> (qfi \<times> qfi \<times> lanes \<times> lanes) result" where
  "firewall_key env disc cs r rx tx =
     bind_r (recv_pk_lane0 env disc rx) (\<lambda>(pk, rx).
     bind_r (maul_pk cs pk r) (\<lambda>pk_prime.
     bind_r (send_pk_lane0 env pk_prime tx) (\<lambda>tx.
     Inr (pk, pk_prime, rx, tx))))"

definition firewall_round1 ::
  "env \<Rightarrow> bool \<Rightarrow> (nat \<Rightarrow> int) \<Rightarrow> qfi cl_ops \<Rightarrow> qfi \<Rightarrow> int \<Rightarrow> (nat \<Rightarrow> int) \<Rightarrow> nat \<Rightarrow> lanes \<Rightarrow> lanes
   \<Rightarrow> (ct list \<times> ct list \<times> lanes \<times> lanes) result" where
  "firewall_round1 env prof clk cs pk_prime r rnd n rx tx =
     bind_r (maul_stream env n (\<lambda>i. make_enc_zero cs pk_prime (rnd i)) (maul_fwd_step cs prof clk r)
       (replicate n null_zero, replicate n null_ct, replicate n null_ct, rx, tx))
       (\<lambda>(_, in_buf, out_buf, rx, tx). Inr (in_buf, out_buf, rx, tx))"

definition firewall_round2 ::
  "env \<Rightarrow> bool \<Rightarrow> (nat \<Rightarrow> int) \<Rightarrow> qfi cl_ops \<Rightarrow> qfi \<Rightarrow> int \<Rightarrow> (nat \<Rightarrow> int) \<Rightarrow> nat \<Rightarrow> ct list \<Rightarrow> ct list \<Rightarrow> lanes \<Rightarrow> lanes
   \<Rightarrow> (lanes \<times> lanes) result" where
  "firewall_round2 env prof clk cs pk r rnd n in_buf out_buf rx tx =
     bind_r (maul_stream env n (\<lambda>i. make_enc_zero cs pk (rnd i)) (maul_inv_step cs prof clk r)
       (replicate n null_zero, in_buf, out_buf, rx, tx))
       (\<lambda>(_, _, _, rx, tx). Inr (rx, tx))"

text \<open>
  The two programs. The receiver's firewall connects to the receiver and listens for the sender's
  firewall; the sender's firewall connects to the receiver's and listens for the sender.
\<close>

definition required_env_size :: "env \<Rightarrow> string \<Rightarrow> nat result" where
  "required_env_size env name = cg_parse_size env (env name) name False 0"

definition rf_receiver_firewall_opa ::
  "env \<Rightarrow> byte list \<Rightarrow> int \<Rightarrow> bool \<Rightarrow> (nat \<Rightarrow> int) \<Rightarrow> qfi cl_ops \<Rightarrow> int \<Rightarrow> (nat \<Rightarrow> int) \<Rightarrow> (nat \<Rightarrow> int)
   \<Rightarrow> lanes \<Rightarrow> byte list list \<Rightarrow> (lanes \<times> lanes) result option" where
  "rf_receiver_firewall_opa env digest disc prof clk cs r_maul rnd1 rnd2 rec_rx rfs_conns =
     (case bind_r (required_env_size env ''CG_RF_EXPECTED_N'') (\<lambda>n_pts.
           bind_r (rf_transport_lanes env) (\<lambda>k. bind_r (rf_chunk_size env) (\<lambda>_.
           bind_r (connect_rf_lanes env digest k n_pts) (\<lambda>rec_tx.
           bind_r (check_replies env digest k n_pts rec_rx) (\<lambda>rec_rx. Inr (n_pts, k, rec_tx, rec_rx)))))) of
        Inl err \<Rightarrow> Some (Inl err)
      | Inr (n_pts, k, rec_tx, rec_rx) \<Rightarrow> (case accept_rf_lanes env digest rfs_conns k n_pts of
          None \<Rightarrow> None
        | Some (Inl err) \<Rightarrow> Some (Inl err)
        | Some (Inr rfs_fds) \<Rightarrow> Some (
            bind_r (accepted_tx env digest k n_pts) (\<lambda>rfs_tx.
            bind_r (firewall_key env disc cs r_maul rec_rx rfs_tx) (\<lambda>(pk, pk_prime, rec_rx, rfs_tx).
            bind_r (firewall_round1 env prof clk cs pk_prime r_maul rnd1 n_pts rec_rx rfs_tx)
              (\<lambda>(in_buf, out_buf, _, rfs_tx).
            bind_r (firewall_round2 env prof clk cs pk r_maul rnd2 n_pts in_buf out_buf (map the rfs_fds) rec_tx)
              (\<lambda>(_, rec_tx). Inr (rec_tx, rfs_tx))))))))"

definition rf_sender_firewall_opa ::
  "env \<Rightarrow> byte list \<Rightarrow> int \<Rightarrow> bool \<Rightarrow> (nat \<Rightarrow> int) \<Rightarrow> qfi cl_ops \<Rightarrow> int \<Rightarrow> (nat \<Rightarrow> int) \<Rightarrow> (nat \<Rightarrow> int)
   \<Rightarrow> lanes \<Rightarrow> byte list list \<Rightarrow> (lanes \<times> lanes) result option" where
  "rf_sender_firewall_opa env digest disc prof clk cs rho rnd1 rnd2 rfr_rx sen_conns =
     (case bind_r (required_env_size env ''CG_RF_EXPECTED_N'') (\<lambda>n_pts.
           bind_r (rf_transport_lanes env) (\<lambda>k. bind_r (rf_chunk_size env) (\<lambda>_.
           bind_r (connect_rf_lanes env digest k n_pts) (\<lambda>rfr_tx.
           bind_r (check_replies env digest k n_pts rfr_rx) (\<lambda>rfr_rx. Inr (n_pts, k, rfr_tx, rfr_rx)))))) of
        Inl err \<Rightarrow> Some (Inl err)
      | Inr (n_pts, k, rfr_tx, rfr_rx) \<Rightarrow> (case accept_rf_lanes env digest sen_conns k n_pts of
          None \<Rightarrow> None
        | Some (Inl err) \<Rightarrow> Some (Inl err)
        | Some (Inr sen_fds) \<Rightarrow> Some (
            bind_r (accepted_tx env digest k n_pts) (\<lambda>sen_tx.
            bind_r (firewall_key env disc cs rho rfr_rx sen_tx) (\<lambda>(pk_prime, fpk, rfr_rx, sen_tx).
            bind_r (firewall_round1 env prof clk cs fpk rho rnd1 n_pts rfr_rx sen_tx)
              (\<lambda>(in_buf, out_buf, _, sen_tx).
            bind_r (firewall_round2 env prof clk cs pk_prime rho rnd2 n_pts in_buf out_buf (map the sen_fds) rfr_tx)
              (\<lambda>(_, rfr_tx). Inr (rfr_tx, sen_tx))))))))"

subsection \<open>What a phase does to the lanes\<close>

lemma maul_fwd_step_eq [simp]: "maul_fwd_step cs prof clk r ct pre = maul_fwd_rerand cs ct r pre"
  by (simp add: maul_fwd_step_def maul_fwd_rerand_profiled_def maul_fwd_rerand_def Let_def)

lemma maul_inv_step_eq [simp]: "maul_inv_step cs prof clk r ct pre = maul_inv_rerand cs ct r pre"
  by (simp add: maul_inv_step_def maul_inv_rerand_profiled_def maul_inv_rerand_def Let_def)

text \<open>
  A party that runs with a valid configuration for \<open>n\<close> items and whose wire format carries the
  forms of \<open>S\<close>.
\<close>

definition endpoint :: "env \<Rightarrow> qfi set \<Rightarrow> nat \<Rightarrow> bool" where
  "endpoint env S n \<longleftrightarrow>
     cg_validate_count env n False = Inr () \<and> (\<exists>c. rf_chunk_size env = Inr c) \<and>
     (\<forall>f \<in> S. send_qfi env f = Inr (qfi_bytes f) \<and> qfi_ok env f)"

definition over :: "qfi set \<Rightarrow> ct list \<Rightarrow> bool" where
  "over S xs \<longleftrightarrow> (\<forall>x \<in> set xs. fst x \<in> S \<and> snd x \<in> S)"

definition with_key :: "qfi \<Rightarrow> (nat \<Rightarrow> byte list) \<Rightarrow> nat \<Rightarrow> byte list" where
  "with_key pk t i = (if i = 0 then t i @ qfi_bytes pk else t i)"

abbreviation on_lanes :: "nat \<Rightarrow> (nat \<Rightarrow> byte list) \<Rightarrow> lanes" where
  "on_lanes k t \<equiv> map t [0..<k]"

abbreviation then_cts :: "nat \<Rightarrow> (nat \<Rightarrow> byte list) \<Rightarrow> ct list \<Rightarrow> nat \<Rightarrow> byte list" where
  "then_cts k t xs i \<equiv> t i @ lane_wire xs k i"

lemma with_key_split: "with_key pk t i = t i @ with_key pk (\<lambda>_. []) i"
  by (simp add: with_key_def)

lemma endpoint_travels:
  assumes "endpoint env S (length xs)" "endpoint env' S (length xs)" "over S xs"
  shows "travels env env' xs"
  using assms by (auto simp: endpoint_def travels_def over_def send_ct_def ct_bytes_def ct_ok_def)

lemma endpoint_chunk:
  assumes "endpoint env S n"
  obtains c where "rf_chunk_size env = Inr c"
  using assms by (auto simp: endpoint_def)

lemma endpoint_bound: "endpoint env S n \<Longrightarrow> 0 < n \<and> n \<le> 2 ^ 24"
  unfolding endpoint_def using validate_count_bound by blast

lemma send_key:
  assumes "endpoint env S n" "pk \<in> S" "0 < k"
  shows "send_pk_lane0 env pk (on_lanes k t) = Inr (on_lanes k (with_key pk t))"
proof -
  have "(on_lanes k t)[0 := t 0 @ qfi_bytes pk] = on_lanes k (with_key pk t)"
    by (rule nth_equalityI) (auto simp: with_key_def nth_list_update)
  then show ?thesis
    using assms by (simp add: send_pk_lane0_def endpoint_def send_pk_def)
qed

lemma recv_key:
  assumes "endpoint env S n" "pk \<in> S" "discriminant pk = disc" "0 < k"
  shows "recv_pk_lane0 env disc (on_lanes k (\<lambda>i. with_key pk (\<lambda>_. []) i @ p i)) = Inr (pk, on_lanes k p)"
proof -
  have "pk_ok env disc pk"
    using assms(1-3) by (simp add: endpoint_def pk_ok_def)
  then have "recv_pk env disc (qfi_bytes pk @ p 0) = Inr (pk, p 0)"
    by (simp add: pk.dec_iff)
  moreover have "(on_lanes k (\<lambda>i. with_key pk (\<lambda>_. []) i @ p i))[0 := p 0] = on_lanes k p"
    by (rule nth_equalityI) (auto simp: with_key_def nth_list_update)
  ultimately show ?thesis
    using assms(4) by (simp add: recv_pk_lane0_def with_key_def)
qed

lemma par_fill_all:
  assumes "length v = length xs" "\<And>i. i < length xs \<Longrightarrow> f i = Inr (xs ! i)" "n = length xs"
  shows "par_fill f 0 n v = Inr xs"
  using par_fill_step[of 0 v xs n f] assms by (auto simp: agrees_0 agrees_all)

text \<open>A chunked stream of computed ciphertexts.\<close>

lemma compute_send_stream:
  assumes "endpoint env S (length xs)" "over S xs" "0 < k" "k \<le> 64" "n = length xs"
    and "\<And>i. i < length xs \<Longrightarrow> f i = Inr (xs ! i)" "length v = length xs"
  shows "for_chunks env n (\<lambda>b e (pre, fds).
      bind_r (par_fill f b e pre) (\<lambda>pre. bind_r (send_ct_lanes_range env (send_ct env) fds pre n b e) (\<lambda>fds. Inr (pre, fds))))
      (v, on_lanes k t) = Inr (xs, on_lanes k (then_cts k t xs))"
proof -
  let ?P = "\<lambda>b (v, tx). agrees b v xs \<and> sent k xs t b tx"
  let ?body = "\<lambda>b e (pre, fds).
      bind_r (par_fill f b e pre) (\<lambda>pre. bind_r (send_ct_lanes_range env (send_ct env) fds pre n b e) (\<lambda>fds. Inr (pre, fds)))"
  note tr = endpoint_travels[OF assms(1,1,2)]
  obtain c where c: "rf_chunk_size env = Inr c"
    using endpoint_chunk[OF assms(1)] .
  have "\<exists>s'. ?body b e s = Inr s' \<and> ?P e s'" if p: "?P b s" "b < e" "e \<le> n" for b e s
  proof -
    obtain v tx where s: "s = (v, tx)" "agrees b v xs" "sent k xs t b tx"
      using p(1) by auto
    obtain v' where v': "par_fill f b e v = Inr v'" "agrees e v' xs"
      using par_fill_step[OF s(2), of e f] p assms(5,6) by auto
    then show ?thesis
      using send_step[OF tr assms(3,4) s(3) v'(2) p(2)] p(3) assms(5) s(1) by auto
  qed
  moreover have "?P 0 (v, on_lanes k t)"
    by (simp add: agrees_0 assms(7) sent_0)
  ultimately have "\<exists>s'. for_chunks env n ?body (v, on_lanes k t) = Inr s' \<and> ?P n s'"
    by (intro for_chunks_invariant[OF c]) auto
  then show ?thesis
    using sent_all[OF travels_bound[OF tr] assms(3,4)] by (auto simp: agrees_all assms(5))
qed

text \<open>A chunked stream of received ciphertexts, each chunk processed by \<open>f\<close>.\<close>

lemma recv_compute_stream:
  assumes "travels env' env xs" "0 < k" "k \<le> 64" "n = length xs" "rf_chunk_size env = Inr c"
    and "length v = n" "length w = n" "length ys = n" "\<And>i. i < n \<Longrightarrow> f (xs ! i) = ys ! i"
  shows "for_chunks env n (\<lambda>b e (cts, vals, fds).
      bind_r (recv_ct_lanes_range env (recv_ct env) fds cts n b e) (\<lambda>(cts, fds).
      bind_r (par_fill (\<lambda>i. Inr (f (cts ! i))) b e vals) (\<lambda>vals. Inr (cts, vals, fds))))
      (v, w, on_lanes k (\<lambda>i. lane_wire xs k i @ t i)) = Inr (xs, ys, on_lanes k t)"
proof -
  let ?P = "\<lambda>b (v, w, rx). agrees b v xs \<and> agrees b w ys \<and> unread k xs t b rx"
  let ?body = "\<lambda>b e (cts, vals, fds).
      bind_r (recv_ct_lanes_range env (recv_ct env) fds cts n b e) (\<lambda>(cts, fds).
      bind_r (par_fill (\<lambda>i. Inr (f (cts ! i))) b e vals) (\<lambda>vals. Inr (cts, vals, fds)))"
  have "\<exists>s'. ?body b e s = Inr s' \<and> ?P e s'" if p: "?P b s" "b < e" "e \<le> n" for b e s
  proof -
    obtain v w rx where s: "s = (v, w, rx)" "agrees b v xs" "agrees b w ys" "unread k xs t b rx"
      using p(1) by auto
    obtain v' rx' where v': "recv_ct_lanes_range env (recv_ct env) rx v n b e = Inr (v', rx')"
        "agrees e v' xs" "unread k xs t e rx'"
      using recv_step[OF assms(1-3) s(4,2) p(2)] p(3) assms(4) by auto
    have "\<exists>w'. par_fill (\<lambda>i. Inr (f (v' ! i))) b e w = Inr w' \<and> agrees e w' ys"
      using s(3) p(2,3) assms(8,9) agreesD[OF v'(2)] by (intro par_fill_step) auto
    then show ?thesis
      using v' s(1) by auto
  qed
  moreover have "?P 0 (v, w, on_lanes k (\<lambda>i. lane_wire xs k i @ t i))"
    using assms(4,6,7,8) by (simp add: agrees_0 unread_0)
  ultimately have "\<exists>s'. for_chunks env n ?body (v, w, on_lanes k (\<lambda>i. lane_wire xs k i @ t i)) = Inr s' \<and> ?P n s'"
    by (intro for_chunks_invariant[OF assms(5)]) auto
  then obtain v' w' rx' where r: "for_chunks env n ?body (v, w, on_lanes k (\<lambda>i. lane_wire xs k i @ t i)) = Inr (v', w', rx')"
      "agrees n v' xs" "agrees n w' ys" "unread k xs t n rx'"
    by auto
  have "v' = xs" "w' = ys" "rx' = on_lanes k t"
    using r(2-4) unread_all[OF travels_bound[OF assms(1)] assms(2,3)] agrees_all[of xs v'] agrees_all[of ys w'] assms(4,8)
    by auto
  then show ?thesis
    using r(1) by simp
qed

text \<open>The firewalls' forwarding stream.\<close>

lemma maul_stream_ok:
  assumes "travels env' env xs" "endpoint env S n" "over S ys" "0 < k" "k \<le> 64" "length xs = n" "length ys = n"
    and "\<And>i. i < n \<Longrightarrow> maul (xs ! i) (noise i) = ys ! i" "length pre = n" "length v = n" "length w = n"
  shows "maul_stream env n noise maul (pre, v, w, on_lanes k (\<lambda>i. lane_wire xs k i @ u i), on_lanes k t)
    = Inr (map noise [0..<n], xs, ys, on_lanes k u, on_lanes k (then_cts k t ys))"
proof -
  let ?zs = "map noise [0..<n]"
  let ?P = "\<lambda>b (p, v, w, rx, tx). agrees b p ?zs \<and> agrees b v xs \<and> agrees b w ys \<and> unread k xs u b rx \<and> sent k ys t b tx"
  let ?body = "\<lambda>b e (pre, in_buf, out_buf, rx, tx).
       bind_r (par_fill (\<lambda>i. Inr (noise i)) b e pre) (\<lambda>pre.
       bind_r (recv_ct_lanes_range env (recv_ct env) rx in_buf n b e) (\<lambda>(in_buf, rx).
       bind_r (par_fill (\<lambda>i. Inr (maul (in_buf ! i) (pre ! i))) b e out_buf) (\<lambda>out_buf.
       bind_r (send_ct_lanes_range env (send_ct env) tx out_buf n b e) (\<lambda>tx.
       Inr (pre, in_buf, out_buf, rx, tx)))))"
  let ?init = "(pre, v, w, on_lanes k (\<lambda>i. lane_wire xs k i @ u i), on_lanes k t)"
  have tr: "travels env env ys"
    using endpoint_travels[of env S ys env] assms(2,3,7) by simp
  obtain c where c: "rf_chunk_size env = Inr c"
    using endpoint_chunk[OF assms(2)] .
  have step: "\<exists>s'. ?body b e s = Inr s' \<and> ?P e s'" if p: "?P b s" "b < e" "e \<le> n" for b e s
  proof -
    obtain p v w rx tx where s: "s = (p, v, w, rx, tx)" "agrees b p ?zs" "agrees b v xs" "agrees b w ys"
        "unread k xs u b rx" "sent k ys t b tx"
      using p(1) by (cases s) auto
    obtain p' where p': "par_fill (\<lambda>i. Inr (noise i)) b e p = Inr p'" "agrees e p' ?zs"
      using par_fill_step[OF s(2), of e "\<lambda>i. Inr (noise i)"] p(2,3) by auto
    obtain v' rx' where v': "recv_ct_lanes_range env (recv_ct env) rx v n b e = Inr (v', rx')"
        "agrees e v' xs" "unread k xs u e rx'"
      using recv_step[OF assms(1,4,5) s(5,3) p(2)] p(3) assms(6) by auto
    have "\<exists>w'. par_fill (\<lambda>i. Inr (maul (v' ! i) (p' ! i))) b e w = Inr w' \<and> agrees e w' ys"
      using s(4) p(2,3) assms(7,8) agreesD[OF v'(2)] agreesD[OF p'(2)] by (intro par_fill_step) auto
    then obtain w' where w': "par_fill (\<lambda>i. Inr (maul (v' ! i) (p' ! i))) b e w = Inr w'" "agrees e w' ys"
      by blast
    obtain tx' where "send_ct_lanes_range env (send_ct env) tx w' n b e = Inr tx'" "sent k ys t e tx'"
      using send_step[OF tr assms(4,5) s(6) w'(2) p(2)] p(3) assms(7) by auto
    then show ?thesis
      using p' v' w' s(1) by auto
  qed
  have "?P 0 ?init"
    using assms(6,7,9-11) by (simp add: agrees_0 unread_0 sent_0)
  with step have "\<exists>s'. for_chunks env n ?body ?init = Inr s' \<and> ?P n s'"
    by (intro for_chunks_invariant[OF c]) auto
  then obtain p' v' w' rx' tx' where r: "for_chunks env n ?body ?init = Inr (p', v', w', rx', tx')"
      "agrees n p' ?zs" "agrees n v' xs" "agrees n w' ys" "unread k xs u n rx'" "sent k ys t n tx'"
    by auto
  have "p' = ?zs" "v' = xs" "w' = ys" "rx' = on_lanes k u" "tx' = on_lanes k (then_cts k t ys)"
    using r(2-6) unread_all[OF travels_bound[OF assms(1)] assms(4,5)] sent_all[OF travels_bound[OF tr] assms(4,5)]
      agrees_all[of ?zs p'] agrees_all[of xs v'] agrees_all[of ys w'] assms(6,7) by auto
  then show ?thesis
    using r(1) by (simp add: maul_stream_def)
qed

lemma send_collect_ok:
  assumes "travels env' env xs" "0 < k" "k \<le> 64" "length xs = n" "rf_chunk_size env = Inr c"
  shows "send_collect env n (on_lanes k (\<lambda>i. lane_wire xs k i @ t i)) = Inr (xs, on_lanes k t)"
proof -
  let ?P = "\<lambda>b (v, rx). agrees b v xs \<and> unread k xs t b rx"
  let ?body = "\<lambda>b e (ct_x, fds). recv_ct_lanes_range env (recv_ct env) fds ct_x n b e"
  have step: "\<exists>s'. ?body b e s = Inr s' \<and> ?P e s'" if p: "?P b s" "b < e" "e \<le> n" for b e s
    using recv_step[OF assms(1-3), of t b "snd s" "fst s" e] p assms(4) by (cases s) auto
  have "?P 0 (replicate n null_ct, on_lanes k (\<lambda>i. lane_wire xs k i @ t i))"
    using assms(4) by (simp add: agrees_0 unread_0)
  with step have "\<exists>s'. for_chunks env n ?body (replicate n null_ct, on_lanes k (\<lambda>i. lane_wire xs k i @ t i)) = Inr s' \<and> ?P n s'"
    by (intro for_chunks_invariant[OF assms(5)]) auto
  then show ?thesis
    using unread_all[OF travels_bound[OF assms(1)] assms(2,3)] assms(4)
    by (auto simp: send_collect_def agrees_all)
qed

lemma send_replies_ok:
  assumes "endpoint env S (length xs)" "over S xs" "0 < k" "k \<le> 64"
  shows "send_replies env xs (on_lanes k t) = Inr (on_lanes k (then_cts k t xs))"
proof -
  note tr = endpoint_travels[OF assms(1,1,2)]
  obtain c where c: "rf_chunk_size env = Inr c"
    using endpoint_chunk[OF assms(1)] .
  have "\<exists>s'. send_ct_lanes_range env (send_ct env) s xs (length xs) b e = Inr s' \<and> sent k xs t e s'"
    if p: "sent k xs t b s" "b < e" "e \<le> length xs" for b e s
    using send_step[OF tr assms(3,4) p(1) _ p(2,3), of xs] by (simp add: agrees_def)
  then have "\<exists>s'. for_chunks env (length xs)
       (\<lambda>b e fds. send_ct_lanes_range env (send_ct env) fds xs (length xs) b e) (on_lanes k t) = Inr s'
       \<and> sent k xs t (length xs) s'"
    by (intro for_chunks_invariant[OF c]) (auto simp: sent_0)
  then show ?thesis
    using sent_all[OF travels_bound[OF tr] assms(3,4)] by (auto simp: send_replies_def)
qed

subsection \<open>What the rounds compute\<close>

text \<open>
  The parameters every party derives: class-group arithmetic as documented, the uncompressed
  variant, one discriminant for all keys. \<open>carries\<close>: a vector of ciphertexts of the messages.
\<close>

definition params_ok :: "qfi cl_ops \<Rightarrow> qfi set \<Rightarrow> qfi set \<Rightarrow> int \<Rightarrow> bool" where
  "params_ok cs G D disc \<longleftrightarrow> cl_laws cs G D \<and> \<not> cl_compact cs \<and> (\<forall>f \<in> G. discriminant f = disc)"

definition carries :: "qfi cl_ops \<Rightarrow> qfi set \<Rightarrow> int \<Rightarrow> int list \<Rightarrow> ct list \<Rightarrow> bool" where
  "carries cs G sk ms cts \<longleftrightarrow> length cts = length ms \<and> (\<forall>i < length ms. encrypts cs G sk (ms ! i) (cts ! i))"

lemma carries_over: "params_ok cs G D disc \<Longrightarrow> carries cs G sk ms cts \<Longrightarrow> over (G \<union> D) cts"
  using encrypts_closed[of cs G D] by (fastforce simp: params_ok_def carries_def over_def in_set_conv_nth)

lemma carries_length: "carries cs G sk ms cts \<Longrightarrow> length cts = length ms"
  by (simp add: carries_def)

lemma keygen_in_G: "params_ok cs G D disc \<Longrightarrow> keygen_pk cs sk \<in> G \<union> D \<and> discriminant (keygen_pk cs sk) = disc"
  using cl_powh_closed[of cs G D] by (simp add: params_ok_def keygen_pk_def)

lemma encrypt_value_ok:
  "0 \<le> v \<Longrightarrow> v < cleartext_bound cs \<Longrightarrow> encrypt_value cs pk v r = Inr (encrypt cs pk v r)"
  by (simp add: encrypt_value_def make_cleartext_def)

lemma carries_encryptions:
  assumes "params_ok cs G D disc"
  shows "carries cs G sk xs (map (\<lambda>i. encrypt cs (keygen_pk cs sk) (xs ! i) (rnd i)) [0..<length xs])"
  using assms cg.enc_holds[of cs G D sk] by (simp add: carries_def params_ok_def)

lemma receive_round1_ok:
  assumes "params_ok cs G D disc" "endpoint env (G \<union> D) (length xs)" "0 < k" "k \<le> 64"
    and "\<forall>x \<in> set xs. 0 \<le> x \<and> x < cleartext_bound cs"
  shows "\<exists>cts. carries cs G sk xs cts \<and> (\<forall>t. receive_round1 env cs (keygen_pk cs sk) rnd xs (on_lanes k t)
      = Inr (on_lanes k (then_cts k (with_key (keygen_pk cs sk) t) cts)))"
proof -
  let ?pk = "keygen_pk cs sk"
  define cts where "cts = map (\<lambda>i. encrypt cs ?pk (xs ! i) (rnd i)) [0..<length xs]"
  have c: "carries cs G sk xs cts" "length xs = length cts"
    using carries_encryptions[OF assms(1)] by (simp_all add: cts_def)
  have e: "encrypt_value cs ?pk (xs ! i) (rnd i) = Inr (cts ! i)" if "i < length cts" for i
    using that assms(5) by (auto simp: cts_def encrypt_value_ok)
  have "endpoint env (G \<union> D) (length cts)"
    using assms(2) c(2) by simp
  note stream = compute_send_stream[OF this carries_over[OF assms(1) c(1)] assms(3,4) c(2) e,
      of "replicate (length xs) null_ct"]
  have "receive_round1 env cs ?pk rnd xs (on_lanes k t) = Inr (on_lanes k (then_cts k (with_key ?pk t) cts))" for t
    using send_key[OF assms(2) _ assms(3), of ?pk t] keygen_in_G[OF assms(1)] c stream[of "with_key ?pk t"]
    by (auto simp: receive_round1_def Let_def)
  then show ?thesis
    using c(1) by blast
qed

lemma receive_round2_ok:
  assumes "params_ok cs G D disc" "endpoint env (G \<union> D) n" "0 < k" "k \<le> 64"
    and "carries cs G sk ms cts" "endpoint env' (G \<union> D) n" "length ms = n"
  shows "receive_round2 env cs sk n (on_lanes k (\<lambda>i. lane_wire cts k i @ t i))
    = Inr (map (\<lambda>m. m mod cleartext_bound cs) ms, on_lanes k t)"
proof -
  have len: "length cts = n"
    using assms(5,7) by (simp add: carries_def)
  have tr: "travels env' env cts"
    using endpoint_travels[of env' "G \<union> D" cts env] assms(2,6) len carries_over[OF assms(1,5)] by simp
  obtain c where c: "rf_chunk_size env = Inr c"
    using endpoint_chunk[OF assms(2)] .
  have d: "decrypt cs sk (cts ! i) = map (\<lambda>m. m mod cleartext_bound cs) ms ! i" if "i < n" for i
    using that assms(1,5,7) by (auto simp: carries_def params_ok_def intro!: cg.dec_holds)
  show ?thesis
    using recv_compute_stream[OF tr assms(3,4) len[symmetric] c, of "replicate n null_ct" "replicate n 0"
        "map (\<lambda>m. m mod cleartext_bound cs) ms" "decrypt cs sk" t] d assms(7)
    by (simp add: receive_round2_def)
qed

lemma firewall_key_ok:
  assumes "params_ok cs G D disc" "endpoint env (G \<union> D) n" "0 < k"
  shows "firewall_key env disc cs r (on_lanes k (then_cts k (with_key (keygen_pk cs sk) (\<lambda>_. [])) xs)) (on_lanes k t)
    = Inr (keygen_pk cs sk, keygen_pk cs (sk + r), on_lanes k (lane_wire xs k), on_lanes k (with_key (keygen_pk cs (sk + r)) t))"
proof -
  have "maul_pk cs (keygen_pk cs sk) r = Inr (keygen_pk cs (sk + r))"
    using assms(1) by (intro cg.shift_key[of cs G D]) (simp add: params_ok_def)
  then show ?thesis
    using recv_key[OF assms(2) _ _ assms(3), of "keygen_pk cs sk" disc "lane_wire xs k"]
      send_key[OF assms(2) _ assms(3), of "keygen_pk cs (sk + r)" t] keygen_in_G[OF assms(1)]
    by (simp add: firewall_key_def)
qed

lemma maul_fwd_carries:
  assumes "params_ok cs G D disc" "carries cs G sk ms cts" "length ms = n"
  shows "carries cs G (sk + r) ms (map (\<lambda>i. maul_fwd_rerand cs (cts ! i) r (make_enc_zero cs (keygen_pk cs (sk + r)) (rnd i))) [0..<n])"
  using assms cg.forward_refresh_holds[of cs G D sk] by (simp add: carries_def params_ok_def maul_fwd_rerand_eq)

lemma maul_inv_carries:
  assumes "params_ok cs G D disc" "carries cs G (sk + r) ms cts" "length ms = n"
  shows "carries cs G sk ms (map (\<lambda>i. maul_inv_rerand cs (cts ! i) r (make_enc_zero cs (keygen_pk cs sk) (rnd i))) [0..<n])"
  using assms cg.backward_refresh_holds[of cs G D sk r] by (simp add: carries_def params_ok_def maul_inv_rerand_eq)

lemma firewall_round1_ok:
  assumes "params_ok cs G D disc" "endpoint env (G \<union> D) n" "endpoint env' (G \<union> D) n" "0 < k" "k \<le> 64"
    and "carries cs G sk ms cts" "length ms = n"
  shows "\<exists>cts'. carries cs G (sk + r) ms cts' \<and>
    (\<forall>u t. firewall_round1 env prof clk cs (keygen_pk cs (sk + r)) r rnd n
        (on_lanes k (\<lambda>i. lane_wire cts k i @ u i)) (on_lanes k t)
      = Inr (cts, cts', on_lanes k u, on_lanes k (then_cts k t cts')))"
proof -
  let ?noise = "\<lambda>i. make_enc_zero cs (keygen_pk cs (sk + r)) (rnd i)"
  define cts' where "cts' = map (\<lambda>i. maul_fwd_rerand cs (cts ! i) r (?noise i)) [0..<n]"
  have len: "length cts = n" "length cts' = n"
    using assms(6,7) by (simp_all add: carries_def cts'_def)
  have c: "carries cs G (sk + r) ms cts'"
    unfolding cts'_def by (rule maul_fwd_carries[OF assms(1,6,7)])
  have "travels env' env cts"
    using endpoint_travels[of env' "G \<union> D" cts env] assms(2,3) len carries_over[OF assms(1,6)] by simp
  from maul_stream_ok[OF this assms(2) carries_over[OF assms(1) c] assms(4,5) len, of "maul_fwd_step cs prof clk r" ?noise]
  show ?thesis
    using c by (auto simp: firewall_round1_def cts'_def intro!: exI[of _ cts'])
qed

lemma firewall_round2_ok:
  assumes "params_ok cs G D disc" "endpoint env (G \<union> D) n" "endpoint env' (G \<union> D) n" "0 < k" "k \<le> 64"
    and "carries cs G (sk + r) ms cts" "length ms = n" "length inb = n" "length outb = n"
  shows "\<exists>cts'. carries cs G sk ms cts' \<and>
    (\<forall>u t. firewall_round2 env prof clk cs (keygen_pk cs sk) r rnd n inb outb
        (on_lanes k (\<lambda>i. lane_wire cts k i @ u i)) (on_lanes k t)
      = Inr (on_lanes k u, on_lanes k (then_cts k t cts')))"
proof -
  let ?noise = "\<lambda>i. make_enc_zero cs (keygen_pk cs sk) (rnd i)"
  define cts' where "cts' = map (\<lambda>i. maul_inv_rerand cs (cts ! i) r (?noise i)) [0..<n]"
  have len: "length cts = n" "length cts' = n"
    using assms(6,7) by (simp_all add: carries_def cts'_def)
  have c: "carries cs G sk ms cts'"
    unfolding cts'_def by (rule maul_inv_carries[OF assms(1,6,7)])
  have "travels env' env cts"
    using endpoint_travels[of env' "G \<union> D" cts env] assms(2,3) len carries_over[OF assms(1,6)] by simp
  from maul_stream_ok[OF this assms(2) carries_over[OF assms(1) c] assms(4,5) len, of "maul_inv_step cs prof clk r" ?noise]
  show ?thesis
    using c assms(8,9) by (auto simp: firewall_round2_def cts'_def intro!: exI[of _ cts'])
qed

definition ole_outputs :: "int list \<Rightarrow> int list \<Rightarrow> int list \<Rightarrow> int list" where
  "ole_outputs a b x = map (\<lambda>i. a ! i * x ! i + b ! i) [0..<length x]"

lemma send_compute_ok:
  assumes "params_ok cs G D disc" "endpoint env (G \<union> D) n" "endpoint env' (G \<union> D) n" "0 < k" "k \<le> 64"
    and "carries cs G sk x cts" "length x = n" "length a = n" "length b = n"
    and "\<forall>v \<in> set b. 0 \<le> v \<and> v < cleartext_bound cs"
  shows "\<exists>ys. carries cs G sk (ole_outputs a b x) ys \<and>
    (\<forall>u. send_compute env cs (keygen_pk cs sk) rnd a b (on_lanes k (\<lambda>i. lane_wire cts k i @ u i)) = Inr (ys, on_lanes k u))"
proof -
  let ?pk = "keygen_pk cs sk"
  define eb where "eb = map (\<lambda>i. encrypt cs ?pk (b ! i) (rnd i)) [0..<n]"
  define ys where "ys = map (\<lambda>i. ole_reply cs (cts ! i) (a ! i) (eb ! i)) [0..<n]"
  have len: "length cts = n"
    using assms(6,7) by (simp add: carries_def)
  obtain c where c: "rf_chunk_size env = Inr c"
    using endpoint_chunk[OF assms(2)] .
  have tr: "travels env' env cts"
    using endpoint_travels[of env' "G \<union> D" cts env] assms(2,3) len carries_over[OF assms(1,6)] by simp
  have eb: "par_fill (\<lambda>i. encrypt_value cs ?pk (b ! i) (rnd i)) 0 n (replicate n null_ct) = Inr eb"
    using assms(9,10) by (intro par_fill_all) (auto simp: eb_def encrypt_value_ok)
  have ys: "par_fill (\<lambda>i. Inr (ole_reply cs (cts ! i) (a ! i) (eb ! i))) 0 n (replicate n null_ct) = Inr ys"
    by (intro par_fill_all) (auto simp: ys_def)
  have "encrypts cs G sk (a ! i * x ! i + b ! i) (ys ! i)" if "i < n" for i
    using that assms(1,6,7) cg.ole_holds[of cs G D sk "x ! i" "cts ! i" "a ! i" "b ! i" "rnd i"]
    by (simp add: ys_def eb_def ole_reply_def params_ok_def carries_def)
  then have "carries cs G sk (ole_outputs a b x) ys"
    using assms(7) by (simp add: carries_def ole_outputs_def ys_def)
  moreover have "send_compute env cs ?pk rnd a b (on_lanes k (\<lambda>i. lane_wire cts k i @ u i)) = Inr (ys, on_lanes k u)" for u
    unfolding send_compute_def Let_def assms(8)
    by (simp add: send_overlap_def send_collect_ok[OF tr assms(4,5) len c] eb ys)
  ultimately show ?thesis by blast
qed

subsection \<open>A session\<close>

text \<open>
  The four parties between two key handshakes, in causal order: round 1 travels from the receiver
  through both firewalls to the sender, round 2 back. Every party has an environment of its own.
\<close>

definition rf_ole_session ::
  "env \<Rightarrow> env \<Rightarrow> env \<Rightarrow> env \<Rightarrow> nat \<Rightarrow> int \<Rightarrow> bool \<Rightarrow> (nat \<Rightarrow> int) \<Rightarrow> qfi cl_ops \<Rightarrow> int \<Rightarrow> int \<Rightarrow> int \<Rightarrow> (nat \<Rightarrow> nat \<Rightarrow> int)
   \<Rightarrow> int list \<Rightarrow> int list \<Rightarrow> int list \<Rightarrow> int list result" where
  "rf_ole_session env_r env_f env_g env_s k disc prof clk cs sk r rho rnd x a b =
     (let n = length x; none = on_lanes k (\<lambda>_. []) in
      bind_r (receive_round1 env_r cs (keygen_pk cs sk) (rnd 0) x none) (\<lambda>rec_rfr.
      bind_r (firewall_key env_f disc cs r rec_rfr none) (\<lambda>(pk, pk_prime, rec_rfr, rfr_rfs).
      bind_r (firewall_round1 env_f prof clk cs pk_prime r (rnd 1) n rec_rfr rfr_rfs) (\<lambda>(in1, out1, _, rfr_rfs).
      bind_r (firewall_key env_g disc cs rho rfr_rfs none) (\<lambda>(pk_prime, fpk, rfr_rfs, rfs_sen).
      bind_r (firewall_round1 env_g prof clk cs fpk rho (rnd 2) n rfr_rfs rfs_sen) (\<lambda>(in2, out2, _, rfs_sen).
      bind_r (recv_pk_lane0 env_s disc rfs_sen) (\<lambda>(fpk, rfs_sen).
      bind_r (send_compute env_s cs fpk (rnd 3) a b rfs_sen) (\<lambda>(y_cts, _).
      bind_r (send_replies env_s y_cts none) (\<lambda>sen_rfs.
      bind_r (firewall_round2 env_g prof clk cs pk_prime rho (rnd 4) n in2 out2 sen_rfs none) (\<lambda>(_, rfs_rfr).
      bind_r (firewall_round2 env_f prof clk cs pk r (rnd 5) n in1 out1 rfs_rfr none) (\<lambda>(_, rfr_rec).
      bind_r (receive_round2 env_r cs sk n rfr_rec) (\<lambda>(y_vals, _).
      Inr y_vals))))))))))))"

text \<open>
  Every stage of a run, with the ciphertexts of each link: \<open>c0\<close> to \<open>c2\<close> on the way to the sender,
  \<open>c3\<close> to \<open>c5\<close> back. The streams may start with other bytes (\<open>t\<close>) and go on with others (\<open>u\<close>).
\<close>

definition ole_links ::
  "env \<Rightarrow> env \<Rightarrow> env \<Rightarrow> env \<Rightarrow> nat \<Rightarrow> nat \<Rightarrow> int \<Rightarrow> bool \<Rightarrow> (nat \<Rightarrow> int) \<Rightarrow> qfi cl_ops \<Rightarrow> int \<Rightarrow> int \<Rightarrow> int
   \<Rightarrow> (nat \<Rightarrow> nat \<Rightarrow> int) \<Rightarrow> int list \<Rightarrow> int list \<Rightarrow> int list \<Rightarrow> ct list \<Rightarrow> ct list \<Rightarrow> ct list \<Rightarrow> ct list \<Rightarrow> ct list \<Rightarrow> ct list \<Rightarrow> bool" where
  "ole_links env_r env_f env_g env_s n k disc prof clk cs sk r rho rnd x a b c0 c1 c2 c3 c4 c5 \<longleftrightarrow>
    (\<forall>t. receive_round1 env_r cs (keygen_pk cs sk) (rnd 0) x (on_lanes k t)
      = Inr (on_lanes k (then_cts k (with_key (keygen_pk cs sk) t) c0))) \<and>
    (\<forall>t. firewall_key env_f disc cs r (on_lanes k (then_cts k (with_key (keygen_pk cs sk) (\<lambda>_. [])) c0)) (on_lanes k t)
      = Inr (keygen_pk cs sk, keygen_pk cs (sk + r), on_lanes k (\<lambda>i. lane_wire c0 k i @ []), on_lanes k (with_key (keygen_pk cs (sk + r)) t))) \<and>
    (\<forall>u t. firewall_round1 env_f prof clk cs (keygen_pk cs (sk + r)) r (rnd 1) n (on_lanes k (\<lambda>i. lane_wire c0 k i @ u i)) (on_lanes k t)
      = Inr (c0, c1, on_lanes k u, on_lanes k (then_cts k t c1))) \<and>
    (\<forall>t. firewall_key env_g disc cs rho (on_lanes k (then_cts k (with_key (keygen_pk cs (sk + r)) (\<lambda>_. [])) c1)) (on_lanes k t)
      = Inr (keygen_pk cs (sk + r), keygen_pk cs (sk + r + rho), on_lanes k (\<lambda>i. lane_wire c1 k i @ []),
             on_lanes k (with_key (keygen_pk cs (sk + r + rho)) t))) \<and>
    (\<forall>u t. firewall_round1 env_g prof clk cs (keygen_pk cs (sk + r + rho)) rho (rnd 2) n (on_lanes k (\<lambda>i. lane_wire c1 k i @ u i)) (on_lanes k t)
      = Inr (c1, c2, on_lanes k u, on_lanes k (then_cts k t c2))) \<and>
    (recv_pk_lane0 env_s disc (on_lanes k (then_cts k (with_key (keygen_pk cs (sk + r + rho)) (\<lambda>_. [])) c2))
      = Inr (keygen_pk cs (sk + r + rho), on_lanes k (\<lambda>i. lane_wire c2 k i @ []))) \<and>
    (\<forall>u. send_compute env_s cs (keygen_pk cs (sk + r + rho)) (rnd 3) a b (on_lanes k (\<lambda>i. lane_wire c2 k i @ u i)) = Inr (c3, on_lanes k u)) \<and>
    (\<forall>t. send_replies env_s c3 (on_lanes k t) = Inr (on_lanes k (then_cts k t c3))) \<and>
    (\<forall>u t. firewall_round2 env_g prof clk cs (keygen_pk cs (sk + r)) rho (rnd 4) n c1 c2 (on_lanes k (\<lambda>i. lane_wire c3 k i @ u i)) (on_lanes k t)
      = Inr (on_lanes k u, on_lanes k (then_cts k t c4))) \<and>
    (\<forall>u t. firewall_round2 env_f prof clk cs (keygen_pk cs sk) r (rnd 5) n c0 c1 (on_lanes k (\<lambda>i. lane_wire c4 k i @ u i)) (on_lanes k t)
      = Inr (on_lanes k u, on_lanes k (then_cts k t c5))) \<and>
    (\<forall>u. receive_round2 env_r cs sk n (on_lanes k (\<lambda>i. lane_wire c5 k i @ u i))
      = Inr (map (\<lambda>m. m mod cleartext_bound cs) (ole_outputs a b x), on_lanes k u))"

lemma ole_linksD:
  assumes "ole_links env_r env_f env_g env_s n k disc prof clk cs sk r rho rnd x a b c0 c1 c2 c3 c4 c5"
  shows "receive_round1 env_r cs (keygen_pk cs sk) (rnd 0) x (on_lanes k t)
      = Inr (on_lanes k (then_cts k (with_key (keygen_pk cs sk) t) c0))"
    and "firewall_key env_f disc cs r (on_lanes k (then_cts k (with_key (keygen_pk cs sk) (\<lambda>_. [])) c0)) (on_lanes k t)
      = Inr (keygen_pk cs sk, keygen_pk cs (sk + r), on_lanes k (\<lambda>i. lane_wire c0 k i @ []), on_lanes k (with_key (keygen_pk cs (sk + r)) t))"
    and "firewall_round1 env_f prof clk cs (keygen_pk cs (sk + r)) r (rnd 1) n (on_lanes k (\<lambda>i. lane_wire c0 k i @ u i)) (on_lanes k t)
      = Inr (c0, c1, on_lanes k u, on_lanes k (then_cts k t c1))"
    and "firewall_key env_g disc cs rho (on_lanes k (then_cts k (with_key (keygen_pk cs (sk + r)) (\<lambda>_. [])) c1)) (on_lanes k t)
      = Inr (keygen_pk cs (sk + r), keygen_pk cs (sk + r + rho), on_lanes k (\<lambda>i. lane_wire c1 k i @ []),
             on_lanes k (with_key (keygen_pk cs (sk + r + rho)) t))"
    and "firewall_round1 env_g prof clk cs (keygen_pk cs (sk + r + rho)) rho (rnd 2) n (on_lanes k (\<lambda>i. lane_wire c1 k i @ u i)) (on_lanes k t)
      = Inr (c1, c2, on_lanes k u, on_lanes k (then_cts k t c2))"
    and "recv_pk_lane0 env_s disc (on_lanes k (then_cts k (with_key (keygen_pk cs (sk + r + rho)) (\<lambda>_. [])) c2))
      = Inr (keygen_pk cs (sk + r + rho), on_lanes k (\<lambda>i. lane_wire c2 k i @ []))"
    and "send_compute env_s cs (keygen_pk cs (sk + r + rho)) (rnd 3) a b (on_lanes k (\<lambda>i. lane_wire c2 k i @ u i)) = Inr (c3, on_lanes k u)"
    and "send_replies env_s c3 (on_lanes k t) = Inr (on_lanes k (then_cts k t c3))"
    and "firewall_round2 env_g prof clk cs (keygen_pk cs (sk + r)) rho (rnd 4) n c1 c2 (on_lanes k (\<lambda>i. lane_wire c3 k i @ u i)) (on_lanes k t)
      = Inr (on_lanes k u, on_lanes k (then_cts k t c4))"
    and "firewall_round2 env_f prof clk cs (keygen_pk cs sk) r (rnd 5) n c0 c1 (on_lanes k (\<lambda>i. lane_wire c4 k i @ u i)) (on_lanes k t)
      = Inr (on_lanes k u, on_lanes k (then_cts k t c5))"
    and "receive_round2 env_r cs sk n (on_lanes k (\<lambda>i. lane_wire c5 k i @ u i))
      = Inr (map (\<lambda>m. m mod cleartext_bound cs) (ole_outputs a b x), on_lanes k u)"
  using assms unfolding ole_links_def by blast+

lemma rf_ole_stages:
  assumes p: "params_ok cs G D disc" and k: "0 < k" "k \<le> 64"
    and e: "endpoint env_r (G \<union> D) n" "endpoint env_f (G \<union> D) n" "endpoint env_g (G \<union> D) n" "endpoint env_s (G \<union> D) n"
    and l: "length x = n" "length a = n" "length b = n"
    and v: "\<forall>m \<in> set x \<union> set b. 0 \<le> m \<and> m < cleartext_bound cs"
  shows "\<exists>c0 c1 c2 c3 c4 c5. ole_links env_r env_f env_g env_s n k disc prof clk cs sk r rho rnd x a b c0 c1 c2 c3 c4 c5"
proof -
  obtain c0 where c0: "carries cs G sk x c0"
      "\<forall>t. receive_round1 env_r cs (keygen_pk cs sk) (rnd 0) x (on_lanes k t)
      = Inr (on_lanes k (then_cts k (with_key (keygen_pk cs sk) t) c0))"
    using receive_round1_ok[OF p _ k, of env_r x sk "rnd 0"] e(1) l(1) v by auto
  obtain c1 where c1: "carries cs G (sk + r) x c1" "\<forall>u t. firewall_round1 env_f prof clk cs (keygen_pk cs (sk + r)) r (rnd 1) n
        (on_lanes k (\<lambda>i. lane_wire c0 k i @ u i)) (on_lanes k t) = Inr (c0, c1, on_lanes k u, on_lanes k (then_cts k t c1))"
    using firewall_round1_ok[OF p e(2,1) k c0(1) l(1), of r prof clk "rnd 1"] by auto
  obtain c2 where c2: "carries cs G (sk + r + rho) x c2" "\<forall>u t. firewall_round1 env_g prof clk cs (keygen_pk cs (sk + r + rho)) rho (rnd 2) n
        (on_lanes k (\<lambda>i. lane_wire c1 k i @ u i)) (on_lanes k t) = Inr (c1, c2, on_lanes k u, on_lanes k (then_cts k t c2))"
    using firewall_round1_ok[OF p e(3,2) k c1(1) l(1), of rho prof clk "rnd 2"] by auto
  obtain c3 where c3: "carries cs G (sk + r + rho) (ole_outputs a b x) c3"
      "\<forall>u. send_compute env_s cs (keygen_pk cs (sk + r + rho)) (rnd 3) a b (on_lanes k (\<lambda>i. lane_wire c2 k i @ u i)) = Inr (c3, on_lanes k u)"
    using send_compute_ok[OF p e(4,3) k c2(1) l, of "rnd 3"] v by auto
  have lo: "length (ole_outputs a b x) = n" "length c0 = n" "length c1 = n" "length c2 = n" "length c3 = n"
    using carries_length[OF c0(1)] carries_length[OF c1(1)] carries_length[OF c2(1)] carries_length[OF c3(1)] l(1)
    by (simp_all add: ole_outputs_def)
  have s: "send_replies env_s c3 (on_lanes k t) = Inr (on_lanes k (then_cts k t c3))" for t
    using send_replies_ok[OF _ carries_over[OF p c3(1)] k, of env_s t] e(4) lo by simp
  obtain c4 where c4: "carries cs G (sk + r) (ole_outputs a b x) c4" "\<forall>u t. firewall_round2 env_g prof clk cs (keygen_pk cs (sk + r)) rho (rnd 4) n c1 c2
        (on_lanes k (\<lambda>i. lane_wire c3 k i @ u i)) (on_lanes k t) = Inr (on_lanes k u, on_lanes k (then_cts k t c4))"
    using firewall_round2_ok[OF p e(3,4) k c3(1) lo(1), of c1 c2 prof clk "rnd 4"] lo by auto
  obtain c5 where c5: "carries cs G sk (ole_outputs a b x) c5" "\<forall>u t. firewall_round2 env_f prof clk cs (keygen_pk cs sk) r (rnd 5) n c0 c1
        (on_lanes k (\<lambda>i. lane_wire c4 k i @ u i)) (on_lanes k t) = Inr (on_lanes k u, on_lanes k (then_cts k t c5))"
    using firewall_round2_ok[OF p e(2,3) k c4(1) lo(1), of c0 c1 prof clk "rnd 5"] lo by auto
  note fk = firewall_key_ok[OF p _ k(1)]
  have rk: "recv_pk_lane0 env_s disc (on_lanes k (then_cts k (with_key (keygen_pk cs (sk + r + rho)) (\<lambda>_. [])) c2))
      = Inr (keygen_pk cs (sk + r + rho), on_lanes k (\<lambda>i. lane_wire c2 k i @ []))"
    using recv_key[OF e(4) _ _ k(1), of "keygen_pk cs (sk + r + rho)" disc "lane_wire c2 k"] keygen_in_G[OF p, of "sk + r + rho"]
    by simp
  have k1: "firewall_key env_f disc cs r (on_lanes k (then_cts k (with_key (keygen_pk cs sk) (\<lambda>_. [])) c0)) (on_lanes k t)
      = Inr (keygen_pk cs sk, keygen_pk cs (sk + r), on_lanes k (\<lambda>i. lane_wire c0 k i @ []), on_lanes k (with_key (keygen_pk cs (sk + r)) t))" for t
    using fk[OF e(2)] by simp
  have k2: "firewall_key env_g disc cs rho (on_lanes k (then_cts k (with_key (keygen_pk cs (sk + r)) (\<lambda>_. [])) c1)) (on_lanes k t)
      = Inr (keygen_pk cs (sk + r), keygen_pk cs (sk + r + rho), on_lanes k (\<lambda>i. lane_wire c1 k i @ []),
             on_lanes k (with_key (keygen_pk cs (sk + r + rho)) t))" for t
    using fk[OF e(3)] by simp
  have r2: "receive_round2 env_r cs sk n (on_lanes k (\<lambda>i. lane_wire c5 k i @ u i))
      = Inr (map (\<lambda>m. m mod cleartext_bound cs) (ole_outputs a b x), on_lanes k u)" for u
    by (rule receive_round2_ok[OF p e(1) k c5(1) e(2) lo(1)])
  have "ole_links env_r env_f env_g env_s n k disc prof clk cs sk r rho rnd x a b c0 c1 c2 c3 c4 c5"
    unfolding ole_links_def
    by (intro conjI allI; (rule c0(2)[rule_format] k1 c1(2)[rule_format] k2 c2(2)[rule_format] rk c3(2)[rule_format] s
        c4(2)[rule_format] c5(2)[rule_format] r2)?)
  then show ?thesis by blast
qed

end
