(* ===== verification/CG_Session.thy ===== *)
theory CG_Session
  imports CG_OLE
begin

text \<open>
  Sessions of the reverse-firewalled batched OLE: the phases in causal order, and the four
  programs wired to each other with their lane handshakes. A small class group (discriminant
  -23, three classes) on which they run.
\<close>

subsection \<open>The phases in causal order\<close>

lemma rf_ole_session_value:
  assumes "params_ok cs G D disc" "0 < k" "k \<le> 64"
    and "endpoint env_r (G \<union> D) n" "endpoint env_f (G \<union> D) n" "endpoint env_g (G \<union> D) n" "endpoint env_s (G \<union> D) n"
    and "length x = n" "length a = n" "length b = n"
    and "\<forall>m \<in> set x \<union> set b. 0 \<le> m \<and> m < cleartext_bound cs"
  shows "rf_ole_session env_r env_f env_g env_s k disc prof clk cs sk r rho rnd x a b
    = Inr (map (\<lambda>m. m mod cleartext_bound cs) (ole_outputs a b x))"
proof -
  obtain c0 c1 c2 c3 c4 c5 where "ole_links env_r env_f env_g env_s n k disc prof clk cs sk r rho rnd x a b c0 c1 c2 c3 c4 c5"
    using rf_ole_stages[OF assms] by blast
  note s = ole_linksD[OF this]
  have "then_cts k (\<lambda>_. []) c = (\<lambda>i. lane_wire c k i @ [])" for c
    by simp
  then show ?thesis
    unfolding rf_ole_session_def Let_def assms(8) s bind_r_simps prod.case by (simp only: s bind_r_simps prod.case)
qed

subsection \<open>The programs wired together\<close>

text \<open>The connections reach a listener in the order \<open>ord\<close>.\<close>

definition arrive :: "nat list \<Rightarrow> lanes \<Rightarrow> byte list list" where
  "arrive ord tx = map (\<lambda>i. tx ! i) ord"

definition arrival_order :: "nat \<Rightarrow> nat list \<Rightarrow> bool" where
  "arrival_order k ord \<longleftrightarrow> distinct ord \<and> set ord = {..<k}"

lemma rf_transport_lanes_bounds: "rf_transport_lanes env = Inr k \<Longrightarrow> 0 < k \<and> k \<le> 64"
  by (auto simp: rf_transport_lanes_def cg_config_size_def dest!: cg_parse_size_Inr split: option.splits)

lemma accept_arrived:
  assumes "connect_rf_lanes env digest k n = Inr hs" "k \<le> 64" "length digest = 32" "arrival_order k ord"
  shows "accept_rf_lanes env digest (arrive ord (on_lanes k (\<lambda>i. hs ! i @ p i))) k n = Some (Inr (map (\<lambda>i. Some (p i)) [0..<k]))"
proof -
  have "arrive ord (on_lanes k (\<lambda>i. hs ! i @ p i)) = map (\<lambda>i. hs ! i @ p i) ord"
    using assms(4) by (auto simp: arrive_def arrival_order_def)
  then show ?thesis
    using accept_any_order[OF assms(1-3), of ord p] assms(4) by (simp add: arrival_order_def)
qed

lemma connect_length: "connect_rf_lanes env digest k n = Inr hs \<Longrightarrow> length hs = k"
  by (auto simp: connect_rf_lanes_def bind_r_Inr_iff dest: map_r_InrD)

lemma map_the_Some: "map the (map (\<lambda>i. Some (p i)) xs) = map p xs"
  by simp

lemma replicate_lanes: "replicate k [] = on_lanes k (\<lambda>_. [])"
  by (simp add: map_replicate_const)

lemma lanes_nth: "length hs = k \<Longrightarrow> hs = on_lanes k (\<lambda>i. hs ! i)"
  using map_nth[of hs] by simp

lemma rf_ole_programs_run:
  fixes rnd :: "nat \<Rightarrow> nat \<Rightarrow> int"
  assumes p: "params_ok cs G D disc" and e: "endpoint env (G \<union> D) n" and k: "rf_transport_lanes env = Inr k"
    and n: "required_env_size env ''CG_RF_EXPECTED_N'' = Inr n" and d: "length digest = 32"
    and hs: "connect_rf_lanes env digest k n = Inr hs"
    and o: "arrival_order k ord1" "arrival_order k ord2" "arrival_order k ord3"
    and l: "length x = n" "length a = n" "length b = n"
    and v: "\<forall>m \<in> set x \<union> set b. 0 \<le> m \<and> m < cleartext_bound cs"
  shows "\<exists>rec_rfr rfr_rec rfr_rfs rfs_rfr rfs_sen sen_rfs.
    rf_ole_batch_receive env digest cs sk (rnd 0) x (arrive ord1 rfr_rec)
      = Some (Inr (map (\<lambda>m. m mod cleartext_bound cs) (ole_outputs a b x), rec_rfr)) \<and>
    rf_receiver_firewall_opa env digest disc prof clk cs r (rnd 1) (rnd 5) rec_rfr (arrive ord2 rfs_rfr)
      = Some (Inr (rfr_rec, rfr_rfs)) \<and>
    rf_sender_firewall_opa env digest disc prof clk cs rho (rnd 2) (rnd 4) rfr_rfs (arrive ord3 sen_rfs)
      = Some (Inr (rfs_rfr, rfs_sen)) \<and>
    rf_ole_batch_send env digest disc cs (rnd 3) a b rfs_sen = Inr sen_rfs"
proof -
  have kk: "0 < k" "k \<le> 64"
    using rf_transport_lanes_bounds[OF k] by simp_all
  obtain c where c: "rf_chunk_size env = Inr c"
    using endpoint_chunk[OF e] .
  have h: "hs = on_lanes k (\<lambda>i. hs ! i)"
    by (rule lanes_nth[OF connect_length[OF hs]])
  note ac = accept_arrived[OF hs kk(2) d]
  obtain g where g: "greets env digest k n g"
    using lane_greeting[OF hs kk d] .
  note gr = greetsD[OF g]
  have kg: "on_lanes k (then_cts k (with_key pk (\<lambda>_. g)) c) = on_lanes k (\<lambda>i. g @ then_cts k (with_key pk (\<lambda>_. [])) c i)" for pk c
    by (simp add: with_key_def)
  have cr: "check_replies env digest k n (on_lanes k (then_cts k (with_key pk (\<lambda>_. g)) ct))
      = Inr (on_lanes k (then_cts k (with_key pk (\<lambda>_. [])) ct))" for pk ct
    by (simp only: kg gr(2))
  obtain c0 c1 c2 c3 c4 c5 where "ole_links env env env env n k disc prof clk cs sk r rho rnd x a b c0 c1 c2 c3 c4 c5"
    using rf_ole_stages[OF p kk e e e e l v] by blast
  note s = ole_linksD[OF this]
  let ?rec_rfr = "on_lanes k (then_cts k (with_key (keygen_pk cs sk) (\<lambda>_. g)) c0)"
    and ?rfr_rfs = "on_lanes k (then_cts k (with_key (keygen_pk cs (sk + r)) (\<lambda>_. g)) c1)"
    and ?rfs_sen = "on_lanes k (then_cts k (with_key (keygen_pk cs (sk + r + rho)) (\<lambda>_. g)) c2)"
    and ?sen_rfs = "on_lanes k (then_cts k (\<lambda>i. hs ! i) c3)" and ?rfs_rfr = "on_lanes k (then_cts k (\<lambda>i. hs ! i) c4)"
    and ?rfr_rec = "on_lanes k (then_cts k (\<lambda>i. hs ! i) c5)"
  have r1: "rf_ole_batch_receive env digest cs sk (rnd 0) x (arrive ord1 ?rfr_rec)
      = Some (Inr (map (\<lambda>m. m mod cleartext_bound cs) (ole_outputs a b x), ?rec_rfr))"
    using s(1)[of "\<lambda>_. g"] s(11)[of "\<lambda>_. []"]
    by (simp add: rf_ole_batch_receive_def k c ac[OF o(1)] l(1) gr(1) o_def)
  have nf: "bind_r (required_env_size env ''CG_RF_EXPECTED_N'') (\<lambda>n_pts.
           bind_r (rf_transport_lanes env) (\<lambda>k. bind_r (rf_chunk_size env) (\<lambda>_.
           bind_r (connect_rf_lanes env digest k n_pts) (\<lambda>rec_tx.
           bind_r (check_replies env digest k n_pts rx) (\<lambda>rec_rx. Inr (n_pts, k, rec_tx, rec_rx)))))) = Inr (n, k, hs, rx')"
    if "check_replies env digest k n rx = Inr rx'" for rx rx'
    by (simp only: n k c hs that bind_r_simps)
  have hs_lanes: "firewall_round2 env prof clk cs pk' r' rn n ib ob rx hs
      = firewall_round2 env prof clk cs pk' r' rn n ib ob rx (on_lanes k (\<lambda>i. hs ! i))" for pk' r' rn ib ob rx
    using h by simp
  have r2: "rf_receiver_firewall_opa env digest disc prof clk cs r (rnd 1) (rnd 5) ?rec_rfr (arrive ord2 ?rfs_rfr)
      = Some (Inr (?rfr_rec, ?rfr_rfs))"
    unfolding rf_receiver_firewall_opa_def nf[OF cr] sum.case prod.case ac[OF o(2)] option.case map_the_Some
    by (simp only: gr(1) s(2,3) s(10)[of "\<lambda>_. []", unfolded append_Nil2] hs_lanes bind_r_simps prod.case)
  have r3: "rf_sender_firewall_opa env digest disc prof clk cs rho (rnd 2) (rnd 4) ?rfr_rfs (arrive ord3 ?sen_rfs)
      = Some (Inr (?rfs_rfr, ?rfs_sen))"
    unfolding rf_sender_firewall_opa_def nf[OF cr] sum.case prod.case ac[OF o(3)] option.case map_the_Some
    by (simp only: gr(1) s(4,5) s(9)[of "\<lambda>_. []", unfolded append_Nil2] hs_lanes bind_r_simps prod.case)
  have r4: "rf_ole_batch_send env digest disc cs (rnd 3) a b ?rfs_sen = Inr ?sen_rfs"
    using s(6) s(7)[of "\<lambda>_. []"] s(8)[of "\<lambda>i. hs ! i"] h
    by (simp only: rf_ole_batch_send_def k c hs l cr bind_r_simps throw_if_simps simp_thms) simp
  show ?thesis
    using r1 r2 r3 r4 by blast
qed

subsection \<open>The class group of discriminant -23\<close>

text \<open>
  Three classes, represented by the reduced forms (1,1,6), (2,1,3) and (2,-1,3); the class number
  is 3, and (2,1,3) generates. Both generators of the scheme are that class, the message space
  has three elements.
\<close>

definition form23 :: "int \<Rightarrow> qfi" where
  "form23 i = (if i mod 3 = 0 then \<lparr> qa = 1, qb = 1, qc = 6 \<rparr>
    else if i mod 3 = 1 then \<lparr> qa = 2, qb = 1, qc = 3 \<rparr> else \<lparr> qa = 2, qb = - 1, qc = 3 \<rparr>)"

definition index23 :: "qfi \<Rightarrow> int" where
  "index23 f = (if qa f = 1 then 0 else if qb f = 1 then 1 else 2)"

definition cl23 :: "qfi cl_ops" where
  "cl23 = \<lparr> cl_powG = (\<lambda>f n. form23 (index23 f * n)), cl_compG = (\<lambda>f g. form23 (index23 f + index23 g)),
     cl_powD = (\<lambda>f n. form23 (index23 f * n)), cl_compD = (\<lambda>f g. form23 (index23 f + index23 g)),
     cl_compinvD = (\<lambda>f g. form23 (index23 f - index23 g)), cl_convert = (\<lambda>f. f),
     cl_powh = form23, cl_powf = form23, cl_dlog = index23, cl_compact = False,
     cl_discriminant_ok = (\<lambda>f. discriminant f = - 23), cleartext_bound = 3, secretkey_bound = 3 \<rparr>"

definition forms23 :: "qfi set" where
  "forms23 = {form23 0, form23 1, form23 2}"

lemma mod3_cases: "(i :: int) mod 3 = 0 \<or> i mod 3 = 1 \<or> i mod 3 = 2"
  by presburger

lemma index_form23 [simp]: "index23 (form23 i) = i mod 3"
  using mod3_cases[of i] by (auto simp: form23_def index23_def)

lemma form23_mod: "form23 (i mod 3) = form23 i"
  by (simp add: form23_def)

lemma form23_cong: "i mod 3 = j mod 3 \<Longrightarrow> form23 i = form23 j"
  by (simp add: form23_def)

lemma form23_in [simp]: "form23 i \<in> forms23"
  using mod3_cases[of i] form23_mod[of i] by (auto simp: forms23_def)

lemma forms23E:
  assumes "f \<in> forms23"
  obtains i where "f = form23 i"
  using assms by (auto simp: forms23_def)

lemma form23_arith [simp]:
  "form23 (i mod 3 + j) = form23 (i + j)" "form23 (j + i mod 3) = form23 (j + i)"
  "form23 (i mod 3 - j) = form23 (i - j)" "form23 (j - i mod 3) = form23 (j - i)"
  "form23 (i mod 3 * j) = form23 (i * j)" "form23 (i mod 3) = form23 i"
  by (rule form23_cong, simp add: mod_simps)+

lemma cl23_group: "group_laws forms23 (\<lambda>f g. form23 (index23 f + index23 g)) (\<lambda>f n. form23 (index23 f * n))"
  unfolding group_laws_def
  by (intro conjI ballI allI; elim forms23E; simp) (simp_all add: algebra_simps)

lemma cl23_laws: "cl_laws cl23 forms23 forms23"
proof -
  have "\<exists>h \<in> forms23. \<forall>n. form23 n = form23 (index23 h * n)"
    by (rule bexI[of _ "form23 1"]) simp_all
  moreover have "discriminant (form23 i) = - 23" for i
    by (simp add: form23_def discriminant_def)
  ultimately show ?thesis
    unfolding cl_laws_def using cl23_group
    by (intro conjI ballI allI; (elim forms23E)?; simp add: cl23_def to_delta_def)
qed

lemma cl23_params: "params_ok cl23 forms23 forms23 (- 23)"
  using cl23_laws by (auto simp: params_ok_def cl23_def forms23_def form23_def discriminant_def)

lemma endpoint23:
  assumes "env ''CG_MAX_MPZ_BYTES'' = None" "env ''CG_MAX_ITEMS'' = None" "rf_chunk_size env = Inr c" "0 < n" "n \<le> 1048576"
  shows "endpoint env (forms23 \<union> forms23) n"
proof -
  have l: "mpz_limit env = Inr 16384"
    using assms(1) by (rule mpz_limit_default)
  have "cg_validate_count env n False = Inr ()"
    using assms(2,4,5) by (simp add: cg_validate_count_def cg_max_items_def env_value_def)
  moreover have "qfi_valid f" "\<forall>m \<in> {qa f, qb f, qc f}. \<bar>m\<bar> < 256" if "f \<in> forms23" for f
    using that by (auto simp: forms23_def form23_def qfi_valid_def make_qfi_def)
  then have "send_qfi env f = Inr (qfi_bytes f) \<and> qfi_ok env f" if "f \<in> forms23" for f
    using that mpz_sendable[OF l, of _ 1] by (auto simp: send_qfi_def qfi_ok_def qfi_bytes_def)
  ultimately show ?thesis
    using assms(3) by (auto simp: endpoint_def)
qed

subsection \<open>Properties\<close>

text \<open>
  The batched protocol through both firewalls. With parameters that obey the group laws, valid
  configurations (each party its own chunk size and limits) and inputs in range, a session of the
  receiver, the two firewalls and the sender over \<open>k\<close> lanes ends, throws nowhere and returns
  \<open>a_i x_i + b_i\<close> modulo the plaintext bound for every \<open>i\<close>, whatever the keys, the mauling scalars,
  the encryption randomness and the profiling switches.
\<close>

theorem rf_ole_session_correct:
  assumes "params_ok cs G D disc" "0 < k" "k \<le> 64"
    and "endpoint env_r (G \<union> D) n" "endpoint env_f (G \<union> D) n" "endpoint env_g (G \<union> D) n" "endpoint env_s (G \<union> D) n"
    and "length x = n" "length a = n" "length b = n"
    and "\<forall>m \<in> set x \<union> set b. 0 \<le> m \<and> m < cleartext_bound cs"
  shows "rf_ole_session env_r env_f env_g env_s k disc prof clk cs sk r rho rnd x a b
    = Inr (map (\<lambda>i. (a ! i * x ! i + b ! i) mod cleartext_bound cs) [0..<n])"
  using rf_ole_session_value[OF assms, of prof clk sk r rho rnd] assms(8) by (simp add: ole_outputs_def o_def)

definition session_env :: env where
  "session_env name = (if name = ''CG_RF_CHUNK_SIZE'' \<or> name = ''CG_RF_LANES'' then Some ''2''
     else if name = ''CG_RF_EXPECTED_N'' then Some ''3'' else None)"

lemma session_env_numbers:
  "cg_parse_u64 (Some ''2'') lbl 10 = Inr 2" "cg_parse_u64 (Some ''3'') lbl 10 = Inr 3"
  by (subst cg_parse_u64_decimal, simp add: is_digit_def digit_value_def size_limit_def)+

lemma session_env_config:
  "rf_chunk_size session_env = Inr 2" "rf_transport_lanes session_env = Inr 2"
  "required_env_size session_env ''CG_RF_EXPECTED_N'' = Inr 3"
  using session_env_numbers
  by (simp_all add: rf_chunk_size_def rf_transport_lanes_def required_env_size_def cg_config_size_def session_env_def
      env_value_def cg_parse_size_def cg_max_items_def size_limit_def)

lemma default_env_config: "rf_chunk_size (\<lambda>_. None) = Inr 64" "rf_transport_lanes (\<lambda>_. None) = Inr 1"
  by (simp_all add: rf_chunk_size_def rf_transport_lanes_def cg_config_size_def)

lemma session_endpoint: "endpoint session_env (forms23 \<union> forms23) 3"
  by (rule endpoint23[OF _ _ session_env_config(1)]) (simp_all add: session_env_def)

lemma default_endpoint: "endpoint (\<lambda>_. None) (forms23 \<union> forms23) 3"
  by (rule endpoint23[OF _ _ default_env_config(1)]) simp_all

lemma session_connect:
  "connect_rf_lanes session_env (replicate 32 0) 2 3 = Inr [send_u64 0, send_u64 1]"
proof -
  have u: "[0..<2] = [0, 1 :: nat]"
    by (simp add: upt_rec)
  show ?thesis
    by (simp add: connect_rf_lanes_def connect_lane_def cg_validate_count_def cg_max_items_def session_env_def
        env_value_def validate_lane_metadata_def u)
qed

theorem rf_ole_session_correct_witness:
  "rf_ole_session session_env (\<lambda>_. None) session_env (\<lambda>_. None) 2 (- 23) False (\<lambda>_. 0) cl23 1 2 1 (\<lambda>_ _. 1) [0, 1, 2] [1, 2, 2] [2, 0, 1]
    = Inr (map (\<lambda>i. ([1, 2, 2] ! i * [0, 1, 2] ! i + [2, 0, 1] ! i) mod cleartext_bound cl23) [0..<3])"
  by (rule rf_ole_session_correct[OF cl23_params]) (use session_endpoint default_endpoint in \<open>auto simp: cl23_def\<close>)

text \<open>
  C9: The same for the four programs as they are started: with one environment, each program reads
  its configuration, opens and accepts its lanes (whose connections may arrive at each listener in
  any order), and there are byte streams on the six directed links that are exactly what each
  program writes when it reads the others; the receiver returns \<open>a_i x_i + b_i\<close>.
\<close>

theorem rf_ole_programs_correct:
  fixes rnd :: "nat \<Rightarrow> nat \<Rightarrow> int"
  assumes "params_ok cs G D disc" "endpoint env (G \<union> D) n" "rf_transport_lanes env = Inr k"
    and "required_env_size env ''CG_RF_EXPECTED_N'' = Inr n" "length digest = 32"
    and "connect_rf_lanes env digest k n = Inr hs"
    and "arrival_order k ord1" "arrival_order k ord2" "arrival_order k ord3"
    and "length x = n" "length a = n" "length b = n"
    and "\<forall>m \<in> set x \<union> set b. 0 \<le> m \<and> m < cleartext_bound cs"
  shows "\<exists>rec_rfr rfr_rec rfr_rfs rfs_rfr rfs_sen sen_rfs.
    rf_ole_batch_receive env digest cs sk (rnd 0) x (arrive ord1 rfr_rec)
      = Some (Inr (map (\<lambda>m. m mod cleartext_bound cs) (ole_outputs a b x), rec_rfr)) \<and>
    rf_receiver_firewall_opa env digest disc prof clk cs r (rnd 1) (rnd 5) rec_rfr (arrive ord2 rfs_rfr)
      = Some (Inr (rfr_rec, rfr_rfs)) \<and>
    rf_sender_firewall_opa env digest disc prof clk cs rho (rnd 2) (rnd 4) rfr_rfs (arrive ord3 sen_rfs)
      = Some (Inr (rfs_rfr, rfs_sen)) \<and>
    rf_ole_batch_send env digest disc cs (rnd 3) a b rfs_sen = Inr sen_rfs"
  using assms by (rule rf_ole_programs_run)

theorem rf_ole_programs_correct_witness:
  "\<exists>rec_rfr rfr_rec rfr_rfs rfs_rfr rfs_sen sen_rfs.
    rf_ole_batch_receive session_env (replicate 32 0) cl23 1 (\<lambda>i. int i) [0, 1, 2] (arrive [1, 0] rfr_rec)
      = Some (Inr (map (\<lambda>m. m mod cleartext_bound cl23) (ole_outputs [1, 2, 2] [2, 0, 1] [0, 1, 2]), rec_rfr)) \<and>
    rf_receiver_firewall_opa session_env (replicate 32 0) (- 23) True (\<lambda>_. 0) cl23 2 (\<lambda>i. int i) (\<lambda>i. int i) rec_rfr (arrive [0, 1] rfs_rfr)
      = Some (Inr (rfr_rec, rfr_rfs)) \<and>
    rf_sender_firewall_opa session_env (replicate 32 0) (- 23) True (\<lambda>_. 0) cl23 1 (\<lambda>i. int i) (\<lambda>i. int i) rfr_rfs (arrive [1, 0] sen_rfs)
      = Some (Inr (rfs_rfr, rfs_sen)) \<and>
    rf_ole_batch_send session_env (replicate 32 0) (- 23) cl23 (\<lambda>i. int i) [1, 2, 2] [2, 0, 1] rfs_sen = Inr sen_rfs"
  using rf_ole_programs_correct[OF cl23_params session_endpoint session_env_config(2,3) _ session_connect,
      of "[1, 0]" "[0, 1]" "[1, 0]" "[0, 1, 2]" "[1, 2, 2]" "[2, 0, 1]" 1 "\<lambda>_ i. int i" True "\<lambda>_. 0" 2 1]
  by (simp add: arrival_order_def cl23_def lessThan_Suc numeral_2_eq_2 insert_commute)

end
