(* ===== verification/CG_Direct.thy ===== *)
theory CG_Direct
  imports CG_Session
begin

text \<open>
  OLE without firewalls: the lock-step exchange of \<^verbatim>\<open>cg_ope_common.hpp\<close>, the one-shot programs
  \<^verbatim>\<open>cg_batch_ole_receiver\<close> and \<^verbatim>\<open>cg_batch_ole_sender\<close>, and the item-by-item programs of the
  two-round benchmark (\<^verbatim>\<open>cg_receiver\<close>, \<^verbatim>\<open>cg_rrf\<close>, \<^verbatim>\<open>cg_srf\<close>, \<^verbatim>\<open>cg_sender\<close>).
\<close>

subsection \<open>The lock-step exchange\<close>

text \<open>Encrypt and send a chunk, then receive and decrypt its answer, before the next chunk.\<close>

definition direct_receive_loop ::
  "env \<Rightarrow> qfi cl_ops \<Rightarrow> int \<Rightarrow> qfi \<Rightarrow> (nat \<Rightarrow> int) \<Rightarrow> int list \<Rightarrow> lanes \<Rightarrow> lanes \<Rightarrow> (int list \<times> lanes \<times> lanes) result" where
  "direct_receive_loop env cs sk pk rnd x_vals rx tx =
     (let N = length x_vals in
      bind_r (for_chunks env N (\<lambda>b e (enc_x, enc_y, y_vals, rx, tx).
          bind_r (par_fill (\<lambda>i. encrypt_value cs pk (x_vals ! i) (rnd i)) b e enc_x) (\<lambda>enc_x.
          bind_r (send_ct_lanes_range env (send_ct env) tx enc_x N b e) (\<lambda>tx.
          bind_r (recv_ct_lanes_range env (recv_ct env) rx enc_y N b e) (\<lambda>(enc_y, rx).
          bind_r (par_fill (\<lambda>i. Inr (decrypt cs sk (enc_y ! i))) b e y_vals) (\<lambda>y_vals.
          Inr (enc_x, enc_y, y_vals, rx, tx))))))
        (replicate N null_ct, replicate N null_ct, replicate N 0, rx, tx)) (\<lambda>(_, _, y_vals, rx, tx).
      Inr (y_vals, rx, tx)))"

definition direct_ole_batch_receive ::
  "env \<Rightarrow> byte list \<Rightarrow> qfi cl_ops \<Rightarrow> int \<Rightarrow> (nat \<Rightarrow> int) \<Rightarrow> int list \<Rightarrow> byte list list
   \<Rightarrow> (int list \<times> lanes) result option" where
  "direct_ole_batch_receive env digest cs sk rnd x_vals conns =
     (case bind_r (rf_transport_lanes env) (\<lambda>k. bind_r (rf_chunk_size env) (\<lambda>_. Inr k)) of
        Inl err \<Rightarrow> Some (Inl err)
      | Inr k \<Rightarrow> (case accept_rf_lanes env digest conns k (length x_vals) of
          None \<Rightarrow> None
        | Some (Inl err) \<Rightarrow> Some (Inl err)
        | Some (Inr fds) \<Rightarrow> Some (
            let pk = keygen_pk cs sk in
            bind_r (accepted_tx env digest k (length x_vals)) (\<lambda>tx.
            bind_r (send_pk_lane0 env pk tx) (\<lambda>tx.
            bind_r (direct_receive_loop env cs sk pk rnd x_vals (map the fds) tx) (\<lambda>(y_vals, _, tx).
            Inr (y_vals, tx[0 := tx ! 0 @ send_u32 0])))))))"

text \<open>Receive a chunk, encrypt its \<open>b\<close>, compute, return the chunk.\<close>

definition direct_send_loop ::
  "env \<Rightarrow> qfi cl_ops \<Rightarrow> qfi \<Rightarrow> (nat \<Rightarrow> int) \<Rightarrow> int list \<Rightarrow> int list \<Rightarrow> lanes \<Rightarrow> lanes \<Rightarrow> (lanes \<times> lanes) result" where
  "direct_send_loop env cs pk rnd a_vals b_vals rx tx =
     (let N = length a_vals in
      bind_r (for_chunks env N (\<lambda>b e (enc_b, enc_x, enc_y, rx, tx).
          bind_r (recv_ct_lanes_range env (recv_ct env) rx enc_x N b e) (\<lambda>(enc_x, rx).
          bind_r (par_fill (\<lambda>i. encrypt_value cs pk (b_vals ! i) (rnd i)) b e enc_b) (\<lambda>enc_b.
          bind_r (par_fill (\<lambda>i. Inr (ole_reply cs (enc_x ! i) (a_vals ! i) (enc_b ! i))) b e enc_y) (\<lambda>enc_y.
          bind_r (send_ct_lanes_range env (send_ct env) tx enc_y N b e) (\<lambda>tx.
          Inr (enc_b, enc_x, enc_y, rx, tx))))))
        (replicate N null_ct, replicate N null_ct, replicate N null_ct, rx, tx)) (\<lambda>(_, _, _, rx, tx).
      Inr (rx, tx)))"

definition direct_ole_batch_send ::
  "env \<Rightarrow> byte list \<Rightarrow> int \<Rightarrow> qfi cl_ops \<Rightarrow> (nat \<Rightarrow> int) \<Rightarrow> int list \<Rightarrow> int list \<Rightarrow> lanes \<Rightarrow> lanes result" where
  "direct_ole_batch_send env digest disc cs rnd a_vals b_vals rx =
     bind_r (throw_if (length a_vals \<noteq> length b_vals) (Runtime_error ''direct OLE sender vector size mismatch'')) (\<lambda>_.
     bind_r (rf_transport_lanes env) (\<lambda>k. bind_r (rf_chunk_size env) (\<lambda>_.
     bind_r (connect_rf_lanes env digest k (length a_vals)) (\<lambda>tx.
     bind_r (check_replies env digest k (length a_vals) rx) (\<lambda>rx.
     bind_r (recv_pk_lane0 env disc rx) (\<lambda>(pk, rx).
     bind_r (direct_send_loop env cs pk rnd a_vals b_vals rx tx) (\<lambda>(rx, tx).
     bind_r (recv_u32 (rx ! 0)) (\<lambda>_. Inr tx))))))))"

subsection \<open>The one-shot programs\<close>

text \<open>The exchange of the two programs, from the lane handshake to the outputs.\<close>

definition batch_ole_receiver ::
  "env \<Rightarrow> byte list \<Rightarrow> qfi cl_ops \<Rightarrow> int \<Rightarrow> (nat \<Rightarrow> int) \<Rightarrow> int list \<Rightarrow> byte list list
   \<Rightarrow> (int list \<times> lanes) result option" where
  "batch_ole_receiver env digest cs sk rnd x_vals conns =
     (let n_oles = length x_vals; pk = keygen_pk cs sk in
      case rf_transport_lanes env of
        Inl err \<Rightarrow> Some (Inl err)
      | Inr k \<Rightarrow> (case accept_rf_lanes env digest conns k n_oles of
          None \<Rightarrow> None
        | Some (Inl err) \<Rightarrow> Some (Inl err)
        | Some (Inr fds) \<Rightarrow> Some (
            bind_r (accepted_tx env digest k n_oles) (\<lambda>tx.
            bind_r (send_pk_lane0 env pk tx) (\<lambda>tx.
            bind_r (par_fill (\<lambda>i. encrypt_value cs pk (x_vals ! i) (rnd i)) 0 n_oles (replicate n_oles null_ct)) (\<lambda>enc_x.
            bind_r (send_ct_lanes env (send_ct env) tx enc_x n_oles) (\<lambda>tx.
            bind_r (recv_ct_lanes env (recv_ct env) (map the fds) (replicate n_oles null_ct) n_oles) (\<lambda>(enc_y, _).
            bind_r (par_fill (\<lambda>i. Inr (decrypt cs sk (enc_y ! i))) 0 n_oles (replicate n_oles 0)) (\<lambda>y_vals.
            Inr (y_vals, tx))))))))))"

definition batch_ole_sender ::
  "env \<Rightarrow> byte list \<Rightarrow> int \<Rightarrow> qfi cl_ops \<Rightarrow> (nat \<Rightarrow> int) \<Rightarrow> int list \<Rightarrow> int list \<Rightarrow> lanes \<Rightarrow> lanes result" where
  "batch_ole_sender env digest disc cs rnd a_vals b_vals rx =
     (let n_oles = length a_vals in
      bind_r (rf_transport_lanes env) (\<lambda>k.
      bind_r (connect_rf_lanes env digest k n_oles) (\<lambda>tx.
      bind_r (check_replies env digest k n_oles rx) (\<lambda>rx.
      bind_r (recv_pk_lane0 env disc rx) (\<lambda>(pk, rx).
      bind_r (par_fill (\<lambda>i. encrypt_value cs pk (b_vals ! i) (rnd i)) 0 n_oles (replicate n_oles null_ct)) (\<lambda>enc_b.
      bind_r (recv_ct_lanes env (recv_ct env) rx (replicate n_oles null_ct) n_oles) (\<lambda>(enc_x, _).
      bind_r (par_fill (\<lambda>i. Inr (ole_reply cs (enc_x ! i) (a_vals ! i) (enc_b ! i))) 0 n_oles (replicate n_oles null_ct)) (\<lambda>enc_y.
      send_ct_lanes env (send_ct env) tx enc_y n_oles))))))))"

subsection \<open>What the exchanges compute\<close>

definition enc_vec :: "qfi cl_ops \<Rightarrow> int \<Rightarrow> (nat \<Rightarrow> int) \<Rightarrow> int list \<Rightarrow> ct list" where
  "enc_vec cs sk rnd ms = map (\<lambda>i. encrypt cs (keygen_pk cs sk) (ms ! i) (rnd i)) [0..<length ms]"

definition reply_vec :: "qfi cl_ops \<Rightarrow> int \<Rightarrow> (nat \<Rightarrow> int) \<Rightarrow> int list \<Rightarrow> int list \<Rightarrow> ct list \<Rightarrow> ct list" where
  "reply_vec cs sk rnd a b cts = map (\<lambda>i. ole_reply cs (cts ! i) (a ! i) (enc_vec cs sk rnd b ! i)) [0..<length a]"

lemma length_enc_vec [simp]: "length (enc_vec cs sk rnd ms) = length ms"
  by (simp add: enc_vec_def)

lemma length_reply_vec [simp]: "length (reply_vec cs sk rnd a b cts) = length a"
  by (simp add: reply_vec_def)

lemma enc_vec_carries: "params_ok cs G D disc \<Longrightarrow> carries cs G sk ms (enc_vec cs sk rnd ms)"
  unfolding enc_vec_def by (rule carries_encryptions)

lemma reply_vec_carries:
  assumes "params_ok cs G D disc" "carries cs G sk x cts" "length a = length x" "length b = length x"
  shows "carries cs G sk (ole_outputs a b x) (reply_vec cs sk rnd a b cts)"
proof -
  have "encrypts cs G sk (a ! i * x ! i + b ! i) (reply_vec cs sk rnd a b cts ! i)" if "i < length x" for i
    using that assms cg.ole_holds[of cs G D sk "x ! i" "cts ! i" "a ! i" "b ! i" "rnd i"]
    by (simp add: reply_vec_def enc_vec_def ole_reply_def params_ok_def carries_def)
  then show ?thesis
    using assms(3) by (simp add: carries_def ole_outputs_def)
qed

lemma encrypt_vec_value:
  assumes "\<forall>v \<in> set ms. 0 \<le> v \<and> v < cleartext_bound cs" "i < length ms"
  shows "encrypt_value cs (keygen_pk cs sk) (ms ! i) (rnd i) = Inr (enc_vec cs sk rnd ms ! i)"
  using assms by (auto simp: enc_vec_def encrypt_value_ok)

lemma encrypt_loop:
  assumes "\<forall>v \<in> set ms. 0 \<le> v \<and> v < cleartext_bound cs" "agrees b v (enc_vec cs sk rnd ms)" "b \<le> e" "e \<le> length ms"
  shows "\<exists>v'. par_fill (\<lambda>i. encrypt_value cs (keygen_pk cs sk) (ms ! i) (rnd i)) b e v = Inr v' \<and> agrees e v' (enc_vec cs sk rnd ms)"
proof (rule par_fill_step[OF assms(2,3)])
  show "encrypt_value cs (keygen_pk cs sk) (ms ! i) (rnd i) = Inr (enc_vec cs sk rnd ms ! i)" if "b \<le> i" "i < e" for i
    using encrypt_vec_value[OF assms(1)] that assms(4) by auto
qed (use assms(4) in simp)

lemma decrypt_vec:
  assumes "params_ok cs G D disc" "carries cs G sk ms cts" "i < length ms"
  shows "decrypt cs sk (cts ! i) = map (\<lambda>m. m mod cleartext_bound cs) ms ! i"
  using assms by (auto simp: carries_def params_ok_def intro!: cg.dec_holds)

lemma direct_receive_loop_ok:
  assumes "params_ok cs G D disc" "endpoint env (G \<union> D) (length x)" "endpoint env' (G \<union> D) (length x)" "0 < k" "k \<le> 64"
    and "\<forall>v \<in> set x. 0 \<le> v \<and> v < cleartext_bound cs" "carries cs G sk ms cts" "length ms = length x"
  shows "direct_receive_loop env cs sk (keygen_pk cs sk) rnd x (on_lanes k (\<lambda>i. lane_wire cts k i @ u i)) (on_lanes k t)
    = Inr (map (\<lambda>m. m mod cleartext_bound cs) ms, on_lanes k u, on_lanes k (then_cts k t (enc_vec cs sk rnd x)))"
proof -
  let ?n = "length x" and ?ex = "enc_vec cs sk rnd x" and ?ys = "map (\<lambda>m. m mod cleartext_bound cs) ms"
  let ?P = "\<lambda>b (ex, ey, y, rx, tx). agrees b ex ?ex \<and> agrees b ey cts \<and> agrees b y ?ys \<and> unread k cts u b rx \<and> sent k ?ex t b tx"
  let ?body = "\<lambda>b e (enc_x, enc_y, y_vals, rx, tx).
          bind_r (par_fill (\<lambda>i. encrypt_value cs (keygen_pk cs sk) (x ! i) (rnd i)) b e enc_x) (\<lambda>enc_x.
          bind_r (send_ct_lanes_range env (send_ct env) tx enc_x ?n b e) (\<lambda>tx.
          bind_r (recv_ct_lanes_range env (recv_ct env) rx enc_y ?n b e) (\<lambda>(enc_y, rx).
          bind_r (par_fill (\<lambda>i. Inr (decrypt cs sk (enc_y ! i))) b e y_vals) (\<lambda>y_vals.
          Inr (enc_x, enc_y, y_vals, rx, tx)))))"
  let ?init = "(replicate ?n null_ct, replicate ?n null_ct, replicate ?n 0, on_lanes k (\<lambda>i. lane_wire cts k i @ u i), on_lanes k t)"
  have len: "length cts = ?n"
    using assms(7,8) by (simp add: carries_def)
  have tr: "travels env' env cts" "travels env env ?ex"
    using endpoint_travels[of env' "G \<union> D" cts env] endpoint_travels[of env "G \<union> D" ?ex env] assms(2,3) len
      carries_over[OF assms(1,7)] carries_over[OF assms(1) enc_vec_carries[OF assms(1)]] by simp_all
  obtain c where c: "rf_chunk_size env = Inr c"
    using endpoint_chunk[OF assms(2)] .
  have step: "\<exists>s'. ?body b e s = Inr s' \<and> ?P e s'" if p: "?P b s" "b < e" "e \<le> ?n" for b e s
  proof -
    obtain ex ey y rx tx where s: "s = (ex, ey, y, rx, tx)" "agrees b ex ?ex" "agrees b ey cts" "agrees b y ?ys"
        "unread k cts u b rx" "sent k ?ex t b tx"
      using p(1) by (cases s) auto
    obtain ex' where ex': "par_fill (\<lambda>i. encrypt_value cs (keygen_pk cs sk) (x ! i) (rnd i)) b e ex = Inr ex'" "agrees e ex' ?ex"
      using encrypt_loop[OF assms(6) s(2), of e] p(2,3) by auto
    obtain tx' where tx': "send_ct_lanes_range env (send_ct env) tx ex' ?n b e = Inr tx'" "sent k ?ex t e tx'"
      using send_step[OF tr(2) assms(4,5) s(6) ex'(2) p(2)] p(3) by auto
    obtain ey' rx' where ey': "recv_ct_lanes_range env (recv_ct env) rx ey ?n b e = Inr (ey', rx')"
        "agrees e ey' cts" "unread k cts u e rx'"
      using recv_step[OF tr(1) assms(4,5) s(5,3) p(2)] p(3) len by auto
    have "\<exists>y'. par_fill (\<lambda>i. Inr (decrypt cs sk (ey' ! i))) b e y = Inr y' \<and> agrees e y' ?ys"
    proof (rule par_fill_step[OF s(4)])
      show "Inr (decrypt cs sk (ey' ! i)) = Inr (?ys ! i)" if "b \<le> i" "i < e" for i
        using decrypt_vec[OF assms(1,7), of i] agreesD[OF ey'(2) that(2)] that p(3) assms(8) by simp
    qed (use p(2,3) assms(8) in auto)
    then show ?thesis
      using ex' tx' ey' s(1) by auto
  qed
  have "?P 0 ?init"
    using len assms(8) by (simp add: agrees_0 unread_0 sent_0)
  with step have "\<exists>s'. for_chunks env ?n ?body ?init = Inr s' \<and> ?P ?n s'"
    by (intro for_chunks_invariant[OF c]) auto
  then obtain ex ey y rx tx where r: "for_chunks env ?n ?body ?init = Inr (ex, ey, y, rx, tx)"
      "agrees ?n y ?ys" "unread k cts u ?n rx" "sent k ?ex t ?n tx"
    by auto
  have "y = ?ys" "rx = on_lanes k u" "tx = on_lanes k (then_cts k t ?ex)"
    using r(2-4) unread_all[OF travels_bound[OF tr(1)] assms(4,5), of u rx] sent_all[OF travels_bound[OF tr(2)] assms(4,5), of t tx]
      agrees_all[of ?ys y] assms(8) len by auto
  then show ?thesis
    using r(1) by (simp add: direct_receive_loop_def Let_def)
qed

lemma direct_send_loop_ok:
  assumes "params_ok cs G D disc" "endpoint env (G \<union> D) (length a)" "endpoint env' (G \<union> D) (length a)" "0 < k" "k \<le> 64"
    and "\<forall>v \<in> set b. 0 \<le> v \<and> v < cleartext_bound cs" "carries cs G sk x cts" "length x = length a" "length b = length a"
  shows "direct_send_loop env cs (keygen_pk cs sk) rnd a b (on_lanes k (\<lambda>i. lane_wire cts k i @ u i)) (on_lanes k t)
    = Inr (on_lanes k u, on_lanes k (then_cts k t (reply_vec cs sk rnd a b cts)))"
proof -
  let ?n = "length a" and ?eb = "enc_vec cs sk rnd b" and ?ey = "reply_vec cs sk rnd a b cts"
  let ?P = "\<lambda>p (eb, ex, ey, rx, tx). agrees p eb ?eb \<and> agrees p ex cts \<and> agrees p ey ?ey \<and> unread k cts u p rx \<and> sent k ?ey t p tx"
  let ?body = "\<lambda>p e (enc_b, enc_x, enc_y, rx, tx).
          bind_r (recv_ct_lanes_range env (recv_ct env) rx enc_x ?n p e) (\<lambda>(enc_x, rx).
          bind_r (par_fill (\<lambda>i. encrypt_value cs (keygen_pk cs sk) (b ! i) (rnd i)) p e enc_b) (\<lambda>enc_b.
          bind_r (par_fill (\<lambda>i. Inr (ole_reply cs (enc_x ! i) (a ! i) (enc_b ! i))) p e enc_y) (\<lambda>enc_y.
          bind_r (send_ct_lanes_range env (send_ct env) tx enc_y ?n p e) (\<lambda>tx.
          Inr (enc_b, enc_x, enc_y, rx, tx)))))"
  let ?init = "(replicate ?n null_ct, replicate ?n null_ct, replicate ?n null_ct, on_lanes k (\<lambda>i. lane_wire cts k i @ u i), on_lanes k t)"
  have len: "length cts = ?n"
    using assms(7,8) by (simp add: carries_def)
  have cy: "carries cs G sk (ole_outputs a b x) ?ey"
    using reply_vec_carries[OF assms(1,7)] assms(8,9) by simp
  have tr: "travels env' env cts" "travels env env ?ey"
    using endpoint_travels[of env' "G \<union> D" cts env] endpoint_travels[of env "G \<union> D" ?ey env] assms(2,3) len
      carries_over[OF assms(1,7)] carries_over[OF assms(1) cy] by simp_all
  obtain c where c: "rf_chunk_size env = Inr c"
    using endpoint_chunk[OF assms(2)] .
  have step: "\<exists>s'. ?body p e s = Inr s' \<and> ?P e s'" if p: "?P p s" "p < e" "e \<le> ?n" for p e s
  proof -
    obtain eb ex ey rx tx where s: "s = (eb, ex, ey, rx, tx)" "agrees p eb ?eb" "agrees p ex cts" "agrees p ey ?ey"
        "unread k cts u p rx" "sent k ?ey t p tx"
      using p(1) by (cases s) auto
    obtain ex' rx' where ex': "recv_ct_lanes_range env (recv_ct env) rx ex ?n p e = Inr (ex', rx')"
        "agrees e ex' cts" "unread k cts u e rx'"
      using recv_step[OF tr(1) assms(4,5) s(5,3) p(2)] p(3) len by auto
    obtain eb' where eb': "par_fill (\<lambda>i. encrypt_value cs (keygen_pk cs sk) (b ! i) (rnd i)) p e eb = Inr eb'" "agrees e eb' ?eb"
      using encrypt_loop[OF assms(6) s(2), of e] p(2,3) assms(9) by auto
    have "\<exists>ey'. par_fill (\<lambda>i. Inr (ole_reply cs (ex' ! i) (a ! i) (eb' ! i))) p e ey = Inr ey' \<and> agrees e ey' ?ey"
      using p(2,3) agreesD[OF ex'(2)] agreesD[OF eb'(2)] by (intro par_fill_step[OF s(4)]) (auto simp: reply_vec_def)
    then obtain ey' where ey': "par_fill (\<lambda>i. Inr (ole_reply cs (ex' ! i) (a ! i) (eb' ! i))) p e ey = Inr ey'" "agrees e ey' ?ey"
      by blast
    obtain tx' where "send_ct_lanes_range env (send_ct env) tx ey' ?n p e = Inr tx'" "sent k ?ey t e tx'"
      using send_step[OF tr(2) assms(4,5) s(6) ey'(2) p(2)] p(3) by auto
    then show ?thesis
      using ex' eb' ey' s(1) by auto
  qed
  have "?P 0 ?init"
    using len assms(9) by (simp add: agrees_0 unread_0 sent_0)
  with step have "\<exists>s'. for_chunks env ?n ?body ?init = Inr s' \<and> ?P ?n s'"
    by (intro for_chunks_invariant[OF c]) auto
  then obtain eb ex ey rx tx where r: "for_chunks env ?n ?body ?init = Inr (eb, ex, ey, rx, tx)"
      "unread k cts u ?n rx" "sent k ?ey t ?n tx"
    by auto
  have "rx = on_lanes k u" "tx = on_lanes k (then_cts k t ?ey)"
    using r(2,3) unread_all[OF travels_bound[OF tr(1)] assms(4,5), of u rx] sent_all[OF travels_bound[OF tr(2)] assms(4,5), of t tx]
      len by auto
  then show ?thesis
    using r(1) by (simp add: direct_send_loop_def Let_def)
qed

lemma send_ct_lanes_ok:
  assumes "endpoint env S n" "over S xs" "0 < k" "k \<le> 64" "length xs = n"
  shows "send_ct_lanes env (send_ct env) (on_lanes k t) xs n = Inr (on_lanes k (then_cts k t xs))"
proof -
  have tr: "travels env env xs"
    using endpoint_travels[of env S xs env] assms(1,2,5) by simp
  have "0 < n"
    using endpoint_bound[OF assms(1)] by simp
  then obtain tx where "send_ct_lanes_range env (send_ct env) (on_lanes k t) xs n 0 n = Inr tx" "sent k xs t n tx"
    using send_step[OF tr assms(3,4) sent_0, of n xs t] assms(5) by (auto simp: agrees_all)
  then show ?thesis
    using sent_all[OF travels_bound[OF tr] assms(3,4), of t tx] assms(5) by (simp add: send_ct_lanes_def)
qed

lemma recv_ct_lanes_ok:
  assumes "travels env' env xs" "0 < k" "k \<le> 64" "length xs = n" "length v = n"
  shows "recv_ct_lanes env (recv_ct env) (on_lanes k (\<lambda>i. lane_wire xs k i @ u i)) v n = Inr (xs, on_lanes k u)"
proof -
  have "0 < n"
    using assms(1,4) validate_count_bound by (auto simp: travels_def)
  moreover have "agrees 0 v xs"
    using assms(4,5) by (simp add: agrees_0)
  ultimately obtain v' rx' where "recv_ct_lanes_range env (recv_ct env) (on_lanes k (\<lambda>i. lane_wire xs k i @ u i)) v n 0 n = Inr (v', rx')"
      "agrees n v' xs" "unread k xs u n rx'"
    using recv_step[OF assms(1-3) unread_0, of v n u] assms(4) by auto
  then show ?thesis
    using unread_all[OF travels_bound[OF assms(1)] assms(2,3), of u rx'] assms(4) agrees_all[of xs v']
    by (simp add: recv_ct_lanes_def)
qed

text \<open>The two direct programs wired together: the receiver ends with the outputs.\<close>

lemma direct_programs_run:
  assumes p: "params_ok cs G D disc" and e: "endpoint env (G \<union> D) n" and k: "rf_transport_lanes env = Inr k"
    and d: "length digest = 32" and hs: "connect_rf_lanes env digest k n = Inr hs" and o: "arrival_order k ord"
    and l: "length x = n" "length a = n" "length b = n"
    and v: "\<forall>m \<in> set x \<union> set b. 0 \<le> m \<and> m < cleartext_bound cs"
  shows "\<exists>there home.
    direct_ole_batch_receive env digest cs sk rnd_x x (arrive ord home)
      = Some (Inr (map (\<lambda>m. m mod cleartext_bound cs) (ole_outputs a b x), there)) \<and>
    direct_ole_batch_send env digest disc cs rnd_b a b there = Inr home"
proof -
  let ?pk = "keygen_pk cs sk" and ?cx = "enc_vec cs sk rnd_x x"
  let ?cy = "reply_vec cs sk rnd_b a b ?cx"
  let ?u = "\<lambda>i. if i = 0 then send_u32 0 else []"
  let ?home = "on_lanes k (\<lambda>i. hs ! i @ lane_wire ?cy k i @ [])"
  have kk: "0 < k" "k \<le> 64"
    using rf_transport_lanes_bounds[OF k] by simp_all
  obtain g where g: "greets env digest k n g"
    using lane_greeting[OF hs kk d] .
  note gr = greetsD[OF g]
  let ?there = "on_lanes k (\<lambda>i. with_key ?pk (\<lambda>_. g) i @ lane_wire ?cx k i @ ?u i)"
  obtain c where c: "rf_chunk_size env = Inr c"
    using endpoint_chunk[OF e] .
  have h: "hs = on_lanes k (\<lambda>i. hs ! i)"
    by (rule lanes_nth[OF connect_length[OF hs]])
  have cx: "carries cs G sk x ?cx"
    by (rule enc_vec_carries[OF p])
  have cy: "carries cs G sk (ole_outputs a b x) ?cy"
    using reply_vec_carries[OF p cx] l by simp
  have "direct_receive_loop env cs sk ?pk rnd_x x (on_lanes k (\<lambda>i. lane_wire ?cy k i @ [])) (on_lanes k (with_key ?pk (\<lambda>_. g)))
      = Inr (map (\<lambda>m. m mod cleartext_bound cs) (ole_outputs a b x), on_lanes k (\<lambda>_. []), on_lanes k (then_cts k (with_key ?pk (\<lambda>_. g)) ?cx))"
    using direct_receive_loop_ok[OF p _ _ kk _ cy, of env x env rnd_x "\<lambda>_. []" "with_key ?pk (\<lambda>_. g)"] e l v
    by (simp add: ole_outputs_def)
  moreover have "(on_lanes k (then_cts k (with_key ?pk (\<lambda>_. g)) ?cx))[0 := on_lanes k (then_cts k (with_key ?pk (\<lambda>_. g)) ?cx) ! 0 @ send_u32 0]
      = ?there"
    using kk(1) by (intro nth_equalityI) (auto simp: nth_list_update)
  moreover have "send_pk_lane0 env ?pk (on_lanes k (\<lambda>_. g)) = Inr (on_lanes k (with_key ?pk (\<lambda>_. g)))"
    using send_key[OF e _ kk(1), of ?pk "\<lambda>_. g"] keygen_in_G[OF p] by simp
  ultimately have r: "direct_ole_batch_receive env digest cs sk rnd_x x (arrive ord ?home)
      = Some (Inr (map (\<lambda>m. m mod cleartext_bound cs) (ole_outputs a b x), ?there))"
    using accept_arrived[OF hs kk(2) d o]
    by (simp only: direct_ole_batch_receive_def k c l(1) gr(1) bind_r_simps sum.case option.case map_the_Some Let_def prod.case)
  have cr: "check_replies env digest k n ?there = Inr (on_lanes k (\<lambda>i. with_key ?pk (\<lambda>_. []) i @ lane_wire ?cx k i @ ?u i))"
    by (subst with_key_split) (simp only: append_assoc gr(2))
  have rk: "recv_pk_lane0 env disc (on_lanes k (\<lambda>i. with_key ?pk (\<lambda>_. []) i @ lane_wire ?cx k i @ ?u i)) = Inr (?pk, on_lanes k (\<lambda>i. lane_wire ?cx k i @ ?u i))"
    using keygen_in_G[OF p, of sk] by (intro recv_key[OF e _ _ kk(1)]) auto
  have sl: "direct_send_loop env cs ?pk rnd_b a b (on_lanes k (\<lambda>i. lane_wire ?cx k i @ ?u i)) (on_lanes k (\<lambda>i. hs ! i))
      = Inr (on_lanes k ?u, on_lanes k (then_cts k (\<lambda>i. hs ! i) ?cy))"
    using direct_send_loop_ok[OF p _ _ kk _ cx, of env a env b rnd_b ?u "\<lambda>i. hs ! i"] e l v by simp
  have "recv_u32 (on_lanes k ?u ! 0) = Inr (0, [])"
    using kk(1) by (simp add: recv_u32_iff)
  then have s: "direct_ole_batch_send env digest disc cs rnd_b a b ?there = Inr ?home"
    unfolding direct_ole_batch_send_def l
    by (simp only: throw_if_simps simp_thms k c hs cr rk bind_r_simps prod.case) (subst h, simp only: sl bind_r_simps prod.case, simp)
  show ?thesis
    using r s by blast
qed

lemma batch_programs_run:
  assumes p: "params_ok cs G D disc" and e: "endpoint env (G \<union> D) n" and k: "rf_transport_lanes env = Inr k"
    and d: "length digest = 32" and hs: "connect_rf_lanes env digest k n = Inr hs" and o: "arrival_order k ord"
    and l: "length x = n" "length a = n" "length b = n"
    and v: "\<forall>m \<in> set x \<union> set b. 0 \<le> m \<and> m < cleartext_bound cs"
  shows "\<exists>there home.
    batch_ole_receiver env digest cs sk rnd_x x (arrive ord home)
      = Some (Inr (map (\<lambda>m. m mod cleartext_bound cs) (ole_outputs a b x), there)) \<and>
    batch_ole_sender env digest disc cs rnd_b a b there = Inr home"
proof -
  let ?pk = "keygen_pk cs sk" and ?cx = "enc_vec cs sk rnd_x x"
  let ?cy = "reply_vec cs sk rnd_b a b ?cx" and ?eb = "enc_vec cs sk rnd_b b"
  let ?home = "on_lanes k (then_cts k (\<lambda>i. hs ! i) ?cy)"
  have kk: "0 < k" "k \<le> 64"
    using rf_transport_lanes_bounds[OF k] by simp_all
  obtain g where g: "greets env digest k n g"
    using lane_greeting[OF hs kk d] .
  note gr = greetsD[OF g]
  let ?there = "on_lanes k (then_cts k (with_key ?pk (\<lambda>_. g)) ?cx)"
  have h: "hs = on_lanes k (\<lambda>i. hs ! i)"
    by (rule lanes_nth[OF connect_length[OF hs]])
  have cx: "carries cs G sk x ?cx"
    by (rule enc_vec_carries[OF p])
  have cy: "carries cs G sk (ole_outputs a b x) ?cy"
    using reply_vec_carries[OF p cx] l by simp
  have ov: "over (G \<union> D) ?cx" "over (G \<union> D) ?cy"
    by (rule carries_over[OF p cx], rule carries_over[OF p cy])
  have tr: "travels env env ?cx" "travels env env ?cy"
    using endpoint_travels[of env "G \<union> D" ?cx env] endpoint_travels[of env "G \<union> D" ?cy env] e l ov by simp_all
  have ex: "par_fill (\<lambda>i. encrypt_value cs ?pk (x ! i) (rnd_x i)) 0 n (replicate n null_ct) = Inr ?cx"
    using v l by (intro par_fill_all encrypt_vec_value) auto
  have eb: "par_fill (\<lambda>i. encrypt_value cs ?pk (b ! i) (rnd_b i)) 0 n (replicate n null_ct) = Inr ?eb"
    using v l by (intro par_fill_all encrypt_vec_value) auto
  have ey: "par_fill (\<lambda>i. Inr (ole_reply cs (?cx ! i) (a ! i) (?eb ! i))) 0 n (replicate n null_ct) = Inr ?cy"
    using l by (intro par_fill_all) (auto simp: reply_vec_def)
  have dy: "par_fill (\<lambda>i. Inr (decrypt cs sk (?cy ! i))) 0 n (replicate n 0)
      = Inr (map (\<lambda>m. m mod cleartext_bound cs) (ole_outputs a b x))"
    using decrypt_vec[OF p cy] l by (intro par_fill_all) (auto simp: ole_outputs_def)
  have sk1: "send_pk_lane0 env ?pk (on_lanes k (\<lambda>_. g)) = Inr (on_lanes k (with_key ?pk (\<lambda>_. g)))"
    using send_key[OF e _ kk(1), of ?pk "\<lambda>_. g"] keygen_in_G[OF p] by simp
  have r: "batch_ole_receiver env digest cs sk rnd_x x (arrive ord ?home)
      = Some (Inr (map (\<lambda>m. m mod cleartext_bound cs) (ole_outputs a b x), ?there))"
    using send_ct_lanes_ok[OF e ov(1) kk, of "with_key ?pk (\<lambda>_. g)"] recv_ct_lanes_ok[OF tr(2) kk, of n "replicate n null_ct" "\<lambda>_. []"] l
    by (simp add: batch_ole_receiver_def Let_def k accept_arrived[OF hs kk(2) d o] gr(1) sk1 ex dy o_def)
  have cr: "check_replies env digest k n ?there = Inr (on_lanes k (then_cts k (with_key ?pk (\<lambda>_. [])) ?cx))"
    by (subst with_key_split) (simp only: append_assoc gr(2))
  have rk: "recv_pk_lane0 env disc (on_lanes k (then_cts k (with_key ?pk (\<lambda>_. [])) ?cx)) = Inr (?pk, on_lanes k (lane_wire ?cx k))"
    using keygen_in_G[OF p, of sk] by (intro recv_key[OF e _ _ kk(1)]) auto
  have hs': "send_ct_lanes env (send_ct env) hs ?cy n = Inr ?home"
    by (subst h, rule send_ct_lanes_ok[OF e ov(2) kk]) (simp add: l)
  have s: "batch_ole_sender env digest disc cs rnd_b a b ?there = Inr ?home"
    using recv_ct_lanes_ok[OF tr(1) kk, of n "replicate n null_ct" "\<lambda>_. []"] l
    by (simp add: batch_ole_sender_def Let_def k hs cr rk eb ey hs')
  show ?thesis
    using r s by blast
qed

text \<open>
  C10: The protocol without firewalls. With valid parameters, configuration and inputs, the two
  programs of the direct batched evaluation, whose connections may be accepted in any order, run to
  the end on the byte streams they write to each other, and the receiver returns \<open>a_i x_i + b_i\<close>
  modulo the plaintext bound.
\<close>

theorem direct_ole_correct:
  assumes "params_ok cs G D disc" "endpoint env (G \<union> D) n" "rf_transport_lanes env = Inr k"
    and "length digest = 32" "connect_rf_lanes env digest k n = Inr hs" "arrival_order k ord"
    and "length x = n" "length a = n" "length b = n"
    and "\<forall>m \<in> set x \<union> set b. 0 \<le> m \<and> m < cleartext_bound cs"
  shows "\<exists>there home.
    direct_ole_batch_receive env digest cs sk rnd_x x (arrive ord home)
      = Some (Inr (map (\<lambda>m. m mod cleartext_bound cs) (ole_outputs a b x), there)) \<and>
    direct_ole_batch_send env digest disc cs rnd_b a b there = Inr home"
  using assms by (rule direct_programs_run)

theorem direct_ole_correct_witness:
  "\<exists>there home.
    direct_ole_batch_receive session_env (replicate 32 0) cl23 1 (\<lambda>i. int i) [0, 1, 2] (arrive [1, 0] home)
      = Some (Inr (map (\<lambda>m. m mod cleartext_bound cl23) (ole_outputs [1, 2, 2] [2, 0, 1] [0, 1, 2]), there)) \<and>
    direct_ole_batch_send session_env (replicate 32 0) (- 23) cl23 (\<lambda>i. int i) [1, 2, 2] [2, 0, 1] there = Inr home"
  using direct_ole_correct[OF cl23_params session_endpoint session_env_config(2) _ session_connect,
      of "[1, 0]" "[0, 1, 2]" "[1, 2, 2]" "[2, 0, 1]" 1 "\<lambda>i. int i" "\<lambda>i. int i"]
  by (simp add: arrival_order_def cl23_def lessThan_Suc numeral_2_eq_2 insert_commute)

end
