(* ===== verification/CG_Common.thy ===== *)
theory CG_Common
  imports CG_Config "HOL-Library.Word"
begin

unbundle bit_operations_syntax

text \<open>
  The deterministic generators of \<^verbatim>\<open>cg_common.hpp\<close> and \<^verbatim>\<open>cg_rf_common.hpp\<close>: the 32-bit mixer of
  the reproducible benchmark inputs and the seed expansion behind the public parameters. Machine
  words, with their wrap-around.
\<close>

subsection \<open>The 32-bit mixer\<close>

definition mix32 :: "32 word \<Rightarrow> 32 word" where
  "mix32 x =
     (let x = x XOR drop_bit 16 x; x = x * 0x7feb352d; x = x XOR drop_bit 15 x;
          x = x * 0x846ca68b; x = x XOR drop_bit 16 x in x)"

definition sample16 :: "32 word \<Rightarrow> 32 word \<Rightarrow> 32 word" where
  "sample16 seed i = mix32 (seed + i * 0x9e3779b9) AND 0xFFFF"

subsection \<open>Seed expansion\<close>

text \<open>One round of the xorshift generator, and the 32 bytes handed to the random generator.\<close>

definition xorshift_step :: "64 word \<Rightarrow> 64 word" where
  "xorshift_step x =
     (let x = x XOR drop_bit 12 x; x = x XOR push_bit 25 x; x = x XOR drop_bit 27 x in x)"

fun seed_bytes_from :: "64 word \<Rightarrow> nat \<Rightarrow> nat \<Rightarrow> 8 word list" where
  "seed_bytes_from x i 0 = []"
| "seed_bytes_from x i (Suc k) =
     (let x = xorshift_step x; z = x * 0x2545f4914f6cdd1d
      in ucast (drop_bit ((i mod 8) * 8) z) # seed_bytes_from x (Suc i) k)"

definition make_seeded_benchmark_randgen :: "64 word \<Rightarrow> 64 word \<Rightarrow> 8 word list" where
  "make_seeded_benchmark_randgen seed domain =
     seed_bytes_from (seed XOR (0x9e3779b97f4a7c15 + push_bit 1 domain)) 0 32"

definition make_seeded_common_randgen :: "64 word \<Rightarrow> 64 word \<Rightarrow> 8 word list" where
  "make_seeded_common_randgen seed domain =
     seed_bytes_from (seed XOR (0x9e3779b97f4a7c15 + push_bit 1 domain)) 0 32"

definition cg_public_seed :: "env \<Rightarrow> 64 word result" where
  "cg_public_seed env =
     (case env_value env ''CG_PUBLIC_SEED'' of
        None \<Rightarrow> Inr 0x43475f5055424c49
      | Some v \<Rightarrow> bind_r (cg_parse_u64 (Some v) ''CG_PUBLIC_SEED'' 10) (\<lambda>n. Inr (word_of_nat n)))"

definition cg_common_public_seed :: "env \<Rightarrow> 64 word result" where
  "cg_common_public_seed env =
     (case env_value env ''CG_PUBLIC_SEED'' of
        None \<Rightarrow> Inr 0x43475f5055424c49
      | Some v \<Rightarrow> bind_r (cg_parse_u64 (Some v) ''CG_PUBLIC_SEED'' 10) (\<lambda>n. Inr (word_of_nat n)))"

definition make_public_param_randgen :: "env \<Rightarrow> 8 word list result" where
  "make_public_param_randgen env =
     bind_r (cg_public_seed env) (\<lambda>s. Inr (make_seeded_benchmark_randgen s 0x5055425f5041524d))"

definition make_common_public_param_randgen :: "env \<Rightarrow> 8 word list result" where
  "make_common_public_param_randgen env =
     bind_r (cg_common_public_seed env) (\<lambda>s. Inr (make_seeded_common_randgen s 0x5055425f5041524d))"

subsection \<open>The mixer is a permutation\<close>

lemma xorshift_right_inverse:
  fixes x :: "'a :: len word"
  assumes "LENGTH('a) \<le> 2 * s"
  shows "(x XOR drop_bit s x) XOR drop_bit s (x XOR drop_bit s x) = x"
proof (rule bit_word_eqI)
  fix n assume n: "n < LENGTH('a)"
  have "\<not> bit x (s + s + n)"
    using assms by (intro impossible_bit) simp
  then show "bit ((x XOR drop_bit s x) XOR drop_bit s (x XOR drop_bit s x)) n = bit x n"
    by (auto simp: bit_simps n)
qed

lemma xorshift15_inverse:
  fixes x :: "32 word"
  shows "(let y = x XOR drop_bit 15 x in y XOR drop_bit 15 y XOR drop_bit 30 y) = x"
proof (rule bit_word_eqI)
  fix n assume n: "n < LENGTH(32)"
  have "\<not> bit x (n + 45)"
    by (intro impossible_bit) simp
  then show "bit (let y = x XOR drop_bit 15 x in y XOR drop_bit 15 y XOR drop_bit 30 y) n = bit x n"
    using n by (auto simp: bit_simps Let_def add.commute add.left_commute)
qed

lemma mult_unit_inj:
  fixes x :: "32 word"
  assumes "c * d = 1" "x * c = y * c"
  shows "x = y"
proof -
  have "x * (c * d) = y * (c * d)"
    using assms(2) by (simp only: mult.assoc[symmetric])
  then show ?thesis
    by (simp add: assms(1))
qed

lemma xor16_inj: "(x :: 32 word) XOR drop_bit 16 x = y XOR drop_bit 16 y \<Longrightarrow> x = y"
  using xorshift_right_inverse[of 16 x] xorshift_right_inverse[of 16 y] by simp

lemma xor15_inj: "(x :: 32 word) XOR drop_bit 15 x = y XOR drop_bit 15 y \<Longrightarrow> x = y"
  using xorshift15_inverse[of x] xorshift15_inverse[of y] by (simp add: Let_def)

lemma mix_units: "0x846ca68b * 0x43021123 = (1 :: 32 word)" "0x7feb352d * 0x1d69e2a5 = (1 :: 32 word)"
  by simp_all

lemma mix32_injective: "mix32 x = mix32 y \<Longrightarrow> x = y"
  unfolding mix32_def Let_def
  by (drule xor16_inj, drule mult_unit_inj[OF mix_units(1)], drule xor15_inj, drule mult_unit_inj[OF mix_units(2)],
      drule xor16_inj)

lemma sample16_bound: "unat (sample16 seed i) < 65536"
proof -
  have "sample16 seed i \<le> 0xFFFF"
    unfolding sample16_def by (rule word_and_le1)
  then show ?thesis
    by (simp add: word_le_nat_alt)
qed

subsection \<open>Seed bytes\<close>

lemma length_seed_bytes_from [simp]: "length (seed_bytes_from x i k) = k"
  by (induction k arbitrary: x i) (simp_all add: Let_def)

text \<open>Both families of programs expand the same public seed.\<close>

lemma public_seed_shared: "make_common_public_param_randgen env = make_public_param_randgen env"
  by (simp add: make_common_public_param_randgen_def make_public_param_randgen_def cg_common_public_seed_def
      cg_public_seed_def make_seeded_common_randgen_def make_seeded_benchmark_randgen_def)

subsection \<open>Properties\<close>

text \<open>
  The benchmark's mixer is a permutation of the 32-bit words, so that different indices with
  one seed are never mixed to the same word.
\<close>

theorem mixer_is_permutation: "bij mix32"
proof -
  have "inj mix32"
    using mix32_injective by (rule injI)
  then show ?thesis
    using finite_UNIV_inj_surj[of mix32] by (simp add: bij_def)
qed

text \<open>
  All parties derive the same public parameters: the two code bases expand the public seed of
  one environment to the same 32 bytes, or refuse the same malformed seed.
\<close>

theorem public_parameters_agree:
  "make_common_public_param_randgen env = make_public_param_randgen env \<and>
   (\<forall>bs. make_public_param_randgen env = Inr bs \<longrightarrow> length bs = 32)"
  by (auto simp: public_seed_shared make_public_param_randgen_def make_seeded_benchmark_randgen_def bind_r_Inr_iff)

theorem public_parameters_agree_witness:
  "make_common_public_param_randgen (\<lambda>_. None) = make_public_param_randgen (\<lambda>_. None) \<and>
   length (projr (make_public_param_randgen (\<lambda>_. None))) = 32"
proof -
  have "make_public_param_randgen (\<lambda>_. None) = Inr (make_seeded_benchmark_randgen 0x43475f5055424c49 0x5055425f5041524d)"
    by (simp add: make_public_param_randgen_def cg_public_seed_def env_value_def)
  then show ?thesis
    using public_parameters_agree[of "\<lambda>_. None"] by simp
qed

end
