(* ===== verification/CG_Instance.thy ===== *)
theory CG_Instance
  imports CG_OLE
begin

text \<open>
  A concrete class-group interface of any message space, on which the hypotheses of the protocol
  theorems are checked. Its elements are the reduced forms (2^j, 1, 2^(2(K-1)-j)) for j below K,
  all of one discriminant and all accepted by the wire format; the group law is that of the
  integers modulo K, carried over to them.
\<close>

definition cyc_form :: "nat \<Rightarrow> int \<Rightarrow> qfi" where
  "cyc_form K i = (let j = nat (i mod int K) in \<lparr> qa = 2 ^ j, qb = 1, qc = 2 ^ (2 * (K - 1) - j) \<rparr>)"

fun halvings :: "nat \<Rightarrow> nat" where
  "halvings n = (if n \<le> 1 then 0 else Suc (halvings (n div 2)))"

declare halvings.simps [simp del]

definition cyc_index :: "qfi \<Rightarrow> int" where
  "cyc_index f = int (halvings (nat (qa f)))"

definition cyc :: "nat \<Rightarrow> qfi cl_ops" where
  "cyc K = \<lparr> cl_powG = (\<lambda>f n. cyc_form K (cyc_index f * n)), cl_compG = (\<lambda>f g. cyc_form K (cyc_index f + cyc_index g)),
     cl_powD = (\<lambda>f n. cyc_form K (cyc_index f * n)), cl_compD = (\<lambda>f g. cyc_form K (cyc_index f + cyc_index g)),
     cl_compinvD = (\<lambda>f g. cyc_form K (cyc_index f - cyc_index g)), cl_convert = (\<lambda>f. f),
     cl_powh = cyc_form K, cl_powf = cyc_form K, cl_dlog = cyc_index, cl_compact = False,
     cl_discriminant_ok = (\<lambda>f. discriminant f = 1 - 2 ^ (2 * K)),
     cleartext_bound = int K, secretkey_bound = int K \<rparr>"

definition cyc_forms :: "nat \<Rightarrow> qfi set" where
  "cyc_forms K = range (cyc_form K)"

lemma halvings_power: "halvings (2 ^ j) = j"
proof (induction j)
  case (Suc j)
  have "\<not> (2 :: nat) ^ Suc j \<le> 1"
    using one_less_power[of "2 :: nat" "Suc j"] by simp
  then show ?case
    using Suc by (subst halvings.simps) simp
qed (subst halvings.simps, simp)

lemma cyc_index_form: "0 < K \<Longrightarrow> cyc_index (cyc_form K i) = i mod int K"
  by (simp add: cyc_form_def cyc_index_def Let_def nat_power_eq halvings_power)

lemma cyc_form_cong: "i mod int K = j mod int K \<Longrightarrow> cyc_form K i = cyc_form K j"
  by (simp add: cyc_form_def)

lemma cyc_form_in [simp]: "cyc_form K i \<in> cyc_forms K"
  by (simp add: cyc_forms_def)

lemma cyc_formsE:
  assumes "f \<in> cyc_forms K"
  obtains i where "f = cyc_form K i"
  using assms by (auto simp: cyc_forms_def)

lemma cyc_form_arith [simp]:
  "cyc_form K (i mod int K + j) = cyc_form K (i + j)" "cyc_form K (j + i mod int K) = cyc_form K (j + i)"
  "cyc_form K (i mod int K - j) = cyc_form K (i - j)" "cyc_form K (j - i mod int K) = cyc_form K (j - i)"
  "cyc_form K (i mod int K * j) = cyc_form K (i * j)" "cyc_form K (i mod int K) = cyc_form K i"
  by (rule cyc_form_cong, simp add: mod_simps)+

lemma cyc_discriminant: "0 < K \<Longrightarrow> discriminant (cyc_form K i) = 1 - 2 ^ (2 * K)"
proof -
  assume K: "0 < K"
  define j where "j = nat (i mod int K)"
  have "int j < int K"
    using K by (simp add: j_def)
  then have j: "j \<le> 2 * (K - 1)"
    using K by linarith
  have "(2 :: int) ^ j * 2 ^ (2 * (K - 1) - j) = 2 ^ (2 * (K - 1))"
    using j by (simp flip: power_add)
  moreover have "2 * K = 2 + 2 * (K - 1)"
    using K by linarith
  then have "(2 :: int) ^ (2 * K) = 4 * 2 ^ (2 * (K - 1))"
    by (simp add: power_add)
  ultimately show ?thesis
    by (simp add: discriminant_def cyc_form_def Let_def j_def)
qed

lemma cyc_group:
  assumes "0 < K"
  shows "group_laws (cyc_forms K) (\<lambda>f g. cyc_form K (cyc_index f + cyc_index g)) (\<lambda>f n. cyc_form K (cyc_index f * n))"
  unfolding group_laws_def
  by (intro conjI ballI allI; elim cyc_formsE; simp add: cyc_index_form[OF assms]) (simp_all add: algebra_simps)

lemma cyc_laws:
  assumes "1 < K"
  shows "cl_laws (cyc K) (cyc_forms K) (cyc_forms K)"
proof -
  have K: "0 < K"
    using assms by simp
  have g: "\<exists>h \<in> cyc_forms K. \<forall>n. cyc_form K n = cyc_form K (cyc_index h * n)"
    by (rule bexI[of _ "cyc_form K 1"]) (simp_all add: cyc_index_form[OF K])
  show ?thesis
    unfolding cl_laws_def using cyc_group[OF K] g assms
    by (intro conjI ballI allI; (elim cyc_formsE)?; simp add: cyc_def to_delta_def cyc_index_form[OF K] cyc_discriminant[OF K])
qed

lemma cyc_simps [simp]:
  "cleartext_bound (cyc K) = int K" "secretkey_bound (cyc K) = int K" "cl_compact (cyc K) = False"
  by (simp_all add: cyc_def)

lemma cyc_params:
  assumes "1 < K"
  shows "params_ok (cyc K) (cyc_forms K) (cyc_forms K) (1 - 2 ^ (2 * K))"
  using cyc_laws[OF assms] cyc_discriminant[of K] assms by (auto simp: params_ok_def elim!: cyc_formsE)

lemma power_sendable:
  assumes "mpz_limit env = Inr limit" "Suc e div 8 < limit"
  shows "send_mpz env (2 ^ e) = Inr (mpz_bytes (2 ^ e))" "mpz_ok env (2 ^ e)"
proof -
  have "mpz_sizeinbase2 (2 ^ e) \<le> Suc e"
    using bit_length_le[of "2 ^ e" "Suc e"] by (simp add: mpz_sizeinbase2_def nat_power_eq)
  then have "mpz_sizeinbase2 (2 ^ e) div 8 \<le> Suc e div 8"
    by (rule div_le_mono)
  then show s: "send_mpz env (2 ^ e) = Inr (mpz_bytes (2 ^ e))"
    using assms by (simp add: send_mpz_def)
  show "mpz_ok env (2 ^ e)"
    using send_mpz_ok[OF s] by simp
qed

lemma cyc_form_valid:
  assumes "0 < K"
  shows "qfi_valid (cyc_form K i)"
proof -
  define j where "j = nat (i mod int K)"
  have "int j < int K"
    using assms by (simp add: j_def)
  then have "(2 :: int) ^ j \<le> 2 ^ (2 * (K - 1) - j)"
    by (intro power_increasing) linarith+
  moreover have "1 - (2 :: int) ^ (2 * K) < 0"
    using assms by simp
  then have "\<not> 1 \<ge> (4 :: int) * 2 ^ j * 2 ^ (2 * (K - 1) - j)"
    using cyc_discriminant[OF assms, of i] by (simp add: discriminant_def cyc_form_def Let_def j_def)
  moreover have "(2 :: int) ^ j \<le> 1 \<Longrightarrow> (2 :: int) ^ j = 1"
    using one_le_power[of "2 :: int" j] by linarith
  ultimately show ?thesis
    by (auto simp: qfi_valid_def make_qfi_def cyc_form_def Let_def j_def)
qed

lemma cyc_endpoint:
  assumes "1 < K" "K \<le> 65536" "mpz_limit env = Inr 16384" "\<exists>c. rf_chunk_size env = Inr c" "cg_validate_count env n False = Inr ()"
  shows "endpoint env (cyc_forms K \<union> cyc_forms K) n"
proof -
  have "send_qfi env (cyc_form K i) = Inr (qfi_bytes (cyc_form K i)) \<and> qfi_ok env (cyc_form K i)" for i
  proof -
    define j where "j = nat (i mod int K)"
    have "int j < int K"
      using assms(1) by (simp add: j_def)
    then have "Suc j < 131072" "Suc (2 * (K - 1) - j) < 131072"
      using assms(1,2) by linarith+
    then have "Suc j div 8 < 16384" "Suc (2 * (K - 1) - j) div 8 < 16384"
      by linarith+
    note s = power_sendable[OF assms(3) this(1)] power_sendable[OF assms(3) this(2)]
      power_sendable[OF assms(3), of 0]
    show ?thesis
      using s cyc_form_valid[of K i] assms(1)
      by (simp add: send_qfi_def qfi_ok_def qfi_bytes_def cyc_form_def Let_def j_def[symmetric])
  qed
  then show ?thesis
    using assms(4,5) by (auto simp: endpoint_def elim!: cyc_formsE)
qed

end
