(* ===== verification/CG_Bench.thy ===== *)
theory CG_Bench
  imports CG_Direct CG_Common CG_Instance
begin

text \<open>
  The item-by-item programs of the two-round benchmark: \<^verbatim>\<open>cg_receiver\<close>, \<^verbatim>\<open>cg_rrf\<close>,
  \<^verbatim>\<open>cg_srf\<close> and \<^verbatim>\<open>cg_sender\<close>. One connection per neighbour, no chunks; the inputs are
  the deterministic samples, and the receiver checks its own outputs against them.
\<close>

subsection \<open>Loops over a connection\<close>

definition send_items :: "env \<Rightarrow> ct list \<Rightarrow> byte list \<Rightarrow> byte list result" where
  "send_items env cts tx = bind_r (send_list (send_ct env) cts) (\<lambda>bs. Inr (tx @ bs))"

text \<open>Receive an item, transform it, send it on.\<close>

definition relay_items :: "env \<Rightarrow> (nat \<Rightarrow> ct \<Rightarrow> ct) \<Rightarrow> nat \<Rightarrow> byte list \<Rightarrow> byte list \<Rightarrow> (byte list \<times> byte list) result" where
  "relay_items env f n rx tx =
     fold_r (\<lambda>i (rx, tx).
       bind_r (recv_ct env rx) (\<lambda>(c, rx).
       bind_r (send_ct env (f i c)) (\<lambda>bs. Inr (rx, tx @ bs)))) [0..<n] (rx, tx)"

subsection \<open>The programs\<close>

definition SEED_X :: "32 word" where "SEED_X = 0xaabbccdd"
definition SEED_A :: "32 word" where "SEED_A = 0x1234abcd"
definition SEED_B :: "32 word" where "SEED_B = 0x87654321"

definition sample_value :: "32 word \<Rightarrow> nat \<Rightarrow> int" where
  "sample_value seed i = int (unat (sample16 seed (word_of_nat i)))"

text \<open>The receiver's offline check: every output against \<open>a x + b\<close> modulo the plaintext bound.\<close>

definition verify_outputs :: "qfi cl_ops \<Rightarrow> int list \<Rightarrow> 32 word" where
  "verify_outputs cs results =
     fold (\<lambda>i verified.
       let expected = (sample_value SEED_A i * sample_value SEED_X i + sample_value SEED_B i) mod cleartext_bound cs
       in if results ! i \<noteq> expected then 0 else verified) [0..<length results] 1"

definition cg_receiver ::
  "env \<Rightarrow> qfi cl_ops \<Rightarrow> int \<Rightarrow> (nat \<Rightarrow> int) \<Rightarrow> nat \<Rightarrow> byte list \<Rightarrow> (nat \<times> int list \<times> byte list) result" where
  "cg_receiver env cs sk rnd n_oles rx =
     (let pk = keygen_pk cs sk in
      bind_r (map_r (\<lambda>i. encrypt_value cs pk (sample_value SEED_X i) (rnd i)) [0..<n_oles]) (\<lambda>cx.
      bind_r (send_pk env pk) (\<lambda>pk_bytes.
      bind_r (send_items env cx (send_u64 (word_of_nat n_oles) @ pk_bytes)) (\<lambda>tx.
      bind_r (recv_list (recv_ct env) n_oles rx) (\<lambda>(cy, _).
      let results = map (decrypt cs sk) cy; verified = verify_outputs cs results
      in Inr (if verified = 0 then 1 else 0, results, tx @ send_u32 verified))))))"

text \<open>The exit code, and what was written before it.\<close>

definition cg_sender ::
  "env \<Rightarrow> int \<Rightarrow> qfi cl_ops \<Rightarrow> (nat \<Rightarrow> int) \<Rightarrow> nat \<Rightarrow> byte list \<Rightarrow> (nat \<times> byte list) result" where
  "cg_sender env disc cs rnd n_oles rx =
     bind_r (recv_u64 rx) (\<lambda>(n, rx).
     if unat n \<noteq> n_oles then Inr (1, [])
     else bind_r (recv_pk env disc rx) (\<lambda>(fpk, rx).
       bind_r (map_r (\<lambda>i. encrypt_value cs fpk (sample_value SEED_B i) (rnd i)) [0..<n_oles]) (\<lambda>ub.
       bind_r (relay_items env (\<lambda>i ci. ole_reply cs ci (sample_value SEED_A i) (ub ! i)) n_oles rx []) (\<lambda>(rx, tx).
       bind_r (recv_u32 rx) (\<lambda>(ver, _). Inr (if ver = 1 then 0 else 1, tx))))))"

text \<open>
  The firewalls: the key forwarded at once, the noise of both rounds prepared, then the two
  forwarding loops and the verdict. The first result is the stream towards the receiver, the
  second the one towards the sender.
\<close>

definition cg_rrf ::
  "env \<Rightarrow> int \<Rightarrow> qfi cl_ops \<Rightarrow> int \<Rightarrow> (nat \<Rightarrow> int) \<Rightarrow> (nat \<Rightarrow> int) \<Rightarrow> byte list \<Rightarrow> byte list \<Rightarrow> (byte list \<times> byte list) result" where
  "cg_rrf env disc cs gamma r1 r2 recv_rx srf_rx =
     bind_r (recv_u64 recv_rx) (\<lambda>(n, recv_rx). let n_oles = unat n in
     bind_r (cg_validate_count env n_oles False) (\<lambda>_.
     bind_r (recv_pk env disc recv_rx) (\<lambda>(pk, recv_rx).
     bind_r (maul_pk cs pk gamma) (\<lambda>pk_prime.
     bind_r (send_pk env pk_prime) (\<lambda>pk_bytes.
     let rr1 = map (\<lambda>i. make_enc_zero cs pk_prime (r1 i)) [0..<n_oles];
         rr2 = map (\<lambda>i. make_enc_zero cs pk (r2 i)) [0..<n_oles] in
     bind_r (relay_items env (\<lambda>i ci. maul_fwd_rerand cs ci gamma (rr1 ! i)) n_oles recv_rx (send_u64 n @ pk_bytes))
       (\<lambda>(recv_rx, srf_tx).
     bind_r (relay_items env (\<lambda>i yi. maul_inv_rerand cs yi gamma (rr2 ! i)) n_oles srf_rx []) (\<lambda>(_, recv_tx).
     bind_r (recv_u32 recv_rx) (\<lambda>(ver, _).
     Inr (recv_tx, srf_tx @ send_u32 ver)))))))))"

definition cg_srf ::
  "env \<Rightarrow> int \<Rightarrow> qfi cl_ops \<Rightarrow> int \<Rightarrow> (nat \<Rightarrow> int) \<Rightarrow> (nat \<Rightarrow> int) \<Rightarrow> byte list \<Rightarrow> byte list \<Rightarrow> (byte list \<times> byte list) result" where
  "cg_srf env disc cs rho r1 r2 rrf_rx sender_rx =
     bind_r (recv_u64 rrf_rx) (\<lambda>(n, rrf_rx). let n_oles = unat n in
     bind_r (cg_validate_count env n_oles False) (\<lambda>_.
     bind_r (recv_pk env disc rrf_rx) (\<lambda>(pk_prime, rrf_rx).
     bind_r (maul_pk cs pk_prime rho) (\<lambda>fpk.
     bind_r (send_pk env fpk) (\<lambda>pk_bytes.
     let rr1 = map (\<lambda>i. make_enc_zero cs fpk (r1 i)) [0..<n_oles];
         rr2 = map (\<lambda>i. make_enc_zero cs pk_prime (r2 i)) [0..<n_oles] in
     bind_r (relay_items env (\<lambda>i ci. maul_fwd_rerand cs ci rho (rr1 ! i)) n_oles rrf_rx (send_u64 n @ pk_bytes))
       (\<lambda>(rrf_rx, sender_tx).
     bind_r (relay_items env (\<lambda>i ez. maul_inv_rerand cs ez rho (rr2 ! i)) n_oles sender_rx []) (\<lambda>(_, rrf_tx).
     bind_r (recv_u32 rrf_rx) (\<lambda>(ver, _).
     Inr (rrf_tx, sender_tx @ send_u32 ver)))))))))"

subsection \<open>A session of the four programs\<close>

lemma fold_upt_invariant:
  assumes "P 0 s" "\<And>i s. P i s \<Longrightarrow> i < n \<Longrightarrow> \<exists>s'. f i s = Inr s' \<and> P (Suc i) s'"
  shows "\<exists>s'. fold_r f [0..<n] s = Inr s' \<and> P n s'"
proof -
  have "\<exists>s'. fold_r f [0..<m] s = Inr s' \<and> P m s'" if "m \<le> n" for m
    using that
  proof (induction m)
    case (Suc m)
    then obtain s' where s': "fold_r f [0..<m] s = Inr s'" "P m s'"
      by auto
    then show ?case
      using assms(2)[OF s'(2)] Suc.prems by (auto simp: fold_r_append)
  qed (simp add: assms(1))
  then show ?thesis by simp
qed

lemma relay_items_ok:
  assumes "travels env' env xs" "travels env env ys" "length xs = n" "length ys = n" "\<And>i. i < n \<Longrightarrow> f i (xs ! i) = ys ! i"
  shows "relay_items env f n (ct_wire xs @ u) t = Inr (u, t @ ct_wire ys)"
proof -
  let ?P = "\<lambda>i (rx, tx). rx = ct_wire (drop i xs) @ u \<and> tx = t @ ct_wire (take i ys)"
  let ?f = "\<lambda>i (rx, tx). bind_r (recv_ct env rx) (\<lambda>(c, rx). bind_r (send_ct env (f i c)) (\<lambda>bs. Inr (rx, tx @ bs)))"
  have "\<exists>s'. ?f i s = Inr s' \<and> ?P (Suc i) s'" if p: "?P i s" "i < n" for i s
  proof -
    have x: "xs ! i \<in> set xs" "ys ! i \<in> set ys"
      using p(2) assms(3,4) by simp_all
    have "recv_ct env (ct_bytes (xs ! i) @ r) = Inr (xs ! i, r)" for r
      using assms(1) x(1) by (simp add: ct.dec_iff travels_def)
    moreover have "send_ct env (ys ! i) = Inr (ct_bytes (ys ! i))"
      using assms(2) x(2) by (simp add: travels_def)
    moreover have "drop i xs = xs ! i # drop (Suc i) xs" "take (Suc i) ys = take i ys @ [ys ! i]"
      using p(2) assms(3,4) by (simp_all add: Cons_nth_drop_Suc take_Suc_conv_app_nth)
    ultimately show ?thesis
      using p assms(5)[OF p(2)] by (cases s) auto
  qed
  then have "\<exists>s'. fold_r ?f [0..<n] (ct_wire xs @ u, t) = Inr s' \<and> ?P n s'"
    by (intro fold_upt_invariant) auto
  then show ?thesis
    using assms(3,4) by (auto simp: relay_items_def)
qed

lemma send_items_ok: "travels env env xs \<Longrightarrow> send_items env xs t = Inr (t @ ct_wire xs)"
  by (simp add: send_items_def send_list_def travels_def map_r_Inr_all[where g = ct_bytes])

lemma recv_items_ok: "travels env' env xs \<Longrightarrow> length xs = n \<Longrightarrow> recv_list (recv_ct env) n (ct_wire xs @ u) = Inr (xs, u)"
  by (simp add: ct.recv_list_iff travels_def list_all_iff)

lemma sample_value_range: "0 \<le> sample_value s i \<and> sample_value s i < 65536"
  using sample16_bound[of s "word_of_nat i"] unfolding sample_value_def by linarith

definition sample_vec :: "32 word \<Rightarrow> nat \<Rightarrow> int list" where
  "sample_vec s n = map (sample_value s) [0..<n]"

lemma length_sample_vec [simp]: "length (sample_vec s n) = n"
  by (simp add: sample_vec_def)

lemma verify_outputs_ok:
  "verify_outputs cs (map (\<lambda>m. m mod cleartext_bound cs) (ole_outputs (sample_vec SEED_A n) (sample_vec SEED_B n) (sample_vec SEED_X n))) = 1"
proof -
  let ?ys = "map (\<lambda>m. m mod cleartext_bound cs) (ole_outputs (sample_vec SEED_A n) (sample_vec SEED_B n) (sample_vec SEED_X n))"
  let ?f = "\<lambda>i verified. let expected = (sample_value SEED_A i * sample_value SEED_X i + sample_value SEED_B i) mod cleartext_bound cs
       in if ?ys ! i \<noteq> expected then 0 else verified :: 32 word"
  have "fold ?f is 1 = 1" if "set is \<subseteq> {..<n}" for "is"
    using that by (induction "is") (auto simp: ole_outputs_def sample_vec_def Let_def)
  from this[of "[0..<n]", OF equalityD1] show ?thesis
    by (simp add: verify_outputs_def ole_outputs_def atLeast0LessThan)
qed

lemma encrypt_samples:
  assumes "65536 \<le> cleartext_bound cs"
  shows "map_r (\<lambda>i. encrypt_value cs (keygen_pk cs sk) (sample_value s i) (rnd i)) [0..<n] = Inr (enc_vec cs sk rnd (sample_vec s n))"
proof -
  have "encrypt_value cs (keygen_pk cs sk) (sample_value s i) (rnd i) = Inr (encrypt cs (keygen_pk cs sk) (sample_value s i) (rnd i))" for i
    using sample_value_range[of s i] assms by (intro encrypt_value_ok) auto
  then have "map_r (\<lambda>i. encrypt_value cs (keygen_pk cs sk) (sample_value s i) (rnd i)) [0..<n]
      = Inr (map (\<lambda>i. encrypt cs (keygen_pk cs sk) (sample_value s i) (rnd i)) [0..<n])"
    by (intro map_r_Inr_all) simp
  also have "map (\<lambda>i. encrypt cs (keygen_pk cs sk) (sample_value s i) (rnd i)) [0..<n] = enc_vec cs sk rnd (sample_vec s n)"
    by (auto simp: enc_vec_def sample_vec_def)
  finally show ?thesis .
qed

lemma recv_header:
  assumes "endpoint env (G \<union> D) n" "params_ok cs G D disc"
  shows "recv_u64 (send_u64 w @ s) = Inr (w, s)"
    and "recv_pk env disc (qfi_bytes (keygen_pk cs sk) @ s) = Inr (keygen_pk cs sk, s)"
    and "send_pk env (keygen_pk cs sk) = Inr (qfi_bytes (keygen_pk cs sk))"
    and "recv_u32 (send_u32 v @ s) = Inr (v, s)" "recv_u32 (send_u32 v) = Inr (v, [])"
  using keygen_in_G[OF assms(2), of sk] assms(1)
  by (auto simp: recv_u64_iff recv_u32_iff pk.dec_iff endpoint_def pk_ok_def send_pk_def)

lemma bench_firewall:
  assumes p: "params_ok cs G D disc" and e: "endpoint env (G \<union> D) n" and tr: "travels env env xs" "travels env env ys" "travels env env zs" "travels env env ws"
    and l: "length xs = n" "length ys = n" "length zs = n" "length ws = n"
    and f: "\<And>i. i < n \<Longrightarrow> maul_fwd_rerand cs (xs ! i) r (make_enc_zero cs (keygen_pk cs (sk + r)) (r1 i)) = ys ! i"
    and g: "\<And>i. i < n \<Longrightarrow> maul_inv_rerand cs (zs ! i) r (make_enc_zero cs (keygen_pk cs sk) (r2 i)) = ws ! i"
  shows "cg_rrf env disc cs r r1 r2 (send_u64 (word_of_nat n) @ qfi_bytes (keygen_pk cs sk) @ ct_wire xs @ send_u32 v) (ct_wire zs)
      = Inr (ct_wire ws, send_u64 (word_of_nat n) @ qfi_bytes (keygen_pk cs (sk + r)) @ ct_wire ys @ send_u32 v)"
    and "cg_srf env disc cs r r1 r2 (send_u64 (word_of_nat n) @ qfi_bytes (keygen_pk cs sk) @ ct_wire xs @ send_u32 v) (ct_wire zs)
      = Inr (ct_wire ws, send_u64 (word_of_nat n) @ qfi_bytes (keygen_pk cs (sk + r)) @ ct_wire ys @ send_u32 v)"
proof -
  note h = recv_header[OF e p]
  have n: "unat (word_of_nat n :: 64 word) = n" "cg_validate_count env n False = Inr ()"
    using endpoint_bound[OF e] e by (simp_all add: unat_of_nat endpoint_def)
  have mk: "maul_pk cs (keygen_pk cs sk) r = Inr (keygen_pk cs (sk + r))"
    using p by (intro cg.shift_key[of cs G D]) (simp add: params_ok_def)
  have r1: "relay_items env (\<lambda>i ci. maul_fwd_rerand cs ci r (map (\<lambda>i. make_enc_zero cs (keygen_pk cs (sk + r)) (r1 i)) [0..<n] ! i)) n
      (ct_wire xs @ u) t = Inr (u, t @ ct_wire ys)" for u t
    using f by (intro relay_items_ok[OF tr(1,2) l(1,2)]) simp
  have r2: "relay_items env (\<lambda>i ci. maul_inv_rerand cs ci r (map (\<lambda>i. make_enc_zero cs (keygen_pk cs sk) (r2 i)) [0..<n] ! i)) n
      (ct_wire zs) [] = Inr ([], ct_wire ws)"
    using g relay_items_ok[OF tr(3,4) l(3,4), of "\<lambda>i ci. maul_inv_rerand cs ci r (map (\<lambda>i. make_enc_zero cs (keygen_pk cs sk) (r2 i)) [0..<n] ! i)" "[]" "[]"]
    by simp
  show "cg_rrf env disc cs r r1 r2 (send_u64 (word_of_nat n) @ qfi_bytes (keygen_pk cs sk) @ ct_wire xs @ send_u32 v) (ct_wire zs)
      = Inr (ct_wire ws, send_u64 (word_of_nat n) @ qfi_bytes (keygen_pk cs (sk + r)) @ ct_wire ys @ send_u32 v)"
    by (simp add: cg_rrf_def h mk n r1 r2 Let_def)
  show "cg_srf env disc cs r r1 r2 (send_u64 (word_of_nat n) @ qfi_bytes (keygen_pk cs sk) @ ct_wire xs @ send_u32 v) (ct_wire zs)
      = Inr (ct_wire ws, send_u64 (word_of_nat n) @ qfi_bytes (keygen_pk cs (sk + r)) @ ct_wire ys @ send_u32 v)"
    by (simp add: cg_srf_def h mk n r1 r2 Let_def)
qed

text \<open>What the receiver must obtain, and what travels towards the sender on a link.\<close>

definition bench_results :: "qfi cl_ops \<Rightarrow> nat \<Rightarrow> int list" where
  "bench_results cs n = map (\<lambda>i. (sample_value SEED_A i * sample_value SEED_X i + sample_value SEED_B i) mod cleartext_bound cs) [0..<n]"

definition bench_stream :: "qfi cl_ops \<Rightarrow> nat \<Rightarrow> int \<Rightarrow> ct list \<Rightarrow> byte list" where
  "bench_stream cs n k cts = send_u64 (word_of_nat n) @ qfi_bytes (keygen_pk cs k) @ ct_wire cts @ send_u32 1"

lemma bench_programs_run:
  assumes p: "params_ok cs G D disc" and e: "endpoint env (G \<union> D) n" and q: "65536 \<le> cleartext_bound cs"
  shows "\<exists>c0 c1 c2 c3 c4 c5. length c0 = n \<and> length c1 = n \<and> length c2 = n \<and> length c3 = n \<and> length c4 = n \<and> length c5 = n \<and>
    cg_receiver env cs sk rx n (ct_wire c5) = Inr (0, bench_results cs n, bench_stream cs n sk c0) \<and>
    cg_rrf env disc cs gamma r1 r2 (bench_stream cs n sk c0) (ct_wire c4) = Inr (ct_wire c5, bench_stream cs n (sk + gamma) c1) \<and>
    cg_srf env disc cs rho s1 s2 (bench_stream cs n (sk + gamma) c1) (ct_wire c3) = Inr (ct_wire c4, bench_stream cs n (sk + gamma + rho) c2) \<and>
    cg_sender env disc cs rb n (bench_stream cs n (sk + gamma + rho) c2) = Inr (0, ct_wire c3)"
proof -
  define x a b where "x = sample_vec SEED_X n" and "a = sample_vec SEED_A n" and "b = sample_vec SEED_B n"
  have l: "length x = n" "length a = n" "length b = n"
    by (simp_all add: x_def a_def b_def)
  define c0 where "c0 = enc_vec cs sk rx x"
  define c1 where "c1 = map (\<lambda>i. maul_fwd_rerand cs (c0 ! i) gamma (make_enc_zero cs (keygen_pk cs (sk + gamma)) (r1 i))) [0..<n]"
  define c2 where "c2 = map (\<lambda>i. maul_fwd_rerand cs (c1 ! i) rho (make_enc_zero cs (keygen_pk cs (sk + gamma + rho)) (s1 i))) [0..<n]"
  define c3 where "c3 = reply_vec cs (sk + gamma + rho) rb a b c2"
  define c4 where "c4 = map (\<lambda>i. maul_inv_rerand cs (c3 ! i) rho (make_enc_zero cs (keygen_pk cs (sk + gamma)) (s2 i))) [0..<n]"
  define c5 where "c5 = map (\<lambda>i. maul_inv_rerand cs (c4 ! i) gamma (make_enc_zero cs (keygen_pk cs sk) (r2 i))) [0..<n]"
  have h0: "carries cs G sk x c0"
    unfolding c0_def by (rule enc_vec_carries[OF p])
  have h1: "carries cs G (sk + gamma) x c1"
    unfolding c1_def by (rule maul_fwd_carries[OF p h0 l(1)])
  have h2: "carries cs G (sk + gamma + rho) x c2"
    unfolding c2_def by (rule maul_fwd_carries[OF p h1 l(1)])
  have h3: "carries cs G (sk + gamma + rho) (ole_outputs a b x) c3"
    unfolding c3_def by (rule reply_vec_carries[OF p h2]) (simp_all add: l)
  have lo: "length (ole_outputs a b x) = n"
    by (simp add: ole_outputs_def l)
  have h4: "carries cs G (sk + gamma) (ole_outputs a b x) c4"
    unfolding c4_def by (rule maul_inv_carries[OF p h3 lo])
  have h5: "carries cs G sk (ole_outputs a b x) c5"
    unfolding c5_def by (rule maul_inv_carries[OF p h4 lo])
  have len: "length c0 = n" "length c1 = n" "length c2 = n" "length c3 = n" "length c4 = n" "length c5 = n"
    using carries_length[OF h0] carries_length[OF h1] carries_length[OF h2] carries_length[OF h3] carries_length[OF h4]
      carries_length[OF h5] l lo by simp_all
  have tr: "travels env env c" if "carries cs G k ms c" "length c = n" for k ms c
    using endpoint_travels[of env "G \<union> D" c env] carries_over[OF p that(1)] e that(2) by simp
  note t = tr[OF h0 len(1)] tr[OF h1 len(2)] tr[OF h2 len(3)] tr[OF h3 len(4)] tr[OF h4 len(5)] tr[OF h5 len(6)]
  note hd = recv_header[OF e p]
  let ?hdr = "\<lambda>k. send_u64 (word_of_nat n) @ qfi_bytes (keygen_pk cs k)"
  let ?res = "map (\<lambda>m. m mod cleartext_bound cs) (ole_outputs a b x)"
  have n: "unat (word_of_nat n :: 64 word) = n"
    using endpoint_bound[OF e] by (simp add: unat_of_nat)
  have dec: "map (decrypt cs sk) c5 = ?res"
    using decrypt_vec[OF p h5] len lo by (intro nth_equalityI) auto
  have r: "cg_receiver env cs sk rx n (ct_wire c5) = Inr (0, ?res, ?hdr sk @ ct_wire c0 @ send_u32 1)"
    using recv_items_ok[OF t(6) len(6), of "[]"] verify_outputs_ok[of cs n] send_items_ok[OF t(1), of "?hdr sk"]
    unfolding cg_receiver_def Let_def encrypt_samples[OF q] hd(3) x_def[symmetric] c0_def[symmetric] bind_r_simps
    by (simp add: dec a_def b_def x_def)
  have f: "cg_rrf env disc cs gamma r1 r2 (?hdr sk @ ct_wire c0 @ send_u32 1) (ct_wire c4)
      = Inr (ct_wire c5, ?hdr (sk + gamma) @ ct_wire c1 @ send_u32 1)"
    using bench_firewall(1)[OF p e t(1,2,5,6) len(1,2,5,6), of gamma sk r1 r2 1] by (simp add: c1_def c5_def)
  have g: "cg_srf env disc cs rho s1 s2 (?hdr (sk + gamma) @ ct_wire c1 @ send_u32 1) (ct_wire c3)
      = Inr (ct_wire c4, ?hdr (sk + gamma + rho) @ ct_wire c2 @ send_u32 1)"
    using bench_firewall(2)[OF p e t(2,3,4,5) len(2,3,4,5), of rho "sk + gamma" s1 s2 1] by (simp add: c2_def c4_def)
  have rel: "relay_items env (\<lambda>i ci. ole_reply cs ci (sample_value SEED_A i) (enc_vec cs (sk + gamma + rho) rb b ! i)) n
      (ct_wire c2 @ send_u32 1) [] = Inr (send_u32 1, ct_wire c3)"
    using relay_items_ok[OF t(3,4) len(3,4), of "\<lambda>i ci. ole_reply cs ci (sample_value SEED_A i) (enc_vec cs (sk + gamma + rho) rb b ! i)" "send_u32 1" "[]"]
    by (simp add: c3_def reply_vec_def l a_def sample_vec_def)
  have s: "cg_sender env disc cs rb n (?hdr (sk + gamma + rho) @ ct_wire c2 @ send_u32 1) = Inr (0, ct_wire c3)"
    using rel by (simp add: cg_sender_def hd n encrypt_samples[OF q] b_def[symmetric])
  have res: "?res = bench_results cs n"
    by (simp add: bench_results_def ole_outputs_def x_def a_def b_def sample_vec_def)
  show ?thesis
    using r[unfolded res] f g s by (intro exI conjI) (use len in \<open>simp_all add: bench_stream_def\<close>)
qed

end
