(* ===== verification/CG_Channel.thy ===== *)
theory CG_Channel
  imports CG_Direct
begin

text \<open>
  The interface between the polynomial protocols and the batched oblivious evaluation they run
  on: a receiving call, a sending call, and the network between them. The contract is that for
  admissible counts and inputs there are streams on which both calls return and the receiver gets
  the evaluations. The direct programs and the programs behind the two firewalls provide it.
\<close>

definition affine_values :: "int \<Rightarrow> int list \<Rightarrow> int list \<Rightarrow> int list \<Rightarrow> int list" where
  "affine_values q a b x = map (\<lambda>i. (a ! i * x ! i + b ! i) mod q) [0..<length x]"

locale ole_channel =
  fixes bound :: int
    and ok :: "nat \<Rightarrow> bool"
    and recv :: "int list \<Rightarrow> 'r \<Rightarrow> (int list \<times> 't) result option"
    and send :: "int list \<Rightarrow> int list \<Rightarrow> 's \<Rightarrow> 'u result"
    and net :: "'t \<Rightarrow> 'u \<Rightarrow> 'r \<Rightarrow> 's \<Rightarrow> bool"
  assumes run: "ok n \<Longrightarrow> length x = n \<Longrightarrow> length a = n \<Longrightarrow> length b = n \<Longrightarrow> \<forall>m \<in> set x \<union> set b. 0 \<le> m \<and> m < bound \<Longrightarrow>
      \<exists>t u r s. net t u r s \<and> recv x r = Some (Inr (affine_values bound a b x, t)) \<and> send a b s = Inr u"
    and bound_pos: "ok n \<Longrightarrow> 0 < bound \<and> 0 < n"
begin

text \<open>A client that works on one value gets one value.\<close>

lemma run_single:
  assumes "ok 1" "0 \<le> x" "x < bound" "0 \<le> b" "b < bound"
  shows "\<exists>t u r s. net t u r s \<and> recv [x] r = Some (Inr ([(a * x + b) mod bound], t)) \<and> send [a] [b] s = Inr u"
  using run[OF assms(1), of "[x]" "[a]" "[b]"] assms(2-5) by (simp add: affine_values_def)

end

subsection \<open>The direct channel\<close>

definition channel_ready :: "qfi cl_ops \<Rightarrow> qfi set \<Rightarrow> qfi set \<Rightarrow> int \<Rightarrow> env \<Rightarrow> byte list \<Rightarrow> nat \<Rightarrow> nat \<Rightarrow> bool" where
  "channel_ready cs G D disc env digest k n \<longleftrightarrow>
     params_ok cs G D disc \<and> endpoint env (G \<union> D) n \<and> rf_transport_lanes env = Inr k \<and> length digest = 32 \<and>
     (\<exists>hs. connect_rf_lanes env digest k n = Inr hs)"

definition direct_ready where
  "direct_ready cs G D disc env digest k ord n \<longleftrightarrow> channel_ready cs G D disc env digest k n \<and> arrival_order k ord"

definition direct_net :: "nat list \<Rightarrow> lanes \<Rightarrow> lanes \<Rightarrow> byte list list \<Rightarrow> lanes \<Rightarrow> bool" where
  "direct_net ord there home r s \<longleftrightarrow> r = arrive ord home \<and> s = there"

lemma affine_outputs: "map (\<lambda>m. m mod q) (ole_outputs a b x) = affine_values q a b x"
  by (simp add: ole_outputs_def affine_values_def)

lemma channel_ready_bound:
  assumes "channel_ready cs G D disc env digest k n"
  shows "0 < cleartext_bound cs \<and> 0 < n"
  using assms endpoint_bound[of env "G \<union> D" n] cl_lawsD(11)[of cs G D] by (auto simp: channel_ready_def params_ok_def)

interpretation direct_channel: ole_channel "cleartext_bound cs" "direct_ready cs G D disc env digest k ord"
    "direct_ole_batch_receive env digest cs sk rx" "direct_ole_batch_send env digest disc cs rs" "direct_net ord"
  for cs G D disc env digest k ord sk rx rs
proof unfold_locales
  fix n and x a b :: "int list"
  assume r: "direct_ready cs G D disc env digest k ord n" and l: "length x = n" "length a = n" "length b = n"
    and v: "\<forall>m \<in> set x \<union> set b. 0 \<le> m \<and> m < cleartext_bound cs"
  then obtain hs where c: "params_ok cs G D disc" "endpoint env (G \<union> D) n" "rf_transport_lanes env = Inr k"
      "length digest = 32" "connect_rf_lanes env digest k n = Inr hs" "arrival_order k ord"
    by (auto simp: direct_ready_def channel_ready_def)
  show "\<exists>t u r s. direct_net ord t u r s \<and>
      direct_ole_batch_receive env digest cs sk rx x r = Some (Inr (affine_values (cleartext_bound cs) a b x, t)) \<and>
      direct_ole_batch_send env digest disc cs rs a b s = Inr u"
    using direct_programs_run[OF c l v, of sk rx rs] by (auto simp: direct_net_def affine_outputs)
next
  show "0 < cleartext_bound cs \<and> 0 < n" if "direct_ready cs G D disc env digest k ord n" for n
    using that channel_ready_bound by (auto simp: direct_ready_def)
qed

subsection \<open>The channel through the firewalls\<close>

definition rf_ready where
  "rf_ready cs G D disc env digest k ord1 ord2 ord3 n \<longleftrightarrow> channel_ready cs G D disc env digest k n \<and>
     required_env_size env ''CG_RF_EXPECTED_N'' = Inr n \<and> arrival_order k ord1 \<and> arrival_order k ord2 \<and> arrival_order k ord3"

text \<open>The scalars, random values, clocks and switches of the two firewall programs.\<close>

record firewall_inputs =
  fw_prof :: bool
  fw_clock :: "nat \<Rightarrow> int"
  fw_scalar :: int
  fw_round1 :: "nat \<Rightarrow> int"
  fw_round2 :: "nat \<Rightarrow> int"

definition run_receiver_firewall where
  "run_receiver_firewall env digest disc cs f =
     rf_receiver_firewall_opa env digest disc (fw_prof f) (fw_clock f) cs (fw_scalar f) (fw_round1 f) (fw_round2 f)"

definition run_sender_firewall where
  "run_sender_firewall env digest disc cs f =
     rf_sender_firewall_opa env digest disc (fw_prof f) (fw_clock f) cs (fw_scalar f) (fw_round1 f) (fw_round2 f)"

definition rf_net ::
  "env \<Rightarrow> byte list \<Rightarrow> int \<Rightarrow> qfi cl_ops \<Rightarrow> firewall_inputs \<Rightarrow> firewall_inputs \<Rightarrow> nat list \<Rightarrow> nat list \<Rightarrow> nat list
   \<Rightarrow> lanes \<Rightarrow> lanes \<Rightarrow> byte list list \<Rightarrow> lanes \<Rightarrow> bool" where
  "rf_net env digest disc cs f g ord1 ord2 ord3 rec_rfr sen_rfs r s \<longleftrightarrow>
     (\<exists>rfr_rec rfr_rfs rfs_rfr rfs_sen.
        run_receiver_firewall env digest disc cs f rec_rfr (arrive ord2 rfs_rfr) = Some (Inr (rfr_rec, rfr_rfs)) \<and>
        run_sender_firewall env digest disc cs g rfr_rfs (arrive ord3 sen_rfs) = Some (Inr (rfs_rfr, rfs_sen)) \<and>
        r = arrive ord1 rfr_rec \<and> s = rfs_sen)"


text \<open>Neither the clock nor the profiling switch of a firewall matters.\<close>

lemma profiling_irrelevant:
  "rf_receiver_firewall_opa env digest disc prof clk cs r r1 r2 rx conns = rf_receiver_firewall_opa env digest disc False (\<lambda>_. 0) cs r r1 r2 rx conns"
  "rf_sender_firewall_opa env digest disc prof clk cs r r1 r2 rx conns = rf_sender_firewall_opa env digest disc False (\<lambda>_. 0) cs r r1 r2 rx conns"
proof -
  have "maul_fwd_step cs prof clk r = maul_fwd_step cs False (\<lambda>_. 0) r" "maul_inv_step cs prof clk r = maul_inv_step cs False (\<lambda>_. 0) r"
    by (intro ext, simp)+
  then have "firewall_round1 env prof clk cs pk r = firewall_round1 env False (\<lambda>_. 0) cs pk r"
    "firewall_round2 env prof clk cs pk r = firewall_round2 env False (\<lambda>_. 0) cs pk r" for pk
    by (intro ext, simp add: firewall_round1_def firewall_round2_def)+
  then show "rf_receiver_firewall_opa env digest disc prof clk cs r r1 r2 rx conns = rf_receiver_firewall_opa env digest disc False (\<lambda>_. 0) cs r r1 r2 rx conns"
    "rf_sender_firewall_opa env digest disc prof clk cs r r1 r2 rx conns = rf_sender_firewall_opa env digest disc False (\<lambda>_. 0) cs r r1 r2 rx conns"
    by (simp_all only: rf_receiver_firewall_opa_def rf_sender_firewall_opa_def)
qed

interpretation rf_channel: ole_channel "cleartext_bound cs" "rf_ready cs G D disc env digest k ord1 ord2 ord3"
    "rf_ole_batch_receive env digest cs sk rx" "rf_ole_batch_send env digest disc cs rs" "rf_net env digest disc cs f g ord1 ord2 ord3"
  for cs G D disc env digest k ord1 ord2 ord3 sk rx rs f g
proof unfold_locales
  fix n and x a b :: "int list"
  assume r: "rf_ready cs G D disc env digest k ord1 ord2 ord3 n" and l: "length x = n" "length a = n" "length b = n"
    and v: "\<forall>m \<in> set x \<union> set b. 0 \<le> m \<and> m < cleartext_bound cs"
  then obtain hs where c: "params_ok cs G D disc" "endpoint env (G \<union> D) n" "rf_transport_lanes env = Inr k"
      "required_env_size env ''CG_RF_EXPECTED_N'' = Inr n" "length digest = 32" "connect_rf_lanes env digest k n = Inr hs"
      "arrival_order k ord1" "arrival_order k ord2" "arrival_order k ord3"
    by (auto simp: rf_ready_def channel_ready_def)
  define rnd where "rnd = (!) [rx, fw_round1 f, fw_round1 g, rs, fw_round2 g, fw_round2 f]"
  have n: "rnd 0 = rx" "rnd 1 = fw_round1 f" "rnd 2 = fw_round1 g" "rnd 3 = rs" "rnd 4 = fw_round2 g" "rnd 5 = fw_round2 f"
    by (simp_all add: rnd_def)
  show "\<exists>t u r s. rf_net env digest disc cs f g ord1 ord2 ord3 t u r s \<and>
      rf_ole_batch_receive env digest cs sk rx x r = Some (Inr (affine_values (cleartext_bound cs) a b x, t)) \<and>
      rf_ole_batch_send env digest disc cs rs a b s = Inr u"
    using rf_ole_programs_run[OF c l v, of sk rnd False "\<lambda>_. 0" "fw_scalar f" "fw_scalar g", unfolded n affine_outputs]
    unfolding rf_net_def run_receiver_firewall_def run_sender_firewall_def
      profiling_irrelevant[of _ _ _ "fw_prof f"] profiling_irrelevant[of _ _ _ "fw_prof g"]
    by blast
next
  show "0 < cleartext_bound cs \<and> 0 < n" if "rf_ready cs G D disc env digest k ord1 ord2 ord3 n" for n
    using that channel_ready_bound by (auto simp: rf_ready_def)
qed

end
