(* ===== verification/CG_OPE.thy ===== *)
theory CG_OPE
  imports CG_Channel CG_PolyOps CG_Instance
begin

text \<open>
  Oblivious polynomial evaluation (\<^verbatim>\<open>cg_ope_common.hpp\<close> and the four OPE programs): the sender
  turns the Horner recurrence into masked affine steps, one oblivious evaluation each, the
  receiver folds the outputs. The masks are an argument.
\<close>

subsection \<open>Field helpers\<close>

definition mod_q :: "int \<Rightarrow> int \<Rightarrow> int" where
  "mod_q x q = x mod q"

definition add_mod :: "int \<Rightarrow> int \<Rightarrow> int \<Rightarrow> int" where
  "add_mod a b q = mod_q (a + b) q"

definition sub_mod :: "int \<Rightarrow> int \<Rightarrow> int \<Rightarrow> int" where
  "sub_mod a b q = mod_q (a - b) q"

definition mul_mod :: "int \<Rightarrow> int \<Rightarrow> int \<Rightarrow> int" where
  "mul_mod a b q = mod_q (a * b) q"

definition eval_poly_horner :: "int list \<Rightarrow> int \<Rightarrow> int \<Rightarrow> int" where
  "eval_poly_horner coeffs alpha q =
     (if coeffs = [] then 0
      else fold (\<lambda>idx acc. mod_q (acc * alpha + coeffs ! idx) q) (rev [0..<length coeffs - 1]) (mod_q (last coeffs) q))"

subsection \<open>The two halves of the protocol\<close>

text \<open>The state of the loop: the two output vectors and the previous mask.\<close>

definition ope_mask_step :: "int list \<Rightarrow> int \<Rightarrow> (nat \<Rightarrow> int) \<Rightarrow> nat \<Rightarrow> int list \<times> int list \<times> int \<Rightarrow> int list \<times> int list \<times> int" where
  "ope_mask_step coeffs q rho i st =
     (case st of (a_vals, b_vals, s_prev) \<Rightarrow>
        (a_vals[i - 1 := s_prev], b_vals[i - 1 := sub_mod (coeffs ! (length coeffs - 1 - i)) (rho i) q], rho i))"

definition build_ope_sender_ole_inputs :: "int list \<Rightarrow> int \<Rightarrow> (nat \<Rightarrow> int) \<Rightarrow> (int list \<times> int list) result" where
  "build_ope_sender_ole_inputs coeffs q rho =
     (if length coeffs < 2 then Inl (Runtime_error ''OPE requires degree >= 1'')
      else let d = length coeffs - 1 in
        case fold (ope_mask_step coeffs q rho) [1..<d] (replicate d 0, replicate d 0, coeffs ! d) of
          (a_vals, b_vals, s_prev) \<Rightarrow> Inr (a_vals[d - 1 := s_prev], b_vals[d - 1 := coeffs ! 0]))"

definition finish_ope_receiver :: "int list \<Rightarrow> int \<Rightarrow> int \<Rightarrow> int result" where
  "finish_ope_receiver y_vals alpha q =
     (if y_vals = [] then Inl (Runtime_error ''OPE requires at least one OLE output'')
      else let s_b = fold (\<lambda>i s_b. add_mod (y_vals ! i) (mul_mod alpha s_b q) q) [0..<length y_vals - 1] 0
        in Inr (add_mod (last y_vals) (mul_mod alpha s_b q) q))"

subsection \<open>The programs\<close>

text \<open>
  After their arguments are read: the degree check, the oblivious evaluations at one point, the
  final fold. The evaluation call is the parameter in which the direct and the firewalled program
  differ.
\<close>

definition ope_receive_via ::
  "(int list \<Rightarrow> 'r \<Rightarrow> (int list \<times> 't) result option) \<Rightarrow> int \<Rightarrow> nat \<Rightarrow> int \<Rightarrow> 'r \<Rightarrow> (int \<times> 't) result option" where
  "ope_receive_via ole q degree alpha rx =
     (if degree = 0 then Some (Inl (Runtime_error ''degree must be at least 1''))
      else map_option (\<lambda>res. bind_r res (\<lambda>(y_vals, tx).
        bind_r (finish_ope_receiver y_vals alpha q) (\<lambda>out. Inr (out, tx)))) (ole (replicate degree alpha) rx))"

definition ope_send_via ::
  "(int list \<Rightarrow> int list \<Rightarrow> 's \<Rightarrow> 'u result) \<Rightarrow> int \<Rightarrow> (nat \<Rightarrow> int) \<Rightarrow> nat \<Rightarrow> int list \<Rightarrow> 's \<Rightarrow> 'u result" where
  "ope_send_via ole q rho degree coeffs rx =
     (if degree = 0 then Inl (Runtime_error ''degree must be at least 1'')
      else if length coeffs \<noteq> degree + 1 then Inl (Runtime_error ''expected degree+1 coefficients'')
      else bind_r (build_ope_sender_ole_inputs coeffs q rho) (\<lambda>(a_vals, b_vals). ole a_vals b_vals rx))"

definition ope_receiver where
  "ope_receiver env digest cs sk rx = ope_receive_via (direct_ole_batch_receive env digest cs sk rx) (cleartext_bound cs)"

definition ope_sender where
  "ope_sender env digest disc cs rs = ope_send_via (direct_ole_batch_send env digest disc cs rs) (cleartext_bound cs)"

definition rf_ope_receiver where
  "rf_ope_receiver env digest cs sk rx = ope_receive_via (rf_ole_batch_receive env digest cs sk rx) (cleartext_bound cs)"

definition rf_ope_sender where
  "rf_ope_sender env digest disc cs rs = ope_send_via (rf_ole_batch_send env digest disc cs rs) (cleartext_bound cs)"

subsection \<open>What the sender's vectors are\<close>

lemmas ope_field_defs = mod_q_def add_mod_def sub_mod_def mul_mod_def

text \<open>The mask before step \<open>i\<close>, and the two vectors in closed form.\<close>

definition prev_mask :: "int list \<Rightarrow> (nat \<Rightarrow> int) \<Rightarrow> nat \<Rightarrow> int" where
  "prev_mask coeffs rho i = (if i = 0 then last coeffs else rho i)"

definition ope_b :: "int list \<Rightarrow> int \<Rightarrow> (nat \<Rightarrow> int) \<Rightarrow> nat \<Rightarrow> int" where
  "ope_b coeffs q rho i = (coeffs ! (length coeffs - 2 - i) - rho (Suc i)) mod q"

lemma ope_mask_loop:
  assumes "d = length coeffs - 1" "2 \<le> length coeffs" "Suc m \<le> d"
  shows "fold (ope_mask_step coeffs q rho) [1..<Suc m] (replicate d 0, replicate d 0, coeffs ! d)
    = (map (prev_mask coeffs rho) [0..<m] @ replicate (d - m) 0,
       map (ope_b coeffs q rho) [0..<m] @ replicate (d - m) 0, prev_mask coeffs rho m)"
  using assms(3)
proof (induction m)
  case 0
  have "coeffs \<noteq> []"
    using assms(2) by auto
  then show ?case
    by (simp add: prev_mask_def last_conv_nth assms(1))
next
  case (Suc m)
  have r: "replicate (d - m) (0 :: int) = 0 # replicate (d - Suc m) 0"
    using Suc.prems by (cases "d - m") (auto simp: Suc_diff_Suc[symmetric] simp flip: replicate_Suc)
  have "length coeffs - 1 - Suc m = length coeffs - 2 - m"
    using assms by simp
  then show ?case
    using Suc by (simp add: ope_mask_step_def r list_update_append prev_mask_def ope_b_def ope_field_defs)
qed

lemma build_ope_spec:
  assumes "2 \<le> length coeffs" "d = length coeffs - 1"
  shows "build_ope_sender_ole_inputs coeffs q rho
    = Inr (map (prev_mask coeffs rho) [0..<d], map (ope_b coeffs q rho) [0..<d - 1] @ [coeffs ! 0])"
proof -
  have "d \<noteq> 0"
    using assms by simp
  then obtain m where m: "d = Suc m"
    using not0_implies_Suc by blast
  have l: "fold (ope_mask_step coeffs q rho) [1..<d] (replicate d 0, replicate d 0, coeffs ! d)
      = (map (prev_mask coeffs rho) [0..<m] @ [0], map (ope_b coeffs q rho) [0..<m] @ [0], prev_mask coeffs rho m)"
    using ope_mask_loop[OF assms(2,1), of m q rho] m by simp
  show ?thesis
    using assms(1) unfolding build_ope_sender_ole_inputs_def Let_def assms(2)[symmetric] l
    by (simp add: m list_update_append)
qed

subsection \<open>Correctness\<close>

text \<open>The Horner values of the leading coefficients.\<close>

primrec horner_prefix :: "int list \<Rightarrow> int \<Rightarrow> nat \<Rightarrow> int" where
  "horner_prefix coeffs alpha 0 = last coeffs"
| "horner_prefix coeffs alpha (Suc i) = horner_prefix coeffs alpha i * alpha + coeffs ! (length coeffs - 2 - i)"

lemma drop_last: "xs \<noteq> [] \<Longrightarrow> drop (length xs - 1) xs = [last xs]"
  by (cases xs rule: rev_cases) simp_all

lemma horner_prefix_peval:
  assumes "i < length coeffs"
  shows "horner_prefix coeffs alpha i = peval (drop (length coeffs - 1 - i) coeffs) alpha"
  using assms
proof (induction i)
  case 0
  then have "coeffs \<noteq> []" by auto
  then have "drop (length coeffs - 1) coeffs = [last coeffs]"
    by (rule drop_last)
  then show ?case by simp
next
  case (Suc i)
  have "drop (length coeffs - 1 - Suc i) coeffs = coeffs ! (length coeffs - 2 - i) # drop (length coeffs - 1 - i) coeffs"
    using Suc.prems Cons_nth_drop_Suc[of "length coeffs - 2 - i" coeffs] by (simp add: Suc_diff_Suc)
  then show ?case
    using Suc by (simp add: mult.commute)
qed

lemma horner_prefix_all: "coeffs \<noteq> [] \<Longrightarrow> horner_prefix coeffs alpha (length coeffs - 1) = peval coeffs alpha"
  by (simp add: horner_prefix_peval)

lemma eval_poly_horner_eq: "eval_poly_horner coeffs alpha q = peval coeffs alpha mod q"
proof (cases "coeffs = []")
  case False
  have "fold (\<lambda>idx acc. mod_q (acc * alpha + coeffs ! idx) q) (rev [n..<n + m]) (mod_q (peval (drop (n + m) coeffs) alpha) q)
      = peval (drop n coeffs) alpha mod q" if "n + m < length coeffs" for n m
    using that
  proof (induction m)
    case (Suc m)
    have "drop (n + m) coeffs = coeffs ! (n + m) # drop (Suc (n + m)) coeffs"
      using Suc.prems by (simp add: Cons_nth_drop_Suc)
    then have "mod_q (mod_q (peval (drop (Suc (n + m)) coeffs) alpha) q * alpha + coeffs ! (n + m)) q
        = mod_q (peval (drop (n + m) coeffs) alpha) q"
      by (simp add: ope_field_defs algebra_simps) (metis mod_add_right_eq mod_mult_right_eq)
    then show ?case
      using Suc by simp
  qed (simp add: ope_field_defs)
  from this[of 0 "length coeffs - 1"] show ?thesis
    using False drop_last[OF False] by (simp add: eval_poly_horner_def)
qed (simp add: eval_poly_horner_def)



definition ope_out :: "int list \<Rightarrow> int \<Rightarrow> (nat \<Rightarrow> int) \<Rightarrow> int \<Rightarrow> nat \<Rightarrow> int" where
  "ope_out coeffs q rho alpha i =
     (prev_mask coeffs rho i * alpha + (if i = length coeffs - 2 then coeffs ! 0 else ope_b coeffs q rho i)) mod q"

lemma ope_values:
  assumes "2 \<le> length coeffs" "d = length coeffs - 1"
  shows "affine_values q (map (prev_mask coeffs rho) [0..<d]) (map (ope_b coeffs q rho) [0..<d - 1] @ [coeffs ! 0]) (replicate d alpha)
    = map (ope_out coeffs q rho alpha) [0..<d]"
  using assms by (auto simp: affine_values_def ope_out_def nth_append intro!: nth_equalityI)

text \<open>The receiver's state plus the mask is the Horner value.\<close>

lemma finish_ope_loop:
  assumes "2 \<le> length coeffs" "d = length coeffs - 1" "m \<le> d - 1" "y = map (ope_out coeffs q rho alpha) [0..<d]"
  shows "(fold (\<lambda>i s_b. add_mod (y ! i) (mul_mod alpha s_b q) q) [0..<m] 0 + prev_mask coeffs rho m) mod q
    = horner_prefix coeffs alpha m mod q"
  using assms(3)
proof (induction m)
  case (Suc m)
  define s where "s = fold (\<lambda>i s_b. add_mod (y ! i) (mul_mod alpha s_b q) q) [0..<m] 0"
  let ?p = "prev_mask coeffs rho m" and ?c = "coeffs ! (length coeffs - 2 - m)"
  have y: "y ! m = (?p * alpha + ope_b coeffs q rho m) mod q"
    using Suc.prems assms(1,2,4) by (simp add: ope_out_def)
  have "(add_mod (y ! m) (mul_mod alpha s q) q + rho (Suc m)) mod q = ((s + ?p) * alpha + ?c) mod q"
    by (simp add: y ope_field_defs ope_b_def mod_simps) (simp add: algebra_simps)
  also have "\<dots> = (horner_prefix coeffs alpha m * alpha + ?c) mod q"
    using Suc by (intro mod_cong_add mod_cong_mult) (simp_all add: s_def)
  finally show ?case
    by (simp add: s_def prev_mask_def)
qed (simp add: prev_mask_def)

lemma finish_ope_ok:
  assumes "2 \<le> length coeffs" "d = length coeffs - 1"
  shows "finish_ope_receiver (map (ope_out coeffs q rho alpha) [0..<d]) alpha q = Inr (peval coeffs alpha mod q)"
proof -
  define y where "y = map (ope_out coeffs q rho alpha) [0..<d]"
  define s where "s = fold (\<lambda>i s_b. add_mod (y ! i) (mul_mod alpha s_b q) q) [0..<d - 1] 0"
  let ?p = "prev_mask coeffs rho (d - 1)"
  have d: "d \<noteq> 0" "d - 1 = length coeffs - 2" "coeffs \<noteq> []" "y \<noteq> []" "length y = d"
    using assms by (auto simp: y_def)
  have l: "last y = (?p * alpha + coeffs ! 0) mod q"
    using d by (simp add: last_conv_nth) (simp add: y_def ope_out_def)
  have "length coeffs - 2 - (d - 1) = 0" "Suc (d - 1) = length coeffs - 1"
    using assms by simp_all
  then have h: "horner_prefix coeffs alpha (d - 1) * alpha + coeffs ! 0 = peval coeffs alpha"
    using horner_prefix_all[OF d(3), of alpha] by (metis horner_prefix.simps(2))
  have "(last y + mul_mod alpha s q) mod q = ((s + ?p) * alpha + coeffs ! 0) mod q"
    by (simp add: l ope_field_defs mod_simps) (simp add: algebra_simps)
  also have "\<dots> = (horner_prefix coeffs alpha (d - 1) * alpha + coeffs ! 0) mod q"
    using finish_ope_loop[OF assms order_refl y_def] by (intro mod_cong_add mod_cong_mult) (simp_all add: s_def)
  finally show ?thesis
    using d(4,5) h unfolding finish_ope_receiver_def Let_def y_def[symmetric] d(5) s_def[symmetric]
    by (simp add: add_mod_def mod_q_def)
qed

text \<open>Over any channel that meets the contract the receiver ends with the value of the polynomial.\<close>

context ole_channel begin

lemma ope_run:
  assumes "ok degree" "length coeffs = degree + 1" "0 \<le> alpha" "alpha < bound" "0 \<le> coeffs ! 0" "coeffs ! 0 < bound"
  shows "\<exists>t u r s. net t u r s \<and> ope_receive_via recv bound degree alpha r = Some (Inr (peval coeffs alpha mod bound, t)) \<and>
    ope_send_via send bound rho degree coeffs s = Inr u"
proof -
  have b: "0 < bound" "0 < degree"
    using bound_pos[OF assms(1)] by simp_all
  have l: "2 \<le> length coeffs" "degree = length coeffs - 1"
    using assms(2) b by simp_all
  let ?a = "map (prev_mask coeffs rho) [0..<degree]" and ?b = "map (ope_b coeffs bound rho) [0..<degree - 1] @ [coeffs ! 0]"
  have "\<forall>m \<in> set (replicate degree alpha) \<union> set ?b. 0 \<le> m \<and> m < bound"
    using assms(3-6) b by (auto simp: ope_b_def)
  from run[OF assms(1) _ _ _ this, of ?a] obtain t u r s where
      "net t u r s" "recv (replicate degree alpha) r = Some (Inr (affine_values bound ?a ?b (replicate degree alpha), t))" "send ?a ?b s = Inr u"
    using b by auto
  then show ?thesis
    using b assms(2) build_ope_spec[OF l, of bound rho] ope_values[OF l, of bound rho alpha] finish_ope_ok[OF l, of bound rho alpha]
    by (fastforce simp: ope_receive_via_def ope_send_via_def)
qed

end

subsection \<open>What the receiver learns\<close>

text \<open>A triangular system of masked equations has exactly one reduced solution.\<close>

lemma mask_unique: "0 < q \<Longrightarrow> 0 \<le> t \<Longrightarrow> t < q \<Longrightarrow> (0 \<le> r \<and> r < q \<and> (k - r) mod q = t) \<longleftrightarrow> r = (k - t) mod (q :: int)"
proof
  assume q: "0 < q" "0 \<le> t" "t < q"
  show "r = (k - t) mod q" if "0 \<le> r \<and> r < q \<and> (k - r) mod q = t"
  proof -
    have "(k - t) mod q = (k - (k - r)) mod q"
      using that by (metis mod_diff_right_eq)
    then show ?thesis
      using that by simp
  qed
  show "0 \<le> r \<and> r < q \<and> (k - r) mod q = t" if "r = (k - t) mod q"
    using that q by (simp add: mod_diff_right_eq)
qed

lemma triangular_unique:
  assumes "0 < q" "\<forall>i < m. 0 \<le> t i \<and> t i < (q :: int)"
  shows "\<exists>!rs. length rs = m \<and> (\<forall>i < m. 0 \<le> rs ! i \<and> rs ! i < q \<and> (k i (take i rs) - rs ! i) mod q = t i)"
  using assms(2)
proof (induction m)
  case (Suc m)
  let ?P = "\<lambda>m rs. length rs = m \<and> (\<forall>i < m. 0 \<le> rs ! i \<and> rs ! i < q \<and> (k i (take i rs) - rs ! i) mod q = t i)"
  have "\<exists>!rs. ?P m rs"
    using Suc by simp
  then obtain rs where rs: "?P m rs" "\<And>rs'. ?P m rs' \<Longrightarrow> rs' = rs"
    by (rule ex1E) blast
  have step: "?P (Suc m) xs \<longleftrightarrow> (\<exists>ys r. xs = ys @ [r] \<and> ?P m ys \<and> r = (k m ys - t m) mod q)" for xs
  proof
    assume p: "?P (Suc m) xs"
    then have x: "xs = take m xs @ [xs ! m]" "length (take m xs) = m"
      by (auto simp: take_Suc_conv_app_nth[symmetric])
    moreover have "?P m (take m xs)"
      using p by (auto simp: min_def)
    moreover have "xs ! m = (k m (take m xs) - t m) mod q"
      using p mask_unique[OF assms(1), of "t m" "xs ! m" "k m (take m xs)"] Suc.prems by auto
    ultimately show "\<exists>ys r. xs = ys @ [r] \<and> ?P m ys \<and> r = (k m ys - t m) mod q"
      by blast
  next
    assume "\<exists>ys r. xs = ys @ [r] \<and> ?P m ys \<and> r = (k m ys - t m) mod q"
    then obtain ys r where y: "xs = ys @ [r]" "?P m ys" "r = (k m ys - t m) mod q"
      by blast
    then show "?P (Suc m) xs"
      using mask_unique[OF assms(1), of "t m" r "k m ys"] Suc.prems by (auto simp: nth_append less_Suc_eq)
  qed
  show ?case
    unfolding step using rs by (intro ex1I[of _ "rs @ [(k m rs - t m) mod q]"]) blast+
qed auto


lemma ope_first_outputs:
  assumes "2 \<le> length coeffs" "length rs = length coeffs - 2" "i < length coeffs - 2"
  shows "ope_out coeffs q (\<lambda>i. rs ! (i - 1)) alpha i
    = ((if i = 0 then last coeffs else last (take i rs)) * alpha + coeffs ! (length coeffs - 2 - i) - rs ! i) mod q"
proof -
  have "last (take i rs) = rs ! (i - 1)" if "i \<noteq> 0"
  proof -
    have "take i rs \<noteq> []"
      using that assms by auto
    then show ?thesis
      using that assms by (simp add: last_conv_nth)
  qed
  then show ?thesis
    using assms by (simp add: ope_out_def prev_mask_def ope_b_def mod_simps algebra_simps)
qed

subsection \<open>Properties\<close>

text \<open>
  Oblivious polynomial evaluation through both firewalls. For a polynomial of positive degree
  with constant term in the field and a point in the field, the receiver's program, the sender's
  program and the two firewalls between them run to the end, and the receiver's output is the value
  of the polynomial at its point, whatever masks the sender draws.
\<close>

theorem rf_ope_correct:
  assumes "rf_ready cs G D disc env digest k ord1 ord2 ord3 degree" "length coeffs = degree + 1"
    and "0 \<le> alpha" "alpha < cleartext_bound cs" "0 \<le> coeffs ! 0" "coeffs ! 0 < cleartext_bound cs"
  shows "\<exists>t u r s. rf_net env digest disc cs f g ord1 ord2 ord3 t u r s \<and>
    rf_ope_receiver env digest cs sk rx degree alpha r = Some (Inr (eval_poly_horner coeffs alpha (cleartext_bound cs), t)) \<and>
    rf_ope_sender env digest disc cs rs rho degree coeffs s = Inr u"
  unfolding rf_ope_receiver_def rf_ope_sender_def eval_poly_horner_eq by (rule rf_channel.ope_run[OF assms])

lemma session_arrivals: "arrival_order 2 [1, 0]" "arrival_order 2 [0, 1]"
  by (auto simp: arrival_order_def)

lemma session_ready: "rf_ready cl23 forms23 forms23 (- 23) session_env (replicate 32 0) 2 [1, 0] [0, 1] [1, 0] 3"
  using cl23_params session_endpoint session_env_config session_connect session_arrivals
  by (simp add: rf_ready_def channel_ready_def)

definition demo_firewall :: firewall_inputs where
  "demo_firewall = \<lparr> fw_prof = True, fw_clock = int, fw_scalar = 2, fw_round1 = int, fw_round2 = int \<rparr>"

theorem rf_ope_correct_witness:
  "\<exists>t u r s. rf_net session_env (replicate 32 0) (- 23) cl23 demo_firewall demo_firewall [1, 0] [0, 1] [1, 0] t u r s \<and>
    rf_ope_receiver session_env (replicate 32 0) cl23 1 int 3 2 r = Some (Inr (eval_poly_horner [1, 2, 0, 1] 2 (cleartext_bound cl23), t)) \<and>
    rf_ope_sender session_env (replicate 32 0) (- 23) cl23 int int 3 [1, 2, 0, 1] s = Inr u"
  by (rule rf_ope_correct[OF session_ready]) (simp_all add: cl23_def)

text \<open>The same without firewalls.\<close>

lemma direct_ope_correct:
  assumes "direct_ready cs G D disc env digest k ord degree" "length coeffs = degree + 1"
    and "0 \<le> alpha" "alpha < cleartext_bound cs" "0 \<le> coeffs ! 0" "coeffs ! 0 < cleartext_bound cs"
  shows "\<exists>t u r s. direct_net ord t u r s \<and>
    ope_receiver env digest cs sk rx degree alpha r = Some (Inr (eval_poly_horner coeffs alpha (cleartext_bound cs), t)) \<and>
    ope_sender env digest disc cs rs rho degree coeffs s = Inr u"
  unfolding ope_receiver_def ope_sender_def eval_poly_horner_eq by (rule direct_channel.ope_run[OF assms])

text \<open>
  C19: The receiver learns only the value. For every polynomial and point, each vector of reduced
  values arises as the intermediate outputs of exactly one choice of reduced masks: with uniform
  masks the intermediate outputs are uniform and independent of the polynomial.
\<close>

theorem ope_masks_hide:
  assumes "2 \<le> length coeffs" "0 < q" "length t = length coeffs - 2" "set t \<subseteq> {0..<q}"
  shows "\<exists>!rs. length rs = length coeffs - 2 \<and> set rs \<subseteq> {0..<q} \<and>
    (\<exists>a b. build_ope_sender_ole_inputs coeffs q (\<lambda>i. rs ! (i - 1)) = Inr (a, b) \<and>
       take (length coeffs - 2) (affine_values q a b (replicate (length coeffs - 1) alpha)) = t)"
proof -
  let ?m = "length coeffs - 2"
  let ?k = "\<lambda>i xs. (if i = 0 then last coeffs else last xs) * alpha + coeffs ! (length coeffs - 2 - i)"
  have "(\<exists>a b. build_ope_sender_ole_inputs coeffs q (\<lambda>i. rs ! (i - 1)) = Inr (a, b) \<and>
       take ?m (affine_values q a b (replicate (length coeffs - 1) alpha)) = t)
     \<longleftrightarrow> (\<forall>i < ?m. (?k i (take i rs) - rs ! i) mod q = t ! i)" if rs: "length rs = ?m" for rs
  proof -
    have "take ?m (map (ope_out coeffs q (\<lambda>i. rs ! (i - 1)) alpha) [0..<length coeffs - 1])
        = map (ope_out coeffs q (\<lambda>i. rs ! (i - 1)) alpha) [0..<?m]"
      by (simp add: take_map)
    moreover have "map (ope_out coeffs q (\<lambda>i. rs ! (i - 1)) alpha) [0..<?m] = t
        \<longleftrightarrow> (\<forall>i < ?m. (?k i (take i rs) - rs ! i) mod q = t ! i)"
      using ope_first_outputs[OF assms(1) rs] assms(3) by (simp add: list_eq_iff_nth_eq)
    moreover have "(\<exists>a b. build_ope_sender_ole_inputs coeffs q (\<lambda>i. rs ! (i - 1)) = Inr (a, b) \<and>
        take ?m (affine_values q a b (replicate (length coeffs - 1) alpha)) = t)
      \<longleftrightarrow> take ?m (map (ope_out coeffs q (\<lambda>i. rs ! (i - 1)) alpha) [0..<length coeffs - 1]) = t"
      unfolding build_ope_spec[OF assms(1) refl] ope_values[OF assms(1) refl, symmetric] by blast
    ultimately show ?thesis
      by simp
  qed
  then have "(length rs = ?m \<and> set rs \<subseteq> {0..<q} \<and>
    (\<exists>a b. build_ope_sender_ole_inputs coeffs q (\<lambda>i. rs ! (i - 1)) = Inr (a, b) \<and>
       take ?m (affine_values q a b (replicate (length coeffs - 1) alpha)) = t))
    \<longleftrightarrow> length rs = ?m \<and> (\<forall>i < ?m. 0 \<le> rs ! i \<and> rs ! i < q \<and> (?k i (take i rs) - rs ! i) mod q = t ! i)" for rs
    by (cases "length rs = ?m") (auto simp: subset_eq all_set_conv_all_nth)
  moreover have "\<forall>i < ?m. 0 \<le> t ! i \<and> t ! i < q"
    using assms(3,4) by (auto simp: subset_eq all_set_conv_all_nth)
  ultimately show ?thesis
    using triangular_unique[OF assms(2), of ?m "(!) t" ?k] by simp
qed

theorem ope_masks_hide_witness:
  "\<exists>!rs. length rs = length [1, 2, 3, 4 :: int] - 2 \<and> set rs \<subseteq> {0..<97} \<and>
    (\<exists>a b. build_ope_sender_ole_inputs [1, 2, 3, 4] 97 (\<lambda>i. rs ! (i - 1)) = Inr (a, b) \<and>
       take (length [1, 2, 3, 4 :: int] - 2) (affine_values 97 a b (replicate (length [1, 2, 3, 4 :: int] - 1) 5)) = [6, 7])"
  by (rule ope_masks_hide) simp_all

end
