(* ===== verification/CG_OPA.thy ===== *)
theory CG_OPA
  imports CG_OPE CG_PolyFacts
begin

text \<open>
  Oblivious polynomial addition (\<^verbatim>\<open>cg_opa.hpp\<close>, \<^verbatim>\<open>cg_rf_opa.hpp\<close> and the four OPA programs): both
  parties evaluate their polynomials at the public points and run one batch of oblivious
  evaluations, so that the receiver holds \<open>b(alpha_i) + a(alpha_i) x(alpha_i)\<close>.
\<close>

subsection \<open>The calls\<close>

record opa_result =
  or_alpha :: "int list"
  or_input_evals :: "int list"
  or_y_vals :: "int list"
  or_q :: int

record opa_send_evals =
  os_alpha :: "int list"
  os_b_vals :: "int list"
  os_a_vals :: "int list"
  os_q :: int

text \<open>The public points and the values of one polynomial at them.\<close>

definition opa_points :: "poly_cfg \<Rightarrow> nat \<Rightarrow> int \<Rightarrow> int list result" where
  "opa_points cfg n_pts q =
     bind_r (require_public_eval_points_distinct n_pts q) (\<lambda>_. rf_opa_eval_points (pc_env cfg) n_pts q)"

definition opa_receive_via ::
  "(int list \<Rightarrow> 'r \<Rightarrow> (int list \<times> 't) result option) \<Rightarrow> poly_cfg \<Rightarrow> nat \<Rightarrow> int list \<Rightarrow> int \<Rightarrow> 'r \<Rightarrow> (opa_result \<times> 't) result option" where
  "opa_receive_via ole cfg n_pts coeffs q rx =
     (case bind_r (opa_points cfg n_pts q) (\<lambda>alpha.
           bind_r (poly_eval_batch_auto cfg coeffs alpha q) (\<lambda>x_vals. Inr (alpha, x_vals))) of
        Inl err \<Rightarrow> Some (Inl err)
      | Inr (alpha, x_vals) \<Rightarrow> map_option (\<lambda>res. bind_r res (\<lambda>(y_vals, tx).
          Inr (\<lparr> or_alpha = alpha, or_input_evals = x_vals, or_y_vals = y_vals, or_q = q \<rparr>, tx))) (ole x_vals rx))"

definition opa_send_via ::
  "(int list \<Rightarrow> int list \<Rightarrow> 's \<Rightarrow> 'u result) \<Rightarrow> poly_cfg \<Rightarrow> nat \<Rightarrow> int list \<Rightarrow> int list \<Rightarrow> int \<Rightarrow> 's \<Rightarrow> (opa_send_evals \<times> 'u) result" where
  "opa_send_via ole cfg n_pts b_poly a_poly q rx =
     bind_r (opa_points cfg n_pts q) (\<lambda>alpha.
     bind_r (poly_eval_batch_auto cfg b_poly alpha q) (\<lambda>b_vals.
     bind_r (poly_eval_batch_auto cfg a_poly alpha q) (\<lambda>a_vals.
     bind_r (ole a_vals b_vals rx) (\<lambda>tx.
     Inr (\<lparr> os_alpha = alpha, os_b_vals = b_vals, os_a_vals = a_vals, os_q = q \<rparr>, tx)))))"

definition opa_receive_with_q where
  "opa_receive_with_q cfg digest cs sk rx = opa_receive_via (direct_ole_batch_receive (pc_env cfg) digest cs sk rx) cfg"

definition opa_receive where
  "opa_receive cfg digest cs sk rx n_pts coeffs = opa_receive_with_q cfg digest cs sk rx n_pts coeffs (cleartext_bound cs)"

definition opa_send_with_q where
  "opa_send_with_q cfg digest disc cs rs = opa_send_via (direct_ole_batch_send (pc_env cfg) digest disc cs rs) cfg"

definition opa_send where
  "opa_send cfg digest disc cs rs n_pts b_poly a_poly = opa_send_with_q cfg digest disc cs rs n_pts b_poly a_poly (cleartext_bound cs)"

definition rf_opa_receive_with_q where
  "rf_opa_receive_with_q cfg digest cs sk rx = opa_receive_via (rf_ole_batch_receive (pc_env cfg) digest cs sk rx) cfg"

definition rf_opa_receive where
  "rf_opa_receive cfg digest cs sk rx n_pts coeffs = rf_opa_receive_with_q cfg digest cs sk rx n_pts coeffs (cleartext_bound cs)"

definition rf_opa_send_with_q where
  "rf_opa_send_with_q cfg digest disc cs rs = opa_send_via (rf_ole_batch_send (pc_env cfg) digest disc cs rs) cfg"

definition rf_opa_send where
  "rf_opa_send cfg digest disc cs rs n_pts b_poly a_poly = rf_opa_send_with_q cfg digest disc cs rs n_pts b_poly a_poly (cleartext_bound cs)"

subsection \<open>The programs after their inputs are read\<close>

text \<open>The coefficient counts are checked; the sender draws its mask polynomial of degree \<open>d\<close>.\<close>

definition random_poly :: "nat \<Rightarrow> (nat \<Rightarrow> int) \<Rightarrow> int list" where
  "random_poly degree rnd = map rnd [0..<degree + 1]"


subsection \<open>Correctness\<close>

definition opa_values :: "int \<Rightarrow> int list \<Rightarrow> int list \<Rightarrow> int list \<Rightarrow> int list \<Rightarrow> int list" where
  "opa_values q b a x alpha = map (\<lambda>t. (peval b t + peval a t * peval x t) mod q) alpha"

text \<open>A configuration in which \<open>n\<close> public points exist and polynomials can be evaluated at them.\<close>

definition points_ok :: "poly_cfg \<Rightarrow> int \<Rightarrow> nat \<Rightarrow> bool" where
  "points_ok cfg q n \<longleftrightarrow> cfg_ok cfg q \<and> 1 < q \<and> n < 2 ^ 31 \<and> int n \<le> q \<and>
     (\<exists>t. poly_eval_auto_horner_max_points (pc_env cfg) = Inr t) \<and> poly_eval_method_env (pc_env cfg) \<noteq> ''ntt''"

lemma opa_points_ok:
  assumes "points_ok cfg q n"
  shows "\<exists>alpha. opa_points cfg n q = Inr alpha \<and> length alpha = n \<and> rf_opa_eval_points (pc_env cfg) n q = Inr alpha \<and>
    (\<forall>f. length f < 2 ^ 31 \<longrightarrow> poly_eval_batch_auto cfg f alpha q = Inr (map (\<lambda>t. peval f t mod q) alpha))"
proof -
  have "n < size_limit"
    using assms by (simp add: points_ok_def size_limit_def)
  then obtain alpha where a: "public_eval_points (pc_env cfg) n q = Inr alpha" "length alpha = n"
    using public_eval_points_ok by blast
  then have "eval_ok cfg q f alpha" if "length f < 2 ^ 31" for f
    using assms that by (simp add: points_ok_def eval_ok_def tree_eval_ok_def)
  then show ?thesis
    using a assms auto_values by (simp add: opa_points_def require_public_eval_points_distinct_def rf_opa_eval_points_def
        points_ok_def pvalue_eq)
qed

lemma affine_mod: "((u mod q) * (v mod q) + w mod q) mod q = (w + u * v) mod (q :: int)"
  using mod_add_cong[OF mod_mult_eq[of u q v] mod_mod_trivial[of w q]] by (simp only: add.commute)

context ole_channel begin

lemma opa_run:
  assumes "ok n" "points_ok cfg bound n" "length x < 2 ^ 31" "length b < 2 ^ 31" "length a < 2 ^ 31"
  shows "\<exists>alpha t u r s. rf_opa_eval_points (pc_env cfg) n bound = Inr alpha \<and> length alpha = n \<and> net t u r s \<and>
    opa_receive_via recv cfg n x bound r = Some (Inr (\<lparr> or_alpha = alpha,
      or_input_evals = map (\<lambda>t. peval x t mod bound) alpha, or_y_vals = opa_values bound b a x alpha, or_q = bound \<rparr>, t)) \<and>
    opa_send_via send cfg n b a bound s = Inr (\<lparr> os_alpha = alpha, os_b_vals = map (\<lambda>t. peval b t mod bound) alpha,
      os_a_vals = map (\<lambda>t. peval a t mod bound) alpha, os_q = bound \<rparr>, u)"
proof -
  obtain alpha where al: "opa_points cfg n bound = Inr alpha" "length alpha = n" "rf_opa_eval_points (pc_env cfg) n bound = Inr alpha"
      "\<And>f. length f < 2 ^ 31 \<Longrightarrow> poly_eval_batch_auto cfg f alpha bound = Inr (map (\<lambda>t. peval f t mod bound) alpha)"
    using opa_points_ok[OF assms(2)] by blast
  let ?v = "\<lambda>f. map (\<lambda>t. peval f t mod bound) alpha"
  have "\<forall>m \<in> set (?v x) \<union> set (?v b). 0 \<le> m \<and> m < bound"
    using bound_pos[OF assms(1)] by auto
  from run[OF assms(1) _ _ _ this, of "?v a"] al(2) obtain t u r s where c: "net t u r s"
      "recv (?v x) r = Some (Inr (affine_values bound (?v a) (?v b) (?v x), t))" "send (?v a) (?v b) s = Inr u"
    by auto
  have "affine_values bound (?v a) (?v b) (?v x) = opa_values bound b a x alpha"
    by (rule nth_equalityI) (simp_all add: affine_values_def opa_values_def affine_mod)
  with c have "opa_receive_via recv cfg n x bound r = Some (Inr (\<lparr> or_alpha = alpha, or_input_evals = ?v x,
      or_y_vals = opa_values bound b a x alpha, or_q = bound \<rparr>, t))"
    by (simp add: opa_receive_via_def al(1) al(4)[OF assms(3)])
  moreover have "opa_send_via send cfg n b a bound s = Inr (\<lparr> os_alpha = alpha, os_b_vals = ?v b, os_a_vals = ?v a, os_q = bound \<rparr>, u)"
    using c(3) by (simp add: opa_send_via_def al(1) al(4)[OF assms(4)] al(4)[OF assms(5)])
  ultimately show ?thesis
    using al(2,3) c(1) by blast
qed

end

definition session_cfg :: poly_cfg where
  "session_cfg = \<lparr> pc_env = session_env, pc_ntl = None \<rparr>"

lemma session_cfg_env [simp]: "pc_env session_cfg = session_env"
  by (simp add: session_cfg_def)

lemma session_points: "points_ok session_cfg 3 3"
  by (simp add: points_ok_def cfg_ok_def session_cfg_def ntt_poly_threshold_def ntl_poly_threshold_def env_value_def
      session_env_def poly_eval_auto_horner_max_points_def poly_eval_method_env_def)

text \<open>
  Oblivious polynomial addition through both firewalls. Sender and receiver evaluate their
  polynomials at the public points of the message space; the receiver ends with the points, the
  values of its polynomial and \<open>b(alpha_i) + a(alpha_i) x(alpha_i)\<close> for the sender's polynomials, the
  sender with the values of its own.
\<close>

theorem rf_opa_correct:
  assumes "rf_ready cs G D disc (pc_env cfg) digest k ord1 ord2 ord3 n" "points_ok cfg (cleartext_bound cs) n"
    and "length x < 2 ^ 31" "length b < 2 ^ 31" "length a < 2 ^ 31"
  shows "\<exists>alpha t u r s. rf_opa_eval_points (pc_env cfg) n (cleartext_bound cs) = Inr alpha \<and> length alpha = n \<and>
    rf_net (pc_env cfg) digest disc cs f g ord1 ord2 ord3 t u r s \<and>
    rf_opa_receive_with_q cfg digest cs sk rx n x (cleartext_bound cs) r = Some (Inr (\<lparr> or_alpha = alpha,
      or_input_evals = map (\<lambda>t. peval x t mod cleartext_bound cs) alpha, or_y_vals = opa_values (cleartext_bound cs) b a x alpha,
      or_q = cleartext_bound cs \<rparr>, t)) \<and>
    rf_opa_send_with_q cfg digest disc cs rs n b a (cleartext_bound cs) s = Inr (\<lparr> os_alpha = alpha,
      os_b_vals = map (\<lambda>t. peval b t mod cleartext_bound cs) alpha, os_a_vals = map (\<lambda>t. peval a t mod cleartext_bound cs) alpha,
      os_q = cleartext_bound cs \<rparr>, u)"
  unfolding rf_opa_receive_with_q_def rf_opa_send_with_q_def by (rule rf_channel.opa_run[OF assms])

theorem rf_opa_correct_witness:
  "\<exists>alpha t u r s. rf_opa_eval_points (pc_env session_cfg) 3 (cleartext_bound cl23) = Inr alpha \<and> length alpha = 3 \<and>
    rf_net (pc_env session_cfg) (replicate 32 0) (- 23) cl23 demo_firewall demo_firewall [1, 0] [0, 1] [1, 0] t u r s \<and>
    rf_opa_receive_with_q session_cfg (replicate 32 0) cl23 1 int 3 [2, 1] (cleartext_bound cl23) r = Some (Inr (\<lparr> or_alpha = alpha,
      or_input_evals = map (\<lambda>t. peval [2, 1] t mod cleartext_bound cl23) alpha,
      or_y_vals = opa_values (cleartext_bound cl23) [1, 0, 1] [1, 1] [2, 1] alpha, or_q = cleartext_bound cl23 \<rparr>, t)) \<and>
    rf_opa_send_with_q session_cfg (replicate 32 0) (- 23) cl23 int 3 [1, 0, 1] [1, 1] (cleartext_bound cl23) s = Inr (\<lparr> os_alpha = alpha,
      os_b_vals = map (\<lambda>t. peval [1, 0, 1] t mod cleartext_bound cl23) alpha,
      os_a_vals = map (\<lambda>t. peval [1, 1] t mod cleartext_bound cl23) alpha, os_q = cleartext_bound cl23 \<rparr>, u)"
  by (rule rf_opa_correct) (use session_ready session_points in \<open>simp_all add: cl23_def\<close>)

text \<open>The same without firewalls.\<close>

lemma direct_opa_correct:
  assumes "direct_ready cs G D disc (pc_env cfg) digest k ord n" "points_ok cfg (cleartext_bound cs) n"
    and "length x < 2 ^ 31" "length b < 2 ^ 31" "length a < 2 ^ 31"
  shows "\<exists>alpha t u r s. rf_opa_eval_points (pc_env cfg) n (cleartext_bound cs) = Inr alpha \<and> length alpha = n \<and> direct_net ord t u r s \<and>
    opa_receive_with_q cfg digest cs sk rx n x (cleartext_bound cs) r = Some (Inr (\<lparr> or_alpha = alpha,
      or_input_evals = map (\<lambda>t. peval x t mod cleartext_bound cs) alpha, or_y_vals = opa_values (cleartext_bound cs) b a x alpha,
      or_q = cleartext_bound cs \<rparr>, t)) \<and>
    opa_send_with_q cfg digest disc cs rs n b a (cleartext_bound cs) s = Inr (\<lparr> os_alpha = alpha,
      os_b_vals = map (\<lambda>t. peval b t mod cleartext_bound cs) alpha, os_a_vals = map (\<lambda>t. peval a t mod cleartext_bound cs) alpha,
      os_q = cleartext_bound cs \<rparr>, u)"
  unfolding opa_receive_with_q_def opa_send_with_q_def by (rule direct_channel.opa_run[OF assms])

end
