(* ===== verification/CG_Text.thy ===== *)
theory CG_Text
  imports CG_Config
begin

text \<open>
  Text files as the programs read and write them: extraction of words and unsigned numbers from a
  stream, lines, the decimal form of a count, the text form of a big integer (an argument, since it
  is the big-number library's), and a file system as a map from paths to contents.
\<close>

subsection \<open>Input streams\<close>

text \<open>
  A stream is the text not yet read, or nothing once an extraction has failed; extractions from a
  failed stream fail and leave their variable as it was.
\<close>

type_synonym istream = "string option"

definition is_space :: "char \<Rightarrow> bool" where
  "is_space c \<longleftrightarrow> of_char c \<in> {9, 10, 11, 12, 13, 32 :: nat}"

definition read_word :: "string \<Rightarrow> istream \<Rightarrow> string \<times> istream" where
  "read_word old s =
     (case map_option (dropWhile is_space) s of
        Some (c # t) \<Rightarrow> (takeWhile (Not \<circ> is_space) (c # t), Some (dropWhile (Not \<circ> is_space) (c # t)))
      | _ \<Rightarrow> (old, None))"

definition strip_sign :: "string \<Rightarrow> bool \<times> string" where
  "strip_sign s = (case s of c # t \<Rightarrow> if c = CHR ''-'' then (True, t) else if c = CHR ''+'' then (False, t) else (False, s) | [] \<Rightarrow> (False, s))"

definition read_size :: "istream \<Rightarrow> nat \<times> istream" where
  "read_size s =
     (case s of None \<Rightarrow> (0, None) | Some u \<Rightarrow>
        let (neg, t) = strip_sign (dropWhile is_space u); v = digits_value 10 0 (takeWhile is_digit t) in
        if takeWhile is_digit t = [] then (0, None)
        else if size_limit \<le> v then (size_limit - 1, None)
        else ((if neg then sz_sub 0 v else v), Some (dropWhile is_digit t)))"

text \<open>The words of a text: what the loop \<^verbatim>\<open>while (in >> token)\<close> sees.\<close>

function words_of :: "string \<Rightarrow> string list" where
  "words_of s =
     (let t = dropWhile is_space s in
      if t = [] then [] else takeWhile (Not \<circ> is_space) t # words_of (dropWhile (Not \<circ> is_space) t))"
  by auto
termination
proof (relation "measure length")
  fix s t assume t: "t = dropWhile is_space s" "t \<noteq> []"
  obtain c u where u: "t = c # u"
    using t(2) by (cases t) auto
  then have "\<not> is_space c"
    using t hd_dropWhile[of is_space s] by simp
  then have "length (dropWhile (Not \<circ> is_space) t) \<le> length u"
    by (simp add: u length_dropWhile_le)
  moreover have "length t \<le> length s"
    by (simp add: t length_dropWhile_le)
  ultimately show "(dropWhile (Not \<circ> is_space) t, s) \<in> measure length"
    by (simp add: u)
qed simp

declare words_of.simps [simp del]

text \<open>The lines \<^verbatim>\<open>std::getline\<close> delivers.\<close>

fun lines_from :: "string \<Rightarrow> string \<Rightarrow> string list" where
  "lines_from cur [] = (if cur = [] then [] else [cur])"
| "lines_from cur (c # s) = (if c = CHR 0x0A then cur # lines_from [] s else lines_from (cur @ [c]) s)"

subsection \<open>Printing\<close>

definition digit_char :: "nat \<Rightarrow> char" where
  "digit_char d = char_of (48 + d)"

fun show_nat :: "nat \<Rightarrow> string" where
  "show_nat n = (if n < 10 then [digit_char n] else show_nat (n div 10) @ [digit_char (n mod 10)])"

declare show_nat.simps [simp del]

text \<open>
  The conversions of the big-number library between integers and text, and what its manual says of
  them: printed integers are single words that read back.
\<close>

record gmp_io =
  io_print :: "int \<Rightarrow> string"
  io_parse :: "string \<Rightarrow> int option"

definition is_word :: "string \<Rightarrow> bool" where
  "is_word w \<longleftrightarrow> w \<noteq> [] \<and> list_all (Not \<circ> is_space) w"

definition gmp_documented :: "gmp_io \<Rightarrow> bool" where
  "gmp_documented io \<longleftrightarrow> (\<forall>x. io_parse io (io_print io x) = Some x \<and> is_word (io_print io x))"

definition mpz_of_text :: "gmp_io \<Rightarrow> string \<Rightarrow> int result" where
  "mpz_of_text io s = (case io_parse io s of None \<Rightarrow> Inl (Runtime_error ''could not parse'') | Some x \<Rightarrow> Inr x)"

subsection \<open>Files\<close>

text \<open>
  The contents of the files that can be opened for reading, the directories that can be created and
  the files that can be opened for writing.
\<close>

record filesys =
  fs_text :: "string \<Rightarrow> string option"
  fs_mkdir :: "string \<Rightarrow> bool"
  fs_writable :: "string \<Rightarrow> bool"

definition write_text :: "string \<Rightarrow> cg_error \<Rightarrow> string \<Rightarrow> filesys \<Rightarrow> filesys result" where
  "write_text path e content fs =
     (if fs_writable fs path then Inr (fs\<lparr>fs_text := (fs_text fs)(path \<mapsto> content)\<rparr>) else Inl e)"

subsection \<open>Reading back\<close>

lemma is_space_newline [simp]: "is_space (CHR 0x0A)" "is_space (CHR '' '')"
  by (simp_all add: is_space_def)

lemma digit_not_space: "is_digit c \<Longrightarrow> \<not> is_space c"
  by (auto simp: is_digit_def is_space_def)

lemma read_word_skip: "is_space c \<Longrightarrow> read_word old (Some (c # s)) = read_word old (Some s)"
  by (simp add: read_word_def)

lemma read_size_skip: "is_space c \<Longrightarrow> read_size (Some (c # s)) = read_size (Some s)"
  by (simp add: read_size_def)

lemma read_word_next:
  assumes "is_word w" "is_space c"
  shows "read_word old (Some (w @ c # s)) = (w, Some (c # s))"
proof -
  obtain d u where w: "w = d # u" "\<not> is_space d" "\<forall>x \<in> set u. \<not> is_space x"
    using assms(1) by (cases w) (auto simp: is_word_def list_all_iff)
  then show ?thesis
    using assms(2) by (simp add: read_word_def)
qed

lemma digit_char_value [simp]: "d < 10 \<Longrightarrow> digit_value (digit_char d) = Some d" "d < 10 \<Longrightarrow> is_digit (digit_char d)"
  by (simp_all add: digit_value_def digit_char_def is_digit_def)

lemma show_nat_digits: "list_all is_digit (show_nat n) \<and> show_nat n \<noteq> []"
  by (induction n rule: show_nat.induct) (subst (1 2) show_nat.simps, simp)

lemma show_nat_value: "digits_value 10 0 (show_nat n) = n"
proof (induction n rule: show_nat.induct)
  case (1 n)
  then show ?case
    by (subst show_nat.simps) (auto simp: digits_value_append)
qed

lemma show_nat_word: "is_word (show_nat n)"
  using show_nat_digits[of n] digit_not_space by (auto simp: is_word_def list_all_iff)

lemma not_digit_space: "is_space c \<Longrightarrow> \<not> is_digit c"
  using digit_not_space by blast

lemma strip_sign_digit: "is_digit d \<Longrightarrow> strip_sign (d # u) = (False, d # u)"
  by (auto simp: strip_sign_def is_digit_def)

lemma read_size_next:
  assumes "n < size_limit" "is_space c"
  shows "read_size (Some (show_nat n @ c # s)) = (n, Some (c # s))"
proof -
  obtain d u where w: "show_nat n = d # u" "is_digit d" "\<forall>x \<in> set u. is_digit x"
    using show_nat_digits[of n] by (cases "show_nat n") (auto simp: list_all_iff)
  have "takeWhile is_digit (show_nat n @ c # s) = show_nat n" "dropWhile is_digit (show_nat n @ c # s) = c # s"
    using w not_digit_space[OF assms(2)] by (simp_all add: takeWhile_append2 dropWhile_append2)
  then show ?thesis
    using w digit_not_space[OF w(2)] assms(1) show_nat_value[of n] by (simp add: read_size_def Let_def strip_sign_digit)
qed

text \<open>Decimal conversions that behave as documented.\<close>

definition decimal_io :: gmp_io where
  "decimal_io = \<lparr> io_print = (\<lambda>x. (if x < 0 then ''-'' else []) @ show_nat (nat \<bar>x\<bar>)),
     io_parse = (\<lambda>s. case strip_sign s of (neg, t) \<Rightarrow>
       if t \<noteq> [] \<and> list_all is_digit t then Some ((if neg then - 1 else 1) * int (digits_value 10 0 t)) else None) \<rparr>"

lemma decimal_io_documented: "gmp_documented decimal_io"
proof -
  have "io_parse decimal_io (io_print decimal_io x) = Some x \<and> is_word (io_print decimal_io x)" for x
  proof -
    obtain d u where w: "show_nat (nat \<bar>x\<bar>) = d # u" "is_digit d" "list_all is_digit u"
      using show_nat_digits[of "nat \<bar>x\<bar>"] by (cases "show_nat (nat \<bar>x\<bar>)") auto
    have v: "digits_value 10 0 (d # u) = nat \<bar>x\<bar>" "is_word (d # u)"
      using show_nat_value[of "nat \<bar>x\<bar>"] show_nat_word[of "nat \<bar>x\<bar>"] by (simp_all add: w(1))
    have "strip_sign (CHR ''-'' # d # u) = (True, d # u)"
      by (simp add: strip_sign_def)
    then show ?thesis
      using w v strip_sign_digit[OF w(2), of u]
      by (auto simp: decimal_io_def is_word_def is_space_def simp del: digits_value.simps)
  qed
  then show ?thesis
    by (simp add: gmp_documented_def)
qed

subsection \<open>Words and lines of what was written\<close>

lemma words_of_Nil [simp]: "words_of [] = []"
  by (simp add: words_of.simps)

lemma words_of_skip: "is_space c \<Longrightarrow> words_of (c # s) = words_of s"
  by (simp add: words_of.simps[of "c # s"] words_of.simps[of s])

lemma words_of_next:
  assumes "is_word w" "is_space c"
  shows "words_of (w @ c # s) = w # words_of s"
proof -
  obtain d u where w: "w = d # u" "\<not> is_space d" "\<forall>x \<in> set u. \<not> is_space x"
    using assms(1) by (cases w) (auto simp: is_word_def list_all_iff)
  then show ?thesis
    using assms(2) words_of_skip[OF assms(2), of s] by (simp add: words_of.simps[of "d # u @ c # s"])
qed

lemma words_of_lines:
  assumes "\<forall>w \<in> set ws. is_word w"
  shows "words_of (concat (map (\<lambda>w. w @ [CHR 0x0A]) ws)) = ws"
  using assms
proof (induction ws)
  case (Cons w ws)
  then show ?case
    using words_of_next[of w "CHR 0x0A" "concat (map (\<lambda>w. w @ [CHR 0x0A]) ws)"] by (simp add: words_of_skip)
qed simp

end
