(* ===== verification/CG_Inputs.thy ===== *)
theory CG_Inputs
  imports CG_Text CG_Common
begin

text \<open>
  Inputs of the programs (\<^verbatim>\<open>cg_rf_common.hpp\<close>, \<^verbatim>\<open>cg_bench_io.hpp\<close>): element and coefficient files,
  the check of a private set, deterministic benchmark inputs and the sampler of random sets. The
  sets of printed values that the code keeps for its membership tests are sets of the values
  themselves: distinct integers are printed differently.
\<close>

subsection \<open>Files of values\<close>

definition validate_psi_set :: "env \<Rightarrow> int list \<Rightarrow> int \<Rightarrow> string \<Rightarrow> unit result" where
  "validate_psi_set env values q role =
     bind_r (cg_validate_count env (length values) False) (\<lambda>_.
     bind_r (fold_r (\<lambda>x seen.
         bind_r (throw_if (x < 0 \<or> q \<le> x) (Runtime_error (role @ '': PSI element outside Z_q''))) (\<lambda>_.
         bind_r (throw_if (x \<in> set seen) (Runtime_error (role @ '': duplicate PSI element''))) (\<lambda>_.
         Inr (x # seen)))) values []) (\<lambda>_. Inr ()))"

text \<open>The loop that the readers share: convert a word, check the count, append.\<close>

definition read_values :: "env \<Rightarrow> (string \<Rightarrow> int result) \<Rightarrow> string list \<Rightarrow> int list result" where
  "read_values env conv toks =
     fold_r (\<lambda>tok values. bind_r (conv tok) (\<lambda>x.
       bind_r (cg_validate_count env (length values + 1) False) (\<lambda>_. Inr (values @ [x])))) toks []"

definition read_mpz_list_file :: "gmp_io \<Rightarrow> env \<Rightarrow> filesys \<Rightarrow> string \<Rightarrow> int \<Rightarrow> string \<Rightarrow> int list result" where
  "read_mpz_list_file io env fs path q role =
     (case fs_text fs path of
        None \<Rightarrow> Inl (Runtime_error (role @ '': cannot open input file''))
      | Some text \<Rightarrow>
          bind_r (read_values env (\<lambda>tok. bind_r (mpz_of_text io tok) (\<lambda>x.
             bind_r (throw_if (x < 0 \<or> q \<le> x) (Runtime_error (role @ '': input value outside plaintext field Z_q''))) (\<lambda>_. Inr x)))
            (words_of text)) (\<lambda>values.
          bind_r (throw_if (values = []) (Runtime_error (role @ '': input file is empty''))) (\<lambda>_.
          bind_r (validate_psi_set env values q role) (\<lambda>_. Inr values))))"

definition read_mpz_list_file_mod_q :: "gmp_io \<Rightarrow> env \<Rightarrow> filesys \<Rightarrow> string \<Rightarrow> int \<Rightarrow> string \<Rightarrow> int list result" where
  "read_mpz_list_file_mod_q io env fs path q role =
     (case fs_text fs path of
        None \<Rightarrow> Inl (Runtime_error (role @ '': cannot open input file''))
      | Some text \<Rightarrow>
          bind_r (read_values env (\<lambda>tok. bind_r (mpz_of_text io tok) (\<lambda>x.
             bind_r (throw_if (x < 0) (Runtime_error (role @ '': negative input value''))) (\<lambda>_. Inr (x mod q))))
            (words_of text)) (\<lambda>values.
          bind_r (throw_if (values = []) (Runtime_error (role @ '': input file is empty''))) (\<lambda>_. Inr values)))"

definition read_mpz_coeff_file :: "gmp_io \<Rightarrow> env \<Rightarrow> filesys \<Rightarrow> string \<Rightarrow> int \<Rightarrow> string \<Rightarrow> int list result" where
  "read_mpz_coeff_file io env fs path q role =
     (case fs_text fs path of
        None \<Rightarrow> Inl (Runtime_error (role @ '': cannot open coefficient file''))
      | Some text \<Rightarrow>
          bind_r (read_values env (\<lambda>tok. bind_r (mpz_of_text io tok) (\<lambda>x. Inr (x mod q))) (words_of text)) (\<lambda>values.
          bind_r (throw_if (values = []) (Runtime_error (role @ '': coefficient file is empty''))) (\<lambda>_. Inr values)))"

text \<open>Rows of two values; blank lines are skipped.\<close>

definition blank_line :: "string \<Rightarrow> bool" where
  "blank_line l \<longleftrightarrow> list_all (\<lambda>c. c = CHR '' '' \<or> c = CHR 0x09 \<or> c = CHR 0x0D) l"

definition read_ole_row :: "gmp_io \<Rightarrow> env \<Rightarrow> int \<Rightarrow> string \<Rightarrow> string \<Rightarrow> int list \<times> int list \<Rightarrow> (int list \<times> int list) result" where
  "read_ole_row io env q role l acc =
     (if blank_line l then Inr acc
      else case words_of l of
        [a_tok, b_tok] \<Rightarrow>
          bind_r (mpz_of_text io a_tok) (\<lambda>a. bind_r (mpz_of_text io b_tok) (\<lambda>b.
          bind_r (throw_if (a < 0 \<or> b < 0) (Runtime_error (role @ '': negative OLE sender input''))) (\<lambda>_.
          bind_r (cg_validate_count env (length (fst acc) + 1) False) (\<lambda>_.
          Inr (fst acc @ [a mod q], snd acc @ [b mod q])))))
      | _ \<Rightarrow> Inl (Runtime_error (role @ '': expected exactly two values per OLE row'')))"

definition read_ole_sender_input_file :: "gmp_io \<Rightarrow> env \<Rightarrow> filesys \<Rightarrow> string \<Rightarrow> int \<Rightarrow> string \<Rightarrow> (int list \<times> int list) result" where
  "read_ole_sender_input_file io env fs path q role =
     (case fs_text fs path of
        None \<Rightarrow> Inl (Runtime_error (role @ '': cannot open OLE sender input file''))
      | Some text \<Rightarrow>
          bind_r (fold_r (read_ole_row io env q role) (lines_from [] text) ([], [])) (\<lambda>(a_vals, b_vals).
          bind_r (throw_if (a_vals = []) (Runtime_error (role @ '': OLE sender input file is empty''))) (\<lambda>_.
          Inr (a_vals, b_vals))))"

definition write_mpz_list_file :: "gmp_io \<Rightarrow> string \<Rightarrow> int list \<Rightarrow> filesys \<Rightarrow> filesys result" where
  "write_mpz_list_file io path values =
     write_text path (Runtime_error ''cannot open output file'') (concat (map (\<lambda>v. io_print io v @ [CHR 0x0A]) values))"

text \<open>The elapsed time is an argument, as it is printed.\<close>

definition write_protocol_timing_file :: "string \<Rightarrow> string \<Rightarrow> string \<Rightarrow> filesys \<Rightarrow> filesys result" where
  "write_protocol_timing_file path component ms fs =
     (if path = [] then Inr fs
      else write_text path (Runtime_error ''cannot open protocol timing file'')
        (''component,metric,value_ms'' @ [CHR 0x0A] @ component @ '',protocol_time_excluding_input_and_output_files,'' @ ms @ [CHR 0x0A]) fs)"

definition write_protocol_timing_file_from_env :: "env \<Rightarrow> string \<Rightarrow> string \<Rightarrow> filesys \<Rightarrow> filesys result" where
  "write_protocol_timing_file_from_env env component ms fs =
     (case env_value env ''CG_PROTOCOL_TIMING_FILE'' of None \<Rightarrow> Inr fs
      | Some path \<Rightarrow> write_protocol_timing_file path component ms fs)"

subsection \<open>Benchmark inputs\<close>

text \<open>
  A random generator of the library is the function of its seed, the number of earlier draws and the
  bound; its manual says the result lies below a positive bound.
\<close>

type_synonym randgen = "8 word list \<Rightarrow> nat \<Rightarrow> int \<Rightarrow> int"

definition randgen_documented :: "randgen \<Rightarrow> bool" where
  "randgen_documented gen \<longleftrightarrow> (\<forall>s k b. 0 < b \<longrightarrow> 0 \<le> gen s k b \<and> gen s k b < b)"

definition cg_env_size :: "env \<Rightarrow> string \<Rightarrow> nat \<Rightarrow> nat result" where
  "cg_env_size env name fallback = cg_config_size env name fallback 4096 False"

definition cg_pow2_mpz :: "nat \<Rightarrow> int" where
  "cg_pow2_mpz bits = fold (\<lambda>_ out. out * 2) [0..<bits] 1"

definition benchmark_input_bound :: "env \<Rightarrow> int \<Rightarrow> int result" where
  "benchmark_input_bound env q =
     bind_r (cg_env_size env ''CG_BENCH_INPUT_BITS'' 128) (\<lambda>bits.
     let bound = cg_pow2_mpz bits in Inr (if bound > q then q else bound))"

definition benchmark_input_vector :: "randgen \<Rightarrow> env \<Rightarrow> nat \<Rightarrow> 64 word \<Rightarrow> int \<Rightarrow> int list result" where
  "benchmark_input_vector gen env count domain q =
     bind_r (cg_public_seed env) (\<lambda>seed.
     bind_r (benchmark_input_bound env q) (\<lambda>bound.
     Inr (map (\<lambda>i. gen (make_seeded_benchmark_randgen seed domain) i bound) [0..<count])))"

text \<open>
  The sampler. After 64 rejected draws it scans the field upwards; the scan position survives from
  one element to the next. The state is the count left, the rejections since the last element, the
  scan position, the output, the values seen and the number of draws.
\<close>

function sample_loop :: "(nat \<Rightarrow> int) \<Rightarrow> nat \<Rightarrow> nat \<Rightarrow> int \<Rightarrow> int list \<Rightarrow> int list \<Rightarrow> nat \<Rightarrow> int list \<times> int list" where
  "sample_loop draw count rejected scan out seen k =
     (if count = 0 then (out, seen)
      else let x = (if rejected < 64 then draw k else scan);
               scan' = (if rejected < 64 then scan else scan + 1);
               k' = (if rejected < 64 then k + 1 else k)
        in if x = 0 \<or> x \<in> set seen then sample_loop draw count (rejected + 1) scan' out seen k'
           else sample_loop draw (count - 1) 0 scan' (out @ [x]) (x # seen) k')"
  by auto
termination
proof (relation "inv_image (less_than <*lex*> less_than <*lex*> less_than)
    (\<lambda>(draw, count, rejected, scan, out, seen, k). (count, 64 - rejected, card {v \<in> insert 0 (set seen). scan \<le> v}))", goal_cases)
  case (2 draw count rejected scan out seen k x scan' k')
  have "card {v \<in> insert 0 (set seen). scan + 1 \<le> v} < card {v \<in> insert 0 (set seen). scan \<le> v}"
    if "scan = 0 \<or> scan \<in> set seen"
  proof -
    have "{v \<in> insert 0 (set seen). scan + 1 \<le> v} = {v \<in> insert 0 (set seen). scan \<le> v} - {scan}"
      by auto
    then show ?thesis
      using that by (simp only:) (rule card_Diff1_less, auto)
  qed
  then show ?case
    using 2 by (auto split: if_splits)
qed auto

declare sample_loop.simps [simp del]

definition sample_unique_field_elements ::
  "env \<Rightarrow> nat \<Rightarrow> int \<Rightarrow> (nat \<Rightarrow> int \<Rightarrow> int) \<Rightarrow> int list \<Rightarrow> int list \<Rightarrow> (int list \<times> int list) result" where
  "sample_unique_field_elements env count q rng out seen =
     bind_r (cg_checked_add env (length out) count) (\<lambda>total.
     bind_r (cg_validate_count env total True) (\<lambda>_.
     bind_r (benchmark_input_bound env q) (\<lambda>bound.
     bind_r (cg_checked_add env (length seen) count) (\<lambda>requested.
     bind_r (throw_if (int requested > bound - 1) (Runtime_error ''PSI sampling domain has too few nonzero unused elements'')) (\<lambda>_.
     Inr (sample_loop (\<lambda>k. rng k bound) count 0 1 out seen 0))))))"

definition make_random_psi_sets_full_field ::
  "randgen \<Rightarrow> env \<Rightarrow> nat \<Rightarrow> nat \<Rightarrow> 64 word \<Rightarrow> int \<Rightarrow> int list \<Rightarrow> int list \<Rightarrow> (int list \<times> int list) result" where
  "make_random_psi_sets_full_field gen env mA mB seed q setA setB =
     bind_r (cg_validate_count env mA False) (\<lambda>_. bind_r (cg_validate_count env mB False) (\<lambda>_.
     bind_r (throw_if (setA \<noteq> [] \<or> setB \<noteq> []) (Runtime_error ''PSI random output sets must initially be empty'')) (\<lambda>_.
     bind_r (cg_checked_add env mA mB) (\<lambda>total.
     bind_r (benchmark_input_bound env q) (\<lambda>bound.
     bind_r (throw_if (int (total - min mA mB div 5) > bound - 1) (Runtime_error ''PSI union exceeds nonzero sampling domain'')) (\<lambda>_.
     let overlap = min mA mB div 5;
         rng = (\<lambda>domain. gen (make_seeded_benchmark_randgen seed domain)) in
     bind_r (sample_unique_field_elements env overlap q (rng 0x5053495f53484152) [] []) (\<lambda>(shared, seen).
     bind_r (sample_unique_field_elements env (mA - overlap) q (rng 0x5053495f415f5f5f) (setA @ shared) seen) (\<lambda>(setA, seen).
     bind_r (sample_unique_field_elements env (mB - overlap) q (rng 0x5053495f425f5f5f) (setB @ shared) seen) (\<lambda>(setB, seen).
     Inr (setA, setB))))))))))"

subsection \<open>The check of a private set\<close>

lemma psi_element_loop:
  fixes q :: int
  shows "(\<exists>s. fold_r (\<lambda>x seen.
         bind_r (throw_if (x < 0 \<or> q \<le> x) e1) (\<lambda>_.
         bind_r (throw_if (x \<in> set seen) e2) (\<lambda>_.
         Inr (x # seen)))) values seen = Inr s)
   \<longleftrightarrow> set values \<subseteq> {0..<q} \<and> distinct values \<and> set values \<inter> set seen = {}"
proof (induction "values" arbitrary: seen)
  case (Cons x xs)
  then show ?case
    by (cases "x < 0 \<or> q \<le> x"; cases "x \<in> set seen") auto
qed simp

lemma validate_psi_set_Inr:
  "validate_psi_set env values q role = Inr u \<longleftrightarrow>
     values \<noteq> [] \<and> (\<exists>m. cg_max_items env = Inr m \<and> length values \<le> m) \<and> distinct values \<and> set values \<subseteq> {0..<q}"
  using psi_element_loop[of q "Runtime_error (role @ '': PSI element outside Z_q'')"
      "Runtime_error (role @ '': duplicate PSI element'')" "values" "[]"]
  by (auto simp: validate_psi_set_def bind_r_Inr_iff cg_validate_count_Inr)

subsection \<open>The sampler\<close>

definition sampler_inv :: "int \<Rightarrow> nat \<Rightarrow> int \<Rightarrow> int list \<Rightarrow> bool" where
  "sampler_inv bound count scan seen \<longleftrightarrow> distinct seen \<and> set seen \<subseteq> {1..<bound} \<and> {1..<scan} \<subseteq> set seen \<and> 1 \<le> scan \<and>
     int (length seen + count) \<le> bound - 1"

lemma sampler_scan_below:
  assumes "sampler_inv bound count scan seen" "0 < count"
  shows "scan < bound"
proof -
  have "card {1..<scan} \<le> card (set seen)"
    using assms(1) by (intro card_mono) (auto simp: sampler_inv_def)
  then show ?thesis
    using assms distinct_card[of seen] by (auto simp: sampler_inv_def)
qed

lemma sampler_skip:
  assumes "sampler_inv bound count scan seen" "scan \<in> set seen"
  shows "sampler_inv bound count (scan + 1) seen"
proof -
  have "{1..<scan + 1} = insert scan {1..<scan}"
    using assms(1) by (auto simp: sampler_inv_def)
  then show ?thesis
    using assms by (simp add: sampler_inv_def)
qed

lemma sampler_take:
  assumes "sampler_inv bound count scan seen" "0 < count" "x \<in> {1..<bound}" "x \<notin> set seen"
  shows "sampler_inv bound (count - 1) scan (x # seen)"
proof -
  have "length (x # seen) + (count - 1) = length seen + count"
    using assms(2) by simp
  moreover have "distinct (x # seen)" "set (x # seen) \<subseteq> {1..<bound}" "{1..<scan} \<subseteq> set (x # seen)"
    using assms by (auto simp: sampler_inv_def)
  ultimately show ?thesis
    using assms(1) by (simp only: sampler_inv_def)
qed

lemma sampler_step:
  assumes "sampler_inv bound count scan seen" "0 < count" "x = scan \<or> (0 \<le> x \<and> x < bound)" "scan' = scan \<or> (scan' = scan + 1 \<and> x = scan)"
  shows "x = 0 \<or> x \<in> set seen \<Longrightarrow> sampler_inv bound count scan' seen"
    and "x \<noteq> 0 \<Longrightarrow> x \<notin> set seen \<Longrightarrow> x \<in> {1..<bound} \<and> sampler_inv bound (count - 1) scan' (x # seen)"
proof -
  have sc: "1 \<le> scan"
    using assms(1) by (simp add: sampler_inv_def)
  show "sampler_inv bound count scan' seen" if "x = 0 \<or> x \<in> set seen"
    using assms(1,4) that sampler_skip sc by fastforce
  show "x \<in> {1..<bound} \<and> sampler_inv bound (count - 1) scan' (x # seen)" if "x \<noteq> 0" "x \<notin> set seen"
  proof
    show x: "x \<in> {1..<bound}"
      using assms(3) that(1) sc sampler_scan_below[OF assms(1,2)] by auto
    note t = sampler_take[OF assms(1,2) x that(2)]
    show "sampler_inv bound (count - 1) scan' (x # seen)"
      using assms(4) t sampler_skip[OF t] by auto
  qed
qed

lemma sample_loop_spec:
  assumes "sampler_inv bound count scan seen" "\<And>k. 0 \<le> draw k \<and> draw k < bound"
  shows "\<exists>new. sample_loop draw count rejected scan out seen k = (out @ new, rev new @ seen) \<and> length new = count \<and>
    distinct (new @ seen) \<and> set new \<subseteq> {1..<bound}"
  using assms
proof (induction draw count rejected scan out seen k rule: sample_loop.induct)
  case (1 draw count rejected scan out seen k)
  show ?case
  proof (cases "count = 0")
    case True
    then show ?thesis
      using 1(3) by (auto simp: sample_loop.simps sampler_inv_def)
  next
    case False
    define x where "x = (if rejected < 64 then draw k else scan)"
    define scan' where "scan' = (if rejected < 64 then scan else scan + 1)"
    define k' where "k' = (if rejected < 64 then k + 1 else k)"
    note defs = x_def scan'_def k'_def
    have e: "sample_loop draw count rejected scan out seen k
        = (if x = 0 \<or> x \<in> set seen then sample_loop draw count (rejected + 1) scan' out seen k'
           else sample_loop draw (count - 1) 0 scan' (out @ [x]) (x # seen) k')"
      using False by (subst sample_loop.simps) (simp only: if_False Let_def defs)
    have s: "x = scan \<or> (0 \<le> x \<and> x < bound)" "scan' = scan \<or> (scan' = scan + 1 \<and> x = scan)"
      using 1(4) by (auto simp: defs)
    note step = sampler_step[OF 1(3) _ s]
    show ?thesis
    proof (cases "x = 0 \<or> x \<in> set seen")
      case True
      then show ?thesis
        using 1(1)[OF False defs True step(1) 1(4)] False by (simp add: e)
    next
      case new: False
      obtain new where "sample_loop draw (count - 1) 0 scan' (out @ [x]) (x # seen) k' = ((out @ [x]) @ new, rev new @ x # seen)"
          "length new = count - 1" "distinct (new @ x # seen)" "set new \<subseteq> {1..<bound}"
        using 1(2)[OF False defs new _ 1(4)] step(2) new False by blast
      then show ?thesis
        using step(2) new False by (intro exI[of _ "x # new"]) (auto simp: e)
    qed
  qed
qed

lemma sample_unique_spec:
  assumes "benchmark_input_bound env q = Inr bound" "cg_max_items env = Inr m" "length out + count \<le> m" "length seen + count \<le> m"
    and "distinct seen" "set seen \<subseteq> {1..<bound}" "int (length seen + count) < bound" "\<And>k. 0 \<le> rng k bound \<and> rng k bound < bound"
  shows "\<exists>new. sample_unique_field_elements env count q rng out seen = Inr (out @ new, rev new @ seen) \<and> length new = count \<and>
    distinct (new @ seen) \<and> set new \<subseteq> {1..<bound}"
proof -
  have "sampler_inv bound count 1 seen"
    using assms(5-7) by (simp add: sampler_inv_def)
  from sample_loop_spec[of bound count 1 seen "\<lambda>k. rng k bound" 0 out 0, OF this assms(8)] show ?thesis
    using assms(1-4,7) cg_checked_add_Inr[of env "length out" count "length out + count"]
      cg_checked_add_Inr[of env "length seen" count "length seen + count"]
    by (auto simp: sample_unique_field_elements_def cg_validate_count_def not_less)
qed

lemma benchmark_bound_le: "benchmark_input_bound env q = Inr bound \<Longrightarrow> bound \<le> q"
  by (auto simp: benchmark_input_bound_def bind_r_Inr_iff Let_def split: if_splits)

lemma random_sets_samples:
  assumes "randgen_documented gen" "benchmark_input_bound env q = Inr bound" "cg_max_items env = Inr m"
    and "ov + k + l \<le> m" "int (ov + k + l) < bound"
  shows "\<exists>shared newA newB.
    sample_unique_field_elements env ov q (gen s0) [] [] = Inr (shared, rev shared) \<and>
    sample_unique_field_elements env k q (gen s1) shared (rev shared) = Inr (shared @ newA, rev newA @ rev shared) \<and>
    sample_unique_field_elements env l q (gen s2) shared (rev newA @ rev shared) = Inr (shared @ newB, rev newB @ rev newA @ rev shared) \<and>
    length shared = ov \<and> length newA = k \<and> length newB = l \<and>
    distinct (shared @ newA @ newB) \<and> set (shared @ newA @ newB) \<subseteq> {1..<bound}"
proof -
  have d: "0 \<le> gen s i bound \<and> gen s i bound < bound" for s i
    using assms(1,5) by (simp add: randgen_documented_def)
  note spec = sample_unique_spec[where rng = "gen s" and env = env and q = q and bound = bound and m = m for s,
      OF assms(2,3) _ _ _ _ _ d]
  obtain shared where s: "sample_unique_field_elements env ov q (gen s0) [] [] = Inr (shared, rev shared)"
      "length shared = ov" "distinct shared" "set shared \<subseteq> {1..<bound}"
    using spec[of "[]" ov "[]" s0] assms(4,5) by auto
  then have "length shared + k \<le> m" "length (rev shared) + k \<le> m" "distinct (rev shared)" "set (rev shared) \<subseteq> {1..<bound}"
      "int (length (rev shared) + k) < bound"
    using assms(4,5) by simp_all
  then obtain newA where a: "sample_unique_field_elements env k q (gen s1) shared (rev shared) = Inr (shared @ newA, rev newA @ rev shared)"
      "length newA = k" "distinct (newA @ rev shared)" "set newA \<subseteq> {1..<bound}"
    using spec[of shared k "rev shared" s1] by blast
  have "length shared + l \<le> m" "length (rev newA @ rev shared) + l \<le> m" "distinct (rev newA @ rev shared)"
      "set (rev newA @ rev shared) \<subseteq> {1..<bound}" "int (length (rev newA @ rev shared) + l) < bound"
    using assms(4,5) s(2-4) a(2-4) by simp_all
  then obtain newB where b: "sample_unique_field_elements env l q (gen s2) shared (rev newA @ rev shared)
        = Inr (shared @ newB, rev newB @ rev newA @ rev shared)" "length newB = l"
      "distinct (newB @ rev newA @ rev shared)" "set newB \<subseteq> {1..<bound}"
    using spec[of shared l "rev newA @ rev shared" s2] by blast
  have "distinct (shared @ newA @ newB)" "set (shared @ newA @ newB) \<subseteq> {1..<bound}"
    using s(3,4) a(3,4) b(3,4) by auto
  then show ?thesis
    using s(1,2) a(1,2) b(1,2) by blast
qed

lemma random_sets_run:
  assumes "randgen_documented gen" "benchmark_input_bound env q = Inr bound" "cg_checked_add env mA mB = Inr t"
    and "0 < mA" "0 < mB" "int (mA + mB - min mA mB div 5) < bound"
  shows "\<exists>shared newA newB. make_random_psi_sets_full_field gen env mA mB seed q [] [] = Inr (shared @ newA, shared @ newB) \<and>
    length shared = min mA mB div 5 \<and> length newA = mA - length shared \<and> length newB = mB - length shared \<and>
    distinct (shared @ newA @ newB) \<and> set (shared @ newA @ newB) \<subseteq> {1..<bound}"
proof -
  define ov where "ov = min mA mB div 5"
  obtain m where m: "cg_max_items env = Inr m" "t = mA + mB" "mA + mB \<le> m"
    using assms(3) by (auto simp: cg_checked_add_Inr)
  have "ov \<le> mA" "ov \<le> mB"
    unfolding ov_def by linarith+
  then obtain k l where kl: "mA = ov + k" "mB = ov + l"
    by (metis le_Suc_ex)
  have e: "mA + mB - ov = ov + k + l"
    by (simp add: kl)
  have b: "ov + k + l \<le> m" "int (ov + k + l) < bound"
    using m(3) kl assms(6) e unfolding ov_def[symmetric] by simp_all
  obtain shared newA newB where r: "sample_unique_field_elements env ov q (gen (make_seeded_benchmark_randgen seed 0x5053495f53484152)) [] [] = Inr (shared, rev shared)"
    "sample_unique_field_elements env k q (gen (make_seeded_benchmark_randgen seed 0x5053495f415f5f5f)) shared (rev shared) = Inr (shared @ newA, rev newA @ rev shared)"
    "sample_unique_field_elements env l q (gen (make_seeded_benchmark_randgen seed 0x5053495f425f5f5f)) shared (rev newA @ rev shared) = Inr (shared @ newB, rev newB @ rev newA @ rev shared)"
    "length shared = ov" "length newA = k" "length newB = l" "distinct (shared @ newA @ newB)" "set (shared @ newA @ newB) \<subseteq> {1..<bound}"
    using random_sets_samples[OF assms(1,2) m(1) b] by blast
  have "mA - ov = k" "mB - ov = l" "\<not> bound - 1 < int (mA + mB - ov)"
    using kl b(2) e by simp_all
  moreover have "cg_validate_count env mA False = Inr ()" "cg_validate_count env mB False = Inr ()"
    using m assms(4,5) by (simp_all add: cg_validate_count_Inr)
  ultimately have "make_random_psi_sets_full_field gen env mA mB seed q [] [] = Inr (shared @ newA, shared @ newB)"
    using assms(2,3) m(2) r(1-3) by (simp add: make_random_psi_sets_full_field_def Let_def ov_def[symmetric])
  moreover have "length newA = mA - length shared" "length newB = mB - length shared"
    using r(4-6) kl by simp_all
  ultimately show ?thesis
    using r(4,7,8) unfolding ov_def by blast
qed

subsection \<open>Files that were written read back\<close>

lemma read_values_all:
  assumes "cg_max_items env = Inr m" "length acc + length toks \<le> m" "\<And>i. i < length toks \<Longrightarrow> conv (toks ! i) = Inr (vs ! i)"
    and "length vs = length toks"
  shows "fold_r (\<lambda>tok values. bind_r (conv tok) (\<lambda>x.
       bind_r (cg_validate_count env (length values + 1) False) (\<lambda>_. Inr (values @ [x])))) toks acc = Inr (acc @ vs)"
  using assms(2-4)
proof (induction toks arbitrary: acc vs)
  case (Cons tok toks)
  then obtain v us where v: "vs = v # us" "length us = length toks"
    by (cases vs) auto
  have "conv tok = Inr v" "\<And>i. i < length toks \<Longrightarrow> conv (toks ! i) = Inr (us ! i)"
    using Cons.prems(2)[of 0] Cons.prems(2)[of "Suc i" for i] v(1) by auto
  then show ?case
    using Cons.IH[of "acc @ [v]" us] Cons.prems(1) v assms(1) by (simp add: cg_validate_count_def)
qed simp

lemma written_words:
  assumes "gmp_documented io"
  shows "words_of (concat (map (\<lambda>v. io_print io v @ [CHR 0x0A]) vs)) = map (io_print io) vs"
  using words_of_lines[of "map (io_print io) vs"] assms by (simp add: gmp_documented_def o_def)

lemma mpz_of_printed [simp]: "gmp_documented io \<Longrightarrow> mpz_of_text io (io_print io v) = Inr v"
  by (simp add: gmp_documented_def mpz_of_text_def)

lemma read_written_set:
  assumes "gmp_documented io" "validate_psi_set env vs q role = Inr ()" "fs_text fs path = Some (concat (map (\<lambda>v. io_print io v @ [CHR 0x0A]) vs))"
  shows "read_mpz_list_file io env fs path q role = Inr vs"
proof -
  obtain m where m: "cg_max_items env = Inr m" "length vs \<le> m" "vs \<noteq> []" "set vs \<subseteq> {0..<q}"
    using assms(2) by (auto simp: validate_psi_set_Inr)
  let ?conv = "\<lambda>tok. bind_r (mpz_of_text io tok) (\<lambda>x.
    bind_r (throw_if (x < 0 \<or> q \<le> x) (Runtime_error (role @ '': input value outside plaintext field Z_q''))) (\<lambda>_. Inr x))"
  have "?conv (map (io_print io) vs ! i) = Inr (vs ! i)" if "i < length (map (io_print io) vs)" for i
  proof -
    have "0 \<le> vs ! i" "vs ! i < q"
      using that m(4) nth_mem[of i vs] by (auto simp: subset_iff)
    then show ?thesis
      using that assms(1) by simp
  qed
  then have "read_values env ?conv (map (io_print io) vs) = Inr ([] @ vs)"
    unfolding read_values_def
    by (intro read_values_all[OF m(1)]) (use m(2) in simp_all)
  then show ?thesis
    by (simp add: read_mpz_list_file_def assms(2,3) written_words[OF assms(1)] m(3) del: mpz_of_printed)
qed

lemma cg_pow2_mpz_eq: "cg_pow2_mpz n = 2 ^ n"
  by (induction n) (simp_all add: cg_pow2_mpz_def)

subsection \<open>Properties\<close>

text \<open>
  C38: The generator of random benchmark sets. When the union fits the sampling domain the sampling
  loops end (after 64 rejected draws they scan the domain upwards) and give two lists of the
  requested sizes that pass the check of private sets, contain no zero and share exactly one fifth
  of the smaller size.
\<close>

theorem random_sets_overlap:
  assumes "randgen_documented gen" "benchmark_input_bound env q = Inr bound" "cg_checked_add env mA mB = Inr t"
    and "0 < mA" "0 < mB" "int (mA + mB - min mA mB div 5) < bound"
  shows "\<exists>A B. make_random_psi_sets_full_field gen env mA mB seed q [] [] = Inr (A, B) \<and> length A = mA \<and> length B = mB \<and>
    0 \<notin> set A \<union> set B \<and> validate_psi_set env A q role = Inr () \<and> validate_psi_set env B q role = Inr () \<and>
    card (set A \<inter> set B) = min mA mB div 5"
proof -
  obtain shared newA newB where r: "make_random_psi_sets_full_field gen env mA mB seed q [] [] = Inr (shared @ newA, shared @ newB)"
    "length shared = min mA mB div 5" "length newA = mA - length shared" "length newB = mB - length shared"
    "distinct (shared @ newA @ newB)" "set (shared @ newA @ newB) \<subseteq> {1..<bound}"
    using random_sets_run[OF assms] by blast
  have len: "length (shared @ newA) = mA" "length (shared @ newB) = mB"
    using r(2-4) by (simp_all add: min_def)
  obtain m where m: "cg_max_items env = Inr m" "mA + mB \<le> m"
    using assms(3) by (auto simp: cg_checked_add_Inr)
  have valid: "validate_psi_set env vs q role = Inr ()"
    if "length vs = n" "distinct vs" "set vs \<subseteq> {1..<bound}" "0 < n" "n \<le> m" for vs n
  proof -
    have "{1..<bound} \<subseteq> {0..<q}"
      using benchmark_bound_le[OF assms(2)] by auto
    then have "set vs \<subseteq> {0..<q}"
      using that(3) by (rule order_trans[rotated])
    then show ?thesis
      using that m(1) by (simp add: validate_psi_set_Inr) auto
  qed
  have "set (shared @ newA) \<inter> set (shared @ newB) = set shared"
    using r(5) by auto
  then have "card (set (shared @ newA) \<inter> set (shared @ newB)) = min mA mB div 5"
    using r(2,5) by (simp add: distinct_card)
  moreover have d: "distinct (shared @ newA)" "distinct (shared @ newB)" "set (shared @ newA) \<subseteq> {1..<bound}"
      "set (shared @ newB) \<subseteq> {1..<bound}" "mA \<le> m" "mB \<le> m"
    using r(5,6) m(2) by auto
  then have "validate_psi_set env (shared @ newA) q role = Inr ()" "validate_psi_set env (shared @ newB) q role = Inr ()"
    using valid[OF len(1) _ _ assms(4)] valid[OF len(2) _ _ assms(5)] by blast+
  moreover have "0 \<notin> set (shared @ newA) \<union> set (shared @ newB)"
    using r(6) by auto
  ultimately show ?thesis
    using r(1) len by blast
qed

theorem random_sets_overlap_witness:
  "\<exists>A B. make_random_psi_sets_full_field (\<lambda>_ k b. int k mod b) (\<lambda>_. None) 10 5 42 97 [] [] = Inr (A, B) \<and> length A = 10 \<and> length B = 5 \<and>
    0 \<notin> set A \<union> set B \<and> validate_psi_set (\<lambda>_. None) A 97 ''psi'' = Inr () \<and> validate_psi_set (\<lambda>_. None) B 97 ''psi'' = Inr () \<and>
    card (set A \<inter> set B) = min 10 5 div 5"
proof (rule random_sets_overlap)
  show "benchmark_input_bound (\<lambda>_. None) 97 = Inr 97"
    by (simp add: benchmark_input_bound_def cg_env_size_def cg_config_size_def cg_pow2_mpz_eq)
  show "cg_checked_add (\<lambda>_. None) 10 5 = Inr 15"
    by (simp add: cg_checked_add_Inr)
qed (simp_all add: randgen_documented_def)

text \<open>
  Files of set elements round-trip: what the writer leaves on disk for a valid set is read back
  as the same list by the validating reader.
\<close>

theorem set_file_roundtrip:
  assumes "gmp_documented io" "validate_psi_set env vs q role = Inr ()" "fs_writable fs path"
  shows "bind_r (write_mpz_list_file io path vs fs) (\<lambda>fs'. read_mpz_list_file io env fs' path q role) = Inr vs"
  using assms read_written_set[OF assms(1,2)] by (simp add: write_mpz_list_file_def write_text_def)

theorem set_file_roundtrip_witness:
  "bind_r (write_mpz_list_file decimal_io ''out'' [3, 0, 41] \<lparr> fs_text = Map.empty, fs_mkdir = \<lambda>_. True, fs_writable = \<lambda>_. True \<rparr>)
     (\<lambda>fs'. read_mpz_list_file decimal_io (\<lambda>_. None) fs' ''out'' 97 ''psi'') = Inr [3, 0, 41]"
  by (rule set_file_roundtrip) (simp_all add: decimal_io_documented validate_psi_set_Inr)

end
