(* ===== verification/CG_PSI.thy ===== *)
theory CG_PSI
  imports CG_OPA CG_Inputs
begin

text \<open>
  Private set intersection (\<^verbatim>\<open>cg_psi_receiver.cpp\<close>, \<^verbatim>\<open>cg_psi_sender.cpp\<close> and their firewalled
  versions): the receiver's set is the root set of its polynomial, the sender adds a masked
  multiple, and the receiver keeps the elements at which the combined polynomial vanishes.
\<close>

subsection \<open>The two halves\<close>

definition psi_points :: "env \<Rightarrow> nat \<Rightarrow> nat \<Rightarrow> int \<Rightarrow> nat result" where
  "psi_points env m_A m_B q =
     bind_r (cg_checked_add env m_A m_B) (\<lambda>s. bind_r (cg_checked_add env s 1) (\<lambda>n. psi_opa_point_count env n q))"

definition psi_members :: "int list \<Rightarrow> int list \<Rightarrow> int list" where
  "psi_members set_B eval_vals = fold (\<lambda>i xs. if eval_vals ! i = 0 then xs @ [set_B ! i] else xs) [0..<length set_B] []"

text \<open>From the loaded set to the intersection. The \<open>opa\<close> call is the receiving side of the polynomial addition.\<close>

definition psi_receive ::
  "(nat \<Rightarrow> int list \<Rightarrow> 'r \<Rightarrow> (opa_result \<times> 't) result option) \<Rightarrow> poly_cfg \<Rightarrow> int \<Rightarrow> string \<Rightarrow> nat \<Rightarrow> int list \<Rightarrow> 'r
   \<Rightarrow> (int list \<times> 't) result option" where
  "psi_receive opa cfg q role m_A set_B rx =
     (case bind_r (validate_psi_set (pc_env cfg) set_B q role) (\<lambda>_.
           bind_r (psi_points (pc_env cfg) m_A (length set_B) q) (\<lambda>n_pts.
           bind_r (poly_from_roots cfg set_B q) (\<lambda>pB. Inr (n_pts, pB)))) of
        Inl err \<Rightarrow> Some (Inl err)
      | Inr (n_pts, pB) \<Rightarrow> map_option (\<lambda>res. bind_r res (\<lambda>(out, tx).
          bind_r (lagrange_eval_batch_auto cfg (or_y_vals out) set_B (or_q out)) (\<lambda>eval_vals.
          Inr (psi_members set_B eval_vals, tx)))) (opa n_pts pB rx))"

text \<open>The two mask polynomials are drawn one after the other from the sender's generator.\<close>

definition psi_send ::
  "(nat \<Rightarrow> int list \<Rightarrow> int list \<Rightarrow> 's \<Rightarrow> (opa_send_evals \<times> 'u) result) \<Rightarrow> poly_cfg \<Rightarrow> int \<Rightarrow> string \<Rightarrow> (nat \<Rightarrow> int) \<Rightarrow> nat \<Rightarrow> int list \<Rightarrow> 's
   \<Rightarrow> 'u result" where
  "psi_send opa cfg q role rnd m_B set_A rx =
     bind_r (validate_psi_set (pc_env cfg) set_A q role) (\<lambda>_.
     bind_r (psi_points (pc_env cfg) (length set_A) m_B q) (\<lambda>n_pts.
     bind_r (poly_from_roots cfg set_A q) (\<lambda>pA.
     let rA = random_poly (length set_A) rnd; rA_prime = random_poly m_B (\<lambda>i. rnd (length set_A + 1 + i)) in
     bind_r (poly_mul_mod cfg pA rA_prime q) (\<lambda>qA.
     bind_r (opa n_pts qA rA rx) (\<lambda>(sent, tx). Inr tx)))))"

definition psi_receiver where
  "psi_receiver cfg digest cs sk rx m_A set_B =
     psi_receive (\<lambda>n_pts pB. opa_receive_with_q cfg digest cs sk rx n_pts pB (cleartext_bound cs)) cfg (cleartext_bound cs) ''cg_psi_receiver'' m_A set_B"

definition psi_sender where
  "psi_sender cfg digest disc cs rs rnd m_B set_A =
     psi_send (\<lambda>n_pts qA rA. opa_send_with_q cfg digest disc cs rs n_pts qA rA (cleartext_bound cs)) cfg (cleartext_bound cs) ''cg_psi_sender'' rnd m_B set_A"

definition rf_psi_receiver where
  "rf_psi_receiver cfg digest cs sk rx m_A set_B =
     psi_receive (rf_opa_receive cfg digest cs sk rx) cfg (cleartext_bound cs) ''cg_rf_psi_receiver'' m_A set_B"

definition rf_psi_sender where
  "rf_psi_sender cfg digest disc cs rs rnd m_B set_A =
     psi_send (rf_opa_send cfg digest disc cs rs) cfg (cleartext_bound cs) ''cg_rf_psi_sender'' rnd m_B set_A"

subsection \<open>Correctness\<close>

lemma psi_members_filter:
  assumes "length eval_vals = length set_B"
  shows "psi_members set_B eval_vals = map snd (filter (\<lambda>(v, b). v = 0) (zip eval_vals set_B))"
proof -
  have "fold (\<lambda>i xs. if eval_vals ! i = 0 then xs @ [set_B ! i] else xs) [0..<n] []
      = map snd (filter (\<lambda>(v, b). v = 0) (take n (zip eval_vals set_B)))" if "n \<le> length set_B" for n
    using that
  proof (induction n)
    case (Suc n)
    then show ?case
      using assms by (simp add: take_Suc_conv_app_nth split: prod.splits)
  qed simp
  from this[of "length set_B"] show ?thesis
    using assms by (simp add: psi_members_def)
qed

lemma psi_members_eval: "psi_members set_B (map f set_B) = filter (\<lambda>b. f b = 0) set_B"
proof -
  have "map snd (filter (\<lambda>(v, b). v = 0) (zip (map f xs) xs)) = filter (\<lambda>b. f b = 0) xs" for xs
    by (induction xs) auto
  then show ?thesis
    by (simp add: psi_members_filter)
qed

text \<open>When the numbers of points and of coefficients and the configuration fit.\<close>

definition psi_ok :: "poly_cfg \<Rightarrow> int \<Rightarrow> nat \<Rightarrow> nat \<Rightarrow> nat \<Rightarrow> bool" where
  "psi_ok cfg q m_A m_B n \<longleftrightarrow> psi_points (pc_env cfg) m_A m_B q = Inr n \<and> points_ok cfg q n \<and> targets_ok cfg q n m_B"

definition psi_result :: "int \<Rightarrow> int list \<Rightarrow> int list \<Rightarrow> int list \<Rightarrow> int list" where
  "psi_result q rmask set_A set_B = filter (\<lambda>b. ((\<Prod>a \<leftarrow> set_A. b - a) * peval rmask b) mod q = 0) set_B"

lemma length_pmul: "r \<noteq> [] \<Longrightarrow> p \<noteq> [] \<Longrightarrow> length (pmul p r) = length p + length r - 1"
proof (induction p)
  case (Cons a p)
  then show ?case
    by (cases "p = []") (auto simp: pscale_def Suc_le_eq)
qed simp

lemma psi_points_bound:
  assumes "psi_points env m_A m_B q = Inr n"
  shows "m_A + m_B + 1 \<le> n" "m_A + m_B + 1 < 2 ^ 61"
proof -
  obtain m where m: "cg_max_items env = Inr m" "m_A + m_B + 1 \<le> m" "psi_opa_point_count env (m_A + m_B + 1) q = Inr n"
    using assms by (auto simp: psi_points_def bind_r_Inr_iff cg_checked_add_Inr)
  then show small: "m_A + m_B + 1 < 2 ^ 61"
    using cg_max_items_bounds[OF m(1)] by simp
  show "m_A + m_B + 1 \<le> n"
    using m(3) small next_power_of_two_size_spec[of "m_A + m_B + 1"] by (auto simp: psi_opa_point_count_def bind_r_Inr_iff split: if_splits)
qed

text \<open>What the sender's polynomials and the receiver's polynomial evaluate to.\<close>

lemma psi_combined:
  assumes "node q set_A pA" "node q set_B pB" "pcong q qA (pmul pA rmask)" "b \<in> set set_B"
  shows "(peval (padd (pmul pA rmask) (pmul rA pB)) b) mod q = ((\<Prod>a \<leftarrow> set_A. b - a) * peval rmask b) mod q"
proof -
  have "peval pA b mod q = (\<Prod>a \<leftarrow> set_A. b - a) mod q" "peval pB b mod q = 0"
    using assms(1,2) pcong_peval[of q pA "roots_poly set_A" b] pcong_peval[of q pB "roots_poly set_B" b]
      root_vanishes[OF assms(4)]
    by (simp_all add: node_def peval_roots_poly)
  then have "(peval pA b * peval rmask b) mod q = ((\<Prod>a \<leftarrow> set_A. b - a) * peval rmask b) mod q" "(peval rA b * peval pB b) mod q = 0"
    by (auto intro: mod_cong_mult)
  then show ?thesis
    by (metis add.right_neutral mod_add_right_eq peval_padd peval_pmul)
qed

context ole_channel begin

lemma psi_run:
  assumes "ok n" "psi_ok cfg bound (length A) (length B) n"
    and "validate_psi_set (pc_env cfg) A bound role_A = Inr ()" "validate_psi_set (pc_env cfg) B bound role_B = Inr ()"
  shows "\<exists>t u r s. net t u r s \<and>
    psi_receive (\<lambda>n_pts pB. opa_receive_via recv cfg n_pts pB bound) cfg bound role_B (length A) B r
      = Some (Inr (psi_result bound (random_poly (length B) (\<lambda>i. rnd (length A + 1 + i))) A B, t)) \<and>
    psi_send (\<lambda>n_pts qA rA. opa_send_via send cfg n_pts qA rA bound) cfg bound role_A rnd (length B) A s = Inr u"
proof -
  let ?rp = "random_poly (length B) (\<lambda>i. rnd (length A + 1 + i))" and ?rA = "random_poly (length A) rnd"
  have pts: "psi_points (pc_env cfg) (length A) (length B) bound = Inr n" and po: "points_ok cfg bound n"
    and tg: "targets_ok cfg bound n (length B)"
    using assms(2) by (simp_all add: psi_ok_def)
  note nb = psi_points_bound[OF pts]
  have q: "cfg_ok cfg bound" "1 < bound"
    using po by (simp_all add: points_ok_def)
  obtain pA where pA: "poly_from_roots cfg A bound = Inr pA" "node bound A pA"
    using poly_from_roots_ok[OF q, of A] nb(2) by auto
  obtain pB where pB: "poly_from_roots cfg B bound = Inr pB" "node bound B pB"
    using poly_from_roots_ok[OF q, of B] nb(2) by auto
  note shA = node_shape[OF pA(2) q(2)] and shB = node_shape[OF pB(2) q(2)]
  have n: "n < 2 ^ 31"
    using po by (simp add: points_ok_def)
  have "mul_sizes_ok cfg bound pA ?rp"
    using q shA(1) nb(2) by (simp add: mul_sizes_ok_def random_poly_def)
  then obtain qA where qA: "poly_mul_mod cfg pA ?rp bound = Inr qA" "pcong bound qA (pmul pA ?rp)" "canonical bound qA"
    using pm.product by blast
  have lr: "?rp \<noteq> []"
    by (simp add: random_poly_def)
  have "0 < length ?rp" "length (pmul pA ?rp) = length A + length ?rp"
    using length_pmul[OF lr shA(3)] shA(1) by (simp_all add: random_poly_def)
  then have "0 < length (pmul pA ?rp)"
    by linarith
  then have "pmul pA ?rp \<noteq> []"
    by (rule iffD1[OF length_greater_0_conv])
  then have "length qA \<le> length (pmul pA ?rp)"
    by (rule canonical_pcong_length[OF qA(3,2)])
  then have lq: "length pB < 2 ^ 31" "length qA < 2 ^ 31" "length ?rA < 2 ^ 31"
    using nb(1) n shA(1,3) shB(1) length_pmul[of ?rp pA] by (simp_all add: random_poly_def)
  let ?f = "padd (pmul pA ?rp) (pmul ?rA pB)"
  obtain alpha t u r s where run: "rf_opa_eval_points (pc_env cfg) n bound = Inr alpha" "length alpha = n" "net t u r s"
    "opa_receive_via recv cfg n pB bound r = Some (Inr (\<lparr> or_alpha = alpha,
      or_input_evals = map (\<lambda>t. peval pB t mod bound) alpha, or_y_vals = opa_values bound qA ?rA pB alpha, or_q = bound \<rparr>, t))"
    "opa_send_via send cfg n qA ?rA bound s = Inr (\<lparr> os_alpha = alpha, os_b_vals = map (\<lambda>t. peval qA t mod bound) alpha,
      os_a_vals = map (\<lambda>t. peval ?rA t mod bound) alpha, os_q = bound \<rparr>, u)"
    using opa_run[OF assms(1) po lq] by blast
  let ?y = "opa_values bound qA ?rA pB alpha"
  have ly: "length ?y = n" and al: "public_points (pc_env cfg) bound n = alpha"
    using run(1,2) by (simp_all add: opa_values_def public_points_def rf_opa_eval_points_def)
  have fl: "length ?f \<le> n"
    using nb(1) shA(1,3) shB(1,3) length_pmul[of ?rp pA] length_pmul[of pB ?rA]
    by (simp add: random_poly_def)
  have fv: "peval ?f (alpha ! i) mod bound = ?y ! i mod bound" if "i < n" for i
  proof -
    have "peval qA (alpha ! i) mod bound = peval (pmul pA ?rp) (alpha ! i) mod bound"
      using qA(2) by (rule pcong_peval)
    then have "(peval (pmul pA ?rp) (alpha ! i) + peval ?rA (alpha ! i) * peval pB (alpha ! i)) mod bound
        = (peval qA (alpha ! i) + peval ?rA (alpha ! i) * peval pB (alpha ! i)) mod bound"
      by (rule mod_cong_add[OF sym refl])
    then show ?thesis
      using that run(2) by (simp add: opa_values_def)
  qed
  have "?y \<noteq> []"
    using ly nb(1) by auto
  then have ev: "lagrange_eval_batch_auto cfg ?y B bound = Inr (map (\<lambda>b. pvalue ?f b bound) B)"
    using lagrange_eval_batch_auto_spec[of cfg bound ?y B ?f] tg ly fl fv al by simp
  have "pvalue ?f b bound = ((\<Prod>a \<leftarrow> A. b - a) * peval ?rp b) mod bound" if "b \<in> set B" for b
    unfolding pvalue_eq using psi_combined[OF pA(2) pB(2) qA(2) that] by simp
  then have "psi_members B (map (\<lambda>b. pvalue ?f b bound) B) = psi_result bound ?rp A B"
    unfolding psi_members_eval psi_result_def by (intro filter_cong) auto
  then have "psi_receive (\<lambda>n_pts pB. opa_receive_via recv cfg n_pts pB bound) cfg bound role_B (length A) B r = Some (Inr (psi_result bound ?rp A B, t))"
    by (simp add: psi_receive_def assms(4) pts pB(1) run(4) ev)
  moreover have "psi_send (\<lambda>n_pts qA rA. opa_send_via send cfg n_pts qA rA bound) cfg bound role_A rnd (length B) A s = Inr u"
    using qA(1) run(5) by (simp add: psi_send_def assms(3) pts pA(1) Let_def)
  ultimately show ?thesis
    using run(3) by blast
qed

end

subsection \<open>What the result is\<close>

text \<open>A modulus all of whose nonzero residues are invertible, as for a prime.\<close>

definition field_modulus :: "int \<Rightarrow> bool" where
  "field_modulus q \<longleftrightarrow> (\<forall>d. 0 < d \<and> d < q \<longrightarrow> unit_mod q d)"

lemma difference_unit:
  assumes "field_modulus q" "0 \<le> a" "a < q" "0 \<le> b" "b < q" "a \<noteq> b"
  shows "unit_mod q (b - a)"
proof -
  have "(b - a) mod q \<noteq> 0"
    using assms(2-6) mod_eq_dvd_iff[of b q a] by (auto simp: mod_eq_0_iff_dvd)
  moreover have "0 \<le> (b - a) mod q" "(b - a) mod q < q"
    using assms(2,3) by simp_all
  ultimately have "0 < (b - a) mod q" "(b - a) mod q < q"
    by simp_all
  then show ?thesis
    using assms(1) unit_mod_cong[of "(b - a) mod q" q "b - a"] by (simp add: field_modulus_def)
qed

lemma differences_unit:
  assumes "field_modulus q" "1 < q" "set A \<subseteq> {0..<q}" "0 \<le> b" "b < q" "b \<notin> set A"
  shows "unit_mod q (\<Prod>a \<leftarrow> A. b - a)"
  using assms(3,6)
proof (induction A)
  case Nil
  then show ?case
    unfolding unit_mod_def by (intro exI[of _ 1]) simp
next
  case (Cons a A)
  then show ?case
    using difference_unit[OF assms(1) _ _ assms(4,5), of a] unit_mod_mult by simp
qed

lemma prod_list_vanishes: "b \<in> set A \<Longrightarrow> (\<Prod>a \<leftarrow> A. b - a) = (0 :: int)"
  by (induction A) auto

lemma psi_result_bounds: "set A \<inter> set B \<subseteq> set (psi_result q rmask A B)" "set (psi_result q rmask A B) \<subseteq> set B"
  by (auto simp: psi_result_def prod_list_vanishes)

lemma psi_result_exact:
  assumes "field_modulus q" "1 < q" "set A \<subseteq> {0..<q}" "set B \<subseteq> {0..<q}"
    and "\<forall>b \<in> set B - set A. peval rmask b mod q \<noteq> 0"
  shows "psi_result q rmask A B = filter (\<lambda>b. b \<in> set A) B"
  unfolding psi_result_def
proof (rule filter_cong[OF refl])
  fix b assume b: "b \<in> set B"
  show "((\<Prod>a \<leftarrow> A. b - a) * peval rmask b) mod q = 0 \<longleftrightarrow> b \<in> set A"
  proof (cases "b \<in> set A")
    case False
    then have "unit_mod q (\<Prod>a \<leftarrow> A. b - a)"
      using differences_unit[OF assms(1-3), of b] assms(4) b by auto
    then show ?thesis
      using unit_mod_cancel[of q "\<Prod>a \<leftarrow> A. b - a" "peval rmask b"] assms(5) b False by auto
  qed (simp add: prod_list_vanishes)
qed

text \<open>The four programs behind the firewalls.\<close>

lemma rf_psi_run:
  assumes "rf_ready cs G D disc (pc_env cfg) digest k ord1 ord2 ord3 n" "psi_ok cfg (cleartext_bound cs) (length A) (length B) n"
    and "validate_psi_set (pc_env cfg) A (cleartext_bound cs) role = Inr ()" "validate_psi_set (pc_env cfg) B (cleartext_bound cs) role = Inr ()"
  shows "\<exists>t u r s. rf_net (pc_env cfg) digest disc cs f g ord1 ord2 ord3 t u r s \<and>
    rf_psi_receiver cfg digest cs sk rx (length A) B r
      = Some (Inr (psi_result (cleartext_bound cs) (random_poly (length B) (\<lambda>i. rnd (length A + 1 + i))) A B, t)) \<and>
    rf_psi_sender cfg digest disc cs rs rnd (length B) A s = Inr u"
  unfolding rf_psi_receiver_def rf_psi_sender_def rf_opa_receive_def[abs_def] rf_opa_send_def[abs_def]
    rf_opa_receive_with_q_def rf_opa_send_with_q_def
  by (rule rf_channel.psi_run[OF assms(1,2)]) (use assms(3,4) in \<open>simp_all add: validate_psi_set_Inr\<close>)

lemma direct_psi_run:
  assumes "direct_ready cs G D disc (pc_env cfg) digest k ord n" "psi_ok cfg (cleartext_bound cs) (length A) (length B) n"
    and "validate_psi_set (pc_env cfg) A (cleartext_bound cs) role = Inr ()" "validate_psi_set (pc_env cfg) B (cleartext_bound cs) role = Inr ()"
  shows "\<exists>t u r s. direct_net ord t u r s \<and>
    psi_receiver cfg digest cs sk rx (length A) B r
      = Some (Inr (psi_result (cleartext_bound cs) (random_poly (length B) (\<lambda>i. rnd (length A + 1 + i))) A B, t)) \<and>
    psi_sender cfg digest disc cs rs rnd (length B) A s = Inr u"
  unfolding psi_receiver_def psi_sender_def opa_receive_with_q_def opa_send_with_q_def
  by (rule direct_channel.psi_run[OF assms(1,2)]) (use assms(3,4) in \<open>simp_all add: validate_psi_set_Inr\<close>)

text \<open>Multiplying by a unit after adding a constant is a bijection of the residues.\<close>

lemma unit_affine_bijective:
  assumes "unit_mod q u" "0 < q" "0 \<le> v" "v < q"
  shows "\<exists>!c. 0 \<le> c \<and> c < q \<and> (u * (c + k)) mod q = v"
proof -
  obtain w where w: "(u * w) mod q = 1 mod q"
    using assms(1) by (auto simp: unit_mod_def)
  let ?c = "(w * v - k) mod q"
  have "(?c + k) mod q = (w * v) mod q"
    by (simp add: mod_simps)
  then have "(u * (?c + k)) mod q = (u * (w * v)) mod q"
    by (rule mod_cong_mult[OF refl])
  also have "\<dots> = (u * w * v) mod q"
    by (simp only: mult.assoc)
  also have "\<dots> = (1 * v) mod q"
    using w by (rule mod_cong_mult[OF _ refl])
  finally have ex: "(u * (?c + k)) mod q = v"
    using assms(3,4) by simp
  have "c = ?c" if "0 \<le> c" "c < q" "(u * (c + k)) mod q = v" for c
  proof -
    have "(u * (c + k) - u * (?c + k)) mod q = (v - v) mod q"
      using that(3) ex mod_diff_eq by metis
    then have "(u * (c - ?c)) mod q = 0"
      by (simp add: algebra_simps)
    then have "(c - ?c) mod q = 0"
      by (rule unit_mod_cancel[OF assms(1)])
    then have "c mod q = ?c mod q"
      by (simp only: mod_cong_dvd mod_eq_0_iff_dvd)
    then show ?thesis
      using that(1,2) by simp
  qed
  then show ?thesis
    using ex assms(2) by (intro ex1I[of _ ?c]) auto
qed

subsection \<open>A concrete setting\<close>

definition five_env :: env where
  "five_env name = (if name = ''CG_RF_EXPECTED_N'' then Some ''5'' else None)"

definition five_cfg :: poly_cfg where
  "five_cfg = \<lparr> pc_env = five_env, pc_ntl = None \<rparr>"

lemma five_env_unset [simp]: "name \<noteq> ''CG_RF_EXPECTED_N'' \<Longrightarrow> five_env name = None"
  by (simp add: five_env_def)

lemma five_cfg_env [simp]: "pc_env five_cfg = five_env" "pc_ntl five_cfg = None"
  by (simp_all add: five_cfg_def)

lemma field_7: "field_modulus 7"
proof -
  have "unit_mod 7 1" "unit_mod 7 2" "unit_mod 7 3" "unit_mod 7 4" "unit_mod 7 5" "unit_mod 7 6"
    unfolding unit_mod_def by ((rule exI[of _ 1], simp; fail) | (rule exI[of _ 4], simp; fail) | (rule exI[of _ 5], simp; fail) |
        (rule exI[of _ 2], simp; fail) | (rule exI[of _ 3], simp; fail) | (rule exI[of _ 6], simp; fail))+
  moreover have "d = 1 \<or> d = 2 \<or> d = 3 \<or> d = 4 \<or> d = 5 \<or> d = 6" if "0 < d \<and> d < 7" for d :: int
    using that by linarith
  ultimately show ?thesis
    unfolding field_modulus_def by metis
qed

lemma field_small_units: "field_modulus q \<Longrightarrow> int n \<le> q \<Longrightarrow> small_units q n"
  by (auto simp: field_modulus_def small_units_def)

lemma five_psi: "psi_ok five_cfg 7 2 2 5"
  by (simp add: psi_ok_def psi_points_def cg_checked_add_def sz_sub_exact sz_add_exact size_limit_def psi_opa_point_count_def
      is_ntt128_prime_def ntt128_prime_def cg_validate_count_def points_ok_def targets_ok_def interp_ok_def cfg_ok_def
      ntt_poly_threshold_def ntl_poly_threshold_def env_value_def poly_eval_auto_horner_max_points_def poly_eval_method_env_def
      psi_lagrange_to_coeff_threshold_def field_small_units[OF field_7])

lemma five_ready: "rf_ready (cyc 7) (cyc_forms 7) (cyc_forms 7) (1 - 2 ^ (2 * 7)) five_env (replicate 32 0) 1 [0] [0] [0] 5"
proof -
  have n: "cg_parse_u64 (Some ''5'') lbl 10 = Inr 5" for lbl
    by (subst cg_parse_u64_decimal) (simp add: is_digit_def digit_value_def size_limit_def)
  have u: "[0..<1] = [0 :: nat]"
    by (simp add: upt_rec)
  have cfg: "rf_chunk_size five_env = Inr 64" "rf_transport_lanes five_env = Inr 1" "required_env_size five_env ''CG_RF_EXPECTED_N'' = Inr 5"
    using n by (simp_all add: rf_chunk_size_def rf_transport_lanes_def cg_config_size_def required_env_size_def five_env_def
        env_value_def cg_parse_size_def cg_max_items_def size_limit_def)
  have "endpoint five_env (cyc_forms 7 \<union> cyc_forms 7) 5"
    by (rule cyc_endpoint) (simp_all add: cfg mpz_limit_def cg_config_size_def cg_validate_count_def)
  moreover have "params_ok (cyc 7) (cyc_forms 7) (cyc_forms 7) (1 - 2 ^ (2 * 7))"
    by (rule cyc_params) simp
  moreover have "\<exists>hs. connect_rf_lanes five_env (replicate 32 0) 1 5 = Inr hs"
    by (simp add: connect_rf_lanes_def connect_lane_def cg_validate_count_def validate_lane_metadata_def env_value_def u)
  ultimately show ?thesis
    by (simp add: rf_ready_def channel_ready_def cfg arrival_order_def lessThan_Suc)
qed

subsection \<open>Properties\<close>

text \<open>
  Private set intersection through both firewalls. For valid sets over a field whose sizes fit
  the public points, the four programs run to the end, and if the sender's mask polynomial has no
  root among the receiver's private elements the receiver holds exactly the common elements, in the
  order of its set.
\<close>

theorem rf_psi_correct:
  assumes "rf_ready cs G D disc (pc_env cfg) digest k ord1 ord2 ord3 n" "psi_ok cfg (cleartext_bound cs) (length A) (length B) n"
    and "validate_psi_set (pc_env cfg) A (cleartext_bound cs) role = Inr ()" "validate_psi_set (pc_env cfg) B (cleartext_bound cs) role = Inr ()"
    and "field_modulus (cleartext_bound cs)"
    and "\<forall>b \<in> set B - set A. peval (random_poly (length B) (\<lambda>i. rnd (length A + 1 + i))) b mod cleartext_bound cs \<noteq> 0"
  shows "\<exists>t u r s. rf_net (pc_env cfg) digest disc cs f g ord1 ord2 ord3 t u r s \<and>
    rf_psi_receiver cfg digest cs sk rx (length A) B r = Some (Inr (filter (\<lambda>b. b \<in> set A) B, t)) \<and>
    rf_psi_sender cfg digest disc cs rs rnd (length B) A s = Inr u"
proof -
  have "1 < cleartext_bound cs"
    using assms(2) by (simp add: psi_ok_def points_ok_def)
  then have "psi_result (cleartext_bound cs) (random_poly (length B) (\<lambda>i. rnd (length A + 1 + i))) A B = filter (\<lambda>b. b \<in> set A) B"
    using psi_result_exact[OF assms(5) _ _ _ assms(6)] assms(3,4) by (simp add: validate_psi_set_Inr)
  then show ?thesis
    using rf_psi_run[OF assms(1-4)] by metis
qed

definition five_masks :: "nat \<Rightarrow> int" where
  "five_masks = (!) [5, 0, 3, 1, 4, 6]"

theorem rf_psi_correct_witness:
  "\<exists>t u r s. rf_net (pc_env five_cfg) (replicate 32 0) (1 - 2 ^ (2 * 7)) (cyc 7) demo_firewall demo_firewall [0] [0] [0] t u r s \<and>
    rf_psi_receiver five_cfg (replicate 32 0) (cyc 7) 3 int (length [1, 2 :: int]) [2, 3] r
      = Some (Inr (filter (\<lambda>b. b \<in> set [1, 2]) [2, 3], t)) \<and>
    rf_psi_sender five_cfg (replicate 32 0) (1 - 2 ^ (2 * 7)) (cyc 7) int five_masks (length [2, 3 :: int]) [1, 2] s = Inr u"
proof (rule rf_psi_correct[where role = "''psi''"])
  show "rf_ready (cyc 7) (cyc_forms 7) (cyc_forms 7) (1 - 2 ^ (2 * 7)) (pc_env five_cfg) (replicate 32 0) 1 [0] [0] [0] 5"
    using five_ready by simp
  show "psi_ok five_cfg (cleartext_bound (cyc 7)) (length [1, 2 :: int]) (length [2, 3 :: int]) 5"
    using five_psi by (simp add: numeral_2_eq_2)
  have "[0..<2 + 1] = [0, 1, 2 :: nat]"
    by (simp add: upt_rec)
  then show "\<forall>b \<in> set [2, 3] - set [1, 2]. peval (random_poly (length [2, 3 :: int]) (\<lambda>i. five_masks (length [1, 2 :: int] + 1 + i))) b
      mod cleartext_bound (cyc 7) \<noteq> 0"
    by (simp add: random_poly_def five_masks_def)
qed (simp_all add: validate_psi_set_Inr field_7)

text \<open>
  C5: No common element is ever missed without firewalls either. Whatever the masks, the two programs
  run to the end, and the receiver's result consists of elements of its own set, without repetition,
  and contains every common element.
\<close>

theorem direct_psi_never_misses:
  assumes "direct_ready cs G D disc (pc_env cfg) digest k ord n" "psi_ok cfg (cleartext_bound cs) (length A) (length B) n"
    and "validate_psi_set (pc_env cfg) A (cleartext_bound cs) role = Inr ()" "validate_psi_set (pc_env cfg) B (cleartext_bound cs) role = Inr ()"
  shows "\<exists>out t u r s. direct_net ord t u r s \<and> psi_receiver cfg digest cs sk rx (length A) B r = Some (Inr (out, t)) \<and>
    psi_sender cfg digest disc cs rs rnd (length B) A s = Inr u \<and> set A \<inter> set B \<subseteq> set out \<and> set out \<subseteq> set B \<and> distinct out"
proof -
  have "distinct (psi_result q rmask A B)" for q rmask
    using assms(4) by (simp add: psi_result_def validate_psi_set_Inr)
  then show ?thesis
    using direct_psi_run[OF assms] psi_result_bounds by metis
qed

theorem direct_psi_never_misses_witness:
  "\<exists>out t u r s. direct_net [0] t u r s \<and>
    psi_receiver five_cfg (replicate 32 0) (cyc 7) 3 int (length [1, 2 :: int]) [2, 3] r = Some (Inr (out, t)) \<and>
    psi_sender five_cfg (replicate 32 0) (1 - 2 ^ (2 * 7)) (cyc 7) int five_masks (length [2, 3 :: int]) [1, 2] s = Inr u \<and>
    set [1, 2] \<inter> set [2, 3] \<subseteq> set out \<and> set out \<subseteq> set [2, 3 :: int] \<and> distinct out"
proof (rule direct_psi_never_misses[where role = "''psi''"])
  show "direct_ready (cyc 7) (cyc_forms 7) (cyc_forms 7) (1 - 2 ^ (2 * 7)) (pc_env five_cfg) (replicate 32 0) 1 [0] 5"
    using five_ready by (simp add: direct_ready_def rf_ready_def)
  show "psi_ok five_cfg (cleartext_bound (cyc 7)) (length [1, 2 :: int]) (length [2, 3 :: int]) 5"
    using five_psi by (simp add: numeral_2_eq_2)
qed (simp_all add: validate_psi_set_Inr)

text \<open>A foreign element in the result, in terms of the constant coefficient of the sender's second mask.\<close>

lemma psi_result_constant:
  assumes "b \<in> set B" "\<forall>a \<in> set A. unit_mod q (b - a)" "1 < q"
  shows "\<exists>c0. 0 \<le> c0 \<and> c0 < q \<and> (\<forall>c. 0 \<le> c \<longrightarrow> c < q \<longrightarrow>
    (b \<in> set (psi_result q (random_poly m (\<lambda>i. (rnd(l := c)) (l + i))) A B) \<longleftrightarrow> c = c0))"
proof -
  let ?u = "\<Prod>a \<leftarrow> A. b - a" and ?cs = "map (\<lambda>i. rnd (l + Suc i)) [0..<m]"
  have u: "unit_mod q ?u"
    using assms(2)
  proof (induction A)
    case Nil
    then show ?case
      unfolding unit_mod_def by (intro exI[of _ 1]) simp
  qed (simp add: unit_mod_mult)
  define slips where "slips = (\<lambda>c. (?u * (c + b * peval ?cs b)) mod q = 0)"
  have "\<exists>!c. 0 \<le> c \<and> c < q \<and> slips c"
    unfolding slips_def by (rule unit_affine_bijective[OF u]) (use assms(3) in simp_all)
  then obtain c0 where c0: "0 \<le> c0" "c0 < q" "slips c0" "\<And>c. 0 \<le> c \<Longrightarrow> c < q \<Longrightarrow> slips c \<Longrightarrow> c = c0"
    by blast
  have "random_poly m (\<lambda>i. (rnd(l := c)) (l + i)) = c # ?cs" for c
  proof -
    have "[0..<m + 1] = 0 # map Suc [0..<m]"
      by (simp add: map_Suc_upt upt_conv_Cons del: upt_Suc)
    then show ?thesis
      by (simp add: random_poly_def del: upt_Suc)
  qed
  then have "b \<in> set (psi_result q (random_poly m (\<lambda>i. (rnd(l := c)) (l + i))) A B) \<longleftrightarrow> slips c" for c
    using assms(1) by (simp add: psi_result_def slips_def)
  then show ?thesis
    using c0 by blast
qed

text \<open>The results that the four programs can have when the sender's generator is \<open>rnd\<close>.\<close>

definition rf_psi_outcome ::
  "poly_cfg \<Rightarrow> byte list \<Rightarrow> int \<Rightarrow> qfi cl_ops \<Rightarrow> firewall_inputs \<Rightarrow> firewall_inputs \<Rightarrow> nat list \<Rightarrow> nat list \<Rightarrow> nat list \<Rightarrow> int \<Rightarrow> (nat \<Rightarrow> int) \<Rightarrow> (nat \<Rightarrow> int)
   \<Rightarrow> int list \<Rightarrow> int list \<Rightarrow> (nat \<Rightarrow> int) \<Rightarrow> int list \<Rightarrow> bool" where
  "rf_psi_outcome cfg digest disc cs f g ord1 ord2 ord3 sk rx rs A B rnd out \<longleftrightarrow>
     (\<exists>t u r s. rf_net (pc_env cfg) digest disc cs f g ord1 ord2 ord3 t u r s \<and>
        rf_psi_receiver cfg digest cs sk rx (length A) B r = Some (Inr (out, t)) \<and>
        rf_psi_sender cfg digest disc cs rs rnd (length B) A s = Inr u)"

text \<open>
  C17: A foreign element slips into the intersection for exactly one choice of one coefficient. Take an
  element of the receiver's set whose differences to all elements of the sender's set are invertible, and
  fix everything the programs draw except the constant coefficient of the sender's second mask. Among the
  \<open>q\<close> values of this coefficient there is one with which the four programs run to the end and output
  the element; with each of the others they run to the end and their output does not contain it. So if the
  coefficient is uniform, the element is a false member with probability exactly \<open>1/q\<close>.
\<close>

theorem psi_false_member_once:
  assumes "rf_ready cs G D disc (pc_env cfg) digest k ord1 ord2 ord3 n" "psi_ok cfg q (length A) (length B) n"
    and "validate_psi_set (pc_env cfg) A q role = Inr ()" "validate_psi_set (pc_env cfg) B q role = Inr ()"
    and "b \<in> set B" "\<forall>a \<in> set A. unit_mod q (b - a)" "q = cleartext_bound cs"
  shows "\<exists>c0. 0 \<le> c0 \<and> c0 < q \<and>
    (\<exists>out. rf_psi_outcome cfg digest disc cs f g ord1 ord2 ord3 sk rx rs A B (rnd(length A + 1 := c0)) out \<and> b \<in> set out) \<and>
    {0..<q} - {c0} \<subseteq> {c. \<exists>out. rf_psi_outcome cfg digest disc cs f g ord1 ord2 ord3 sk rx rs A B (rnd(length A + 1 := c)) out \<and> b \<notin> set out}"
proof -
  let ?out = "\<lambda>c. psi_result q (random_poly (length B) (\<lambda>i. (rnd(length A + 1 := c)) (length A + 1 + i))) A B"
  have "1 < q"
    using assms(2) by (simp add: psi_ok_def points_ok_def)
  then obtain c0 where c0: "0 \<le> c0" "c0 < q" "\<And>c. 0 \<le> c \<Longrightarrow> c < q \<Longrightarrow> b \<in> set (?out c) \<longleftrightarrow> c = c0"
    using psi_result_constant[OF assms(5,6), of "length B" rnd "length A + 1"] by blast
  have "rf_psi_outcome cfg digest disc cs f g ord1 ord2 ord3 sk rx rs A B (rnd(length A + 1 := c)) (?out c)" for c
    unfolding rf_psi_outcome_def using rf_psi_run[OF assms(1-4)[unfolded assms(7)], of f g sk rx "rnd(length A + 1 := c)" rs] assms(7)
    by metis
  then have "\<exists>out. rf_psi_outcome cfg digest disc cs f g ord1 ord2 ord3 sk rx rs A B (rnd(length A + 1 := c)) out \<and> (b \<in> set out \<longleftrightarrow> c = c0)"
    if "0 \<le> c" "c < q" for c
    using c0(3)[OF that] by blast
  then show ?thesis
    using c0(1,2) by (intro exI[of _ c0]) (simp add: subset_iff del: fun_upd_apply, blast)
qed

theorem psi_false_member_once_witness:
  "\<exists>c0. 0 \<le> c0 \<and> c0 < 7 \<and>
    (\<exists>out. rf_psi_outcome five_cfg (replicate 32 0) (1 - 2 ^ (2 * 7)) (cyc 7) demo_firewall demo_firewall [0] [0] [0] 3 int int
        [1, 2] [2, 3] (five_masks(length [1, 2 :: int] + 1 := c0)) out \<and> 3 \<in> set out) \<and>
    {0..<7} - {c0} \<subseteq> {c. \<exists>out. rf_psi_outcome five_cfg (replicate 32 0) (1 - 2 ^ (2 * 7)) (cyc 7) demo_firewall demo_firewall [0] [0] [0] 3 int int
        [1, 2] [2, 3] (five_masks(length [1, 2 :: int] + 1 := c)) out \<and> 3 \<notin> set out}"
proof (rule psi_false_member_once[where role = "''psi''"])
  show "rf_ready (cyc 7) (cyc_forms 7) (cyc_forms 7) (1 - 2 ^ (2 * 7)) (pc_env five_cfg) (replicate 32 0) 1 [0] [0] [0] 5"
    using five_ready by simp
  show "psi_ok five_cfg 7 (length [1, 2 :: int]) (length [2, 3 :: int]) 5"
    using five_psi by (simp add: numeral_2_eq_2)
  have "unit_mod 7 1" "unit_mod 7 2"
    unfolding unit_mod_def by (intro exI[of _ 1], simp) (intro exI[of _ 4], simp)
  then show "\<forall>a \<in> set [1, 2]. unit_mod 7 (3 - a)"
    by simp
qed (simp_all add: validate_psi_set_Inr)

end
