(* ===== verification/CG_PSI2.thy ===== *)
theory CG_PSI2
  imports CG_PSI
begin

text \<open>
  Two-way private set intersection: after the one-way protocol party B reveals its result to party A,
  in the clear (\<^verbatim>\<open>cg_psi2_receiver.cpp\<close>, \<^verbatim>\<open>cg_psi2_sender.cpp\<close>) or encrypted under a key of party A
  that both firewalls have mauled (\<^verbatim>\<open>cg_rf_psi2_reveal_*.cpp\<close>). A fixed number of slots is filled up
  with zeros; party A keeps the values of its own set.
\<close>

subsection \<open>What both variants share\<close>

definition reveal_slots :: "int list \<Rightarrow> nat \<Rightarrow> int list" where
  "reveal_slots intersection reveal_bound = map (\<lambda>i. if i < length intersection then intersection ! i else 0) [0..<reveal_bound]"

text \<open>The filter of party A, with the values seen so far.\<close>

definition reveal_collect :: "int list \<Rightarrow> int list \<Rightarrow> int list" where
  "reveal_collect own_values values' =
     snd (fold (\<lambda>v (seen, out). if v \<in> set own_values \<and> v \<notin> set seen then (v # seen, out @ [v]) else (seen, out)) values' ([], []))"

subsection \<open>Revealing in the clear\<close>

definition reveal_send :: "env \<Rightarrow> nat \<Rightarrow> int list \<Rightarrow> byte list result" where
  "reveal_send env reveal_bound intersection =
     bind_r (throw_if (length intersection > reveal_bound) (Runtime_error ''psi2_receiver: intersection larger than public reveal bound'')) (\<lambda>_.
     send_list (send_mpz env) (reveal_slots intersection reveal_bound))"

definition reveal_receive :: "env \<Rightarrow> nat \<Rightarrow> int list \<Rightarrow> byte list \<Rightarrow> int list result" where
  "reveal_receive env reveal_bound set_A rx =
     bind_r (recv_list (recv_mpz env) reveal_bound rx) (\<lambda>(values', _). Inr (reveal_collect set_A values'))"

text \<open>The two programs from the loaded set on; the second component written is the reveal connection.\<close>

definition psi2_receiver where
  "psi2_receiver cfg digest cs sk rx m_A set_B r =
     map_option (\<lambda>res. bind_r res (\<lambda>(intersection, tx).
       bind_r (reveal_send (pc_env cfg) (min m_A (length set_B)) intersection) (\<lambda>reveal. Inr (intersection, tx, reveal))))
       (psi_receive (\<lambda>n_pts pB. opa_receive_with_q cfg digest cs sk rx n_pts pB (cleartext_bound cs)) cfg (cleartext_bound cs) ''cg_psi2_receiver'' m_A set_B r)"

definition psi2_sender where
  "psi2_sender cfg digest disc cs rs rnd m_B set_A s reveal =
     bind_r (psi_send (\<lambda>n_pts qA rA. opa_send_with_q cfg digest disc cs rs n_pts qA rA (cleartext_bound cs)) cfg (cleartext_bound cs) ''cg_psi2_sender'' rnd m_B set_A s) (\<lambda>tx.
     bind_r (reveal_receive (pc_env cfg) (min (length set_A) m_B) set_A reveal) (\<lambda>intersection. Inr (intersection, tx)))"

subsection \<open>Revealing through the firewalls\<close>

text \<open>Party A: a fresh key out, the encrypted slots in. The set file has been read.\<close>

definition rf_psi2_reveal_sender ::
  "env \<Rightarrow> byte list \<Rightarrow> qfi cl_ops \<Rightarrow> int \<Rightarrow> int list \<Rightarrow> lanes \<Rightarrow> (int list \<times> lanes) result" where
  "rf_psi2_reveal_sender env digest cs sk own_values rx =
     bind_r (required_env_size env ''CG_PSI2_REVEAL_BOUND'') (\<lambda>reveal_bound.
     bind_r (rf_transport_lanes env) (\<lambda>k.
     bind_r (connect_rf_lanes env digest k reveal_bound) (\<lambda>fds.
     bind_r (check_replies env digest k reveal_bound rx) (\<lambda>rx.
     bind_r (send_pk_lane0 env (keygen_pk cs sk) fds) (\<lambda>fds.
     bind_r (recv_ct_lanes env (recv_ct env) rx (replicate reveal_bound null_ct) reveal_bound) (\<lambda>(enc_values, _).
     bind_r (par_fill (\<lambda>i. Inr (decrypt cs sk (enc_values ! i))) 0 reveal_bound (replicate reveal_bound 0)) (\<lambda>values'.
     Inr (reveal_collect own_values values', fds))))))))"

text \<open>A firewall's way back: receive a chunk, remove the own mask, add fresh noise, send it on.\<close>

definition reveal_stream ::
  "env \<Rightarrow> qfi cl_ops \<Rightarrow> qfi \<Rightarrow> int \<Rightarrow> (nat \<Rightarrow> int) \<Rightarrow> nat \<Rightarrow> lanes \<Rightarrow> lanes \<Rightarrow> (lanes \<times> lanes) result" where
  "reveal_stream env cs pk rho rnd n rx tx =
     bind_r (for_chunks env n (\<lambda>b e (in_buf, out_buf, rx, tx).
         bind_r (recv_ct_lanes_range env (recv_ct env) rx in_buf n b e) (\<lambda>(in_buf, rx).
         bind_r (par_fill (\<lambda>i. Inr (maul_inv_rerand cs (in_buf ! i) rho (make_enc_zero cs pk (rnd i)))) b e out_buf) (\<lambda>out_buf.
         bind_r (send_ct_lanes_range env (send_ct env) tx out_buf n b e) (\<lambda>tx.
         Inr (in_buf, out_buf, rx, tx)))))
       (replicate n null_ct, replicate n null_ct, rx, tx)) (\<lambda>(_, _, rx, tx). Inr (rx, tx))"

text \<open>
  Both firewall programs have the same body: connect towards party B, accept from the side of party A,
  maul the key on its way to B, relay the ciphertexts back.
\<close>

definition reveal_firewall ::
  "env \<Rightarrow> byte list \<Rightarrow> int \<Rightarrow> qfi cl_ops \<Rightarrow> int \<Rightarrow> (nat \<Rightarrow> int) \<Rightarrow> lanes \<Rightarrow> byte list list \<Rightarrow> (lanes \<times> lanes) result option" where
  "reveal_firewall env digest disc cs rho rnd b_rx a_conns =
     (case bind_r (required_env_size env ''CG_PSI2_REVEAL_BOUND'') (\<lambda>n.
           bind_r (rf_transport_lanes env) (\<lambda>k. bind_r (rf_chunk_size env) (\<lambda>_.
           bind_r (connect_rf_lanes env digest k n) (\<lambda>b_tx.
           bind_r (check_replies env digest k n b_rx) (\<lambda>b_rx. Inr (n, k, b_tx, b_rx)))))) of
        Inl err \<Rightarrow> Some (Inl err)
      | Inr (n, k, b_tx, b_rx) \<Rightarrow> (case accept_rf_lanes env digest a_conns k n of
          None \<Rightarrow> None
        | Some (Inl err) \<Rightarrow> Some (Inl err)
        | Some (Inr a_fds) \<Rightarrow> Some (
            bind_r (accepted_tx env digest k n) (\<lambda>a_tx.
            bind_r (firewall_key env disc cs rho (map the a_fds) b_tx) (\<lambda>(pk, pk_mauled, _, b_tx).
            bind_r (reveal_stream env cs pk rho rnd n b_rx a_tx) (\<lambda>(_, a_tx).
            Inr (b_tx, a_tx)))))))"

definition rf_psi2_reveal_rrf where
  "rf_psi2_reveal_rrf env digest disc cs rho rnd rec_rx srf_conns = reveal_firewall env digest disc cs rho rnd rec_rx srf_conns"

definition rf_psi2_reveal_srf where
  "rf_psi2_reveal_srf env digest disc cs rho rnd rrf_rx sender_conns = reveal_firewall env digest disc cs rho rnd rrf_rx sender_conns"

text \<open>Party B. The intersection file has been read.\<close>

definition rf_psi2_reveal_receiver ::
  "env \<Rightarrow> byte list \<Rightarrow> int \<Rightarrow> qfi cl_ops \<Rightarrow> (nat \<Rightarrow> int) \<Rightarrow> int list \<Rightarrow> byte list list \<Rightarrow> lanes result option" where
  "rf_psi2_reveal_receiver env digest disc cs rnd intersection conns =
     (case bind_r (required_env_size env ''CG_PSI2_REVEAL_BOUND'') (\<lambda>n. bind_r (rf_transport_lanes env) (\<lambda>k. Inr (n, k))) of
        Inl err \<Rightarrow> Some (Inl err)
      | Inr (n, k) \<Rightarrow> (case accept_rf_lanes env digest conns k n of
          None \<Rightarrow> None
        | Some (Inl err) \<Rightarrow> Some (Inl err)
        | Some (Inr fds) \<Rightarrow> Some (
            bind_r (accepted_tx env digest k n) (\<lambda>tx.
            bind_r (recv_pk_lane0 env disc (map the fds)) (\<lambda>(pk_double, _).
            bind_r (throw_if (length intersection > n) (Runtime_error ''psi2_reveal_receiver: intersection larger than CG_PSI2_REVEAL_BOUND'')) (\<lambda>_.
            bind_r (par_fill (\<lambda>i. encrypt_value cs pk_double (if i < length intersection then intersection ! i else 0) (rnd i)) 0 n (replicate n null_ct)) (\<lambda>enc_values.
            send_ct_lanes env (send_ct env) tx enc_values n)))))))"

text \<open>
  Reading party B's file: unlike the set reader it accepts an empty file.
\<close>

definition read_intersection_file :: "gmp_io \<Rightarrow> env \<Rightarrow> filesys \<Rightarrow> string \<Rightarrow> int \<Rightarrow> int list result" where
  "read_intersection_file io env fs path q =
     (case fs_text fs path of
        None \<Rightarrow> Inl (Runtime_error ''psi2_reveal_receiver: cannot open input file'')
      | Some text \<Rightarrow>
          bind_r (read_values env (\<lambda>tok. bind_r (mpz_of_text io tok) (\<lambda>x.
             bind_r (throw_if (x < 0 \<or> q \<le> x) (Runtime_error ''psi2_reveal_receiver: input value outside plaintext field'')) (\<lambda>_. Inr x)))
            (words_of text)) (\<lambda>intersection.
          if intersection = [] then Inr []
          else bind_r (validate_psi_set env intersection q ''psi2_reveal_receiver'') (\<lambda>_. Inr intersection)))"

subsection \<open>What party A collects\<close>

definition collect_step :: "int list \<Rightarrow> int \<Rightarrow> int list \<times> int list \<Rightarrow> int list \<times> int list" where
  "collect_step own v st = (case st of (seen, out) \<Rightarrow> if v \<in> set own \<and> v \<notin> set seen then (v # seen, out @ [v]) else (seen, out))"

lemma collect_distinct:
  "distinct vs \<Longrightarrow> set vs \<inter> set seen = {} \<Longrightarrow>
    fold (collect_step own) vs (seen, out) = (rev (filter (\<lambda>v. v \<in> set own) vs) @ seen, out @ filter (\<lambda>v. v \<in> set own) vs)"
  by (induction vs arbitrary: seen out) (auto simp: collect_step_def)

lemma collect_zeros:
  "fold (collect_step own) (replicate m 0) (seen, out)
    = (if 0 < m \<and> 0 \<in> set own \<and> 0 \<notin> set seen then (0 # seen, out @ [0]) else (seen, out))"
  by (induction m arbitrary: seen out) (auto simp: collect_step_def)

lemma reveal_slots_append:
  "length vs \<le> n \<Longrightarrow> reveal_slots vs n = vs @ replicate (n - length vs) 0"
  by (intro nth_equalityI) (auto simp: reveal_slots_def nth_append)

text \<open>Every revealed value of the own set, and a zero when a slot is free and zero is an own value.\<close>

definition revealed :: "int list \<Rightarrow> int list \<Rightarrow> nat \<Rightarrow> int list" where
  "revealed own vs n = filter (\<lambda>v. v \<in> set own) vs @ (if length vs < n \<and> 0 \<in> set own \<and> 0 \<notin> set vs then [0] else [])"

lemma collect_slots:
  assumes "distinct vs" "length vs \<le> n"
  shows "reveal_collect own (reveal_slots vs n) = revealed own vs n"
proof -
  have "(\<lambda>v (seen, out). if v \<in> set own \<and> v \<notin> set seen then (v # seen, out @ [v]) else (seen, out)) = collect_step own"
    by (intro ext) (simp add: collect_step_def)
  then show ?thesis
    unfolding reveal_collect_def reveal_slots_append[OF assms(2)] revealed_def
    using assms by (auto simp: fold_append collect_distinct collect_zeros simp del: fold_replicate)
qed

subsection \<open>The relay\<close>

lemma reveal_stream_ok:
  assumes "params_ok cs G D disc" "endpoint env (G \<union> D) n" "endpoint env' (G \<union> D) n" "0 < k" "k \<le> 64"
    and "carries cs G (sk + r) ms cts" "length ms = n"
  shows "\<exists>cts'. carries cs G sk ms cts' \<and>
    (\<forall>u t. reveal_stream env cs (keygen_pk cs sk) r rnd n (on_lanes k (\<lambda>i. lane_wire cts k i @ u i)) (on_lanes k t)
      = Inr (on_lanes k u, on_lanes k (then_cts k t cts')))"
proof -
  let ?noise = "\<lambda>i. make_enc_zero cs (keygen_pk cs sk) (rnd i)"
  define ys where "ys = map (\<lambda>i. maul_inv_rerand cs (cts ! i) r (?noise i)) [0..<n]"
  have len: "length cts = n" "length ys = n"
    using assms(6,7) by (simp_all add: carries_def ys_def)
  have c: "carries cs G sk ms ys"
    unfolding ys_def by (rule maul_inv_carries[OF assms(1,6,7)])
  have tr: "travels env' env cts" "travels env env ys"
    using endpoint_travels[of env' "G \<union> D" cts env] endpoint_travels[of env "G \<union> D" ys env] assms(2,3) len
      carries_over[OF assms(1,6)] carries_over[OF assms(1) c] by simp_all
  obtain ch where ch: "rf_chunk_size env = Inr ch"
    using endpoint_chunk[OF assms(2)] .
  let ?body = "\<lambda>b e (in_buf, out_buf, rx, tx).
         bind_r (recv_ct_lanes_range env (recv_ct env) rx in_buf n b e) (\<lambda>(in_buf, rx).
         bind_r (par_fill (\<lambda>i. Inr (maul_inv_rerand cs (in_buf ! i) r (?noise i))) b e out_buf) (\<lambda>out_buf.
         bind_r (send_ct_lanes_range env (send_ct env) tx out_buf n b e) (\<lambda>tx.
         Inr (in_buf, out_buf, rx, tx))))"
  have "reveal_stream env cs (keygen_pk cs sk) r rnd n (on_lanes k (\<lambda>i. lane_wire cts k i @ u i)) (on_lanes k t)
      = Inr (on_lanes k u, on_lanes k (then_cts k t ys))" for u t
  proof -
    let ?P = "\<lambda>b (v, w, rx, tx). agrees b v cts \<and> agrees b w ys \<and> unread k cts u b rx \<and> sent k ys t b tx"
    let ?init = "(replicate n null_ct, replicate n null_ct, on_lanes k (\<lambda>i. lane_wire cts k i @ u i), on_lanes k t)"
    have step: "\<exists>s'. ?body b e s = Inr s' \<and> ?P e s'" if p: "?P b s" "b < e" "e \<le> n" for b e s
    proof -
      obtain v w rx tx where s: "s = (v, w, rx, tx)" "agrees b v cts" "agrees b w ys" "unread k cts u b rx" "sent k ys t b tx"
        using p(1) by (cases s) auto
      obtain v' rx' where v': "recv_ct_lanes_range env (recv_ct env) rx v n b e = Inr (v', rx')" "agrees e v' cts" "unread k cts u e rx'"
        using recv_step[OF tr(1) assms(4,5) s(4,2) p(2)] p(3) len by auto
      have "\<exists>w'. par_fill (\<lambda>i. Inr (maul_inv_rerand cs (v' ! i) r (?noise i))) b e w = Inr w' \<and> agrees e w' ys"
        using s(3) p(2,3) len agreesD[OF v'(2)] by (intro par_fill_step) (auto simp: ys_def)
      then obtain w' where w': "par_fill (\<lambda>i. Inr (maul_inv_rerand cs (v' ! i) r (?noise i))) b e w = Inr w'" "agrees e w' ys"
        by blast
      obtain tx' where "send_ct_lanes_range env (send_ct env) tx w' n b e = Inr tx'" "sent k ys t e tx'"
        using send_step[OF tr(2) assms(4,5) s(5) w'(2) p(2)] p(3) len by auto
      then show ?thesis
        using v' w' s(1) by auto
    qed
    have "?P 0 ?init"
      using len by (simp add: agrees_0 unread_0 sent_0)
    with step have "\<exists>s'. for_chunks env n ?body ?init = Inr s' \<and> ?P n s'"
      by (intro for_chunks_invariant[OF ch]) auto
    then obtain v' w' rx' tx' where r: "for_chunks env n ?body ?init = Inr (v', w', rx', tx')" "unread k cts u n rx'" "sent k ys t n tx'"
      by auto
    have "rx' = on_lanes k u" "tx' = on_lanes k (then_cts k t ys)"
      using r(2,3) unread_all[OF travels_bound[OF tr(1)] assms(4,5)] sent_all[OF travels_bound[OF tr(2)] assms(4,5)] len by auto
    then show ?thesis
      using r(1) by (simp add: reveal_stream_def)
  qed
  then show ?thesis
    using c by blast
qed

text \<open>Whole vectors over the lanes.\<close>

lemma send_whole:
  assumes "endpoint env S n" "over S xs" "length xs = n" "0 < k" "k \<le> 64"
  shows "send_ct_lanes env (send_ct env) (on_lanes k t) xs n = Inr (on_lanes k (then_cts k t xs))"
proof -
  have tr: "travels env env xs"
    using endpoint_travels[of env S xs env] assms(1-3) by simp
  have "0 < length xs"
    using endpoint_bound[OF assms(1)] assms(3) by simp
  then obtain tx where "send_ct_lanes_range env (send_ct env) (on_lanes k t) xs (length xs) 0 (length xs) = Inr tx" "sent k xs t (length xs) tx"
    using send_step[OF tr assms(4,5) sent_0, of "length xs" xs t] by (auto simp: agrees_def)
  then show ?thesis
    using sent_all[OF travels_bound[OF tr] assms(4,5)] assms(3) by (simp add: send_ct_lanes_def)
qed

lemma recv_whole:
  assumes "travels env' env xs" "length xs = n" "0 < n" "0 < k" "k \<le> 64" "length v = n"
  shows "recv_ct_lanes env (recv_ct env) (on_lanes k (\<lambda>i. lane_wire xs k i @ t i)) v n = Inr (xs, on_lanes k t)"
proof -
  obtain v' rx where "recv_ct_lanes_range env (recv_ct env) (on_lanes k (\<lambda>i. lane_wire xs k i @ t i)) v (length xs) 0 (length xs) = Inr (v', rx)"
      "agrees (length xs) v' xs" "unread k xs t (length xs) rx"
    using recv_step[OF assms(1,4,5) unread_0, of v "length xs" t] assms(2,3,6) by (auto simp: agrees_0)
  then show ?thesis
    using unread_all[OF travels_bound[OF assms(1)] assms(4,5)] agrees_all[of xs v'] assms(2) by (simp add: recv_ct_lanes_def)
qed

lemma slots_in_field:
  assumes "\<forall>v \<in> set vs. 0 \<le> v \<and> v < q" "0 < (q :: int)"
  shows "\<forall>v \<in> set (reveal_slots vs n). 0 \<le> v \<and> v < q"
  using assms by (auto simp: reveal_slots_def)

text \<open>The four programs of the firewalled reveal on each other's streams.\<close>

lemma rf_reveal_run:
  assumes p: "params_ok cs G D disc" and e: "endpoint env (G \<union> D) n" and k: "rf_transport_lanes env = Inr k"
    and n: "required_env_size env ''CG_PSI2_REVEAL_BOUND'' = Inr n" and d: "length digest = 32"
    and hs: "connect_rf_lanes env digest k n = Inr hs"
    and o: "arrival_order k ord1" "arrival_order k ord2" "arrival_order k ord3"
    and v: "\<forall>m \<in> set vs. 0 \<le> m \<and> m < cleartext_bound cs" "distinct vs" "length vs \<le> n"
  shows "\<exists>sen_srf srf_rrf rrf_rec rec_rrf rrf_srf srf_sen.
    rf_psi2_reveal_sender env digest cs sk own srf_sen = Inr (revealed own vs n, sen_srf) \<and>
    rf_psi2_reveal_srf env digest disc cs rho1 rnd1 rrf_srf (arrive ord3 sen_srf) = Some (Inr (srf_rrf, srf_sen)) \<and>
    rf_psi2_reveal_rrf env digest disc cs rho2 rnd2 rec_rrf (arrive ord2 srf_rrf) = Some (Inr (rrf_rec, rrf_srf)) \<and>
    rf_psi2_reveal_receiver env digest disc cs rnd vs (arrive ord1 rrf_rec) = Some (Inr rec_rrf)"
proof -
  let ?q = "cleartext_bound cs" and ?s1 = "sk + rho1" and ?s2 = "sk + rho1 + rho2" and ?ms = "reveal_slots vs n"
  have kk: "0 < k" "k \<le> 64"
    using rf_transport_lanes_bounds[OF k] by simp_all
  obtain ch where ch: "rf_chunk_size env = Inr ch"
    using endpoint_chunk[OF e] .
  have n0: "0 < n"
    using endpoint_bound[OF e] by simp
  have q0: "0 < ?q"
    using p cl_lawsD(11)[of cs G D] by (simp add: params_ok_def)
  note ms = slots_in_field[OF v(1) q0, of n]
  have lm: "length ?ms = n"
    by (simp add: reveal_slots_def)
  have h: "hs = on_lanes k (\<lambda>i. hs ! i)"
    by (rule lanes_nth[OF connect_length[OF hs]])
  note ac = accept_arrived[OF hs kk(2) d]
  obtain g where g: "greets env digest k n g"
    using lane_greeting[OF hs kk d] .
  note gr = greetsD[OF g]
  let ?tx = "\<lambda>s. on_lanes k (\<lambda>i. hs ! i @ with_key (keygen_pk cs s) (\<lambda>_. []) i)"
  have tx: "on_lanes k (with_key (keygen_pk cs s) (\<lambda>i. hs ! i)) = ?tx s" for s
    by (rule map_cong[OF refl]) (rule with_key_split)
  define c0 where "c0 = map (\<lambda>i. encrypt cs (keygen_pk cs ?s2) (?ms ! i) (rnd i)) [0..<n]"
  have c0: "carries cs G ?s2 ?ms c0" "length c0 = n"
    using carries_encryptions[OF p, of ?s2 ?ms rnd] lm by (simp_all add: c0_def)
  obtain c1 where c1: "carries cs G ?s1 ?ms c1" "\<forall>u t. reveal_stream env cs (keygen_pk cs ?s1) rho2 rnd2 n
        (on_lanes k (\<lambda>i. lane_wire c0 k i @ u i)) (on_lanes k t) = Inr (on_lanes k u, on_lanes k (then_cts k t c1))"
    using reveal_stream_ok[OF p e e kk c0(1) lm, of rnd2] by blast
  obtain c2 where c2: "carries cs G sk ?ms c2" "\<forall>u t. reveal_stream env cs (keygen_pk cs sk) rho1 rnd1 n
        (on_lanes k (\<lambda>i. lane_wire c1 k i @ u i)) (on_lanes k t) = Inr (on_lanes k u, on_lanes k (then_cts k t c2))"
    using reveal_stream_ok[OF p e e kk c1(1) lm, of rnd1] by blast
  have fk: "firewall_key env disc cs r (on_lanes k (with_key (keygen_pk cs s) (\<lambda>_. []))) hs
      = Inr (keygen_pk cs s, keygen_pk cs (s + r), on_lanes k (\<lambda>_. []), ?tx (s + r))" for s r
  proof -
    have "maul_pk cs (keygen_pk cs s) r = Inr (keygen_pk cs (s + r))"
      using p by (intro cg.shift_key[of cs G D]) (simp add: params_ok_def)
    moreover have "send_pk_lane0 env (keygen_pk cs (s + r)) hs = Inr (?tx (s + r))"
      using send_key[OF e _ kk(1), of "keygen_pk cs (s + r)" "\<lambda>i. hs ! i"] keygen_in_G[OF p] h tx by simp
    ultimately show ?thesis
      using recv_key[OF e _ _ kk(1), of "keygen_pk cs s" disc "\<lambda>_. []"] keygen_in_G[OF p] by (simp add: firewall_key_def)
  qed
  have nf: "bind_r (required_env_size env ''CG_PSI2_REVEAL_BOUND'') (\<lambda>n.
           bind_r (rf_transport_lanes env) (\<lambda>k. bind_r (rf_chunk_size env) (\<lambda>_.
           bind_r (connect_rf_lanes env digest k n) (\<lambda>b_tx.
           bind_r (check_replies env digest k n rx) (\<lambda>b_rx. Inr (n, k, b_tx, b_rx)))))) = Inr (n, k, hs, rx')"
    if "check_replies env digest k n rx = Inr rx'" for rx rx'
    by (simp only: n k ch hs that bind_r_simps)
  have fw: "reveal_firewall env digest disc cs r rn (on_lanes k (\<lambda>i. g @ lane_wire c k i @ [])) (arrive ord (?tx s))
      = Some (Inr (?tx (s + r), on_lanes k (then_cts k (\<lambda>_. g) c')))"
    if "arrival_order k ord" "reveal_stream env cs (keygen_pk cs s) r rn n (on_lanes k (\<lambda>i. lane_wire c k i @ [])) (on_lanes k (\<lambda>_. g))
        = Inr (on_lanes k (\<lambda>_. []), on_lanes k (then_cts k (\<lambda>_. g) c'))" for r rn c c' s ord
    unfolding reveal_firewall_def nf[OF gr(2)] sum.case prod.case ac[OF that(1)] option.case map_the_Some
    by (simp only: gr(1) fk that(2) bind_r_simps prod.case)
  have s3: "rf_psi2_reveal_receiver env digest disc cs rnd vs (arrive ord1 (?tx ?s2)) = Some (Inr (on_lanes k (then_cts k (\<lambda>_. g) c0)))"
  proof -
    have "par_fill (\<lambda>i. encrypt_value cs (keygen_pk cs ?s2) (if i < length vs then vs ! i else 0) (rnd i)) 0 n (replicate n null_ct) = Inr c0"
      using ms lm by (intro par_fill_all) (auto simp: c0_def reveal_slots_def encrypt_value_ok)
    moreover have "recv_pk_lane0 env disc (on_lanes k (with_key (keygen_pk cs ?s2) (\<lambda>_. []))) = Inr (keygen_pk cs ?s2, on_lanes k (\<lambda>_. []))"
      using recv_key[OF e _ _ kk(1), of "keygen_pk cs ?s2" disc "\<lambda>_. []"] keygen_in_G[OF p] by simp
    moreover have "send_ct_lanes env (send_ct env) (on_lanes k (\<lambda>_. g)) c0 n = Inr (on_lanes k (then_cts k (\<lambda>_. g) c0))"
      by (rule send_whole[OF e carries_over[OF p c0(1)] c0(2) kk])
    ultimately show ?thesis
      unfolding rf_psi2_reveal_receiver_def n k bind_r_simps sum.case prod.case ac[OF o(1)] option.case map_the_Some gr(1)
      using v(3) by (simp add: throw_if_def)
  qed
  have s1: "rf_psi2_reveal_sender env digest cs sk own (on_lanes k (\<lambda>i. g @ lane_wire c2 k i @ [])) = Inr (revealed own vs n, ?tx sk)"
  proof -
    have l2: "length c2 = n"
      using carries_length[OF c2(1)] lm by simp
    have tr: "travels env env c2"
      using endpoint_travels[of env "G \<union> D" c2 env] e l2 carries_over[OF p c2(1)] by simp
    have "decrypt cs sk (c2 ! i) = ?ms ! i" if "i < n" for i
      using c2(1) that lm p cg.dec_holds[of cs G D sk "?ms ! i" "c2 ! i"] ms by (simp add: carries_def params_ok_def)
    then have "par_fill (\<lambda>i. Inr (decrypt cs sk (c2 ! i))) 0 n (replicate n 0) = Inr ?ms"
      using lm by (intro par_fill_all) auto
    moreover have "send_pk_lane0 env (keygen_pk cs sk) hs = Inr (?tx sk)"
      using send_key[OF e _ kk(1), of "keygen_pk cs sk" "\<lambda>i. hs ! i"] keygen_in_G[OF p] h tx by simp
    ultimately show ?thesis
      using recv_whole[OF tr l2 n0 kk, of "replicate n null_ct" "\<lambda>_. []"] collect_slots[OF v(2,3)]
      by (simp only: rf_psi2_reveal_sender_def n k hs gr(2) bind_r_simps prod.case length_replicate)
  qed
  have s2: "rf_psi2_reveal_srf env digest disc cs rho1 rnd1 (on_lanes k (\<lambda>i. g @ lane_wire c1 k i @ [])) (arrive ord3 (?tx sk))
      = Some (Inr (?tx ?s1, on_lanes k (then_cts k (\<lambda>_. g) c2)))"
    unfolding rf_psi2_reveal_srf_def by (rule fw[OF o(3) c2(2)[rule_format]])
  have s4: "rf_psi2_reveal_rrf env digest disc cs rho2 rnd2 (on_lanes k (\<lambda>i. g @ lane_wire c0 k i @ [])) (arrive ord2 (?tx ?s1))
      = Some (Inr (?tx ?s2, on_lanes k (then_cts k (\<lambda>_. g) c1)))"
    unfolding rf_psi2_reveal_rrf_def by (rule fw[OF o(2) c1(2)[rule_format]])
  show ?thesis
    using s1 s2 s3 s4 unfolding append_Nil2 by blast
qed

subsection \<open>The clear variant\<close>

text \<open>Every field element fits the wire.\<close>

definition field_sendable :: "env \<Rightarrow> int \<Rightarrow> bool" where
  "field_sendable env q \<longleftrightarrow> (\<forall>m. 0 \<le> m \<and> m < q \<longrightarrow> send_mpz env m = Inr (mpz_bytes m))"

lemma clear_reveal_run:
  assumes "field_sendable env q" "0 < q" "\<forall>m \<in> set vs. 0 \<le> m \<and> m < q" "distinct vs" "length vs \<le> n"
  shows "\<exists>reveal. reveal_send env n vs = Inr reveal \<and> reveal_receive env n own reveal = Inr (revealed own vs n)"
proof -
  let ?ms = "reveal_slots vs n"
  have s: "send_mpz env m = Inr (mpz_bytes m)" "mpz_ok env m" if "m \<in> set ?ms" for m
  proof -
    show "send_mpz env m = Inr (mpz_bytes m)"
      using slots_in_field[OF assms(3,2), of n] that assms(1) by (auto simp: field_sendable_def)
    then show "mpz_ok env m"
      using send_mpz_ok by blast
  qed
  have "reveal_send env n vs = Inr (concat (map mpz_bytes ?ms))"
    using assms(5) s(1) by (simp add: reveal_send_def send_list_def map_r_Inr_all)
  moreover have "recv_list (recv_mpz env) n (concat (map mpz_bytes ?ms)) = Inr (?ms, [])"
    using s(2) by (simp add: mpz.recv_list_iff list_all_iff) (simp add: reveal_slots_def)
  then have "reveal_receive env n own (concat (map mpz_bytes ?ms)) = Inr (revealed own vs n)"
    using collect_slots[OF assms(4,5)] by (simp add: reveal_receive_def)
  ultimately show ?thesis
    by blast
qed

lemma intersection_fits:
  assumes "distinct B"
  shows "length (filter (\<lambda>b. b \<in> set A) B) \<le> min (length A) (length B)"
proof -
  have "card (set (filter (\<lambda>b. b \<in> set A) B)) \<le> card (set A)"
    by (intro card_mono) auto
  then have "length (filter (\<lambda>b. b \<in> set A) B) \<le> card (set A)"
    using assms distinct_card[of "filter (\<lambda>b. b \<in> set A) B"] by simp
  then show ?thesis
    using card_length[of A] by simp
qed

subsection \<open>Properties\<close>

text \<open>
  C7: Two-way intersection in the clear. Under the conditions of the one-way protocol, and when zero
  cannot be mistaken for padding (it is not in party A's set, or it is a common element, or every
  reveal slot is used), both parties end with exactly the common elements.
\<close>

theorem direct_psi2_correct:
  assumes "direct_ready cs G D disc (pc_env cfg) digest k ord n" "psi_ok cfg (cleartext_bound cs) (length A) (length B) n"
    and "validate_psi_set (pc_env cfg) A (cleartext_bound cs) role = Inr ()" "validate_psi_set (pc_env cfg) B (cleartext_bound cs) role = Inr ()"
    and "field_modulus (cleartext_bound cs)" "field_sendable (pc_env cfg) (cleartext_bound cs)"
    and "\<forall>b \<in> set B - set A. peval (random_poly (length B) (\<lambda>i. rnd (length A + 1 + i))) b mod cleartext_bound cs \<noteq> 0"
    and "0 \<notin> set A \<or> 0 \<in> set B \<or> card (set A \<inter> set B) = min (length A) (length B)"
  shows "\<exists>t u r s reveal. direct_net ord t u r s \<and>
    psi2_receiver cfg digest cs sk rx (length A) B r = Some (Inr (filter (\<lambda>b. b \<in> set A) B, t, reveal)) \<and>
    psi2_sender cfg digest disc cs rs rnd (length B) A s reveal = Inr (filter (\<lambda>b. b \<in> set A) B, u)"
proof -
  let ?q = "cleartext_bound cs" and ?I = "filter (\<lambda>b. b \<in> set A) B"
  have q: "1 < ?q" and A: "distinct A" "set A \<subseteq> {0..<?q}" and B: "distinct B" "set B \<subseteq> {0..<?q}"
    using assms(2-4) by (simp_all add: psi_ok_def points_ok_def validate_psi_set_Inr)
  have "card (set ?I) = card (set A \<inter> set B)"
    by (rule arg_cong[of _ _ card]) auto
  then have "length ?I < min (length A) (length B) \<Longrightarrow> card (set A \<inter> set B) \<noteq> min (length A) (length B)"
    using distinct_card[of ?I] B(1) by auto
  then have rv: "revealed A ?I (min (length A) (length B)) = ?I"
    using assms(8) by (auto simp: revealed_def)
  have range: "\<forall>m \<in> set ?I. 0 \<le> m \<and> m < ?q"
    using B(2) by (auto simp: subset_iff)
  obtain reveal where reveal: "reveal_send (pc_env cfg) (min (length A) (length B)) ?I = Inr reveal"
      "reveal_receive (pc_env cfg) (min (length A) (length B)) A reveal = Inr ?I"
    using clear_reveal_run[OF assms(6) _ _ _ intersection_fits[OF B(1), of A], of A] q B rv range by auto
  have "psi_result ?q (random_poly (length B) (\<lambda>i. rnd (length A + 1 + i))) A B = ?I"
    by (rule psi_result_exact[OF assms(5) q A(2) B(2) assms(7)])
  moreover have "validate_psi_set (pc_env cfg) A ?q ''cg_psi2_sender'' = Inr ()" "validate_psi_set (pc_env cfg) B ?q ''cg_psi2_receiver'' = Inr ()"
    using assms(3,4) by (simp_all add: validate_psi_set_Inr)
  ultimately obtain t u r s where "direct_net ord t u r s"
    "psi_receive (\<lambda>n_pts pB. opa_receive_via (direct_ole_batch_receive (pc_env cfg) digest cs sk rx) cfg n_pts pB ?q) cfg ?q
      ''cg_psi2_receiver'' (length A) B r = Some (Inr (?I, t))"
    "psi_send (\<lambda>n_pts qA rA. opa_send_via (direct_ole_batch_send (pc_env cfg) digest disc cs rs) cfg n_pts qA rA ?q) cfg ?q
      ''cg_psi2_sender'' rnd (length B) A s = Inr u"
    using direct_channel.psi_run[OF assms(1,2)] by metis
  then have "direct_net ord t u r s" "psi2_receiver cfg digest cs sk rx (length A) B r = Some (Inr (?I, t, reveal))"
      "psi2_sender cfg digest disc cs rs rnd (length B) A s reveal = Inr (?I, u)"
    using reveal by (simp_all add: psi2_receiver_def psi2_sender_def opa_receive_with_q_def opa_send_with_q_def)
  then show ?thesis
    by blast
qed

theorem direct_psi2_correct_witness:
  "\<exists>t u r s reveal. direct_net [0] t u r s \<and>
    psi2_receiver five_cfg (replicate 32 0) (cyc 7) 3 int (length [1, 2 :: int]) [2, 3] r
      = Some (Inr (filter (\<lambda>b. b \<in> set [1, 2]) [2, 3], t, reveal)) \<and>
    psi2_sender five_cfg (replicate 32 0) (1 - 2 ^ (2 * 7)) (cyc 7) int five_masks (length [2, 3 :: int]) [1, 2] s reveal
      = Inr (filter (\<lambda>b. b \<in> set [1, 2]) [2, 3], u)"
proof (rule direct_psi2_correct[where role = "''psi''"])
  show "direct_ready (cyc 7) (cyc_forms 7) (cyc_forms 7) (1 - 2 ^ (2 * 7)) (pc_env five_cfg) (replicate 32 0) 1 [0] 5"
    using five_ready by (simp add: direct_ready_def rf_ready_def)
  show "psi_ok five_cfg (cleartext_bound (cyc 7)) (length [1, 2 :: int]) (length [2, 3 :: int]) 5"
    using five_psi by (simp add: numeral_2_eq_2)
  have "mpz_limit five_env = Inr 16384"
    by (simp add: mpz_limit_default)
  then show "field_sendable (pc_env five_cfg) (cleartext_bound (cyc 7))"
    using mpz_sendable[of five_env 16384 _ 1] by (auto simp: field_sendable_def)
  have "[0..<2 + 1] = [0, 1, 2 :: nat]"
    by (simp add: upt_rec)
  then show "\<forall>b \<in> set [2, 3] - set [1, 2]. peval (random_poly (length [2, 3 :: int]) (\<lambda>i. five_masks (length [1, 2 :: int] + 1 + i))) b
      mod cleartext_bound (cyc 7) \<noteq> 0"
    by (simp add: random_poly_def five_masks_def)
qed (simp_all add: validate_psi_set_Inr field_7)

text \<open>
  C6: The encrypted reveal through both firewalls. Party A's key is mauled twice on its way to party B
  and unmauled twice on the way back; the four programs run to the end and party A holds the revealed
  values of its own set, plus a zero exactly when a slot was left over and zero is in its set but not
  among the revealed values.
\<close>

theorem rf_reveal_correct:
  assumes "params_ok cs G D disc" "endpoint env (G \<union> D) n" "rf_transport_lanes env = Inr k"
    and "required_env_size env ''CG_PSI2_REVEAL_BOUND'' = Inr n" "length digest = 32"
    and "connect_rf_lanes env digest k n = Inr hs"
    and "arrival_order k ord1" "arrival_order k ord2" "arrival_order k ord3"
    and "\<forall>m \<in> set vs. 0 \<le> m \<and> m < cleartext_bound cs" "distinct vs" "length vs \<le> n"
  shows "\<exists>sen_srf srf_rrf rrf_rec rec_rrf rrf_srf srf_sen.
    rf_psi2_reveal_sender env digest cs sk own srf_sen
      = Inr (filter (\<lambda>v. v \<in> set own) vs @ (if length vs < n \<and> 0 \<in> set own \<and> 0 \<notin> set vs then [0] else []), sen_srf) \<and>
    rf_psi2_reveal_srf env digest disc cs rho1 rnd1 rrf_srf (arrive ord3 sen_srf) = Some (Inr (srf_rrf, srf_sen)) \<and>
    rf_psi2_reveal_rrf env digest disc cs rho2 rnd2 rec_rrf (arrive ord2 srf_rrf) = Some (Inr (rrf_rec, rrf_srf)) \<and>
    rf_psi2_reveal_receiver env digest disc cs rnd vs (arrive ord1 rrf_rec) = Some (Inr rec_rrf)"
  using rf_reveal_run[OF assms] unfolding revealed_def .

definition reveal_env :: env where
  "reveal_env name = (if name = ''CG_PSI2_REVEAL_BOUND'' then Some ''3'' else None)"

theorem rf_reveal_correct_witness:
  "\<exists>sen_srf srf_rrf rrf_rec rec_rrf rrf_srf srf_sen.
    rf_psi2_reveal_sender reveal_env (replicate 32 0) (cyc 97) 5 [0, 4, 8] srf_sen
      = Inr (filter (\<lambda>v. v \<in> set [0, 4, 8]) [8, 4] @ (if length [8, 4 :: int] < 3 \<and> 0 \<in> set [0, 4, 8 :: int] \<and> 0 \<notin> set [8, 4 :: int] then [0] else []), sen_srf) \<and>
    rf_psi2_reveal_srf reveal_env (replicate 32 0) (1 - 2 ^ (2 * 97)) (cyc 97) 2 int rrf_srf (arrive [0] sen_srf) = Some (Inr (srf_rrf, srf_sen)) \<and>
    rf_psi2_reveal_rrf reveal_env (replicate 32 0) (1 - 2 ^ (2 * 97)) (cyc 97) 3 int rec_rrf (arrive [0] srf_rrf) = Some (Inr (rrf_rec, rrf_srf)) \<and>
    rf_psi2_reveal_receiver reveal_env (replicate 32 0) (1 - 2 ^ (2 * 97)) (cyc 97) int [8, 4] (arrive [0] rrf_rec) = Some (Inr rec_rrf)"
proof (rule rf_reveal_correct[where k = 1])
  have u: "[0..<1] = [0 :: nat]"
    by (simp add: upt_rec)
  have n: "cg_parse_u64 (Some ''3'') lbl 10 = Inr 3" for lbl
    by (subst cg_parse_u64_decimal) (simp add: is_digit_def digit_value_def size_limit_def)
  have c: "rf_chunk_size reveal_env = Inr 64" "mpz_limit reveal_env = Inr 16384" "cg_validate_count reveal_env 3 False = Inr ()"
    by (simp_all add: rf_chunk_size_def cg_config_size_def env_value_def reveal_env_def mpz_limit_default cg_validate_count_def cg_max_items_def)
  show "params_ok (cyc 97) (cyc_forms 97) (cyc_forms 97) (1 - 2 ^ (2 * 97))"
    by (rule cyc_params) simp
  show "endpoint reveal_env (cyc_forms 97 \<union> cyc_forms 97) 3"
    by (rule cyc_endpoint) (simp_all add: c)
  show "rf_transport_lanes reveal_env = Inr 1"
    by (simp add: rf_transport_lanes_def cg_config_size_def env_value_def reveal_env_def)
  show "required_env_size reveal_env ''CG_PSI2_REVEAL_BOUND'' = Inr 3"
    using n by (simp add: required_env_size_def reveal_env_def cg_parse_size_def cg_max_items_def size_limit_def)
  show "connect_rf_lanes reveal_env (replicate 32 0) 1 3 = Inr [send_u64 0]"
    by (simp add: connect_rf_lanes_def connect_lane_def c validate_lane_metadata_def env_value_def reveal_env_def u)
qed (simp_all add: arrival_order_def lessThan_Suc)

end
