(* ===== verification/CG_Dumps.thy ===== *)
theory CG_Dumps
  imports CG_Inputs CG_OPE
begin

text \<open>
  The files written after a run (\<^verbatim>\<open>cg_bench_io.hpp\<close>) and the three programs that check them
  (\<^verbatim>\<open>cg_check_ope.cpp\<close>, \<^verbatim>\<open>cg_check_opa.cpp\<close>, \<^verbatim>\<open>cg_check_batch_ole.cpp\<close>). A checker returns its exit
  code; its messages are left out. A division by zero of the big-number library kills the process and
  is modelled like any other termination.
\<close>

subsection \<open>Where the files go\<close>

definition cg_bench_io_dir :: "env \<Rightarrow> string" where
  "cg_bench_io_dir env = (case env_value env ''CG_BENCH_IO_DIR'' of Some d \<Rightarrow> d | None \<Rightarrow> ''.'')"

definition cg_bench_io_path :: "env \<Rightarrow> filesys \<Rightarrow> string \<Rightarrow> string result" where
  "cg_bench_io_path env fs name =
     bind_r (throw_if (\<not> fs_mkdir fs (cg_bench_io_dir env)) (Runtime_error ''create_directories'')) (\<lambda>_.
     Inr (cg_bench_io_dir env @ ''/'' @ name))"

subsection \<open>Writers\<close>

abbreviation newline :: string where
  "newline \<equiv> [CHR 0x0A]"

definition text_line :: "string \<Rightarrow> string" where
  "text_line s = s @ newline"

definition value_line :: "gmp_io \<Rightarrow> int \<Rightarrow> string" where
  "value_line io x = io_print io x @ newline"

definition pair_line :: "gmp_io \<Rightarrow> int \<Rightarrow> int \<Rightarrow> string" where
  "pair_line io x y = io_print io x @ '' '' @ io_print io y @ newline"

definition value_lines :: "gmp_io \<Rightarrow> int list \<Rightarrow> string" where
  "value_lines io xs = concat (map (value_line io) xs)"

definition pair_lines :: "gmp_io \<Rightarrow> int list \<Rightarrow> int list \<Rightarrow> string" where
  "pair_lines io xs ys = concat (map (\<lambda>i. pair_line io (xs ! i) (ys ! i)) [0..<length xs])"

definition write_dump :: "env \<Rightarrow> string \<Rightarrow> string \<Rightarrow> string \<Rightarrow> filesys \<Rightarrow> filesys result" where
  "write_dump env filename err content fs =
     bind_r (cg_bench_io_path env fs filename) (\<lambda>path. write_text path (Runtime_error err) content fs)"

definition ole_sender_text :: "gmp_io \<Rightarrow> int list \<Rightarrow> int list \<Rightarrow> string" where
  "ole_sender_text io a_vals b_vals = text_line ''OLE_SENDER_V1'' @ text_line (show_nat (length a_vals)) @ pair_lines io a_vals b_vals"

definition write_ole_sender_inputs :: "gmp_io \<Rightarrow> env \<Rightarrow> string \<Rightarrow> int list \<Rightarrow> int list \<Rightarrow> filesys \<Rightarrow> filesys result" where
  "write_ole_sender_inputs io env filename a_vals b_vals fs =
     bind_r (throw_if (length a_vals \<noteq> length b_vals) (Runtime_error ''OLE sender dump size mismatch'')) (\<lambda>_.
     write_dump env filename ''cannot open OLE sender dump'' (ole_sender_text io a_vals b_vals) fs)"

definition ole_receiver_text :: "gmp_io \<Rightarrow> int \<Rightarrow> int list \<Rightarrow> int list \<Rightarrow> string" where
  "ole_receiver_text io q x_vals y_vals =
     text_line ''OLE_RECEIVER_V1'' @ text_line (show_nat (length x_vals)) @ value_line io q @ pair_lines io x_vals y_vals"

definition write_ole_receiver_io :: "gmp_io \<Rightarrow> env \<Rightarrow> string \<Rightarrow> int \<Rightarrow> int list \<Rightarrow> int list \<Rightarrow> filesys \<Rightarrow> filesys result" where
  "write_ole_receiver_io io env filename q x_vals y_vals fs =
     bind_r (throw_if (length x_vals \<noteq> length y_vals) (Runtime_error ''OLE receiver dump size mismatch'')) (\<lambda>_.
     write_dump env filename ''cannot open OLE receiver dump'' (ole_receiver_text io q x_vals y_vals) fs)"

definition ole_blinds_text :: "gmp_io \<Rightarrow> int list \<Rightarrow> int list \<Rightarrow> string" where
  "ole_blinds_text io a_blinds b_blinds = text_line ''OLE_BLINDS_V1'' @ text_line (show_nat (length a_blinds)) @ pair_lines io a_blinds b_blinds"

definition write_ole_blinds :: "gmp_io \<Rightarrow> env \<Rightarrow> string \<Rightarrow> int list \<Rightarrow> int list \<Rightarrow> filesys \<Rightarrow> filesys result" where
  "write_ole_blinds io env filename a_blinds b_blinds fs =
     bind_r (throw_if (length a_blinds \<noteq> length b_blinds) (Runtime_error ''OLE blind dump size mismatch'')) (\<lambda>_.
     write_dump env filename ''cannot open OLE blind dump'' (ole_blinds_text io a_blinds b_blinds) fs)"

definition ope_sender_text :: "gmp_io \<Rightarrow> int \<Rightarrow> int list \<Rightarrow> string" where
  "ope_sender_text io q coeffs =
     text_line ''OPE_SENDER_V1'' @ text_line (show_nat (length coeffs)) @ value_line io q @ value_lines io coeffs"

definition write_ope_sender_coeffs :: "gmp_io \<Rightarrow> env \<Rightarrow> string \<Rightarrow> int \<Rightarrow> int list \<Rightarrow> filesys \<Rightarrow> filesys result" where
  "write_ope_sender_coeffs io env filename q coeffs fs =
     write_dump env filename ''cannot open OPE sender dump'' (ope_sender_text io q coeffs) fs"

definition ope_receiver_text :: "gmp_io \<Rightarrow> int \<Rightarrow> int \<Rightarrow> int \<Rightarrow> string" where
  "ope_receiver_text io q alpha out = text_line ''OPE_RECEIVER_V1'' @ value_line io q @ value_line io alpha @ value_line io out"

definition write_ope_receiver_output :: "gmp_io \<Rightarrow> env \<Rightarrow> string \<Rightarrow> int \<Rightarrow> int \<Rightarrow> int \<Rightarrow> filesys \<Rightarrow> filesys result" where
  "write_ope_receiver_output io env filename q alpha out fs =
     write_dump env filename ''cannot open OPE receiver dump'' (ope_receiver_text io q alpha out) fs"

definition opa_sender_text :: "gmp_io \<Rightarrow> int \<Rightarrow> int list \<Rightarrow> int list \<Rightarrow> string" where
  "opa_sender_text io q b_coeffs a_coeffs =
     text_line ''OPA_SENDER_V2'' @ text_line (show_nat (length b_coeffs) @ '' '' @ show_nat (length a_coeffs)) @ value_line io q
       @ value_lines io b_coeffs @ text_line ''--'' @ value_lines io a_coeffs"

definition write_opa_sender_coeffs :: "gmp_io \<Rightarrow> env \<Rightarrow> string \<Rightarrow> int \<Rightarrow> int list \<Rightarrow> int list \<Rightarrow> filesys \<Rightarrow> filesys result" where
  "write_opa_sender_coeffs io env filename q b_coeffs a_coeffs fs =
     write_dump env filename ''cannot open OPA sender dump'' (opa_sender_text io q b_coeffs a_coeffs) fs"

definition opa_receiver_text :: "gmp_io \<Rightarrow> int \<Rightarrow> int list \<Rightarrow> int list \<Rightarrow> int list \<Rightarrow> string" where
  "opa_receiver_text io q pB_coeffs alpha y_vals =
     text_line ''OPA_RECEIVER_V1'' @ text_line (show_nat (length pB_coeffs)) @ text_line (show_nat (length alpha)) @ value_line io q
       @ value_lines io pB_coeffs @ text_line ''--'' @ pair_lines io alpha y_vals"

definition write_opa_receiver_dump :: "gmp_io \<Rightarrow> env \<Rightarrow> string \<Rightarrow> int \<Rightarrow> int list \<Rightarrow> int list \<Rightarrow> int list \<Rightarrow> filesys \<Rightarrow> filesys result" where
  "write_opa_receiver_dump io env filename q pB_coeffs alpha y_vals fs =
     bind_r (throw_if (length alpha \<noteq> length y_vals) (Runtime_error ''OPA receiver dump size mismatch'')) (\<lambda>_.
     write_dump env filename ''cannot open OPA receiver dump'' (opa_receiver_text io q pB_coeffs alpha y_vals) fs)"

subsection \<open>Checkers\<close>

definition read_mpz_text :: "gmp_io \<Rightarrow> istream \<Rightarrow> (int \<times> istream) result" where
  "read_mpz_text io s =
     (case read_word [] s of
        (w, None) \<Rightarrow> Inl (Runtime_error ''failed to read Mpz text'')
      | (w, Some t) \<Rightarrow> bind_r (mpz_of_text io w) (\<lambda>x. Inr (x, Some t)))"

fun read_mpz_texts :: "gmp_io \<Rightarrow> nat \<Rightarrow> istream \<Rightarrow> (int list \<times> istream) result" where
  "read_mpz_texts io 0 s = Inr ([], s)"
| "read_mpz_texts io (Suc n) s =
     bind_r (read_mpz_text io s) (\<lambda>(x, s). bind_r (read_mpz_texts io n s) (\<lambda>(xs, s). Inr (x # xs, s)))"

text \<open>The library reduces modulo the absolute value and dies on zero.\<close>

definition checked_horner :: "int list \<Rightarrow> int \<Rightarrow> int \<Rightarrow> int result" where
  "checked_horner coeffs alpha q =
     (if coeffs \<noteq> [] \<and> q = 0 then Inl Terminated else Inr (eval_poly_horner coeffs alpha \<bar>q\<bar>))"

definition check_ope :: "gmp_io \<Rightarrow> env \<Rightarrow> filesys \<Rightarrow> string list \<Rightarrow> nat result" where
  "check_ope io env fs argv =
     (if length argv \<noteq> 3 then Inr 2
      else case (fs_text fs (argv ! 1), fs_text fs (argv ! 2)) of
        (Some s_text, Some r_text) \<Rightarrow>
          (let (magic_s, sin) = read_word [] (Some s_text); (n_coeffs, sin) = read_size sin;
               (magic_r, rin) = read_word [] (Some r_text) in
           if magic_s \<noteq> ''OPE_SENDER_V1'' \<or> magic_r \<noteq> ''OPE_RECEIVER_V1'' \<or> n_coeffs = 0 then Inr 2
           else bind_r (cg_validate_count env n_coeffs False) (\<lambda>_.
             bind_r (read_mpz_text io sin) (\<lambda>(q_sender, sin).
             bind_r (read_mpz_text io rin) (\<lambda>(q_receiver, rin).
             bind_r (read_mpz_text io rin) (\<lambda>(alpha, rin).
             bind_r (read_mpz_text io rin) (\<lambda>(actual, rin).
             if q_sender \<noteq> q_receiver then Inr 2
             else bind_r (read_mpz_texts io n_coeffs sin) (\<lambda>(coeffs, sin).
               bind_r (checked_horner coeffs alpha q_sender) (\<lambda>expected.
               Inr (if expected = actual then 0 else 1)))))))))
      | _ \<Rightarrow> Inr 2)"

definition check_opa_point ::
  "gmp_io \<Rightarrow> int \<Rightarrow> int list \<Rightarrow> int list \<Rightarrow> int list \<Rightarrow> nat \<Rightarrow> nat \<times> istream \<Rightarrow> (nat \<times> istream) result" where
  "check_opa_point io q b_coeffs a_coeffs pB_coeffs i st =
     (case st of (errors, rin) \<Rightarrow>
        bind_r (read_mpz_text io rin) (\<lambda>(alpha, rin).
        bind_r (read_mpz_text io rin) (\<lambda>(actual, rin).
        bind_r (checked_horner b_coeffs alpha q) (\<lambda>b.
        bind_r (checked_horner a_coeffs alpha q) (\<lambda>a.
        bind_r (checked_horner pB_coeffs alpha q) (\<lambda>x.
        Inr (if (a * x + b) mod \<bar>q\<bar> \<noteq> actual then errors + 1 else errors, rin)))))))"

definition check_opa :: "gmp_io \<Rightarrow> env \<Rightarrow> filesys \<Rightarrow> string list \<Rightarrow> nat result" where
  "check_opa io env fs argv =
     (if length argv \<noteq> 3 then Inr 2
      else case (fs_text fs (argv ! 1), fs_text fs (argv ! 2)) of
        (Some s_text, Some r_text) \<Rightarrow>
          (let (magic_s, sin) = read_word [] (Some s_text);
               (n_b, n_a, sin) =
                 (if magic_s = ''OPA_SENDER_V1'' then (case read_size sin of (n, sin) \<Rightarrow> (n, n, sin))
                  else if magic_s = ''OPA_SENDER_V2'' then (case read_size sin of (n, sin) \<Rightarrow> case read_size sin of (n', sin) \<Rightarrow> (n, n', sin))
                  else (0, 0, sin));
               (magic_r, rin) = read_word [] (Some r_text); (n_x, rin) = read_size rin; (n_pts, rin) = read_size rin in
           if (magic_s \<noteq> ''OPA_SENDER_V1'' \<and> magic_s \<noteq> ''OPA_SENDER_V2'') \<or> magic_r \<noteq> ''OPA_RECEIVER_V1'' \<or>
              n_b = 0 \<or> n_a = 0 \<or> n_x = 0 \<or> n_pts = 0 then Inr 2
           else bind_r (cg_validate_count env n_b False) (\<lambda>_. bind_r (cg_validate_count env n_a False) (\<lambda>_.
             bind_r (cg_validate_count env n_x False) (\<lambda>_. bind_r (cg_validate_count env n_pts False) (\<lambda>_.
             bind_r (read_mpz_text io sin) (\<lambda>(q_sender, sin).
             bind_r (read_mpz_text io rin) (\<lambda>(q_receiver, rin).
             if q_sender \<noteq> q_receiver then Inr 2
             else bind_r (read_mpz_texts io n_b sin) (\<lambda>(b_coeffs, sin).
               let (sep, sin) = read_word [] sin in
               if sep \<noteq> ''--'' then Inr 2
               else bind_r (read_mpz_texts io n_a sin) (\<lambda>(a_coeffs, sin).
                 bind_r (read_mpz_texts io n_x rin) (\<lambda>(pB_coeffs, rin).
                 let (sep, rin) = read_word sep rin in
                 if sep \<noteq> ''--'' then Inr 2
                 else bind_r (fold_r (check_opa_point io q_sender b_coeffs a_coeffs pB_coeffs) [0..<n_pts] (0, rin)) (\<lambda>(errors, rin).
                   Inr (if errors = 0 then 0 else 1))))))))))))
      | _ \<Rightarrow> Inr 2)"

text \<open>Adding up the blinds of one firewall; an inner \<open>None\<close> is the return with exit code 2.\<close>

definition add_blind :: "gmp_io \<Rightarrow> int \<Rightarrow> nat \<Rightarrow> int list \<times> int list \<times> istream \<Rightarrow> (int list \<times> int list \<times> istream) result" where
  "add_blind io q i st =
     (case st of (a_sum, b_sum, bin) \<Rightarrow>
        bind_r (read_mpz_text io bin) (\<lambda>(a_blind, bin).
        bind_r (read_mpz_text io bin) (\<lambda>(b_blind, bin).
        Inr (a_sum[i := (a_sum ! i + a_blind) mod q], b_sum[i := (b_sum ! i + b_blind) mod q], bin))))"

definition add_blind_file ::
  "gmp_io \<Rightarrow> filesys \<Rightarrow> int \<Rightarrow> nat \<Rightarrow> string \<Rightarrow> (int list \<times> int list) option \<Rightarrow> (int list \<times> int list) option result" where
  "add_blind_file io fs q ns path sums =
     (case sums of None \<Rightarrow> Inr None | Some (a_sum, b_sum) \<Rightarrow>
       (case fs_text fs path of None \<Rightarrow> Inr None | Some b_text \<Rightarrow>
         (let (magic_b, bin) = read_word [] (Some b_text); (nb, bin) = read_size bin in
          if magic_b \<noteq> ''OLE_BLINDS_V1'' \<or> nb \<noteq> ns then Inr None
          else bind_r (fold_r (add_blind io q) [0..<ns] (a_sum, b_sum, bin)) (\<lambda>(a_sum, b_sum, _). Inr (Some (a_sum, b_sum))))))"

definition check_ole_row ::
  "gmp_io \<Rightarrow> int \<Rightarrow> int list \<Rightarrow> int list \<Rightarrow> nat \<Rightarrow> nat \<times> istream \<times> istream \<Rightarrow> (nat \<times> istream \<times> istream) result" where
  "check_ole_row io q a_sum b_sum i st =
     (case st of (errors, sin, rin) \<Rightarrow>
        bind_r (read_mpz_text io sin) (\<lambda>(a, sin). bind_r (read_mpz_text io sin) (\<lambda>(b, sin).
        bind_r (read_mpz_text io rin) (\<lambda>(x, rin). bind_r (read_mpz_text io rin) (\<lambda>(y, rin).
        let a = (a + a_sum ! i) mod q; b = (b + b_sum ! i) mod q; expected = (a * x + b) mod q in
        Inr (if expected \<noteq> y then errors + 1 else errors, sin, rin))))))"

definition check_batch_ole :: "gmp_io \<Rightarrow> env \<Rightarrow> filesys \<Rightarrow> string list \<Rightarrow> nat result" where
  "check_batch_ole io env fs argv =
     (if length argv \<noteq> 3 \<and> length argv \<noteq> 5 then Inr 2
      else case (fs_text fs (argv ! 1), fs_text fs (argv ! 2)) of
        (Some s_text, Some r_text) \<Rightarrow>
          (let (magic_s, sin) = read_word [] (Some s_text); (ns, sin) = read_size sin;
               (magic_r, rin) = read_word [] (Some r_text); (nr, rin) = read_size rin in
           if magic_s \<noteq> ''OLE_SENDER_V1'' \<or> magic_r \<noteq> ''OLE_RECEIVER_V1'' \<or> ns \<noteq> nr then Inr 2
           else bind_r (cg_validate_count env ns False) (\<lambda>_.
             bind_r (read_mpz_text io rin) (\<lambda>(q, rin).
             bind_r (throw_if (q \<le> 1) (Runtime_error ''invalid checker modulus'')) (\<lambda>_.
             bind_r (fold_r (add_blind_file io fs q ns) (if length argv = 5 then [argv ! 3, argv ! 4] else [])
               (Some (replicate ns 0, replicate ns 0))) (\<lambda>sums.
             case sums of None \<Rightarrow> Inr 2
             | Some (a_sum, b_sum) \<Rightarrow>
                 bind_r (fold_r (check_ole_row io q a_sum b_sum) [0..<ns] (0, sin, rin)) (\<lambda>(errors, _).
                 Inr (if errors = 0 then 0 else 1)))))))
      | _ \<Rightarrow> Inr 2)"

subsection \<open>Reading what was written\<close>

text \<open>A stream between two lines still holds the newline of the first.\<close>

lemma is_space_blanks [simp]: "is_space (CHR 0x0A)" "is_space (CHR '' '')"
  by (simp_all add: is_space_def)

lemma read_mpz_text_skip [simp]:
  "read_mpz_text io (Some (CHR 0x0A # s)) = read_mpz_text io (Some s)"
  "read_mpz_text io (Some (CHR '' '' # s)) = read_mpz_text io (Some s)"
  by (simp_all add: read_mpz_text_def read_word_skip)

lemma read_mpz_text_next [simp]:
  assumes "gmp_documented io"
  shows "read_mpz_text io (Some (io_print io x @ CHR 0x0A # s)) = Inr (x, Some (CHR 0x0A # s))"
    and "read_mpz_text io (Some (io_print io x @ CHR '' '' # s)) = Inr (x, Some (CHR '' '' # s))"
proof -
  have w: "is_word (io_print io x)"
    using assms by (simp add: gmp_documented_def)
  show "read_mpz_text io (Some (io_print io x @ CHR 0x0A # s)) = Inr (x, Some (CHR 0x0A # s))"
    using read_word_next[OF w is_space_blanks(1), of "[]" s] assms by (simp add: read_mpz_text_def)
  show "read_mpz_text io (Some (io_print io x @ CHR '' '' # s)) = Inr (x, Some (CHR '' '' # s))"
    using read_word_next[OF w is_space_blanks(2), of "[]" s] assms by (simp add: read_mpz_text_def)
qed

lemma read_size_lines [simp]:
  "n < size_limit \<Longrightarrow> read_size (Some (show_nat n @ CHR 0x0A # s)) = (n, Some (CHR 0x0A # s))"
  "n < size_limit \<Longrightarrow> read_size (Some (show_nat n @ CHR '' '' # s)) = (n, Some (CHR '' '' # s))"
  "read_size (Some (CHR 0x0A # s)) = read_size (Some s)" "read_size (Some (CHR '' '' # s)) = read_size (Some s)"
  by (simp_all add: read_size_next read_size_skip)

lemma read_word_lines:
  "is_word w \<Longrightarrow> read_word old (Some (w @ CHR 0x0A # s)) = (w, Some (CHR 0x0A # s))"
  "read_word old (Some (CHR 0x0A # s)) = read_word old (Some s)"
  by (simp_all add: read_word_next read_word_skip)

lemma read_values_lines:
  assumes "gmp_documented io"
  shows "read_mpz_texts io (length xs) (Some (CHR 0x0A # value_lines io xs @ s)) = Inr (xs, Some (CHR 0x0A # s))"
  using assms by (induction xs) (simp_all add: value_lines_def value_line_def)

lemma size_of_count: "cg_validate_count env n False = Inr () \<Longrightarrow> n < size_limit"
  using validate_count_bound[of env n] by (simp add: size_limit_def)

lemma check_ope_texts:
  assumes "gmp_documented io" "cg_validate_count env (length coeffs) False = Inr ()" "0 < q"
    and "fs_text fs s = Some (ope_sender_text io q coeffs)" "fs_text fs r = Some (ope_receiver_text io q alpha out)"
  shows "check_ope io env fs [prog, s, r] = Inr (if eval_poly_horner coeffs alpha q = out then 0 else 1)"
proof -
  have n: "0 < length coeffs" "length coeffs < size_limit"
    using assms(2) size_of_count[OF assms(2)] by (simp_all add: cg_validate_count_Inr)
  have w: "is_word ''OPE_SENDER_V1''" "is_word ''OPE_RECEIVER_V1''"
    by (simp_all add: is_word_def is_space_def)
  have s: "read_word [] (Some (ope_sender_text io q coeffs))
      = (''OPE_SENDER_V1'', Some (CHR 0x0A # show_nat (length coeffs) @ CHR 0x0A # io_print io q @ CHR 0x0A # value_lines io coeffs))"
    using read_word_lines(1)[OF w(1)] by (simp add: ope_sender_text_def text_line_def value_line_def)
  have r: "read_word [] (Some (ope_receiver_text io q alpha out))
      = (''OPE_RECEIVER_V1'', Some (CHR 0x0A # io_print io q @ CHR 0x0A # io_print io alpha @ CHR 0x0A # io_print io out @ [CHR 0x0A]))"
    using read_word_lines(1)[OF w(2)] by (simp add: ope_receiver_text_def text_line_def value_line_def)
  show ?thesis
    using n assms(1-3) read_values_lines[OF assms(1), of coeffs "[]"]
    by (simp add: check_ope_def assms(4,5) s r checked_horner_def)
qed

text \<open>Rows of two values from index \<open>i\<close> on.\<close>

definition pair_rows :: "gmp_io \<Rightarrow> int list \<Rightarrow> int list \<Rightarrow> nat \<Rightarrow> string" where
  "pair_rows io xs ys i = concat (map (\<lambda>j. pair_line io (xs ! j) (ys ! j)) [i..<length xs])"

lemma pair_lines_rows: "pair_lines io xs ys = pair_rows io xs ys 0"
  by (simp add: pair_lines_def pair_rows_def)

lemma pair_rows_step:
  "i < length xs \<Longrightarrow> pair_rows io xs ys i = io_print io (xs ! i) @ CHR '' '' # io_print io (ys ! i) @ CHR 0x0A # pair_rows io xs ys (Suc i)"
  by (simp add: pair_rows_def pair_line_def upt_conv_Cons)

lemma pair_rows_end [simp]: "pair_rows io xs ys (length xs) = []"
  by (simp add: pair_rows_def)

text \<open>A loop over rows that counts the indices at which a test fails.\<close>

lemma count_rows:
  assumes "\<And>i e. i < n \<Longrightarrow> body i (e, st i) = Inr (if ok i then e else e + 1, st (Suc i))"
  shows "i \<le> n \<Longrightarrow> \<exists>e'. fold_r body [i..<n] (e, st i) = Inr (e', st n) \<and> (e' = (0 :: nat) \<longleftrightarrow> e = 0 \<and> (\<forall>j. i \<le> j \<and> j < n \<longrightarrow> ok j))"
proof (induction "n - i" arbitrary: i e)
  case 0
  then show ?case
    by auto
next
  case (Suc d)
  then have i: "i < n" "[i..<n] = i # [Suc i..<n]"
    by (simp_all add: upt_conv_Cons)
  have d: "d = n - Suc i"
    using Suc.hyps(2) by simp
  let ?e = "if ok i then e else e + 1"
  obtain e' where e': "fold_r body [Suc i..<n] (?e, st (Suc i)) = Inr (e', st n)"
      "e' = 0 \<longleftrightarrow> ?e = 0 \<and> (\<forall>j. Suc i \<le> j \<and> j < n \<longrightarrow> ok j)"
    using Suc.hyps(1)[of "Suc i" ?e] d i(1) by (metis Suc_leI)
  have "(\<forall>j. i \<le> j \<and> j < n \<longrightarrow> ok j) \<longleftrightarrow> ok i \<and> (\<forall>j. Suc i \<le> j \<and> j < n \<longrightarrow> ok j)"
    using i(1) by (auto simp: le_eq_less_or_eq Suc_le_eq) (metis Suc_lessI)
  then show ?case
    using e' i assms[of i e] by auto
qed

text \<open>The OLE checker on the two dumps, with or without the blinds of two firewalls.\<close>

lemma row_mod: "(u mod q * x + v mod q) mod q = (u * x + v) mod (q :: int)"
  using mod_add_cong[OF mod_mult_left_eq[of u q x] mod_mod_trivial[of v q]] .

lemma check_ole_rows:
  assumes "gmp_documented io" "length a = n" "length b = n" "length x = n" "length y = n"
  shows "\<exists>e st. fold_r (check_ole_row io q as bs) [0..<n] (0, Some (CHR 0x0A # pair_rows io a b 0), Some (CHR 0x0A # pair_rows io x y 0)) = Inr (e, st) \<and>
    (e = 0 \<longleftrightarrow> (\<forall>i < n. y ! i = ((a ! i + as ! i) * x ! i + (b ! i + bs ! i)) mod q))"
proof -
  let ?st = "\<lambda>i. (Some (CHR 0x0A # pair_rows io a b i), Some (CHR 0x0A # pair_rows io x y i))"
  let ?ok = "\<lambda>i. ((a ! i + as ! i) * x ! i + (b ! i + bs ! i)) mod q = y ! i"
  have "check_ole_row io q as bs i (e, ?st i) = Inr (if ?ok i then e else e + 1, ?st (Suc i))" if i: "i < n" for i e
  proof -
    have v: "((a ! i + as ! i) mod q * x ! i + (b ! i + bs ! i) mod q) mod q = ((a ! i + as ! i) * x ! i + (b ! i + bs ! i)) mod q"
      by (rule row_mod)
    have r: "pair_rows io a b i = io_print io (a ! i) @ CHR '' '' # io_print io (b ! i) @ CHR 0x0A # pair_rows io a b (Suc i)"
      "pair_rows io x y i = io_print io (x ! i) @ CHR '' '' # io_print io (y ! i) @ CHR 0x0A # pair_rows io x y (Suc i)"
      using i assms(2,4) by (simp_all add: pair_rows_step)
    show ?thesis
      unfolding check_ole_row_def prod.case r by (simp add: assms(1) Let_def v)
  qed
  from count_rows[of n "check_ole_row io q as bs" ?st ?ok 0 0, OF this]
  obtain e where "fold_r (check_ole_row io q as bs) [0..<n] (0, ?st 0) = Inr (e, ?st n)" "e = 0 \<longleftrightarrow> (\<forall>j < n. ?ok j)"
    by auto
  then show ?thesis
    by (metis (no_types, lifting))
qed

lemma fold_r_snoc: "fold_r f (xs @ [x]) s = bind_r (fold_r f xs s) (f x)"
  by (cases "fold_r f xs s"; cases "f x (projr (fold_r f xs s))") (auto simp: fold_r_append)

lemma add_blind_rows:
  assumes "gmp_documented io" "length u = n" "length v = n" "length a = n" "length b = n"
  shows "fold_r (add_blind io q) [0..<n] (a, b, Some (CHR 0x0A # pair_rows io u v 0))
    = Inr (map (\<lambda>i. (a ! i + u ! i) mod q) [0..<n], map (\<lambda>i. (b ! i + v ! i) mod q) [0..<n], Some [CHR 0x0A])"
proof -
  let ?a = "\<lambda>k. map (\<lambda>i. if i < k then (a ! i + u ! i) mod q else a ! i) [0..<n]"
    and ?b = "\<lambda>k. map (\<lambda>i. if i < k then (b ! i + v ! i) mod q else b ! i) [0..<n]"
  have step: "(?a k)[k := (?a k ! k + u ! k) mod q] = ?a (Suc k)" "(?b k)[k := (?b k ! k + v ! k) mod q] = ?b (Suc k)" if "k < n" for k
    using that by (auto simp: list_eq_iff_nth_eq nth_list_update)
  have "fold_r (add_blind io q) [0..<k] (a, b, Some (CHR 0x0A # pair_rows io u v 0)) = Inr (?a k, ?b k, Some (CHR 0x0A # pair_rows io u v k))"
    if "k \<le> n" for k
    using that
  proof (induction k)
    case 0
    have "?a 0 = a" "?b 0 = b"
      using assms(4,5) by (auto simp: list_eq_iff_nth_eq)
    then show ?case
      by simp
  next
    case (Suc k)
    then have "fold_r (add_blind io q) [0..<Suc k] (a, b, Some (CHR 0x0A # pair_rows io u v 0))
        = add_blind io q k (?a k, ?b k, Some (CHR 0x0A # pair_rows io u v k))"
      by (simp add: fold_r_snoc)
    also have "\<dots> = Inr (?a (Suc k), ?b (Suc k), Some (CHR 0x0A # pair_rows io u v (Suc k)))"
      unfolding add_blind_def prod.case using step[of k] Suc.prems assms(1-3) pair_rows_step[of k u io v] by simp
    finally show ?case .
  qed
  from this[of n] show ?thesis
    using assms(2) pair_rows_end[of io u v] by (simp cong: map_cong)
qed

lemma blind_file_added:
  assumes "gmp_documented io" "length u = n" "length v = n" "length a = n" "length b = n" "n < size_limit"
    and "fs_text fs path = Some (ole_blinds_text io u v)"
  shows "add_blind_file io fs q n path (Some (a, b))
    = Inr (Some (map (\<lambda>i. (a ! i + u ! i) mod q) [0..<n], map (\<lambda>i. (b ! i + v ! i) mod q) [0..<n]))"
proof -
  have "is_word ''OLE_BLINDS_V1''"
    by (simp add: is_word_def is_space_def)
  then have "read_word [] (Some (ole_blinds_text io u v)) = (''OLE_BLINDS_V1'', Some (CHR 0x0A # show_nat n @ CHR 0x0A # pair_rows io u v 0))"
    using read_word_lines(1)[of "''OLE_BLINDS_V1''"] assms(2) by (simp add: ole_blinds_text_def text_line_def pair_lines_rows)
  then show ?thesis
    using add_blind_rows[OF assms(1-5)] assms(6,7) by (simp add: add_blind_file_def)
qed

lemma check_ole_texts:
  assumes "gmp_documented io" "cg_validate_count env n False = Inr ()" "1 < q"
    and "length a = n" "length b = n" "length x = n" "length y = n"
    and "fs_text fs s = Some (ole_sender_text io a b)" "fs_text fs r = Some (ole_receiver_text io q x y)"
    and "argv ! 1 = s" "argv ! 2 = r" "length argv = 3 \<or> length argv = 5"
    and "fold_r (add_blind_file io fs q n) (if length argv = 5 then [argv ! 3, argv ! 4] else [])
          (Some (replicate n 0, replicate n 0)) = Inr (Some (as, bs))"
  shows "check_batch_ole io env fs argv
    = Inr (if \<forall>i < n. y ! i = ((a ! i + as ! i) * x ! i + (b ! i + bs ! i)) mod q then 0 else 1)"
proof -
  have n: "n < size_limit"
    by (rule size_of_count[OF assms(2)])
  have w: "is_word ''OLE_SENDER_V1''" "is_word ''OLE_RECEIVER_V1''"
    by (simp_all add: is_word_def is_space_def)
  have s: "read_word [] (Some (ole_sender_text io a b)) = (''OLE_SENDER_V1'', Some (CHR 0x0A # show_nat n @ CHR 0x0A # pair_rows io a b 0))"
    using read_word_lines(1)[OF w(1)] assms(4) by (simp add: ole_sender_text_def text_line_def pair_lines_rows)
  have r: "read_word [] (Some (ole_receiver_text io q x y))
      = (''OLE_RECEIVER_V1'', Some (CHR 0x0A # show_nat n @ CHR 0x0A # io_print io q @ CHR 0x0A # pair_rows io x y 0))"
    using read_word_lines(1)[OF w(2)] assms(6) by (simp add: ole_receiver_text_def text_line_def value_line_def pair_lines_rows)
  obtain e st where e: "fold_r (check_ole_row io q as bs) [0..<n] (0, Some (CHR 0x0A # pair_rows io a b 0), Some (CHR 0x0A # pair_rows io x y 0)) = Inr (e, st)"
    "e = 0 \<longleftrightarrow> (\<forall>i < n. y ! i = ((a ! i + as ! i) * x ! i + (b ! i + bs ! i)) mod q)"
    using check_ole_rows[OF assms(1,4-7), of q as bs] by blast
  have "(length argv \<noteq> 3 \<and> length argv \<noteq> 5) = False" "(q \<le> 1) = False"
    using assms(3,12) by auto
  then show ?thesis
    unfolding check_batch_ole_def assms(8-11) option.case prod.case s r Let_def
    using n assms(1,2,13) e by (simp only: if_False) (simp split del: if_split)
qed

definition opa_expected :: "int \<Rightarrow> int list \<Rightarrow> int list \<Rightarrow> int list \<Rightarrow> int \<Rightarrow> int" where
  "opa_expected q b a x t = (eval_poly_horner a t q * eval_poly_horner x t q + eval_poly_horner b t q) mod q"

lemma check_opa_rows:
  assumes "gmp_documented io" "length y = length alpha" "0 < q"
  shows "\<exists>e st. fold_r (check_opa_point io q b a x) [0..<length alpha] (0, Some (CHR 0x0A # pair_rows io alpha y 0)) = Inr (e, st) \<and>
    (e = 0 \<longleftrightarrow> (\<forall>i < length alpha. opa_expected q b a x (alpha ! i) = y ! i))"
proof -
  let ?st = "\<lambda>i. Some (CHR 0x0A # pair_rows io alpha y i)" and ?ok = "\<lambda>i. opa_expected q b a x (alpha ! i) = y ! i"
  have "check_opa_point io q b a x i (e, ?st i) = Inr (if ?ok i then e else e + 1, ?st (Suc i))" if i: "i < length alpha" for i e
  proof -
    note r = pair_rows_step[OF i, of io y]
    show ?thesis
      unfolding check_opa_point_def prod.case r using assms(3) by (simp add: assms(1) checked_horner_def opa_expected_def)
  qed
  from count_rows[of "length alpha" "check_opa_point io q b a x" ?st ?ok 0 0, OF this]
  obtain e where "fold_r (check_opa_point io q b a x) [0..<length alpha] (0, ?st 0) = Inr (e, ?st (length alpha))"
      "e = 0 \<longleftrightarrow> (\<forall>j < length alpha. ?ok j)"
    by auto
  then show ?thesis
    by (metis (no_types, lifting))
qed

lemma check_opa_texts:
  assumes "gmp_documented io" "0 < q" "length y = length alpha"
    and "\<forall>n \<in> {length b, length a, length x, length alpha}. cg_validate_count env n False = Inr ()"
    and "fs_text fs s = Some (opa_sender_text io q b a)" "fs_text fs r = Some (opa_receiver_text io q x alpha y)"
  shows "check_opa io env fs [prog, s, r] = Inr (if \<forall>i < length alpha. opa_expected q b a x (alpha ! i) = y ! i then 0 else 1)"
proof -
  have n: "n \<noteq> 0 \<and> n < size_limit" if "n \<in> {length b, length a, length x, length alpha}" for n
    using assms(4) that size_of_count[of env n] by (auto simp: cg_validate_count_Inr)
  have w: "is_word ''OPA_SENDER_V2''" "is_word ''OPA_RECEIVER_V1''" "is_word ''--''"
    by (simp_all add: is_word_def is_space_def)
  note sep = read_word_lines(1)[OF w(3)]
  let ?s = "CHR 0x0A # show_nat (length b) @ CHR '' '' # show_nat (length a) @ CHR 0x0A # io_print io q @
    CHR 0x0A # value_lines io b @ ''--'' @ CHR 0x0A # value_lines io a @ []"
  let ?r = "CHR 0x0A # show_nat (length x) @ CHR 0x0A # show_nat (length alpha) @ CHR 0x0A # io_print io q @
    CHR 0x0A # value_lines io x @ ''--'' @ CHR 0x0A # pair_rows io alpha y 0"
  have s: "read_word [] (Some (opa_sender_text io q b a)) = (''OPA_SENDER_V2'', Some ?s)"
    using read_word_lines(1)[OF w(1)] by (simp add: opa_sender_text_def text_line_def value_line_def)
  have r: "read_word [] (Some (opa_receiver_text io q x alpha y)) = (''OPA_RECEIVER_V1'', Some ?r)"
    using read_word_lines(1)[OF w(2)] by (simp add: opa_receiver_text_def text_line_def value_line_def pair_lines_rows)
  obtain e st where e: "fold_r (check_opa_point io q b a x) [0..<length alpha] (0, Some (CHR 0x0A # pair_rows io alpha y 0)) = Inr (e, st)"
    "e = 0 \<longleftrightarrow> (\<forall>i < length alpha. opa_expected q b a x (alpha ! i) = y ! i)"
    using check_opa_rows[OF assms(1,3,2), of b a x] by blast
  have v: "read_mpz_texts io (length b) (Some (CHR 0x0A # value_lines io b @ ''--'' @ u)) = Inr (b, Some (CHR 0x0A # ''--'' @ u))"
    "read_mpz_texts io (length x) (Some (CHR 0x0A # value_lines io x @ ''--'' @ u)) = Inr (x, Some (CHR 0x0A # ''--'' @ u))"
    "read_mpz_texts io (length a) (Some (CHR 0x0A # value_lines io a @ [])) = Inr (a, Some [CHR 0x0A])" for u
    using read_values_lines[OF assms(1)] by blast+
  have sp: "read_word old (Some (CHR 0x0A # ''--'' @ CHR 0x0A # u)) = (''--'', Some (CHR 0x0A # u))" for old u
    using sep by (simp only: read_word_lines(2))
  have lens: "b \<noteq> []" "a \<noteq> []" "x \<noteq> []" "alpha \<noteq> []" "length b < size_limit" "length a < size_limit" "length x < size_limit" "length alpha < size_limit"
    using n[of "length b"] n[of "length a"] n[of "length x"] n[of "length alpha"] by auto
  have c: "cg_validate_count env (length b) False = Inr ()" "cg_validate_count env (length a) False = Inr ()"
    "cg_validate_count env (length x) False = Inr ()" "cg_validate_count env (length alpha) False = Inr ()"
    using assms(4) by simp_all
  show ?thesis
    unfolding check_opa_def using assms(1) lens c e(2)
    by (simp add: assms(5,6) s r split del: if_split) (simp add: v[simplified] sp[simplified] e(1) split del: if_split)
qed

subsection \<open>The dumps and their checkers\<close>

abbreviation dump_path :: "env \<Rightarrow> string \<Rightarrow> string" where
  "dump_path env name \<equiv> cg_bench_io_dir env @ ''/'' @ name"

lemma write_dump_text:
  "write_dump env name err content fs = Inr fs' \<Longrightarrow> fs_text fs' = (fs_text fs)(dump_path env name \<mapsto> content)"
  by (auto simp: write_dump_def cg_bench_io_path_def write_text_def bind_r_Inr_iff split: if_splits)

lemma dump_texts:
  "write_ole_sender_inputs io env name a b fs = Inr fs' \<Longrightarrow> length a = length b \<and> fs_text fs' = (fs_text fs)(dump_path env name \<mapsto> ole_sender_text io a b)"
  "write_ole_receiver_io io env name q x y fs = Inr fs' \<Longrightarrow> length x = length y \<and> fs_text fs' = (fs_text fs)(dump_path env name \<mapsto> ole_receiver_text io q x y)"
  "write_ole_blinds io env name a b fs = Inr fs' \<Longrightarrow> length a = length b \<and> fs_text fs' = (fs_text fs)(dump_path env name \<mapsto> ole_blinds_text io a b)"
  "write_ope_sender_coeffs io env name q c fs = Inr fs' \<Longrightarrow> fs_text fs' = (fs_text fs)(dump_path env name \<mapsto> ope_sender_text io q c)"
  "write_ope_receiver_output io env name q alpha out fs = Inr fs' \<Longrightarrow> fs_text fs' = (fs_text fs)(dump_path env name \<mapsto> ope_receiver_text io q alpha out)"
  "write_opa_sender_coeffs io env name q b a fs = Inr fs' \<Longrightarrow> fs_text fs' = (fs_text fs)(dump_path env name \<mapsto> opa_sender_text io q b a)"
  "write_opa_receiver_dump io env name q p u y fs = Inr fs' \<Longrightarrow> length u = length y \<and> fs_text fs' = (fs_text fs)(dump_path env name \<mapsto> opa_receiver_text io q p u y)"
  by (auto simp: write_ole_sender_inputs_def write_ole_receiver_io_def write_ole_blinds_def write_ope_sender_coeffs_def
      write_ope_receiver_output_def write_opa_sender_coeffs_def write_opa_receiver_dump_def bind_r_Inr_iff dest!: write_dump_text split: if_splits)

lemma row_mod_sum: "((u + 0 + s) mod q + t) mod q = (u + s + t) mod (q :: int)"
  by (simp add: mod_add_left_eq)

lemma blinds_row_mod:
  fixes q :: int
  shows "((a + ((0 + s) mod q + r) mod q) * x + (b + ((0 + t) mod q + v) mod q)) mod q = ((a + s + r) * x + (b + t + v)) mod q"
proof -
  have "((a + ((0 + s) mod q + r) mod q) mod q * x + (b + ((0 + t) mod q + v) mod q) mod q) mod q
      = ((a + s + r) mod q * x + (b + t + v) mod q) mod q"
    by (simp add: mod_simps ac_simps)
  then show ?thesis
    by (simp only: row_mod)
qed

lemma ole_dumps_checked:
  assumes "gmp_documented io" "cg_validate_count env n False = Inr ()" "1 < q"
    and "length a = n" "length x = n" "length s = n" "length r = n"
    and "write_ole_sender_inputs io env f1 a b fs = Inr fs1" "write_ole_receiver_io io env f2 q x y fs1 = Inr fs2"
    and "write_ole_blinds io env f3 s t fs2 = Inr fs3" "write_ole_blinds io env f4 r v fs3 = Inr fs4"
    and "distinct [f1, f2, f3, f4]"
  shows "check_batch_ole io env fs4 [prog, dump_path env f1, dump_path env f2, dump_path env f3, dump_path env f4]
    = Inr (if \<forall>i < n. y ! i = ((a ! i + s ! i + r ! i) * x ! i + (b ! i + t ! i + v ! i)) mod q then 0 else 1)"
proof -
  note d = dump_texts(1)[OF assms(8)] dump_texts(2)[OF assms(9)] dump_texts(3)[OF assms(10)] dump_texts(3)[OF assms(11)]
  have f: "fs_text fs4 (dump_path env f1) = Some (ole_sender_text io a b)" "fs_text fs4 (dump_path env f2) = Some (ole_receiver_text io q x y)"
    "fs_text fs4 (dump_path env f3) = Some (ole_blinds_text io s t)" "fs_text fs4 (dump_path env f4) = Some (ole_blinds_text io r v)"
    using d assms(12) by auto
  let ?z = "replicate n (0 :: int)" and ?add = "\<lambda>u w. map (\<lambda>i. (u ! i + w ! i) mod q) [0..<n]"
  have n: "n < size_limit" "length b = n" "length y = n" "length t = n" "length v = n"
    using d assms(4-7) size_of_count[OF assms(2)] by auto
  have "fold_r (add_blind_file io fs4 q n) [dump_path env f3, dump_path env f4] (Some (?z, ?z)) = Inr (Some (?add (?add ?z s) r, ?add (?add ?z t) v))"
    using blind_file_added[OF assms(1,6) n(4) _ _ n(1) f(3), of ?z ?z q]
      blind_file_added[OF assms(1,7) n(5) _ _ n(1) f(4), of "?add ?z s" "?add ?z t" q] by simp
  then have "check_batch_ole io env fs4 [prog, dump_path env f1, dump_path env f2, dump_path env f3, dump_path env f4]
    = Inr (if \<forall>i < n. y ! i = ((a ! i + ?add (?add ?z s) r ! i) * x ! i + (b ! i + ?add (?add ?z t) v ! i)) mod q then 0 else 1)"
    by (intro check_ole_texts[OF assms(1-4) n(2) assms(5) n(3) f(1,2)]) simp_all
  moreover have "((a ! i + ?add (?add ?z s) r ! i) * x ! i + (b ! i + ?add (?add ?z t) v ! i)) mod q
      = ((a ! i + s ! i + r ! i) * x ! i + (b ! i + t ! i + v ! i)) mod q" if "i < n" for i
    using that blinds_row_mod[of "a ! i" "s ! i" q "r ! i" "x ! i" "b ! i" "t ! i" "v ! i"] by simp
  ultimately show ?thesis
    by (simp cong: conj_cong)
qed

text \<open>
  C21: The OLE checker is exact on the dumps of a run, with the blinds of both firewalls. If the dumps
  of sender and receiver and the two blind files are written, under four different names, then the
  checker returns 0 exactly if every output is \<open>(a + s + r) x + (b + t + v) mod q\<close> for the
  sender's pair \<open>a, b\<close> and the blinds \<open>s, t\<close> and \<open>r, v\<close> of the two firewalls,
  and it returns 1 otherwise. The number conversions of the big-number library are assumed to be as
  documented: what is printed is one word and is read back as the same value.
\<close>

theorem ole_checker_exact:
  assumes "gmp_documented io" "cg_validate_count env n False = Inr ()" "1 < q"
    and "length a = n" "length x = n" "length s = n" "length r = n"
    and "write_ole_sender_inputs io env f1 a b fs = Inr fs1" "write_ole_receiver_io io env f2 q x y fs1 = Inr fs2"
    and "write_ole_blinds io env f3 s t fs2 = Inr fs3" "write_ole_blinds io env f4 r v fs3 = Inr fs4"
    and "distinct [f1, f2, f3, f4]"
  shows "check_batch_ole io env fs4 [prog, dump_path env f1, dump_path env f2, dump_path env f3, dump_path env f4]
    = Inr (if \<forall>i < n. y ! i = ((a ! i + s ! i + r ! i) * x ! i + (b ! i + t ! i + v ! i)) mod q then 0 else 1)"
  by (rule ole_dumps_checked[OF assms])

text \<open>A disk on which every file can be written.\<close>

definition empty_disk :: filesys where
  "empty_disk = \<lparr> fs_text = Map.empty, fs_mkdir = \<lambda>_. True, fs_writable = \<lambda>_. True \<rparr>"

definition open_disk :: "filesys \<Rightarrow> bool" where
  "open_disk fs \<longleftrightarrow> fs_mkdir fs = (\<lambda>_. True) \<and> fs_writable fs = (\<lambda>_. True)"

lemma open_empty_disk [simp]: "open_disk empty_disk"
  by (simp add: open_disk_def empty_disk_def)

lemma write_text_open:
  assumes "open_disk fs"
  shows "\<exists>fs'. write_text path e content fs = Inr fs' \<and> open_disk fs'"
  using assms by (simp add: write_text_def open_disk_def)

lemma write_dump_open:
  assumes "open_disk fs"
  shows "\<exists>fs'. write_dump env name err content fs = Inr fs' \<and> open_disk fs'"
  using write_text_open[OF assms] assms by (simp add: write_dump_def cg_bench_io_path_def open_disk_def)

lemma dumps_open:
  assumes "open_disk fs"
  shows "length a = length b \<Longrightarrow> \<exists>fs'. write_ole_sender_inputs io env name a b fs = Inr fs' \<and> open_disk fs'"
    and "length a = length b \<Longrightarrow> \<exists>fs'. write_ole_receiver_io io env name q a b fs = Inr fs' \<and> open_disk fs'"
    and "length a = length b \<Longrightarrow> \<exists>fs'. write_ole_blinds io env name a b fs = Inr fs' \<and> open_disk fs'"
    and "\<exists>fs'. write_ope_sender_coeffs io env name q a fs = Inr fs' \<and> open_disk fs'"
    and "\<exists>fs'. write_ope_receiver_output io env name q alpha out fs = Inr fs' \<and> open_disk fs'"
    and "\<exists>fs'. write_opa_sender_coeffs io env name q a b fs = Inr fs' \<and> open_disk fs'"
    and "length a = length b \<Longrightarrow> \<exists>fs'. write_opa_receiver_dump io env name q p a b fs = Inr fs' \<and> open_disk fs'"
  using write_dump_open[OF assms]
  by (simp_all add: write_ole_sender_inputs_def write_ole_receiver_io_def write_ole_blinds_def write_ope_sender_coeffs_def
      write_ope_receiver_output_def write_opa_sender_coeffs_def write_opa_receiver_dump_def)

lemma small_count: "0 < n \<Longrightarrow> n \<le> 1000 \<Longrightarrow> cg_validate_count (\<lambda>_. None) n False = Inr ()"
  by (simp add: cg_validate_count_Inr)

theorem ole_checker_exact_witness:
  "\<exists>fs1 fs2 fs3 fs4. write_ole_sender_inputs decimal_io (\<lambda>_. None) ''s'' [2] [3] empty_disk = Inr fs1 \<and>
     write_ole_receiver_io decimal_io (\<lambda>_. None) ''r'' 7 [4] [1] fs1 = Inr fs2 \<and>
     write_ole_blinds decimal_io (\<lambda>_. None) ''sb'' [1] [2] fs2 = Inr fs3 \<and> write_ole_blinds decimal_io (\<lambda>_. None) ''rb'' [5] [6] fs3 = Inr fs4 \<and>
     check_batch_ole decimal_io (\<lambda>_. None) fs4
       [''check'', dump_path (\<lambda>_. None) ''s'', dump_path (\<lambda>_. None) ''r'', dump_path (\<lambda>_. None) ''sb'', dump_path (\<lambda>_. None) ''rb''] = Inr 0"
proof -
  obtain fs1 where 1: "write_ole_sender_inputs decimal_io (\<lambda>_. None) ''s'' [2] [3] empty_disk = Inr fs1" "open_disk fs1"
    using dumps_open(1)[OF open_empty_disk, of "[2]" "[3]" decimal_io "\<lambda>_. None" "''s''"] by auto
  obtain fs2 where 2: "write_ole_receiver_io decimal_io (\<lambda>_. None) ''r'' 7 [4] [1] fs1 = Inr fs2" "open_disk fs2"
    using dumps_open(2)[OF 1(2), of "[4]" "[1]" decimal_io "\<lambda>_. None" "''r''" 7] by auto
  obtain fs3 where 3: "write_ole_blinds decimal_io (\<lambda>_. None) ''sb'' [1] [2] fs2 = Inr fs3" "open_disk fs3"
    using dumps_open(3)[OF 2(2), of "[1]" "[2]" decimal_io "\<lambda>_. None" "''sb''"] by auto
  obtain fs4 where 4: "write_ole_blinds decimal_io (\<lambda>_. None) ''rb'' [5] [6] fs3 = Inr fs4"
    using dumps_open(3)[OF 3(2), of "[5]" "[6]" decimal_io "\<lambda>_. None" "''rb''"] by auto
  show ?thesis
    using 1(1) 2(1) 3(1) 4 ole_checker_exact[OF decimal_io_documented small_count[of 1] _ _ _ _ _ 1(1) 2(1) 3(1) 4, of "''check''"] by simp
qed

end
