(* ===== verification/CG_OLE3.thy ===== *)
theory CG_OLE3
  imports CG_PSI2 CG_Dumps
begin

text \<open>
  Three-round OLE (\<^verbatim>\<open>cg_ole3_common.hpp\<close>, \<^verbatim>\<open>cg_ole3_receiver.cpp\<close>, \<^verbatim>\<open>cg_ole3_sender.cpp\<close>,
  \<^verbatim>\<open>cg_rf_ole3_receiver.cpp\<close>, \<^verbatim>\<open>cg_rf_ole3_sender.cpp\<close> and the two firewall programs): the sender encrypts
  its pairs, the receiver computes on them under a mask of its own, the sender decrypts and returns the
  masked result in the clear. The firewalls add blinds to the sender's pairs on the way. As for the
  two-round protocol a program is a function of its inputs, its random draws and the bytes that reach it.
\<close>

subsection \<open>Helpers\<close>

definition send_mpz_lanes0 :: "env \<Rightarrow> lanes \<Rightarrow> int list \<Rightarrow> lanes result" where
  "send_mpz_lanes0 env fds vs = bind_r (send_list (send_mpz env) vs) (\<lambda>bs. Inr (fds[0 := fds ! 0 @ bs]))"

definition recv_mpz_lanes0 :: "env \<Rightarrow> lanes \<Rightarrow> nat \<Rightarrow> (int list \<times> lanes) result" where
  "recv_mpz_lanes0 env fds n = bind_r (recv_list (recv_mpz env) n (fds ! 0)) (\<lambda>(vs, rest). Inr (vs, fds[0 := rest]))"

definition encrypt_plain_ole3 :: "qfi cl_ops \<Rightarrow> qfi \<Rightarrow> int \<Rightarrow> int \<Rightarrow> ct result" where
  "encrypt_plain_ole3 cs pk v r = bind_r (make_cleartext cs v) (\<lambda>m. Inr (encrypt cs pk m r))"

definition add_ct_ole3 :: "qfi cl_ops \<Rightarrow> ct \<Rightarrow> ct \<Rightarrow> ct" where
  "add_ct_ole3 cs lhs rhs = ct_add cs lhs rhs"

definition transform_ct_fwd_batch ::
  "env \<Rightarrow> qfi cl_ops \<Rightarrow> int \<Rightarrow> qfi \<Rightarrow> (nat \<Rightarrow> int) \<Rightarrow> nat \<Rightarrow> lanes \<Rightarrow> lanes \<Rightarrow> (lanes \<times> lanes) result" where
  "transform_ct_fwd_batch env cs rho target_pk rnd n rx tx =
     bind_r (maul_stream env n (\<lambda>i. make_enc_zero cs target_pk (rnd i)) (\<lambda>ct. maul_fwd_rerand cs ct rho)
       (replicate n null_zero, replicate n null_ct, replicate n null_ct, rx, tx)) (\<lambda>(_, _, _, rx, tx). Inr (rx, tx))"

definition transform_ct_inv_batch ::
  "env \<Rightarrow> qfi cl_ops \<Rightarrow> int \<Rightarrow> qfi \<Rightarrow> (nat \<Rightarrow> int) \<Rightarrow> nat \<Rightarrow> lanes \<Rightarrow> lanes \<Rightarrow> (lanes \<times> lanes) result" where
  "transform_ct_inv_batch env cs rho target_pk rnd n rx tx =
     bind_r (maul_stream env n (\<lambda>i. make_enc_zero cs target_pk (rnd i)) (\<lambda>ct. maul_inv_rerand cs ct rho)
       (replicate n null_zero, replicate n null_ct, replicate n null_ct, rx, tx)) (\<lambda>(_, _, _, rx, tx). Inr (rx, tx))"

text \<open>The round of the \<open>a\<close> coefficients: receive, add the encrypted blind, maul and refresh, send.\<close>

definition transform_ct_fwd_with_additive_blind_batch ::
  "env \<Rightarrow> qfi cl_ops \<Rightarrow> int \<Rightarrow> qfi \<Rightarrow> qfi \<Rightarrow> int list \<Rightarrow> (nat \<Rightarrow> int) \<Rightarrow> (nat \<Rightarrow> int) \<Rightarrow> nat \<Rightarrow> lanes \<Rightarrow> lanes \<Rightarrow> (lanes \<times> lanes) result" where
  "transform_ct_fwd_with_additive_blind_batch env cs rho source_pk target_pk blinds ernd zrnd n rx tx =
     bind_r (for_chunks env n (\<lambda>b e (in_cts, added, pre, out, rx, tx).
         bind_r (recv_ct_lanes_range env (recv_ct env) rx in_cts n b e) (\<lambda>(in_cts, rx).
         bind_r (par_fill (\<lambda>i. bind_r (encrypt_plain_ole3 cs source_pk (blinds ! i) (ernd i)) (\<lambda>enc_blind.
             Inr (add_ct_ole3 cs (in_cts ! i) enc_blind))) b e added) (\<lambda>added.
         bind_r (par_fill (\<lambda>i. Inr (make_enc_zero cs target_pk (zrnd i))) b e pre) (\<lambda>pre.
         bind_r (par_fill (\<lambda>i. Inr (maul_fwd_rerand cs (added ! i) rho (pre ! i))) b e out) (\<lambda>out.
         bind_r (send_ct_lanes_range env (send_ct env) tx out n b e) (\<lambda>tx.
         Inr (in_cts, added, pre, out, rx, tx)))))))
       (replicate n null_ct, replicate n null_ct, replicate n null_zero, replicate n null_ct, rx, tx))
       (\<lambda>(_, _, _, _, rx, tx). Inr (rx, tx))"

text \<open>The blinds: \<open>draw i\<close> is the value drawn below \<open>q\<close> for index \<open>i\<close>.\<close>

definition sample_plain_blinds_ole3 :: "nat \<Rightarrow> (nat \<Rightarrow> int) \<Rightarrow> int list" where
  "sample_plain_blinds_ole3 n draw = map draw [0..<n]"

definition add_plain_blind_mod_ole3 :: "int list \<Rightarrow> int list \<Rightarrow> int \<Rightarrow> int list result" where
  "add_plain_blind_mod_ole3 values' blinds q =
     (if length values' \<noteq> length blinds then Inl (Runtime_error ''OLE3 plaintext blind size mismatch'')
      else Inr (map (\<lambda>i. (values' ! i + blinds ! i) mod q) [0..<length values']))"

subsection \<open>The endpoints\<close>

definition ole3_reply :: "qfi cl_ops \<Rightarrow> qfi \<Rightarrow> int \<Rightarrow> int \<Rightarrow> int \<Rightarrow> ct \<Rightarrow> ct \<Rightarrow> ct result" where
  "ole3_reply cs pk r s x enc_a enc_b =
     bind_r (encrypt_value cs pk r s) (\<lambda>enc_r. Inr (ct_add cs (ct_add cs (cmult cs enc_a x) enc_b) enc_r))"

text \<open>\<open>mask i\<close> is the receiver's mask for index \<open>i\<close>, \<open>rnd i\<close> the randomness of its encryption.\<close>

definition ole3_receiver ::
  "env \<Rightarrow> byte list \<Rightarrow> int \<Rightarrow> qfi cl_ops \<Rightarrow> (nat \<Rightarrow> int) \<Rightarrow> (nat \<Rightarrow> int) \<Rightarrow> int list \<Rightarrow> byte list list \<Rightarrow> (int list \<times> lanes) result option" where
  "ole3_receiver env digest disc cs mask' rnd x_vals conns =
     (case rf_transport_lanes env of
        Inl err \<Rightarrow> Some (Inl err)
      | Inr k \<Rightarrow> (case accept_rf_lanes env digest conns k (length x_vals) of
          None \<Rightarrow> None
        | Some (Inl err) \<Rightarrow> Some (Inl err)
        | Some (Inr fds) \<Rightarrow> Some (let n = length x_vals; q = cleartext_bound cs in
            bind_r (accepted_tx env digest k n) (\<lambda>tx.
            bind_r (recv_pk_lane0 env disc (map the fds)) (\<lambda>(pk, rx).
            bind_r (recv_ct_lanes env (recv_ct env) rx (replicate n null_ct) n) (\<lambda>(enc_a, rx).
            bind_r (recv_ct_lanes env (recv_ct env) rx (replicate n null_ct) n) (\<lambda>(enc_b, rx).
            bind_r (par_fill (\<lambda>i. ole3_reply cs pk (mask' i) (rnd i) (x_vals ! i) (enc_a ! i) (enc_b ! i)) 0 n (replicate n null_ct)) (\<lambda>enc_y.
            bind_r (send_ct_lanes env (send_ct env) tx enc_y n) (\<lambda>tx.
            bind_r (recv_mpz_lanes0 env rx n) (\<lambda>(z_vals, _).
            Inr (map (\<lambda>i. (z_vals ! i - mask' i) mod q) [0..<n], tx)))))))))))"

definition ole3_sender ::
  "env \<Rightarrow> byte list \<Rightarrow> qfi cl_ops \<Rightarrow> int \<Rightarrow> (nat \<Rightarrow> int) \<Rightarrow> (nat \<Rightarrow> int) \<Rightarrow> int list \<Rightarrow> int list \<Rightarrow> lanes \<Rightarrow> lanes result" where
  "ole3_sender env digest cs sk rnd_a rnd_b a_vals b_vals rx =
     (let n = length a_vals; pk = keygen_pk cs sk in
      bind_r (rf_transport_lanes env) (\<lambda>k.
      bind_r (connect_rf_lanes env digest k n) (\<lambda>fds.
      bind_r (check_replies env digest k n rx) (\<lambda>rx.
      bind_r (send_pk_lane0 env pk fds) (\<lambda>fds.
      bind_r (par_fill (\<lambda>i. encrypt_value cs pk (a_vals ! i) (rnd_a i)) 0 n (replicate n null_ct)) (\<lambda>enc_a.
      bind_r (par_fill (\<lambda>i. encrypt_value cs pk (b_vals ! i) (rnd_b i)) 0 n (replicate n null_ct)) (\<lambda>enc_b.
      bind_r (send_ct_lanes env (send_ct env) fds enc_a n) (\<lambda>fds.
      bind_r (send_ct_lanes env (send_ct env) fds enc_b n) (\<lambda>fds.
      bind_r (recv_ct_lanes env (recv_ct env) rx (replicate n null_ct) n) (\<lambda>(enc_y, _).
      bind_r (par_fill (\<lambda>i. Inr (decrypt cs sk (enc_y ! i))) 0 n (replicate n 0)) (\<lambda>z_vals.
      send_mpz_lanes0 env fds z_vals)))))))))))"

text \<open>The endpoints behind the firewalls have the same bodies; only ports and file names differ.\<close>

definition rf_ole3_receiver where
  "rf_ole3_receiver env digest disc cs mask' rnd x_vals conns = ole3_receiver env digest disc cs mask' rnd x_vals conns"

definition rf_ole3_sender where
  "rf_ole3_sender env digest cs sk rnd_a rnd_b a_vals b_vals rx = ole3_sender env digest cs sk rnd_a rnd_b a_vals b_vals rx"

subsection \<open>The firewalls\<close>

text \<open>What a firewall draws: its scalar, the blinds, the randomness of their encryption, the noise of the three streams.\<close>

record ole3_draws =
  od_rho :: int
  od_a :: "nat \<Rightarrow> int"
  od_b :: "nat \<Rightarrow> int"
  od_enc :: "nat \<Rightarrow> int"
  od_za :: "nat \<Rightarrow> int"
  od_zb :: "nat \<Rightarrow> int"
  od_zy :: "nat \<Rightarrow> int"

text \<open>
  Both firewalls connect towards the receiver and accept from the side of the sender; \<open>r_rx\<close> is what
  the receiver's side sends, the result is what goes to it, what goes to the sender's side, and the blinds.
\<close>

definition ole3_firewall ::
  "env \<Rightarrow> byte list \<Rightarrow> int \<Rightarrow> qfi cl_ops \<Rightarrow> ole3_draws \<Rightarrow> lanes \<Rightarrow> byte list list
   \<Rightarrow> (lanes \<times> lanes \<times> int list \<times> int list) result option" where
  "ole3_firewall env digest disc cs d r_rx s_conns =
     (case bind_r (required_env_size env ''CG_RF_EXPECTED_N'') (\<lambda>n.
           bind_r (rf_transport_lanes env) (\<lambda>k.
           bind_r (connect_rf_lanes env digest k n) (\<lambda>r_tx.
           bind_r (check_replies env digest k n r_rx) (\<lambda>r_rx. Inr (n, k, r_tx, r_rx))))) of
        Inl err \<Rightarrow> Some (Inl err)
      | Inr (n, k, r_tx, r_rx) \<Rightarrow> (case accept_rf_lanes env digest s_conns k n of
          None \<Rightarrow> None
        | Some (Inl err) \<Rightarrow> Some (Inl err)
        | Some (Inr s_fds) \<Rightarrow> Some (
            let a_blinds = sample_plain_blinds_ole3 n (od_a d); b_blinds = sample_plain_blinds_ole3 n (od_b d) in
            bind_r (accepted_tx env digest k n) (\<lambda>s_tx.
            bind_r (firewall_key env disc cs (od_rho d) (map the s_fds) r_tx) (\<lambda>(pk, pk_prime, s_rx, r_tx).
            bind_r (transform_ct_fwd_with_additive_blind_batch env cs (od_rho d) pk pk_prime a_blinds (od_enc d) (od_za d) n s_rx r_tx) (\<lambda>(s_rx, r_tx).
            bind_r (transform_ct_fwd_batch env cs (od_rho d) pk_prime (od_zb d) n s_rx r_tx) (\<lambda>(s_rx, r_tx).
            bind_r (transform_ct_inv_batch env cs (od_rho d) pk (od_zy d) n r_rx s_tx) (\<lambda>(_, s_tx).
            bind_r (recv_mpz_lanes0 env s_rx n) (\<lambda>(z_vals, _).
            bind_r (add_plain_blind_mod_ole3 z_vals b_blinds (cleartext_bound cs)) (\<lambda>z_vals.
            bind_r (send_mpz_lanes0 env r_tx z_vals) (\<lambda>r_tx.
            Inr (r_tx, s_tx, a_blinds, b_blinds))))))))))))"

definition rf_receiver_firewall_ole3 where
  "rf_receiver_firewall_ole3 env digest disc cs d rec_rx rfs_conns = ole3_firewall env digest disc cs d rec_rx rfs_conns"

definition rf_sender_firewall_ole3 where
  "rf_sender_firewall_ole3 env digest disc cs d rfr_rx sender_conns = ole3_firewall env digest disc cs d rfr_rx sender_conns"

subsection \<open>Streams\<close>

abbreviation lane0 :: "byte list \<Rightarrow> nat \<Rightarrow> byte list" where
  "lane0 bs i \<equiv> (if i = 0 then bs else [])"

abbreviation mpz_wire :: "int list \<Rightarrow> byte list" where
  "mpz_wire vs \<equiv> concat (map mpz_bytes vs)"

lemma send_key0:
  assumes "endpoint env S n" "pk \<in> S" "0 < k"
  shows "send_pk_lane0 env pk (on_lanes k t) = Inr (on_lanes k (\<lambda>i. t i @ lane0 (qfi_bytes pk) i))"
proof -
  have "on_lanes k (with_key pk t) = on_lanes k (\<lambda>i. t i @ lane0 (qfi_bytes pk) i)"
    by (rule map_cong[OF refl]) (simp add: with_key_def)
  then show ?thesis
    using send_key[OF assms] by simp
qed

lemma recv_key0:
  assumes "endpoint env S n" "pk \<in> S" "discriminant pk = disc" "0 < k"
  shows "recv_pk_lane0 env disc (on_lanes k (\<lambda>i. lane0 (qfi_bytes pk) i @ p i)) = Inr (pk, on_lanes k p)"
proof -
  have eq: "on_lanes k (\<lambda>i. lane0 (qfi_bytes pk) i @ p i) = on_lanes k (\<lambda>i. with_key pk (\<lambda>_. []) i @ p i)"
    by (rule map_cong[OF refl]) (simp add: with_key_def)
  show ?thesis
    unfolding eq by (rule recv_key[OF assms])
qed

lemma send_values0:
  assumes "\<forall>v \<in> set vs. send_mpz env v = Inr (mpz_bytes v)" "0 < k"
  shows "send_mpz_lanes0 env (on_lanes k t) vs = Inr (on_lanes k (\<lambda>i. t i @ lane0 (mpz_wire vs) i))"
proof -
  have "(on_lanes k t)[0 := t 0 @ mpz_wire vs] = on_lanes k (\<lambda>i. t i @ lane0 (mpz_wire vs) i)"
    by (rule nth_equalityI) (auto simp: nth_list_update)
  moreover have "send_list (send_mpz env) vs = Inr (mpz_wire vs)"
    using assms(1) by (simp add: send_list_def map_r_Inr_all)
  ultimately show ?thesis
    using assms(2) by (simp add: send_mpz_lanes0_def)
qed

lemma recv_values0:
  assumes "\<forall>v \<in> set vs. mpz_ok env v" "length vs = n" "0 < k"
  shows "\<exists>rest. recv_mpz_lanes0 env (on_lanes k (lane0 (mpz_wire vs))) n = Inr (vs, rest)"
proof -
  have "recv_list (recv_mpz env) n (mpz_wire vs) = Inr (vs, [])"
    using assms(1,2) by (simp add: mpz.recv_list_iff list_all_iff)
  then show ?thesis
    using assms(3) by (simp add: recv_mpz_lanes0_def)
qed

lemma field_sendable_all:
  assumes "field_sendable env q" "\<forall>v \<in> set vs. 0 \<le> v \<and> v < q"
  shows "\<forall>v \<in> set vs. send_mpz env v = Inr (mpz_bytes v)" "\<forall>v \<in> set vs. mpz_ok env v"
proof -
  show s: "\<forall>v \<in> set vs. send_mpz env v = Inr (mpz_bytes v)"
    using assms by (simp add: field_sendable_def)
  show "\<forall>v \<in> set vs. mpz_ok env v"
    using s send_mpz_ok by blast
qed

subsection \<open>The three streams of a firewall\<close>

lemma transform_fwd_ok:
  assumes "params_ok cs G D disc" "endpoint env (G \<union> D) n" "0 < k" "k \<le> 64" "carries cs G sk ms cts" "length ms = n"
  shows "\<exists>cts'. carries cs G (sk + r) ms cts' \<and>
    (\<forall>u t. transform_ct_fwd_batch env cs r (keygen_pk cs (sk + r)) rnd n (on_lanes k (\<lambda>i. lane_wire cts k i @ u i)) (on_lanes k t)
      = Inr (on_lanes k u, on_lanes k (then_cts k t cts')))"
proof -
  let ?noise = "\<lambda>i. make_enc_zero cs (keygen_pk cs (sk + r)) (rnd i)"
  define cts' where "cts' = map (\<lambda>i. maul_fwd_rerand cs (cts ! i) r (?noise i)) [0..<n]"
  have len: "length cts = n" "length cts' = n"
    using assms(5,6) by (simp_all add: carries_def cts'_def)
  have c: "carries cs G (sk + r) ms cts'"
    unfolding cts'_def by (rule maul_fwd_carries[OF assms(1,5,6)])
  have "travels env env cts"
    using endpoint_travels[of env "G \<union> D" cts env] assms(2) len carries_over[OF assms(1,5)] by simp
  from maul_stream_ok[OF this assms(2) carries_over[OF assms(1) c] assms(3,4) len, of "\<lambda>ct. maul_fwd_rerand cs ct r" ?noise]
  show ?thesis
    using c by (auto simp: transform_ct_fwd_batch_def cts'_def intro!: exI[of _ cts'])
qed

lemma transform_inv_ok:
  assumes "params_ok cs G D disc" "endpoint env (G \<union> D) n" "0 < k" "k \<le> 64" "carries cs G (sk + r) ms cts" "length ms = n"
  shows "\<exists>cts'. carries cs G sk ms cts' \<and>
    (\<forall>u t. transform_ct_inv_batch env cs r (keygen_pk cs sk) rnd n (on_lanes k (\<lambda>i. lane_wire cts k i @ u i)) (on_lanes k t)
      = Inr (on_lanes k u, on_lanes k (then_cts k t cts')))"
proof -
  let ?noise = "\<lambda>i. make_enc_zero cs (keygen_pk cs sk) (rnd i)"
  define cts' where "cts' = map (\<lambda>i. maul_inv_rerand cs (cts ! i) r (?noise i)) [0..<n]"
  have len: "length cts = n" "length cts' = n"
    using assms(5,6) by (simp_all add: carries_def cts'_def)
  have c: "carries cs G sk ms cts'"
    unfolding cts'_def by (rule maul_inv_carries[OF assms(1,5,6)])
  have "travels env env cts"
    using endpoint_travels[of env "G \<union> D" cts env] assms(2) len carries_over[OF assms(1,5)] by simp
  from maul_stream_ok[OF this assms(2) carries_over[OF assms(1) c] assms(3,4) len, of "\<lambda>ct. maul_inv_rerand cs ct r" ?noise]
  show ?thesis
    using c by (auto simp: transform_ct_inv_batch_def cts'_def intro!: exI[of _ cts'])
qed

definition sums :: "int list \<Rightarrow> int list \<Rightarrow> int list" where
  "sums ms bs = map (\<lambda>i. ms ! i + bs ! i) [0..<length ms]"

lemma length_sums [simp]: "length (sums ms bs) = length ms"
  by (simp add: sums_def)

lemma blinded_carries:
  assumes "params_ok cs G D disc" "carries cs G sk ms cts" "length ms = n"
  shows "carries cs G sk (sums ms bs) (map (\<lambda>i. ct_add cs (cts ! i) (encrypt cs (keygen_pk cs sk) (bs ! i) (rnd i))) [0..<n])"
  using assms cg.add_holds[of cs G D sk] cg.enc_holds[of cs G D sk] by (simp add: carries_def params_ok_def sums_def)

lemma transform_blind_ok:
  assumes "params_ok cs G D disc" "endpoint env (G \<union> D) n" "0 < k" "k \<le> 64" "carries cs G sk ms cts" "length ms = n"
    and "length bs = n" "\<forall>b \<in> set bs. 0 \<le> b \<and> b < cleartext_bound cs"
  shows "\<exists>cts'. carries cs G (sk + r) (sums ms bs) cts' \<and>
    (\<forall>u t. transform_ct_fwd_with_additive_blind_batch env cs r (keygen_pk cs sk) (keygen_pk cs (sk + r)) bs ernd zrnd n
        (on_lanes k (\<lambda>i. lane_wire cts k i @ u i)) (on_lanes k t) = Inr (on_lanes k u, on_lanes k (then_cts k t cts')))"
proof -
  let ?pk = "keygen_pk cs sk" and ?noise = "\<lambda>i. make_enc_zero cs (keygen_pk cs (sk + r)) (zrnd i)"
  define add where "add = map (\<lambda>i. ct_add cs (cts ! i) (encrypt cs ?pk (bs ! i) (ernd i))) [0..<n]"
  define zs where "zs = map ?noise [0..<n]"
  define ys where "ys = map (\<lambda>i. maul_fwd_rerand cs (add ! i) r (?noise i)) [0..<n]"
  have len: "length cts = n" "length add = n" "length zs = n" "length ys = n"
    using assms(5,6) by (simp_all add: carries_def add_def zs_def ys_def)
  have ca: "carries cs G sk (sums ms bs) add"
    unfolding add_def by (rule blinded_carries[OF assms(1,5,6)])
  have c: "carries cs G (sk + r) (sums ms bs) ys"
    unfolding ys_def by (rule maul_fwd_carries[OF assms(1) ca]) (simp add: assms(6))
  have tr: "travels env env cts" "travels env env ys"
    using endpoint_travels[of env "G \<union> D" cts env] endpoint_travels[of env "G \<union> D" ys env] assms(2) len
      carries_over[OF assms(1,5)] carries_over[OF assms(1) c] by simp_all
  obtain ch where ch: "rf_chunk_size env = Inr ch"
    using endpoint_chunk[OF assms(2)] .
  have e: "encrypt_plain_ole3 cs ?pk (bs ! i) (ernd i) = Inr (encrypt cs ?pk (bs ! i) (ernd i))" if "i < n" for i
    using that assms(7,8) by (simp add: encrypt_plain_ole3_def make_cleartext_def)
  let ?body = "\<lambda>b e (in_cts, added, pre, out, rx, tx).
         bind_r (recv_ct_lanes_range env (recv_ct env) rx in_cts n b e) (\<lambda>(in_cts, rx).
         bind_r (par_fill (\<lambda>i. bind_r (encrypt_plain_ole3 cs ?pk (bs ! i) (ernd i)) (\<lambda>enc_blind.
             Inr (add_ct_ole3 cs (in_cts ! i) enc_blind))) b e added) (\<lambda>added.
         bind_r (par_fill (\<lambda>i. Inr (?noise i)) b e pre) (\<lambda>pre.
         bind_r (par_fill (\<lambda>i. Inr (maul_fwd_rerand cs (added ! i) r (pre ! i))) b e out) (\<lambda>out.
         bind_r (send_ct_lanes_range env (send_ct env) tx out n b e) (\<lambda>tx.
         Inr (in_cts, added, pre, out, rx, tx))))))"
  have "transform_ct_fwd_with_additive_blind_batch env cs r ?pk (keygen_pk cs (sk + r)) bs ernd zrnd n
        (on_lanes k (\<lambda>i. lane_wire cts k i @ u i)) (on_lanes k t) = Inr (on_lanes k u, on_lanes k (then_cts k t ys))" for u t
  proof -
    let ?P = "\<lambda>b (v, a, p, w, rx, tx). agrees b v cts \<and> agrees b a add \<and> agrees b p zs \<and> agrees b w ys \<and> unread k cts u b rx \<and> sent k ys t b tx"
    let ?init = "(replicate n null_ct, replicate n null_ct, replicate n null_zero, replicate n null_ct,
        on_lanes k (\<lambda>i. lane_wire cts k i @ u i), on_lanes k t)"
    have step: "\<exists>s'. ?body b e s = Inr s' \<and> ?P e s'" if p: "?P b s" "b < e" "e \<le> n" for b e s
    proof -
      obtain v a p w rx tx where s: "s = (v, a, p, w, rx, tx)" "agrees b v cts" "agrees b a add" "agrees b p zs" "agrees b w ys"
          "unread k cts u b rx" "sent k ys t b tx"
        using p(1) by (cases s) auto
      obtain v' rx' where v': "recv_ct_lanes_range env (recv_ct env) rx v n b e = Inr (v', rx')" "agrees e v' cts" "unread k cts u e rx'"
        using recv_step[OF tr(1) assms(3,4) s(6,2) p(2)] p(3) len by auto
      let ?f = "\<lambda>i. bind_r (encrypt_plain_ole3 cs ?pk (bs ! i) (ernd i)) (\<lambda>enc_blind. Inr (add_ct_ole3 cs (v' ! i) enc_blind))"
      have "?f i = Inr (add ! i)" if "b \<le> i" "i < e" for i
        using that p(3) e agreesD[OF v'(2)] by (simp add: add_def add_ct_ole3_def)
      then obtain a' where a': "par_fill ?f b e a = Inr a'" "agrees e a' add"
        using par_fill_step[OF s(3), of e ?f] p(2,3) len by auto
      obtain p' where p': "par_fill (\<lambda>i. Inr (?noise i)) b e p = Inr p'" "agrees e p' zs"
        using par_fill_step[OF s(4), of e "\<lambda>i. Inr (?noise i)"] p(2,3) len by (auto simp: zs_def)
      let ?g = "\<lambda>i. Inr (maul_fwd_rerand cs (a' ! i) r (p' ! i))"
      have "?g i = Inr (ys ! i)" if "b \<le> i" "i < e" for i
        using that p(3) agreesD[OF a'(2)] agreesD[OF p'(2)] by (simp add: ys_def zs_def)
      then obtain w' where w': "par_fill ?g b e w = Inr w'" "agrees e w' ys"
        using par_fill_step[OF s(5), of e ?g] p(2,3) len by auto
      obtain tx' where "send_ct_lanes_range env (send_ct env) tx w' n b e = Inr tx'" "sent k ys t e tx'"
        using send_step[OF tr(2) assms(3,4) s(7) w'(2) p(2)] p(3) len by auto
      then show ?thesis
        using v' a' p' w' s(1) by auto
    qed
    have "?P 0 ?init"
      using len by (simp add: agrees_0 unread_0 sent_0)
    with step have "\<exists>s'. for_chunks env n ?body ?init = Inr s' \<and> ?P n s'"
      by (intro for_chunks_invariant[OF ch]) auto
    then obtain v' a' p' w' rx' tx' where r: "for_chunks env n ?body ?init = Inr (v', a', p', w', rx', tx')"
        "unread k cts u n rx'" "sent k ys t n tx'"
      by auto
    have "rx' = on_lanes k u" "tx' = on_lanes k (then_cts k t ys)"
      using r(2,3) unread_all[OF travels_bound[OF tr(1)] assms(3,4)] sent_all[OF travels_bound[OF tr(2)] assms(3,4)] len by auto
    then show ?thesis
      using r(1) by (simp add: transform_ct_fwd_with_additive_blind_batch_def)
  qed
  then show ?thesis
    using c by blast
qed

subsection \<open>The programs on each other's streams\<close>

text \<open>What travels from the sender's side to the receiver's on each link, after the connection preamble.\<close>

definition ole3_forward :: "nat \<Rightarrow> (nat \<Rightarrow> byte list) \<Rightarrow> qfi \<Rightarrow> ct list \<Rightarrow> ct list \<Rightarrow> int list \<Rightarrow> lanes" where
  "ole3_forward k t pk ca cb zs = on_lanes k (\<lambda>i. t i @ lane0 (qfi_bytes pk) i @ lane_wire ca k i @ lane_wire cb k i @ lane0 (mpz_wire zs) i)"

text \<open>A party with a valid configuration for \<open>n\<close> items on \<open>k\<close> lanes.\<close>

definition ole3_ready where
  "ole3_ready cs G D disc env digest k n hs \<longleftrightarrow>
     params_ok cs G D disc \<and> endpoint env (G \<union> D) n \<and> field_sendable env (cleartext_bound cs) \<and>
     rf_transport_lanes env = Inr k \<and> length digest = 32 \<and> connect_rf_lanes env digest k n = Inr hs"

lemma ole3_readyD:
  assumes "ole3_ready cs G D disc env digest k n hs"
  shows "params_ok cs G D disc" "endpoint env (G \<union> D) n" "field_sendable env (cleartext_bound cs)" "rf_transport_lanes env = Inr k"
    and "length digest = 32" "connect_rf_lanes env digest k n = Inr hs" "0 < k" "k \<le> 64" "0 < cleartext_bound cs"
  using assms rf_transport_lanes_bounds[of env k] cl_lawsD(11)[of cs G D] by (auto simp: ole3_ready_def params_ok_def)

lemma ole3_firewall_ok:
  assumes r: "ole3_ready cs G D disc env digest k n hs" and g: "greets env digest k n g" and n: "required_env_size env ''CG_RF_EXPECTED_N'' = Inr n"
    and o: "arrival_order k ord" and l: "length a = n" "length b = n"
    and c: "carries cs G sk a ca" "carries cs G sk b cb" and d: "\<forall>i. 0 \<le> od_a d i \<and> od_a d i < cleartext_bound cs"
  shows "\<exists>ca' cb'. carries cs G (sk + od_rho d) (sums a (map (od_a d) [0..<n])) ca' \<and> carries cs G (sk + od_rho d) b cb' \<and>
    (\<forall>y cy. length y = n \<longrightarrow> carries cs G (sk + od_rho d) y cy \<longrightarrow> (\<exists>cy'. carries cs G sk y cy' \<and>
      (\<forall>zs. length zs = n \<longrightarrow> (\<forall>z \<in> set zs. 0 \<le> z \<and> z < cleartext_bound cs) \<longrightarrow>
        ole3_firewall env digest disc cs d (on_lanes k (then_cts k (\<lambda>_. g) cy)) (arrive ord (ole3_forward k (\<lambda>i. hs ! i) (keygen_pk cs sk) ca cb zs))
        = Some (Inr (ole3_forward k (\<lambda>i. hs ! i) (keygen_pk cs (sk + od_rho d)) ca' cb'
              (map (\<lambda>i. (zs ! i + od_b d i) mod cleartext_bound cs) [0..<n]),
            on_lanes k (then_cts k (\<lambda>_. g) cy'), map (od_a d) [0..<n], map (od_b d) [0..<n])))))"
proof -
  note R = ole3_readyD[OF r]
  let ?q = "cleartext_bound cs" and ?pk = "keygen_pk cs sk" and ?pk' = "keygen_pk cs (sk + od_rho d)" and ?h = "\<lambda>i. hs ! i"
  let ?ab = "map (od_a d) [0..<n]"
  have ab: "length ?ab = n" "\<forall>x \<in> set ?ab. 0 \<le> x \<and> x < ?q"
    using d by auto
  obtain ca' where ca: "carries cs G (sk + od_rho d) (sums a ?ab) ca'" "\<forall>u t. transform_ct_fwd_with_additive_blind_batch env cs (od_rho d) ?pk ?pk' ?ab (od_enc d) (od_za d) n
        (on_lanes k (\<lambda>i. lane_wire ca k i @ u i)) (on_lanes k t) = Inr (on_lanes k u, on_lanes k (then_cts k t ca'))"
    using transform_blind_ok[OF R(1,2,7,8) c(1) l(1) ab] by blast
  obtain cb' where cb: "carries cs G (sk + od_rho d) b cb'" "\<forall>u t. transform_ct_fwd_batch env cs (od_rho d) ?pk' (od_zb d) n
        (on_lanes k (\<lambda>i. lane_wire cb k i @ u i)) (on_lanes k t) = Inr (on_lanes k u, on_lanes k (then_cts k t cb'))"
    using transform_fwd_ok[OF R(1,2,7,8) c(2) l(2)] by blast
  have h: "hs = on_lanes k ?h"
    by (rule lanes_nth[OF connect_length[OF R(6)]])
  have key: "firewall_key env disc cs (od_rho d) (on_lanes k (\<lambda>i. lane0 (qfi_bytes ?pk) i @ p i)) hs
      = Inr (?pk, ?pk', on_lanes k p, on_lanes k (\<lambda>i. ?h i @ lane0 (qfi_bytes ?pk') i))" for p
  proof -
    have "maul_pk cs ?pk (od_rho d) = Inr ?pk'"
      using R(1) by (intro cg.shift_key[of cs G D]) (simp add: params_ok_def)
    moreover have "recv_pk_lane0 env disc (on_lanes k (\<lambda>i. lane0 (qfi_bytes ?pk) i @ p i)) = Inr (?pk, on_lanes k p)"
      by (rule recv_key0[OF R(2) _ _ R(7)]) (use keygen_in_G[OF R(1)] in auto)
    moreover have "send_pk_lane0 env ?pk' hs = Inr (on_lanes k (\<lambda>i. ?h i @ lane0 (qfi_bytes ?pk') i))"
      by (subst h) (rule send_key0[OF R(2) _ R(7)], use keygen_in_G[OF R(1)] in auto)
    ultimately show ?thesis
      by (simp only: firewall_key_def bind_r_simps prod.case)
  qed
  note ac = accept_arrived[OF R(6,8,5) o]
  have st: "bind_r (required_env_size env ''CG_RF_EXPECTED_N'') (\<lambda>n. bind_r (rf_transport_lanes env) (\<lambda>k.
           bind_r (connect_rf_lanes env digest k n) (\<lambda>r_tx.
           bind_r (check_replies env digest k n rx) (\<lambda>r_rx. Inr (n, k, r_tx, r_rx))))) = Inr (n, k, hs, rx')"
    if "check_replies env digest k n rx = Inr rx'" for rx rx'
    by (simp only: n R(4,6) that bind_r_simps)
  note gr = greetsD[OF g]
  have "\<exists>cy'. carries cs G sk y cy' \<and>
      (\<forall>zs. length zs = n \<longrightarrow> (\<forall>z \<in> set zs. 0 \<le> z \<and> z < ?q) \<longrightarrow>
        ole3_firewall env digest disc cs d (on_lanes k (then_cts k (\<lambda>_. g) cy)) (arrive ord (ole3_forward k ?h ?pk ca cb zs))
        = Some (Inr (ole3_forward k ?h ?pk' ca' cb' (map (\<lambda>i. (zs ! i + od_b d i) mod ?q) [0..<n]),
            on_lanes k (then_cts k (\<lambda>_. g) cy'), ?ab, map (od_b d) [0..<n])))"
    if y: "length y = n" "carries cs G (sk + od_rho d) y cy" for y cy
  proof -
    obtain cy' where cy: "carries cs G sk y cy'" "\<forall>u t. transform_ct_inv_batch env cs (od_rho d) ?pk (od_zy d) n
        (on_lanes k (\<lambda>i. lane_wire cy k i @ u i)) (on_lanes k t) = Inr (on_lanes k u, on_lanes k (then_cts k t cy'))"
      using transform_inv_ok[OF R(1,2,7,8) y(2,1)] by blast
    have inv: "transform_ct_inv_batch env cs (od_rho d) ?pk (od_zy d) n (on_lanes k (lane_wire cy k)) (on_lanes k (\<lambda>_. g))
        = Inr (on_lanes k (\<lambda>_. []), on_lanes k (then_cts k (\<lambda>_. g) cy'))"
      using cy(2)[rule_format, of "\<lambda>_. []" "\<lambda>_. g"] by simp
    have "ole3_firewall env digest disc cs d (on_lanes k (then_cts k (\<lambda>_. g) cy)) (arrive ord (ole3_forward k ?h ?pk ca cb zs))
        = Some (Inr (ole3_forward k ?h ?pk' ca' cb' (map (\<lambda>i. (zs ! i + od_b d i) mod ?q) [0..<n]),
            on_lanes k (then_cts k (\<lambda>_. g) cy'), ?ab, map (od_b d) [0..<n]))"
      if z: "length zs = n" "\<forall>z \<in> set zs. 0 \<le> z \<and> z < ?q" for zs
    proof -
      let ?zs = "map (\<lambda>i. (zs ! i + od_b d i) mod ?q) [0..<n]"
      obtain rest where rz: "recv_mpz_lanes0 env (on_lanes k (lane0 (mpz_wire zs))) n = Inr (zs, rest)"
        using recv_values0[OF field_sendable_all(2)[OF R(3) z(2)] z(1) R(7)] by blast
      have "\<forall>z \<in> set ?zs. 0 \<le> z \<and> z < ?q"
        using R(9) by auto
      note sz = send_values0[OF field_sendable_all(1)[OF R(3) this] R(7)]
      have az: "add_plain_blind_mod_ole3 zs (map (od_b d) [0..<n]) ?q = Inr ?zs"
        using z(1) by (simp add: add_plain_blind_mod_ole3_def)
      show ?thesis
        unfolding ole3_firewall_def st[OF gr(2)] sum.case prod.case ole3_forward_def ac option.case map_the_Some Let_def
        by (simp only: gr(1) key ca(2) cb(2) inv rz az sz sample_plain_blinds_ole3_def bind_r_simps prod.case append_assoc)
    qed
    then show ?thesis
      using cy(1) by blast
  qed
  then show ?thesis
    using ca(1) cb(1) by blast
qed

text \<open>The receiver: its reply does not depend on the plaintexts that come back.\<close>

lemma ole3_receiver_ok:
  assumes r: "ole3_ready cs G D disc env digest k n hs" and g: "greets env digest k n g" and o: "arrival_order k ord" and l: "length a = n" "length b = n" "length x = n"
    and c: "carries cs G sk a ca" "carries cs G sk b cb" and m: "\<forall>i. 0 \<le> mask' i \<and> mask' i < cleartext_bound cs"
  shows "\<exists>cy. carries cs G sk (map (\<lambda>i. a ! i * x ! i + b ! i + mask' i) [0..<n]) cy \<and>
    (\<forall>zs. length zs = n \<longrightarrow> (\<forall>z \<in> set zs. 0 \<le> z \<and> z < cleartext_bound cs) \<longrightarrow>
      ole3_receiver env digest disc cs mask' rnd x (arrive ord (ole3_forward k (\<lambda>i. hs ! i) (keygen_pk cs sk) ca cb zs))
      = Some (Inr (map (\<lambda>i. (zs ! i - mask' i) mod cleartext_bound cs) [0..<n], on_lanes k (then_cts k (\<lambda>_. g) cy))))"
proof -
  note R = ole3_readyD[OF r]
  let ?q = "cleartext_bound cs" and ?pk = "keygen_pk cs sk"
  define cy where "cy = map (\<lambda>i. ct_add cs (ct_add cs (cmult cs (ca ! i) (x ! i)) (cb ! i)) (encrypt cs ?pk (mask' i) (rnd i))) [0..<n]"
  have len: "length ca = n" "length cb = n" "length cy = n"
    using c l by (simp_all add: carries_def cy_def)
  have "encrypts cs G sk (a ! i * x ! i + b ! i + mask' i) (cy ! i)" if "i < n" for i
    using that c l R(1) cg.add_holds[of cs G D sk] cg.mult_holds[of cs G D sk] cg.enc_holds[of cs G D sk]
    by (simp add: cy_def carries_def params_ok_def)
  then have cy: "carries cs G sk (map (\<lambda>i. a ! i * x ! i + b ! i + mask' i) [0..<n]) cy"
    by (simp add: carries_def len(3))
  have tr: "travels env env ca" "travels env env cb"
    using endpoint_travels[of env "G \<union> D" ca env] endpoint_travels[of env "G \<union> D" cb env] R(2) len
      carries_over[OF R(1) c(1)] carries_over[OF R(1) c(2)] by simp_all
  have n0: "0 < n"
    using endpoint_bound[OF R(2)] by simp
  note ra = recv_whole[OF tr(1) len(1) n0 R(7,8), of "replicate n null_ct"] and rb = recv_whole[OF tr(2) len(2) n0 R(7,8), of "replicate n null_ct"]
  have key: "recv_pk_lane0 env disc (on_lanes k (\<lambda>i. lane0 (qfi_bytes ?pk) i @ p i)) = Inr (?pk, on_lanes k p)" for p
    by (rule recv_key0[OF R(2) _ _ R(7)]) (use keygen_in_G[OF R(1)] in auto)
  have "ole3_reply cs ?pk (mask' i) (rnd i) (x ! i) (ca ! i) (cb ! i) = Inr (cy ! i)" if "i < n" for i
    using that m by (simp add: ole3_reply_def encrypt_value_ok cy_def)
  then have fill: "par_fill (\<lambda>i. ole3_reply cs ?pk (mask' i) (rnd i) (x ! i) (ca ! i) (cb ! i)) 0 n (replicate n null_ct) = Inr cy"
    using len(3) by (intro par_fill_all) auto
  note sy = send_whole[OF R(2) carries_over[OF R(1) cy] len(3) R(7,8), of "\<lambda>_. g"]
  note ac = accept_arrived[OF R(6,8,5) o]
  have "ole3_receiver env digest disc cs mask' rnd x (arrive ord (ole3_forward k (\<lambda>i. hs ! i) ?pk ca cb zs))
      = Some (Inr (map (\<lambda>i. (zs ! i - mask' i) mod ?q) [0..<n], on_lanes k (then_cts k (\<lambda>_. g) cy)))"
    if z: "length zs = n" "\<forall>z \<in> set zs. 0 \<le> z \<and> z < ?q" for zs
  proof -
    obtain rest where rz: "recv_mpz_lanes0 env (on_lanes k (lane0 (mpz_wire zs))) n = Inr (zs, rest)"
      using recv_values0[OF field_sendable_all(2)[OF R(3) z(2)] z(1) R(7)] by blast
    show ?thesis
      unfolding ole3_receiver_def R(4) sum.case ole3_forward_def l(3) ac option.case map_the_Some Let_def
      by (simp only: greetsD(1)[OF g] key ra rb fill sy rz length_replicate bind_r_simps prod.case)
  qed
  then show ?thesis
    using cy by blast
qed

lemma ole3_sender_ok:
  assumes r: "ole3_ready cs G D disc env digest k n hs" and g: "greets env digest k n g" and l: "length a = n" "length b = n"
    and v: "\<forall>m \<in> set a \<union> set b. 0 \<le> m \<and> m < cleartext_bound cs"
  shows "\<exists>ca cb. carries cs G sk a ca \<and> carries cs G sk b cb \<and>
    (\<forall>y cy. length y = n \<longrightarrow> carries cs G sk y cy \<longrightarrow>
      ole3_sender env digest cs sk rnd_a rnd_b a b (on_lanes k (then_cts k (\<lambda>_. g) cy))
      = Inr (ole3_forward k (\<lambda>i. hs ! i) (keygen_pk cs sk) ca cb (map (\<lambda>m. m mod cleartext_bound cs) y)))"
proof -
  note R = ole3_readyD[OF r]
  let ?q = "cleartext_bound cs" and ?pk = "keygen_pk cs sk" and ?h = "\<lambda>i. hs ! i"
  define ca where "ca = map (\<lambda>i. encrypt cs ?pk (a ! i) (rnd_a i)) [0..<n]"
  define cb where "cb = map (\<lambda>i. encrypt cs ?pk (b ! i) (rnd_b i)) [0..<n]"
  have c: "carries cs G sk a ca" "carries cs G sk b cb" and len: "length ca = n" "length cb = n"
    using carries_encryptions[OF R(1), of sk a rnd_a] carries_encryptions[OF R(1), of sk b rnd_b] l by (simp_all add: ca_def cb_def)
  have fill: "par_fill (\<lambda>i. encrypt_value cs ?pk (a ! i) (rnd_a i)) 0 n (replicate n null_ct) = Inr ca"
    "par_fill (\<lambda>i. encrypt_value cs ?pk (b ! i) (rnd_b i)) 0 n (replicate n null_ct) = Inr cb"
    using v l by (auto intro!: par_fill_all simp: ca_def cb_def encrypt_value_ok)
  have h: "hs = on_lanes k ?h"
    by (rule lanes_nth[OF connect_length[OF R(6)]])
  have key: "send_pk_lane0 env ?pk hs = Inr (on_lanes k (\<lambda>i. ?h i @ lane0 (qfi_bytes ?pk) i))"
    by (subst h) (rule send_key0[OF R(2) _ R(7)], use keygen_in_G[OF R(1)] in auto)
  note sa = send_whole[OF R(2) carries_over[OF R(1) c(1)] len(1) R(7,8)] and sb = send_whole[OF R(2) carries_over[OF R(1) c(2)] len(2) R(7,8)]
  have n0: "0 < n"
    using endpoint_bound[OF R(2)] by simp
  have "ole3_sender env digest cs sk rnd_a rnd_b a b (on_lanes k (then_cts k (\<lambda>_. g) cy))
      = Inr (ole3_forward k ?h ?pk ca cb (map (\<lambda>m. m mod ?q) y))"
    if y: "length y = n" "carries cs G sk y cy" for y cy
  proof -
    let ?z = "map (\<lambda>m. m mod ?q) y"
    have l2: "length cy = n"
      using y by (simp add: carries_def)
    have "travels env env cy"
      using endpoint_travels[of env "G \<union> D" cy env] R(2) l2 carries_over[OF R(1) y(2)] by simp
    from recv_whole[OF this l2 n0 R(7,8), of "replicate n null_ct" "\<lambda>_. []"]
    have ry: "recv_ct_lanes env (recv_ct env) (on_lanes k (lane_wire cy k)) (replicate n null_ct) n = Inr (cy, on_lanes k (\<lambda>_. []))"
      by simp
    have "decrypt cs sk (cy ! i) = ?z ! i" if "i < n" for i
      using that y R(1) by (auto simp: carries_def params_ok_def intro!: cg.dec_holds)
    then have dec: "par_fill (\<lambda>i. Inr (decrypt cs sk (cy ! i))) 0 n (replicate n 0) = Inr ?z"
      using y(1) by (intro par_fill_all) auto
    have "\<forall>z \<in> set ?z. 0 \<le> z \<and> z < ?q"
      using R(9) by auto
    note sz = send_values0[OF field_sendable_all(1)[OF R(3) this] R(7)]
    show ?thesis
      unfolding ole3_sender_def Let_def l(1) ole3_forward_def
      by (simp only: R(4,6) greetsD(2)[OF g] key fill sa sb ry dec sz bind_r_simps prod.case append_assoc)
  qed
  then show ?thesis
    using c by blast
qed

lemma unmask_mod:
  fixes q :: int
  shows "((((p + b + m) mod q + t) mod q + v) mod q - m) mod q = (p + (b + t + v)) mod q" "((p + b + m) mod q - m) mod q = (p + b) mod q"
proof -
  have "p + b + m + t + v - m = p + (b + t + v)"
    by simp
  then show "((((p + b + m) mod q + t) mod q + v) mod q - m) mod q = (p + (b + t + v)) mod q"
    by (simp only: mod_add_left_eq mod_diff_left_eq)
  have "p + b + m - m = p + b"
    by simp
  then show "((p + b + m) mod q - m) mod q = (p + b) mod q"
    by (simp only: mod_diff_left_eq)
qed

text \<open>Without firewalls.\<close>

lemma direct_ole3_run:
  assumes r: "ole3_ready cs G D disc env digest k n hs" and o: "arrival_order k ord"
    and l: "length a = n" "length b = n" "length x = n"
    and v: "\<forall>m \<in> set a \<union> set b. 0 \<le> m \<and> m < cleartext_bound cs" "\<forall>i. 0 \<le> mask' i \<and> mask' i < cleartext_bound cs"
  shows "\<exists>t u. ole3_sender env digest cs sk rnd_a rnd_b a b u = Inr t \<and>
    ole3_receiver env digest disc cs mask' rnd x (arrive ord t) = Some (Inr (affine_values (cleartext_bound cs) a b x, u))"
proof -
  obtain g where g: "greets env digest k n g"
    using lane_greeting[OF ole3_readyD(6-8,5)[OF r]] .
  let ?q = "cleartext_bound cs" and ?y = "map (\<lambda>i. a ! i * x ! i + b ! i + mask' i) [0..<n]"
  obtain ca cb where c: "carries cs G sk a ca" "carries cs G sk b cb"
    "\<forall>y cy. length y = n \<longrightarrow> carries cs G sk y cy \<longrightarrow> ole3_sender env digest cs sk rnd_a rnd_b a b (on_lanes k (then_cts k (\<lambda>_. g) cy))
      = Inr (ole3_forward k (\<lambda>i. hs ! i) (keygen_pk cs sk) ca cb (map (\<lambda>m. m mod ?q) y))"
    using ole3_sender_ok[OF r g l(1,2) v(1)] by blast
  obtain cy where y: "carries cs G sk ?y cy"
    "\<forall>zs. length zs = n \<longrightarrow> (\<forall>z \<in> set zs. 0 \<le> z \<and> z < ?q) \<longrightarrow>
      ole3_receiver env digest disc cs mask' rnd x (arrive ord (ole3_forward k (\<lambda>i. hs ! i) (keygen_pk cs sk) ca cb zs))
      = Some (Inr (map (\<lambda>i. (zs ! i - mask' i) mod ?q) [0..<n], on_lanes k (then_cts k (\<lambda>_. g) cy)))"
    using ole3_receiver_ok[OF r g o l c(1,2) v(2)] by blast
  let ?zs = "map (\<lambda>m. m mod ?q) ?y"
  have z: "length ?zs = n" "\<forall>z \<in> set ?zs. 0 \<le> z \<and> z < ?q"
    using ole3_readyD(9)[OF r] by auto
  have "map (\<lambda>i. (?zs ! i - mask' i) mod ?q) [0..<n] = affine_values ?q a b x"
    using l(3) by (auto simp: affine_values_def unmask_mod(2) intro!: nth_equalityI)
  then show ?thesis
    using c(3)[rule_format, OF _ y(1)] y(2)[THEN spec, THEN mp, OF z(1), THEN mp, OF z(2)] by auto
qed

text \<open>Through both firewalls: \<open>f\<close> are the draws of the sender's, \<open>g\<close> of the receiver's.\<close>

definition sanitized :: "int \<Rightarrow> nat \<Rightarrow> ole3_draws \<Rightarrow> ole3_draws \<Rightarrow> int list \<Rightarrow> int list \<Rightarrow> int list \<Rightarrow> int list" where
  "sanitized q n f g a b x = map (\<lambda>i. ((a ! i + od_a f i + od_a g i) * x ! i + (b ! i + od_b f i + od_b g i)) mod q) [0..<n]"

lemma rf_ole3_run:
  assumes r: "ole3_ready cs G D disc env digest k n hs" and n: "required_env_size env ''CG_RF_EXPECTED_N'' = Inr n"
    and o: "arrival_order k ord1" "arrival_order k ord2" "arrival_order k ord3"
    and l: "length a = n" "length b = n" "length x = n"
    and v: "\<forall>m \<in> set a \<union> set b. 0 \<le> m \<and> m < cleartext_bound cs" "\<forall>i. 0 \<le> mask' i \<and> mask' i < cleartext_bound cs"
    and d: "\<forall>i. 0 \<le> od_a f i \<and> od_a f i < cleartext_bound cs" "\<forall>i. 0 \<le> od_a g i \<and> od_a g i < cleartext_bound cs"
  shows "\<exists>sen_srf srf_rrf rrf_rec rec_rrf rrf_srf srf_sen.
    rf_ole3_sender env digest cs sk rnd_a rnd_b a b srf_sen = Inr sen_srf \<and>
    rf_sender_firewall_ole3 env digest disc cs f rrf_srf (arrive ord3 sen_srf)
      = Some (Inr (srf_rrf, srf_sen, map (od_a f) [0..<n], map (od_b f) [0..<n])) \<and>
    rf_receiver_firewall_ole3 env digest disc cs g rec_rrf (arrive ord2 srf_rrf)
      = Some (Inr (rrf_rec, rrf_srf, map (od_a g) [0..<n], map (od_b g) [0..<n])) \<and>
    rf_ole3_receiver env digest disc cs mask' rnd x (arrive ord1 rrf_rec)
      = Some (Inr (sanitized (cleartext_bound cs) n f g a b x, rec_rrf))"
proof -
  obtain gb where gb: "greets env digest k n gb"
    using lane_greeting[OF ole3_readyD(6-8,5)[OF r]] .
  let ?q = "cleartext_bound cs" and ?pk = "\<lambda>s. keygen_pk cs s" and ?s1 = "sk + od_rho f" and ?s2 = "sk + od_rho f + od_rho g"
  let ?fwd = "ole3_forward k (\<lambda>i. hs ! i)" and ?rback = "\<lambda>c. on_lanes k (then_cts k (\<lambda>_. gb) c)" and ?A = "\<lambda>d. map (od_a d) [0..<n]" and ?B = "\<lambda>d. map (od_b d) [0..<n]"
  let ?shift = "\<lambda>d zs. map (\<lambda>i. (zs ! i + od_b d i) mod ?q) [0..<n]"
  have rng: "\<forall>z \<in> set (?shift d zs). 0 \<le> z \<and> z < ?q" for d zs
    using ole3_readyD(9)[OF r] by auto
  obtain ca cb where c0: "carries cs G sk a ca" "carries cs G sk b cb"
    "\<forall>y cy. length y = n \<longrightarrow> carries cs G sk y cy \<longrightarrow> ole3_sender env digest cs sk rnd_a rnd_b a b (?rback cy) = Inr (?fwd (?pk sk) ca cb (map (\<lambda>m. m mod ?q) y))"
    using ole3_sender_ok[OF r gb l(1,2) v(1)] by blast
  obtain ca1 cb1 where c1: "carries cs G ?s1 (sums a (?A f)) ca1" "carries cs G ?s1 b cb1"
    "\<forall>y cy. length y = n \<longrightarrow> carries cs G ?s1 y cy \<longrightarrow> (\<exists>cy'. carries cs G sk y cy' \<and> (\<forall>zs. length zs = n \<longrightarrow> (\<forall>z \<in> set zs. 0 \<le> z \<and> z < ?q) \<longrightarrow>
        ole3_firewall env digest disc cs f (?rback cy) (arrive ord3 (?fwd (?pk sk) ca cb zs)) = Some (Inr (?fwd (?pk ?s1) ca1 cb1 (?shift f zs), ?rback cy', ?A f, ?B f))))"
    using ole3_firewall_ok[OF r gb n o(3) l(1,2) c0(1,2) d(1)] by blast
  have l1: "length (sums a (?A f)) = n" "length (sums (sums a (?A f)) (?A g)) = n"
    using l(1) by simp_all
  obtain ca2 cb2 where c2: "carries cs G ?s2 (sums (sums a (?A f)) (?A g)) ca2" "carries cs G ?s2 b cb2"
    "\<forall>y cy. length y = n \<longrightarrow> carries cs G ?s2 y cy \<longrightarrow> (\<exists>cy'. carries cs G ?s1 y cy' \<and> (\<forall>zs. length zs = n \<longrightarrow> (\<forall>z \<in> set zs. 0 \<le> z \<and> z < ?q) \<longrightarrow>
        ole3_firewall env digest disc cs g (?rback cy) (arrive ord2 (?fwd (?pk ?s1) ca1 cb1 zs)) = Some (Inr (?fwd (?pk ?s2) ca2 cb2 (?shift g zs), ?rback cy', ?A g, ?B g))))"
    using ole3_firewall_ok[OF r gb n o(2) l1(1) l(2) c1(1,2) d(2)] by blast
  define y where "y = map (\<lambda>i. sums (sums a (?A f)) (?A g) ! i * x ! i + b ! i + mask' i) [0..<n]"
  obtain cy where cy: "carries cs G ?s2 y cy"
    "\<forall>zs. length zs = n \<longrightarrow> (\<forall>z \<in> set zs. 0 \<le> z \<and> z < ?q) \<longrightarrow>
      ole3_receiver env digest disc cs mask' rnd x (arrive ord1 (?fwd (?pk ?s2) ca2 cb2 zs)) = Some (Inr (map (\<lambda>i. (zs ! i - mask' i) mod ?q) [0..<n], ?rback cy))"
    using ole3_receiver_ok[OF r gb o(1) l1(2) l(2,3) c2(1,2) v(2)] unfolding y_def by blast
  have ly: "length y = n"
    by (simp add: y_def)
  obtain cy1 where cy1: "carries cs G ?s1 y cy1" "\<forall>zs. length zs = n \<longrightarrow> (\<forall>z \<in> set zs. 0 \<le> z \<and> z < ?q) \<longrightarrow>
        ole3_firewall env digest disc cs g (?rback cy) (arrive ord2 (?fwd (?pk ?s1) ca1 cb1 zs)) = Some (Inr (?fwd (?pk ?s2) ca2 cb2 (?shift g zs), ?rback cy1, ?A g, ?B g))"
    using c2(3)[rule_format, OF ly cy(1)] by blast
  obtain cy2 where cy2: "carries cs G sk y cy2" "\<forall>zs. length zs = n \<longrightarrow> (\<forall>z \<in> set zs. 0 \<le> z \<and> z < ?q) \<longrightarrow>
        ole3_firewall env digest disc cs f (?rback cy1) (arrive ord3 (?fwd (?pk sk) ca cb zs)) = Some (Inr (?fwd (?pk ?s1) ca1 cb1 (?shift f zs), ?rback cy2, ?A f, ?B f))"
    using c1(3)[rule_format, OF ly cy1(1)] by blast
  let ?z0 = "map (\<lambda>m. m mod ?q) y"
  have z0: "length ?z0 = n" "\<forall>z \<in> set ?z0. 0 \<le> z \<and> z < ?q" and z1: "length (?shift d zs) = n" for d zs
    using ole3_readyD(9)[OF r] ly by auto
  have out: "map (\<lambda>i. (?shift g (?shift f ?z0) ! i - mask' i) mod ?q) [0..<n] = sanitized ?q n f g a b x"
    using l(1) ly by (auto simp: sanitized_def y_def sums_def unmask_mod(1) intro!: nth_equalityI)
  have "rf_ole3_receiver env digest disc cs mask' rnd x (arrive ord1 (?fwd (?pk ?s2) ca2 cb2 (?shift g (?shift f ?z0))))
      = Some (Inr (sanitized ?q n f g a b x, ?rback cy))"
    unfolding rf_ole3_receiver_def out[symmetric] by (rule cy(2)[THEN spec, THEN mp, OF z1, THEN mp, OF rng])
  moreover have "rf_receiver_firewall_ole3 env digest disc cs g (?rback cy) (arrive ord2 (?fwd (?pk ?s1) ca1 cb1 (?shift f ?z0)))
      = Some (Inr (?fwd (?pk ?s2) ca2 cb2 (?shift g (?shift f ?z0)), ?rback cy1, ?A g, ?B g))"
    unfolding rf_receiver_firewall_ole3_def by (rule cy1(2)[THEN spec, THEN mp, OF z1, THEN mp, OF rng])
  moreover have "rf_sender_firewall_ole3 env digest disc cs f (?rback cy1) (arrive ord3 (?fwd (?pk sk) ca cb ?z0))
      = Some (Inr (?fwd (?pk ?s1) ca1 cb1 (?shift f ?z0), ?rback cy2, ?A f, ?B f))"
    unfolding rf_sender_firewall_ole3_def by (rule cy2(2)[THEN spec, THEN mp, OF z0(1), THEN mp, OF z0(2)])
  moreover have "rf_ole3_sender env digest cs sk rnd_a rnd_b a b (?rback cy2) = Inr (?fwd (?pk sk) ca cb ?z0)"
    using c0(3)[rule_format, OF ly cy2(1)] by (simp add: rf_ole3_sender_def)
  ultimately show ?thesis
    by blast
qed

lemma rf_ready_ole3:
  assumes "rf_ready cs G D disc env digest k ord1 ord2 ord3 n" "field_sendable env (cleartext_bound cs)"
  obtains hs where "ole3_ready cs G D disc env digest k n hs" "required_env_size env ''CG_RF_EXPECTED_N'' = Inr n"
    "arrival_order k ord1" "arrival_order k ord2" "arrival_order k ord3" "cg_validate_count env n False = Inr ()"
  using assms by (auto simp: rf_ready_def channel_ready_def ole3_ready_def endpoint_def)

text \<open>The dumps of the four programs, written one after the other, and the checker on them.\<close>

definition ole3_dumps_check ::
  "gmp_io \<Rightarrow> env \<Rightarrow> filesys \<Rightarrow> int \<Rightarrow> int list \<Rightarrow> int list \<Rightarrow> int list \<Rightarrow> int list \<Rightarrow> int list \<Rightarrow> int list \<Rightarrow> int list \<Rightarrow> int list \<Rightarrow> nat result" where
  "ole3_dumps_check io env fs q a b x y s t r v =
     bind_r (write_ole_sender_inputs io env ''rf_ole3_sender_inputs.txt'' a b fs) (\<lambda>fs.
     bind_r (write_ole_receiver_io io env ''rf_ole3_receiver_io.txt'' q x y fs) (\<lambda>fs.
     bind_r (write_ole_blinds io env ''rf_ole3_sender_firewall_blinds.txt'' s t fs) (\<lambda>fs.
     bind_r (write_ole_blinds io env ''rf_ole3_receiver_firewall_blinds.txt'' r v fs) (\<lambda>fs.
     check_batch_ole io env fs [''cg_check_batch_ole'', dump_path env ''rf_ole3_sender_inputs.txt'', dump_path env ''rf_ole3_receiver_io.txt'',
       dump_path env ''rf_ole3_sender_firewall_blinds.txt'', dump_path env ''rf_ole3_receiver_firewall_blinds.txt'']))))"

lemma ole3_dumps_checked:
  assumes "gmp_documented io" "cg_validate_count env n False = Inr ()" "1 < q" "open_disk fs"
    and l: "length a = n" "length b = n" "length x = n"
  shows "ole3_dumps_check io env fs q a b x (sanitized q n f g a b x) (map (od_a f) [0..<n]) (map (od_b f) [0..<n])
    (map (od_a g) [0..<n]) (map (od_b g) [0..<n]) = Inr 0"
proof -
  let ?A = "\<lambda>d. map (od_a d) [0..<n]" and ?B = "\<lambda>d. map (od_b d) [0..<n]" and ?y = "sanitized q n f g a b x"
  have ly: "length x = length ?y" "length a = length b" "length (?A d) = length (?B d)" for d
    using l by (simp_all add: sanitized_def)
  obtain fs1 where 1: "write_ole_sender_inputs io env ''rf_ole3_sender_inputs.txt'' a b fs = Inr fs1" "open_disk fs1"
    using dumps_open(1)[OF assms(4) ly(2)] by blast
  obtain fs2 where 2: "write_ole_receiver_io io env ''rf_ole3_receiver_io.txt'' q x ?y fs1 = Inr fs2" "open_disk fs2"
    using dumps_open(2)[OF 1(2) ly(1)] by blast
  obtain fs3 where 3: "write_ole_blinds io env ''rf_ole3_sender_firewall_blinds.txt'' (?A f) (?B f) fs2 = Inr fs3" "open_disk fs3"
    using dumps_open(3)[OF 2(2) ly(3)] by blast
  obtain fs4 where 4: "write_ole_blinds io env ''rf_ole3_receiver_firewall_blinds.txt'' (?A g) (?B g) fs3 = Inr fs4"
    using dumps_open(3)[OF 3(2) ly(3)] by blast
  have "check_batch_ole io env fs4 [''cg_check_batch_ole'', dump_path env ''rf_ole3_sender_inputs.txt'', dump_path env ''rf_ole3_receiver_io.txt'',
       dump_path env ''rf_ole3_sender_firewall_blinds.txt'', dump_path env ''rf_ole3_receiver_firewall_blinds.txt'']
    = Inr (if \<forall>i < n. ?y ! i = ((a ! i + ?A f ! i + ?A g ! i) * x ! i + (b ! i + ?B f ! i + ?B g ! i)) mod q then 0 else 1)"
    by (rule ole_dumps_checked[OF assms(1-3) l(1,3) _ _ 1(1) 2(1) 3(1) 4]) simp_all
  also have "\<dots> = Inr 0"
    by (simp add: sanitized_def)
  finally show ?thesis
    by (simp only: ole3_dumps_check_def 1(1) 2(1) 3(1) 4 bind_r_simps)
qed

subsection \<open>Properties\<close>

text \<open>
  C8: Three-round OLE through both firewalls, to the verdict of its checker. For field inputs and
  blinds drawn from the field, the four programs run to the end on each other's streams, whatever
  keys, masks, noise and arrival orders; the receiver holds the values of the sanitized pairs,
  \<open>(a + a' + a'') x + (b + b' + b'')\<close> for the blinds of the two firewalls, and the checker that reads
  the four dumps afterwards exits with 0.
\<close>

theorem rf_ole3_correct:
  assumes "rf_ready cs G D disc env digest k ord1 ord2 ord3 n" "field_sendable env (cleartext_bound cs)"
    and "length a = n" "length b = n" "length x = n" "\<forall>m \<in> set a \<union> set b. 0 \<le> m \<and> m < cleartext_bound cs"
    and "\<forall>i. 0 \<le> mask' i \<and> mask' i < cleartext_bound cs"
    and "\<forall>i. 0 \<le> od_a f i \<and> od_a f i < cleartext_bound cs" "\<forall>i. 0 \<le> od_a g i \<and> od_a g i < cleartext_bound cs"
    and "gmp_documented io" "open_disk fs"
  shows "\<exists>sen_srf srf_rrf rrf_rec rec_rrf rrf_srf srf_sen y s t r v.
    rf_ole3_sender env digest cs sk rnd_a rnd_b a b srf_sen = Inr sen_srf \<and>
    rf_sender_firewall_ole3 env digest disc cs f rrf_srf (arrive ord3 sen_srf) = Some (Inr (srf_rrf, srf_sen, s, t)) \<and>
    rf_receiver_firewall_ole3 env digest disc cs g rec_rrf (arrive ord2 srf_rrf) = Some (Inr (rrf_rec, rrf_srf, r, v)) \<and>
    rf_ole3_receiver env digest disc cs mask' rnd x (arrive ord1 rrf_rec) = Some (Inr (y, rec_rrf)) \<and>
    y = map (\<lambda>i. ((a ! i + od_a f i + od_a g i) * x ! i + (b ! i + od_b f i + od_b g i)) mod cleartext_bound cs) [0..<n] \<and>
    ole3_dumps_check io env fs (cleartext_bound cs) a b x y s t r v = Inr 0"
proof -
  obtain hs where h: "ole3_ready cs G D disc env digest k n hs" "required_env_size env ''CG_RF_EXPECTED_N'' = Inr n"
    "arrival_order k ord1" "arrival_order k ord2" "arrival_order k ord3" "cg_validate_count env n False = Inr ()"
    using rf_ready_ole3[OF assms(1,2)] by blast
  have q: "1 < cleartext_bound cs"
    using ole3_readyD(1)[OF h(1)] cl_lawsD(11)[of cs G D] by (simp add: params_ok_def)
  note check = ole3_dumps_checked[OF assms(10) h(6) q assms(11,3,4,5), of f g]
  show ?thesis
    using rf_ole3_run[OF h(1-5) assms(3-9), where sk = sk and rnd_a = rnd_a and rnd_b = rnd_b and rnd = rnd] check
    unfolding sanitized_def by fast
qed

definition demo_draws :: "int \<Rightarrow> ole3_draws" where
  "demo_draws v = \<lparr> od_rho = v, od_a = (\<lambda>_. v), od_b = int, od_enc = int, od_za = int, od_zb = int, od_zy = int \<rparr>"

lemma session_sendable: "field_sendable session_env (cleartext_bound cl23)"
proof -
  have "mpz_limit session_env = Inr 16384"
    by (simp add: mpz_limit_def cg_config_size_def env_value_def session_env_def)
  then show ?thesis
    using mpz_sendable[of session_env 16384 _ 1] by (auto simp: field_sendable_def cl23_def)
qed

theorem rf_ole3_correct_witness:
  "\<exists>sen_srf srf_rrf rrf_rec rec_rrf rrf_srf srf_sen y s t r v.
    rf_ole3_sender session_env (replicate 32 0) cl23 1 int int [1, 2, 2] [2, 0, 1] srf_sen = Inr sen_srf \<and>
    rf_sender_firewall_ole3 session_env (replicate 32 0) (- 23) cl23 (demo_draws 2) rrf_srf (arrive [1, 0] sen_srf) = Some (Inr (srf_rrf, srf_sen, s, t)) \<and>
    rf_receiver_firewall_ole3 session_env (replicate 32 0) (- 23) cl23 (demo_draws 1) rec_rrf (arrive [0, 1] srf_rrf) = Some (Inr (rrf_rec, rrf_srf, r, v)) \<and>
    rf_ole3_receiver session_env (replicate 32 0) (- 23) cl23 (\<lambda>_. 2) int [0, 1, 2] (arrive [1, 0] rrf_rec) = Some (Inr (y, rec_rrf)) \<and>
    y = map (\<lambda>i. (([1, 2, 2] ! i + od_a (demo_draws 2) i + od_a (demo_draws 1) i) * [0, 1, 2] ! i
      + ([2, 0, 1] ! i + od_b (demo_draws 2) i + od_b (demo_draws 1) i)) mod cleartext_bound cl23) [0..<3] \<and>
    ole3_dumps_check decimal_io session_env empty_disk (cleartext_bound cl23) [1, 2, 2] [2, 0, 1] [0, 1, 2] y s t r v = Inr 0"
  by (rule rf_ole3_correct[OF session_ready session_sendable]) (simp_all add: cl23_def demo_draws_def decimal_io_documented)

text \<open>The same without firewalls.\<close>

lemma direct_ole3_correct:
  assumes "direct_ready cs G D disc env digest k ord n" "field_sendable env (cleartext_bound cs)"
    and "length a = n" "length b = n" "length x = n" "\<forall>m \<in> set a \<union> set b. 0 \<le> m \<and> m < cleartext_bound cs"
    and "\<forall>i. 0 \<le> mask' i \<and> mask' i < cleartext_bound cs"
  shows "\<exists>t u. ole3_sender env digest cs sk rnd_a rnd_b a b u = Inr t \<and>
    ole3_receiver env digest disc cs mask' rnd x (arrive ord t) = Some (Inr (affine_values (cleartext_bound cs) a b x, u))"
proof -
  obtain hs where h: "ole3_ready cs G D disc env digest k n hs" "arrival_order k ord"
    using assms(1,2) by (auto simp: direct_ready_def channel_ready_def ole3_ready_def)
  show ?thesis
    by (rule direct_ole3_run[OF h assms(3-7)])
qed

end
