(* ===== verification/CG_Programs.thy ===== *)
theory CG_Programs
  imports CG_OLE3 CG_PSI2
begin

text \<open>
  The programs of OLE, OPE, OPA and three-round OLE from their command line to their exit: arguments,
  input files or drawn inputs, the protocol, the timing file and the dump for the checker. A program
  is a function of its host, its random draws, its arguments, the file system and what the network
  delivers; the result is the exit code, the file system afterwards and the bytes sent.
\<close>

subsection \<open>Hosts and runs\<close>

text \<open>
  What a program finds on the machine it runs on: environment and optional polynomial library, the
  number texts and the seeded generator of the big-number library, the lane digest, the class group,
  and the time that it will measure, as printed.
\<close>

record host =
  h_cfg :: poly_cfg
  h_io :: gmp_io
  h_gen :: randgen
  h_digest :: "byte list"
  h_disc :: int
  h_cs :: "qfi cl_ops"
  h_ms :: string

abbreviation h_env :: "host \<Rightarrow> env" where
  "h_env H \<equiv> pc_env (h_cfg H)"

abbreviation h_q :: "host \<Rightarrow> int" where
  "h_q H \<equiv> cleartext_bound (h_cs H)"

text \<open>An argument vector is rejected with an exit code or gives the inputs of the protocol.\<close>

datatype 'i args = Exit nat | Go 'i

type_synonym 't run = "(nat \<times> filesys \<times> 't option) result option"

definition bind_args :: "'a args result \<Rightarrow> ('a \<Rightarrow> 'b args result) \<Rightarrow> 'b args result" where
  "bind_args m f = bind_r m (\<lambda>x. case x of Exit c \<Rightarrow> Inr (Exit c) | Go a \<Rightarrow> f a)"

definition run_program ::
  "'i args result \<Rightarrow> ('i \<Rightarrow> ('o \<times> 't) result option) \<Rightarrow> ('i \<Rightarrow> 'o \<Rightarrow> filesys \<Rightarrow> filesys result) \<Rightarrow> filesys \<Rightarrow> 't run" where
  "run_program input protocol dump fs =
     (case input of
        Inl e \<Rightarrow> Some (Inl e)
      | Inr (Exit c) \<Rightarrow> Some (Inr (c, fs, None))
      | Inr (Go i) \<Rightarrow> map_option (\<lambda>res. bind_r res (\<lambda>(out, tx). bind_r (dump i out fs) (\<lambda>fs. Inr (0, fs, Some tx)))) (protocol i))"

text \<open>A sender has no output of its own and does not wait for a connection.\<close>

definition sending :: "'u result \<Rightarrow> (unit \<times> 'u) result option" where
  "sending res = Some (bind_r res (\<lambda>tx. Inr ((), tx)))"

text \<open>The timing file comes before the dump.\<close>

definition timed :: "host \<Rightarrow> string \<Rightarrow> (filesys \<Rightarrow> filesys result) \<Rightarrow> filesys \<Rightarrow> filesys result" where
  "timed H component dump fs = bind_r (write_protocol_timing_file_from_env (h_env H) component (h_ms H) fs) dump"

subsection \<open>Arguments\<close>

definition env_or_default :: "env \<Rightarrow> string \<Rightarrow> string \<Rightarrow> string" where
  "env_or_default env name fallback = (case env_value env name of Some v \<Rightarrow> v | None \<Rightarrow> fallback)"

definition ope_port_rec :: "env \<Rightarrow> string" where
  "ope_port_rec env = env_or_default env ''CG_OPE_PORT_REC'' ''9103''"

definition rf_port_rec :: "env \<Rightarrow> string" where
  "rf_port_rec env = env_or_default env ''CG_PORT_REC'' ''9003''"

definition rf_port_rfs :: "env \<Rightarrow> string" where
  "rf_port_rfs env = env_or_default env ''CG_PORT_RFS'' ''9001''"

definition arg_or :: "string list \<Rightarrow> nat \<Rightarrow> string \<Rightarrow> string" where
  "arg_or argv i fallback = (if i < length argv then argv ! i else fallback)"

definition size_arg :: "env \<Rightarrow> string list \<Rightarrow> nat \<Rightarrow> string \<Rightarrow> nat result" where
  "size_arg env argv i name = (if i < length argv then cg_parse_size env (Some (argv ! i)) name False 0 else Inr 1000)"

text \<open>The option loop: \<open>name\<close> takes the next argument, any other argument is the port.\<close>

fun file_option :: "string \<Rightarrow> string list \<Rightarrow> string option \<times> string \<Rightarrow> string option \<times> string" where
  "file_option name [] st = st"
| "file_option name [arg] (path, port) = (path, arg)"
| "file_option name (arg # v # rest) (path, port) =
     (if arg = name then file_option name rest (Some v, port) else file_option name (v # rest) (path, arg))"

text \<open>Values drawn one after the other from the generator of the program.\<close>

definition draws :: "(nat \<Rightarrow> int \<Rightarrow> int) \<Rightarrow> int \<Rightarrow> nat \<Rightarrow> int list" where
  "draws rng bound n = map (\<lambda>k. rng k bound) [0..<n]"

subsection \<open>Polynomial evaluation\<close>

definition alpha_input :: "host \<Rightarrow> filesys \<Rightarrow> string option \<Rightarrow> string \<Rightarrow> (nat \<Rightarrow> int \<Rightarrow> int) \<Rightarrow> int result" where
  "alpha_input H fs path role rng =
     (case path of
        Some p \<Rightarrow> bind_r (read_mpz_list_file_mod_q (h_io H) (h_env H) fs p (h_q H) role) (\<lambda>xs. Inr (hd xs))
      | None \<Rightarrow> bind_r (benchmark_input_bound (h_env H) (h_q H)) (\<lambda>bound. Inr (rng 0 bound)))"

definition random_poly_coeffs :: "env \<Rightarrow> nat \<Rightarrow> int \<Rightarrow> (nat \<Rightarrow> int \<Rightarrow> int) \<Rightarrow> int list result" where
  "random_poly_coeffs env degree q rng =
     bind_r (benchmark_input_bound env q) (\<lambda>bound. Inr (draws rng bound (sz_add degree 1)))"

definition coeff_input :: "host \<Rightarrow> filesys \<Rightarrow> string option \<Rightarrow> nat \<Rightarrow> string \<Rightarrow> (nat \<Rightarrow> int \<Rightarrow> int) \<Rightarrow> int list result" where
  "coeff_input H fs path degree role rng =
     (case path of
        Some p \<Rightarrow> read_mpz_coeff_file (h_io H) (h_env H) fs p (h_q H) role
      | None \<Rightarrow> random_poly_coeffs (h_env H) degree (h_q H) rng)"

definition ope_receiver_args :: "host \<Rightarrow> string \<Rightarrow> (nat \<Rightarrow> int \<Rightarrow> int) \<Rightarrow> string list \<Rightarrow> filesys \<Rightarrow> (nat \<times> int \<times> string) args result" where
  "ope_receiver_args H role rng argv fs =
     bind_r (size_arg (h_env H) argv 1 ''count'') (\<lambda>degree.
     let (alpha_file, port) = file_option ''--alpha-file'' (drop 2 argv) (None, ope_port_rec (h_env H)) in
     bind_r (throw_if (degree = 0) (Runtime_error ''degree must be at least 1'')) (\<lambda>_.
     bind_r (alpha_input H fs alpha_file role rng) (\<lambda>alpha. Inr (Go (degree, alpha, port)))))"

definition ope_sender_args :: "host \<Rightarrow> string \<Rightarrow> (nat \<Rightarrow> int \<Rightarrow> int) \<Rightarrow> string list \<Rightarrow> filesys \<Rightarrow> (nat \<times> int list \<times> string) args result" where
  "ope_sender_args H role rng argv fs =
     bind_r (size_arg (h_env H) argv 2 ''count'') (\<lambda>degree.
     let (input_file, port) = file_option ''--input-file'' (drop 3 argv) (None, ope_port_rec (h_env H)) in
     bind_r (throw_if (degree = 0) (Runtime_error ''degree must be at least 1'')) (\<lambda>_.
     bind_r (coeff_input H fs input_file degree role rng) (\<lambda>coeffs.
     bind_r (throw_if (input_file \<noteq> None \<and> length coeffs \<noteq> sz_add degree 1) (Runtime_error (role @ '': expected degree+1=''))) (\<lambda>_.
     Inr (Go (degree, coeffs, port))))))"

definition cg_ope_receiver :: "host \<Rightarrow> int \<Rightarrow> (nat \<Rightarrow> int) \<Rightarrow> (nat \<Rightarrow> int \<Rightarrow> int) \<Rightarrow> string list \<Rightarrow> filesys \<Rightarrow> (string \<Rightarrow> byte list list) \<Rightarrow> lanes run" where
  "cg_ope_receiver H sk rx rng argv fs listen =
     run_program (ope_receiver_args H ''ope_receiver'' rng argv fs)
       (\<lambda>(degree, alpha, port). ope_receiver (h_env H) (h_digest H) (h_cs H) sk rx degree alpha (listen port))
       (\<lambda>(degree, alpha, port) out. timed H ''ope_receiver''
          (write_ope_receiver_output (h_io H) (h_env H) ''direct_ope_receiver_output.txt'' (h_q H) alpha out)) fs"

definition cg_ope_sender :: "host \<Rightarrow> (nat \<Rightarrow> int) \<Rightarrow> (nat \<Rightarrow> int) \<Rightarrow> (nat \<Rightarrow> int \<Rightarrow> int) \<Rightarrow> string list \<Rightarrow> filesys \<Rightarrow> (string \<Rightarrow> string \<Rightarrow> lanes) \<Rightarrow> lanes run" where
  "cg_ope_sender H rs rho rng argv fs dial =
     run_program (ope_sender_args H ''ope_sender'' rng argv fs)
       (\<lambda>(degree, coeffs, port). sending (ope_sender (h_env H) (h_digest H) (h_disc H) (h_cs H) rs rho degree coeffs
          (dial (arg_or argv 1 ''127.0.0.1'') port)))
       (\<lambda>(degree, coeffs, port) out. timed H ''ope_sender''
          (write_ope_sender_coeffs (h_io H) (h_env H) ''direct_ope_sender_coeffs.txt'' (h_q H) coeffs)) fs"

text \<open>Behind the firewalls the ports come from the environment; other arguments are ignored.\<close>

definition cg_rf_ope_receiver :: "host \<Rightarrow> int \<Rightarrow> (nat \<Rightarrow> int) \<Rightarrow> (nat \<Rightarrow> int \<Rightarrow> int) \<Rightarrow> string list \<Rightarrow> filesys \<Rightarrow> byte list list \<Rightarrow> lanes run" where
  "cg_rf_ope_receiver H sk rx rng argv fs conns =
     run_program (ope_receiver_args H ''rf_ope_receiver'' rng argv fs)
       (\<lambda>(degree, alpha, _). rf_ope_receiver (h_env H) (h_digest H) (h_cs H) sk rx degree alpha conns)
       (\<lambda>(degree, alpha, _) out. timed H ''rf_ope_receiver''
          (write_ope_receiver_output (h_io H) (h_env H) ''rf_ope_receiver_output.txt'' (h_q H) alpha out)) fs"

definition cg_rf_ope_sender :: "host \<Rightarrow> (nat \<Rightarrow> int) \<Rightarrow> (nat \<Rightarrow> int) \<Rightarrow> (nat \<Rightarrow> int \<Rightarrow> int) \<Rightarrow> string list \<Rightarrow> filesys \<Rightarrow> lanes \<Rightarrow> lanes run" where
  "cg_rf_ope_sender H rs rho rng argv fs rx_lanes =
     run_program (ope_sender_args H ''rf_ope_sender'' rng argv fs)
       (\<lambda>(degree, coeffs, _). sending (rf_ope_sender (h_env H) (h_digest H) (h_disc H) (h_cs H) rs rho degree coeffs rx_lanes))
       (\<lambda>(degree, coeffs, _) out. timed H ''rf_ope_sender''
          (write_ope_sender_coeffs (h_io H) (h_env H) ''rf_ope_sender_coeffs.txt'' (h_q H) coeffs)) fs"

subsection \<open>Polynomial addition\<close>

text \<open>
  The coefficients in an argument vector: \<^verbatim>\<open>--bench64\<close> with a seed, \<^verbatim>\<open>--input-file\<close> with a path, or listed;
  \<open>listed\<close> says how a program takes the listed ones. The result also has the arguments behind them.
\<close>

definition opa_coeffs ::
  "host \<Rightarrow> filesys \<Rightarrow> string \<Rightarrow> nat \<Rightarrow> (string list \<Rightarrow> (int list \<times> string list) args result) \<Rightarrow> string list \<Rightarrow> (int list \<times> string list) args result" where
  "opa_coeffs H fs role count listed args =
     bind_args
       (if args \<noteq> [] \<and> hd args = ''--bench64'' then
          (case tl args of [] \<Rightarrow> Inr (Exit 1)
           | s # rest \<Rightarrow> bind_r (cg_parse_u64 (Some s) ''argument'' 0) (\<lambda>domain.
               bind_r (benchmark_input_vector (h_gen H) (h_env H) count (of_nat domain) (h_q H)) (\<lambda>coeffs. Inr (Go (coeffs, rest)))))
        else if args \<noteq> [] \<and> hd args = ''--input-file'' then
          (case tl args of [] \<Rightarrow> Inr (Exit 1)
           | p # rest \<Rightarrow> bind_r (read_mpz_coeff_file (h_io H) (h_env H) fs p (h_q H) role) (\<lambda>coeffs. Inr (Go (coeffs, rest))))
        else listed args)
       (\<lambda>(coeffs, rest). Inr (if length coeffs \<noteq> count then Exit 1 else Go (coeffs, rest)))"

text \<open>Exactly \<open>count\<close> or exit; up to \<open>count\<close>; all.\<close>

definition listed_exactly :: "gmp_io \<Rightarrow> nat \<Rightarrow> string list \<Rightarrow> (int list \<times> string list) args result" where
  "listed_exactly io count args =
     (if length args < count then Inr (Exit 1)
      else bind_r (map_r (mpz_of_text io) (take count args)) (\<lambda>coeffs. Inr (Go (coeffs, drop count args))))"

definition listed_up_to :: "gmp_io \<Rightarrow> nat \<Rightarrow> string list \<Rightarrow> (int list \<times> string list) args result" where
  "listed_up_to io count args = bind_r (map_r (mpz_of_text io) (take count args)) (\<lambda>coeffs. Inr (Go (coeffs, drop count args)))"

definition listed_all :: "gmp_io \<Rightarrow> string list \<Rightarrow> (int list \<times> string list) args result" where
  "listed_all io args = bind_r (map_r (mpz_of_text io) args) (\<lambda>coeffs. Inr (Go (coeffs, [])))"

text \<open>The two counts in front of the coefficients.\<close>

definition opa_receiver_args ::
  "host \<Rightarrow> nat \<Rightarrow> (nat \<Rightarrow> string list \<Rightarrow> (int list \<times> string list) args result) \<Rightarrow> string list \<Rightarrow> filesys \<Rightarrow> (nat \<times> int list \<times> string list) args result" where
  "opa_receiver_args H least listed argv fs =
     (if length argv < least then Inr (Exit 2)
      else bind_r (cg_parse_size (h_env H) (Some (argv ! 1)) ''count'' False 0) (\<lambda>n_pts.
        bind_r (cg_parse_size (h_env H) (Some (argv ! 2)) ''degree'' True 0) (\<lambda>d.
        bind_r (cg_checked_add (h_env H) d 1) (\<lambda>receiver_coeffs.
        bind_args (opa_coeffs H fs ''opa_receiver'' receiver_coeffs (listed receiver_coeffs) (drop 3 argv)) (\<lambda>(coeffs, rest).
        Inr (Go (n_pts, coeffs, rest)))))))"

text \<open>The sender also draws its mask polynomial; \<open>i\<close> is the index of its first count.\<close>

definition opa_sender_args ::
  "host \<Rightarrow> nat \<Rightarrow> nat \<Rightarrow> (nat \<Rightarrow> string list \<Rightarrow> (int list \<times> string list) args result) \<Rightarrow> (nat \<Rightarrow> int \<Rightarrow> int) \<Rightarrow> string list \<Rightarrow> filesys
   \<Rightarrow> (nat \<times> int list \<times> int list \<times> string list) args result" where
  "opa_sender_args H least i listed rng argv fs =
     (if length argv < least then Inr (Exit 2)
      else bind_r (cg_parse_size (h_env H) (Some (argv ! i)) ''count'' False 0) (\<lambda>n_pts.
        bind_r (cg_parse_size (h_env H) (Some (argv ! (i + 1))) ''degree'' True 0) (\<lambda>d.
        bind_r (cg_checked_add (h_env H) d d) (\<lambda>dd. bind_r (cg_checked_add (h_env H) dd 1) (\<lambda>additive_coeffs.
        bind_args (opa_coeffs H fs ''opa_sender'' additive_coeffs (listed additive_coeffs) (drop (i + 2) argv)) (\<lambda>(coeffs, rest).
        Inr (Go (n_pts, coeffs, random_poly d (\<lambda>k. rng k (h_q H)), rest))))))))"

definition port_of :: "string list \<Rightarrow> string \<Rightarrow> string" where
  "port_of rest fallback = (case rest of p # _ \<Rightarrow> p | [] \<Rightarrow> fallback)"

definition cg_opa_receiver :: "host \<Rightarrow> int \<Rightarrow> (nat \<Rightarrow> int) \<Rightarrow> string list \<Rightarrow> filesys \<Rightarrow> (string \<Rightarrow> byte list list) \<Rightarrow> lanes run" where
  "cg_opa_receiver H sk rx argv fs listen =
     run_program (opa_receiver_args H 4 (listed_exactly (h_io H)) argv fs)
       (\<lambda>(n_pts, coeffs, rest). opa_receive (h_cfg H) (h_digest H) (h_cs H) sk rx n_pts coeffs (listen (port_of rest (ope_port_rec (h_env H)))))
       (\<lambda>(n_pts, coeffs, rest) out. timed H ''opa_receiver''
          (write_opa_receiver_dump (h_io H) (h_env H) ''direct_opa_receiver_output.txt'' (or_q out) coeffs (or_alpha out) (or_y_vals out))) fs"

definition cg_opa_sender :: "host \<Rightarrow> (nat \<Rightarrow> int) \<Rightarrow> (nat \<Rightarrow> int \<Rightarrow> int) \<Rightarrow> string list \<Rightarrow> filesys \<Rightarrow> (string \<Rightarrow> string \<Rightarrow> lanes) \<Rightarrow> lanes run" where
  "cg_opa_sender H rs rng argv fs dial =
     run_program (opa_sender_args H 5 2 (listed_up_to (h_io H)) rng argv fs)
       (\<lambda>(n_pts, coeffs, mask', rest). Some (opa_send_with_q (h_cfg H) (h_digest H) (h_disc H) (h_cs H) rs n_pts coeffs mask' (h_q H)
          (dial (argv ! 1) (port_of rest (ope_port_rec (h_env H))))))
       (\<lambda>(n_pts, coeffs, mask', rest) sent. timed H ''opa_sender''
          (write_opa_sender_coeffs (h_io H) (h_env H) ''direct_opa_sender_coeffs.txt'' (os_q sent) coeffs mask')) fs"

definition cg_rf_opa_receiver :: "host \<Rightarrow> int \<Rightarrow> (nat \<Rightarrow> int) \<Rightarrow> string list \<Rightarrow> filesys \<Rightarrow> byte list list \<Rightarrow> lanes run" where
  "cg_rf_opa_receiver H sk rx argv fs conns =
     run_program (opa_receiver_args H 3 (\<lambda>_. listed_all (h_io H)) argv fs)
       (\<lambda>(n_pts, coeffs, _). rf_opa_receive (h_cfg H) (h_digest H) (h_cs H) sk rx n_pts coeffs conns)
       (\<lambda>(n_pts, coeffs, _) out. timed H ''opa_receiver''
          (write_opa_receiver_dump (h_io H) (h_env H) ''rf_opa_receiver_output.txt'' (or_q out) coeffs (or_alpha out) (or_y_vals out))) fs"

definition cg_rf_opa_sender :: "host \<Rightarrow> (nat \<Rightarrow> int) \<Rightarrow> (nat \<Rightarrow> int \<Rightarrow> int) \<Rightarrow> string list \<Rightarrow> filesys \<Rightarrow> lanes \<Rightarrow> lanes run" where
  "cg_rf_opa_sender H rs rng argv fs rx_lanes =
     run_program (opa_sender_args H 3 1 (\<lambda>_. listed_all (h_io H)) rng argv fs)
       (\<lambda>(n_pts, coeffs, mask', _). Some (rf_opa_send_with_q (h_cfg H) (h_digest H) (h_disc H) (h_cs H) rs n_pts coeffs mask' (h_q H) rx_lanes))
       (\<lambda>(n_pts, coeffs, mask', _) sent. timed H ''opa_sender''
          (write_opa_sender_coeffs (h_io H) (h_env H) ''rf_opa_sender_coeffs.txt'' (os_q sent) coeffs mask')) fs"

subsection \<open>Batched evaluation\<close>

text \<open>The inputs of the two batch programs and of the three-round programs, read or drawn.\<close>

definition ole_receiver_input ::
  "host \<Rightarrow> filesys \<Rightarrow> string option \<Rightarrow> nat \<Rightarrow> (nat \<Rightarrow> int \<Rightarrow> int) \<Rightarrow> int list result" where
  "ole_receiver_input H fs path n rng =
     bind_r (benchmark_input_bound (h_env H) (h_q H)) (\<lambda>max_val.
     case path of
       Some p \<Rightarrow> bind_r (read_mpz_list_file_mod_q (h_io H) (h_env H) fs p (h_q H) ''batch_ole_receiver'') (\<lambda>x_vals.
         bind_r (throw_if (length x_vals \<noteq> n) (Runtime_error ''batch_ole_receiver: --input-file size does not match n_oles'')) (\<lambda>_. Inr x_vals))
     | None \<Rightarrow> Inr (draws rng max_val n))"

text \<open>The two values of a pair are drawn one after the other.\<close>

definition drawn_pairs :: "(nat \<Rightarrow> int \<Rightarrow> int) \<Rightarrow> int \<Rightarrow> nat \<Rightarrow> int list \<times> int list" where
  "drawn_pairs rng bound n = (map (\<lambda>i. rng (2 * i) bound) [0..<n], map (\<lambda>i. rng (2 * i + 1) bound) [0..<n])"

definition ole_sender_input ::
  "host \<Rightarrow> filesys \<Rightarrow> string option \<Rightarrow> nat \<Rightarrow> (nat \<Rightarrow> int \<Rightarrow> int) \<Rightarrow> (int list \<times> int list) result" where
  "ole_sender_input H fs path n rng =
     bind_r (benchmark_input_bound (h_env H) (h_q H)) (\<lambda>max_val.
     case path of
       Some p \<Rightarrow> bind_r (read_ole_sender_input_file (h_io H) (h_env H) fs p (h_q H) ''batch_ole_sender'') (\<lambda>(a_vals, b_vals).
         bind_r (throw_if (length a_vals \<noteq> n) (Runtime_error ''batch_ole_sender: --input-file size does not match n_oles'')) (\<lambda>_. Inr (a_vals, b_vals)))
     | None \<Rightarrow> Inr (drawn_pairs rng max_val n))"

definition cg_batch_ole_receiver :: "host \<Rightarrow> int \<Rightarrow> (nat \<Rightarrow> int) \<Rightarrow> (nat \<Rightarrow> int \<Rightarrow> int) \<Rightarrow> string list \<Rightarrow> filesys \<Rightarrow> (string \<Rightarrow> byte list list) \<Rightarrow> lanes run" where
  "cg_batch_ole_receiver H sk rx rng argv fs listen =
     run_program
       (bind_r (size_arg (h_env H) argv 1 ''count'') (\<lambda>n_oles. bind_r (rf_transport_lanes (h_env H)) (\<lambda>_.
        bind_r (ole_receiver_input H fs (fst (file_option ''--input-file'' (drop 3 argv) (None, []))) n_oles rng) (\<lambda>x_vals. Inr (Go x_vals)))))
       (\<lambda>x_vals. batch_ole_receiver (h_env H) (h_digest H) (h_cs H) sk rx x_vals (listen (arg_or argv 2 (rf_port_rec (h_env H)))))
       (\<lambda>x_vals y_vals. timed H ''batch_ole_receiver''
          (write_ole_receiver_io (h_io H) (h_env H) ''direct_ole_receiver_io.txt'' (h_q H) x_vals y_vals)) fs"

definition cg_batch_ole_sender :: "host \<Rightarrow> (nat \<Rightarrow> int) \<Rightarrow> (nat \<Rightarrow> int \<Rightarrow> int) \<Rightarrow> string list \<Rightarrow> filesys \<Rightarrow> (string \<Rightarrow> string \<Rightarrow> lanes) \<Rightarrow> lanes run" where
  "cg_batch_ole_sender H rs rng argv fs dial =
     run_program
       (bind_r (size_arg (h_env H) argv 1 ''count'') (\<lambda>n_oles. bind_r (rf_transport_lanes (h_env H)) (\<lambda>_.
        bind_r (ole_sender_input H fs (fst (file_option ''--input-file'' (drop 4 argv) (None, []))) n_oles rng) (\<lambda>p. Inr (Go p)))))
       (\<lambda>(a_vals, b_vals). sending (batch_ole_sender (h_env H) (h_digest H) (h_disc H) (h_cs H) rs a_vals b_vals
          (dial (arg_or argv 2 ''127.0.0.1'') (arg_or argv 3 (rf_port_rec (h_env H))))))
       (\<lambda>(a_vals, b_vals) out. timed H ''batch_ole_sender''
          (write_ole_sender_inputs (h_io H) (h_env H) ''direct_ole_sender_inputs.txt'' a_vals b_vals)) fs"

definition cg_rf_batch_ole_receiver :: "host \<Rightarrow> int \<Rightarrow> (nat \<Rightarrow> int) \<Rightarrow> (nat \<Rightarrow> int \<Rightarrow> int) \<Rightarrow> string list \<Rightarrow> filesys \<Rightarrow> byte list list \<Rightarrow> lanes run" where
  "cg_rf_batch_ole_receiver H sk rx rng argv fs conns =
     run_program
       (bind_r (size_arg (h_env H) argv 1 ''n_oles'') (\<lambda>n_oles.
        bind_r (ole_receiver_input H fs (fst (file_option ''--input-file'' (drop 2 argv) (None, []))) n_oles rng) (\<lambda>x_vals. Inr (Go x_vals))))
       (\<lambda>x_vals. rf_ole_batch_receive (h_env H) (h_digest H) (h_cs H) sk rx x_vals conns)
       (\<lambda>x_vals y_vals. timed H ''batch_ole_receiver''
          (write_ole_receiver_io (h_io H) (h_env H) ''rf_ole_receiver_io.txt'' (h_q H) x_vals y_vals)) fs"

definition cg_rf_batch_ole_sender :: "host \<Rightarrow> (nat \<Rightarrow> int) \<Rightarrow> (nat \<Rightarrow> int \<Rightarrow> int) \<Rightarrow> string list \<Rightarrow> filesys \<Rightarrow> lanes \<Rightarrow> lanes run" where
  "cg_rf_batch_ole_sender H rs rng argv fs rx_lanes =
     run_program
       (bind_r (size_arg (h_env H) argv 1 ''n_oles'') (\<lambda>n_oles.
        bind_r (ole_sender_input H fs (fst (file_option ''--input-file'' (drop 2 argv) (None, []))) n_oles rng) (\<lambda>p. Inr (Go p))))
       (\<lambda>(a_vals, b_vals). sending (rf_ole_batch_send (h_env H) (h_digest H) (h_disc H) (h_cs H) rs a_vals b_vals rx_lanes))
       (\<lambda>(a_vals, b_vals) out. timed H ''batch_ole_sender''
          (write_ole_sender_inputs (h_io H) (h_env H) ''rf_ole_sender_inputs.txt'' a_vals b_vals)) fs"

subsection \<open>Three-round evaluation\<close>

definition ole3_port_rec :: "env \<Rightarrow> string" where
  "ole3_port_rec env = env_or_default env ''CG_OLE3_PORT_REC'' ''9123''"

text \<open>Inputs are always drawn.\<close>

definition ole3_receiver_args :: "host \<Rightarrow> (nat \<Rightarrow> int \<Rightarrow> int) \<Rightarrow> string list \<Rightarrow> int list args result" where
  "ole3_receiver_args H rng argv =
     bind_r (size_arg (h_env H) argv 1 ''count'') (\<lambda>n_oles. bind_r (rf_transport_lanes (h_env H)) (\<lambda>_.
     bind_r (benchmark_input_bound (h_env H) (h_q H)) (\<lambda>max_val. Inr (Go (draws rng max_val n_oles)))))"

definition ole3_sender_args :: "host \<Rightarrow> (nat \<Rightarrow> int \<Rightarrow> int) \<Rightarrow> string list \<Rightarrow> (int list \<times> int list) args result" where
  "ole3_sender_args H rng argv =
     bind_r (size_arg (h_env H) argv 1 ''count'') (\<lambda>n_oles. bind_r (rf_transport_lanes (h_env H)) (\<lambda>_.
     bind_r (benchmark_input_bound (h_env H) (h_q H)) (\<lambda>max_val. Inr (Go (drawn_pairs rng max_val n_oles)))))"

definition cg_ole3_receiver ::
  "host \<Rightarrow> (nat \<Rightarrow> int) \<Rightarrow> (nat \<Rightarrow> int) \<Rightarrow> (nat \<Rightarrow> int \<Rightarrow> int) \<Rightarrow> string list \<Rightarrow> filesys \<Rightarrow> (string \<Rightarrow> byte list list) \<Rightarrow> lanes run" where
  "cg_ole3_receiver H mask' rx rng argv fs listen =
     run_program (ole3_receiver_args H rng argv)
       (\<lambda>x_vals. ole3_receiver (h_env H) (h_digest H) (h_disc H) (h_cs H) mask' rx x_vals (listen (arg_or argv 2 (ole3_port_rec (h_env H)))))
       (\<lambda>x_vals out. timed H ''ole3_receiver'' (write_ole_receiver_io (h_io H) (h_env H) ''ole3_receiver_io.txt'' (h_q H) x_vals out)) fs"

definition cg_ole3_sender ::
  "host \<Rightarrow> int \<Rightarrow> (nat \<Rightarrow> int) \<Rightarrow> (nat \<Rightarrow> int) \<Rightarrow> (nat \<Rightarrow> int \<Rightarrow> int) \<Rightarrow> string list \<Rightarrow> filesys \<Rightarrow> (string \<Rightarrow> string \<Rightarrow> lanes) \<Rightarrow> lanes run" where
  "cg_ole3_sender H sk rnd_a rnd_b rng argv fs dial =
     run_program (ole3_sender_args H rng argv)
       (\<lambda>(a_vals, b_vals). sending (ole3_sender (h_env H) (h_digest H) (h_cs H) sk rnd_a rnd_b a_vals b_vals
          (dial (arg_or argv 2 ''127.0.0.1'') (arg_or argv 3 (ole3_port_rec (h_env H))))))
       (\<lambda>(a_vals, b_vals) out. timed H ''ole3_sender'' (write_ole_sender_inputs (h_io H) (h_env H) ''ole3_sender_inputs.txt'' a_vals b_vals)) fs"

definition cg_rf_ole3_receiver ::
  "host \<Rightarrow> (nat \<Rightarrow> int) \<Rightarrow> (nat \<Rightarrow> int) \<Rightarrow> (nat \<Rightarrow> int \<Rightarrow> int) \<Rightarrow> string list \<Rightarrow> filesys \<Rightarrow> (string \<Rightarrow> byte list list) \<Rightarrow> lanes run" where
  "cg_rf_ole3_receiver H mask' rx rng argv fs listen =
     run_program (ole3_receiver_args H rng argv)
       (\<lambda>x_vals. rf_ole3_receiver (h_env H) (h_digest H) (h_disc H) (h_cs H) mask' rx x_vals (listen (arg_or argv 2 (rf_port_rec (h_env H)))))
       (\<lambda>x_vals out. timed H ''rf_ole3_receiver'' (write_ole_receiver_io (h_io H) (h_env H) ''rf_ole3_receiver_io.txt'' (h_q H) x_vals out)) fs"

definition cg_rf_ole3_sender ::
  "host \<Rightarrow> int \<Rightarrow> (nat \<Rightarrow> int) \<Rightarrow> (nat \<Rightarrow> int) \<Rightarrow> (nat \<Rightarrow> int \<Rightarrow> int) \<Rightarrow> string list \<Rightarrow> filesys \<Rightarrow> (string \<Rightarrow> string \<Rightarrow> lanes) \<Rightarrow> lanes run" where
  "cg_rf_ole3_sender H sk rnd_a rnd_b rng argv fs dial =
     run_program (ole3_sender_args H rng argv)
       (\<lambda>(a_vals, b_vals). sending (rf_ole3_sender (h_env H) (h_digest H) (h_cs H) sk rnd_a rnd_b a_vals b_vals
          (dial (arg_or argv 2 ''127.0.0.1'') (arg_or argv 3 (rf_port_rfs (h_env H))))))
       (\<lambda>(a_vals, b_vals) out. timed H ''rf_ole3_sender'' (write_ole_sender_inputs (h_io H) (h_env H) ''rf_ole3_sender_inputs.txt'' a_vals b_vals)) fs"

text \<open>The firewalls dump their blinds; what they send to both sides is one value here.\<close>

definition dump_blinds ::
  "host \<Rightarrow> string \<Rightarrow> filesys \<Rightarrow> (lanes \<times> lanes \<times> int list \<times> int list) result option \<Rightarrow> (lanes \<times> lanes) run" where
  "dump_blinds H filename fs res =
     map_option (\<lambda>res. bind_r res (\<lambda>(r_tx, s_tx, a_blinds, b_blinds).
       bind_r (write_ole_blinds (h_io H) (h_env H) filename a_blinds b_blinds fs) (\<lambda>fs. Inr (0, fs, Some (r_tx, s_tx))))) res"

definition cg_rf_receiver_firewall_ole3 where
  "cg_rf_receiver_firewall_ole3 H d fs r_rx s_conns =
     dump_blinds H ''rf_ole3_receiver_firewall_blinds.txt'' fs (rf_receiver_firewall_ole3 (h_env H) (h_digest H) (h_disc H) (h_cs H) d r_rx s_conns)"

definition cg_rf_sender_firewall_ole3 where
  "cg_rf_sender_firewall_ole3 H d fs r_rx s_conns =
     dump_blinds H ''rf_ole3_sender_firewall_blinds.txt'' fs (rf_sender_firewall_ole3 (h_env H) (h_digest H) (h_disc H) (h_cs H) d r_rx s_conns)"

subsection \<open>Running a program\<close>

lemma run_program_Go:
  assumes "input = Inr (Go i)" "protocol i = Some (Inr (out, tx))" "dump i out fs = Inr fs'"
  shows "run_program input protocol dump fs = Some (Inr (0, fs', Some tx))"
  using assms by (simp add: run_program_def)

lemma sending_Inr: "res = Inr tx \<Longrightarrow> sending res = Some (Inr ((), tx))"
  by (simp add: sending_def)

text \<open>On a disk where every file can be written, a timed dump succeeds and leaves the text of the dump.\<close>

lemma timing_open:
  assumes "open_disk fs"
  shows "\<exists>fs'. write_protocol_timing_file_from_env env component ms fs = Inr fs' \<and> open_disk fs'"
  using write_text_open[OF assms] assms
  by (simp add: write_protocol_timing_file_from_env_def write_protocol_timing_file_def split: option.splits)

lemma timed_open:
  assumes "open_disk fs" "\<And>fs. open_disk fs \<Longrightarrow> \<exists>fs'. dump fs = Inr fs' \<and> open_disk fs'"
  shows "\<exists>fs'. timed H component dump fs = Inr fs' \<and> open_disk fs'"
  using timing_open[OF assms(1), of "h_env H" component "h_ms H"] assms(2) by (auto simp: timed_def)

lemma timed_text:
  assumes "timed H component dump fs = Inr fs'" "\<And>fs fs'. dump fs = Inr fs' \<Longrightarrow> fs_text fs' p = Some t"
  shows "fs_text fs' p = Some t"
  using assms by (auto simp: timed_def bind_r_Inr_iff)

lemma timed_dump:
  assumes "open_disk fs" "\<And>fs. open_disk fs \<Longrightarrow> \<exists>fs'. dump fs = Inr fs' \<and> open_disk fs'"
    and "\<And>fs fs'. dump fs = Inr fs' \<Longrightarrow> fs_text fs' p = Some t"
  obtains fs' where "timed H component dump fs = Inr fs'" "fs_text fs' p = Some t"
proof -
  obtain fs' where t: "timed H component dump fs = Inr fs'"
    using timed_open[where H = H and component = component and dump = dump, OF assms(1,2)] by blast
  show thesis
    by (rule that[OF t timed_text[OF t assms(3)]])
qed

subsection \<open>Input files\<close>

lemma coeff_file_read:
  assumes "gmp_documented io" "cg_validate_count env (length vs) False = Inr ()" "fs_text fs p = Some (value_lines io vs)"
  shows "read_mpz_coeff_file io env fs p q role = Inr (map (\<lambda>x. x mod q) vs)"
proof -
  obtain m where m: "cg_max_items env = Inr m" "length vs \<le> m" "vs \<noteq> []"
    using assms(2) by (auto simp: cg_validate_count_Inr)
  have "read_values env (\<lambda>tok. bind_r (mpz_of_text io tok) (\<lambda>x. Inr (x mod q))) (map (io_print io) vs) = Inr (map (\<lambda>x. x mod q) vs)"
    unfolding read_values_def using m assms(1) by (subst read_values_all[where vs = "map (\<lambda>x. x mod q) vs"]) simp_all
  then show ?thesis
    using m(3) assms(3) written_words[OF assms(1), of vs]
    by (simp add: read_mpz_coeff_file_def value_lines_def value_line_def[abs_def])
qed

lemma mod_q_file_read:
  assumes "gmp_documented io" "cg_validate_count env (length vs) False = Inr ()" "fs_text fs p = Some (value_lines io vs)"
    and "\<forall>v \<in> set vs. 0 \<le> v"
  shows "read_mpz_list_file_mod_q io env fs p q role = Inr (map (\<lambda>x. x mod q) vs)"
proof -
  obtain m where m: "cg_max_items env = Inr m" "length vs \<le> m" "vs \<noteq> []"
    using assms(2) by (auto simp: cg_validate_count_Inr)
  have nn: "(vs ! i < 0) = False" if "i < length vs" for i
    using assms(4) nth_mem[OF that] by fastforce
  have "read_values env (\<lambda>tok. bind_r (mpz_of_text io tok) (\<lambda>x. bind_r (throw_if (x < 0) (Runtime_error (role @ '': negative input value''))) (\<lambda>_. Inr (x mod q))))
      (map (io_print io) vs) = Inr (map (\<lambda>x. x mod q) vs)"
    unfolding read_values_def using m assms(1) by (subst read_values_all[where vs = "map (\<lambda>x. x mod q) vs"]) (simp_all add: nn)
  then show ?thesis
    using m(3) assms(3) written_words[OF assms(1), of vs]
    by (simp add: read_mpz_list_file_mod_q_def value_lines_def value_line_def[abs_def])
qed

lemma one_item: "cg_validate_count env n False = Inr () \<Longrightarrow> cg_validate_count env 1 False = Inr ()"
  by (auto simp: cg_validate_count_Inr)

text \<open>One file of one host copied to another.\<close>

definition copy_file :: "string \<Rightarrow> filesys \<Rightarrow> filesys \<Rightarrow> filesys" where
  "copy_file p src dst = dst\<lparr>fs_text := (fs_text dst)(p := fs_text src p)\<rparr>"

lemma fs_text_copy [simp]: "fs_text (copy_file p src dst) p' = (if p' = p then fs_text src p else fs_text dst p')"
  by (simp add: copy_file_def)

subsection \<open>Polynomial evaluation, checked\<close>

lemma ope_receiver_args_file:
  assumes "gmp_documented (h_io H)" "cg_parse_size (h_env H) (Some d) ''count'' False 0 = Inr degree" "0 < degree"
    and "cg_validate_count (h_env H) 1 False = Inr ()" "fs_text fs af = Some (value_lines (h_io H) [alpha])" "0 \<le> alpha"
  shows "ope_receiver_args H role rng [prog, d, ''--alpha-file'', af] fs = Inr (Go (degree, alpha mod h_q H, ope_port_rec (h_env H)))"
  using assms(2,3) mod_q_file_read[OF assms(1) _ assms(5), of "h_env H" "h_q H" role] assms(4,6)
  by (simp add: ope_receiver_args_def size_arg_def alpha_input_def)

lemma ope_sender_args_file:
  assumes "gmp_documented (h_io H)" "cg_parse_size (h_env H) (Some d) ''count'' False 0 = Inr degree" "0 < degree"
    and "cg_validate_count (h_env H) (degree + 1) False = Inr ()" "fs_text fs cf = Some (value_lines (h_io H) coeffs)" "length coeffs = degree + 1"
  shows "ope_sender_args H role rng [prog, ip, d, ''--input-file'', cf] fs
    = Inr (Go (degree, map (\<lambda>x. x mod h_q H) coeffs, ope_port_rec (h_env H)))"
proof -
  have "sz_add degree 1 = degree + 1"
    using size_of_count[OF assms(4)] by (simp add: sz_add_exact)
  then show ?thesis
    using assms(2,3,4,6) coeff_file_read[OF assms(1) _ assms(5), of "h_env H" "h_q H" role]
    by (simp add: ope_sender_args_def size_arg_def coeff_input_def)
qed

lemma ope_dump_receiver:
  assumes "open_disk fs"
  obtains fs' where "timed H component (write_ope_receiver_output (h_io H) (h_env H) name q alpha out) fs = Inr fs'"
    "fs_text fs' (dump_path (h_env H) name) = Some (ope_receiver_text (h_io H) q alpha out)"
proof (rule timed_dump[OF assms])
  show "fs_text fs' (dump_path (h_env H) name) = Some (ope_receiver_text (h_io H) q alpha out)"
    if "write_ope_receiver_output (h_io H) (h_env H) name q alpha out fs = Inr fs'" for fs fs'
    using dump_texts(5)[OF that] by simp
qed (use dumps_open(5) that in blast)+

lemma ope_dump_sender:
  assumes "open_disk fs"
  obtains fs' where "timed H component (write_ope_sender_coeffs (h_io H) (h_env H) name q coeffs) fs = Inr fs'"
    "fs_text fs' (dump_path (h_env H) name) = Some (ope_sender_text (h_io H) q coeffs)"
proof (rule timed_dump[OF assms])
  show "fs_text fs' (dump_path (h_env H) name) = Some (ope_sender_text (h_io H) q coeffs)"
    if "write_ope_sender_coeffs (h_io H) (h_env H) name q coeffs fs = Inr fs'" for fs fs'
    using dump_texts(4)[OF that] by simp
qed (use dumps_open(4) that in blast)+

text \<open>
  C2: A run of firewalled polynomial evaluation from input files to the checker. Both programs read
  their input file, written as decimal numbers, whatever the field; they and the two firewalls run to
  the end and exit with 0; the receiver's dump holds the value of the sender's polynomial at the
  receiver's point, both reduced modulo the field; and once the sender's dump has been copied next to
  it, \<^verbatim>\<open>cg_check_ope\<close> exits with 0.
\<close>

theorem rf_ope_files_checked:
  assumes "rf_ready (h_cs H) G D (h_disc H) (h_env H) (h_digest H) k ord1 ord2 ord3 degree" "gmp_documented (h_io H)" "open_disk fs"
    and "cg_parse_size (h_env H) (Some d) ''count'' False 0 = Inr degree" "cg_validate_count (h_env H) (degree + 1) False = Inr ()"
    and "fs_text fs af = Some (value_lines (h_io H) [alpha])" "0 \<le> alpha"
    and "fs_text fs cf = Some (value_lines (h_io H) coeffs)" "length coeffs = degree + 1"
  shows "\<exists>t u r s fs_r fs_s. rf_net (h_env H) (h_digest H) (h_disc H) (h_cs H) f g ord1 ord2 ord3 t u r s \<and>
    cg_rf_ope_receiver H sk rx rng [''cg_rf_ope_receiver'', d, ''--alpha-file'', af] fs r = Some (Inr (0, fs_r, Some t)) \<and>
    cg_rf_ope_sender H rs rho rng' [''cg_rf_ope_sender'', ip, d, ''--input-file'', cf] fs s = Some (Inr (0, fs_s, Some u)) \<and>
    fs_text fs_r (dump_path (h_env H) ''rf_ope_receiver_output.txt'')
      = Some (ope_receiver_text (h_io H) (h_q H) (alpha mod h_q H) (eval_poly_horner (map (\<lambda>x. x mod h_q H) coeffs) (alpha mod h_q H) (h_q H))) \<and>
    check_ope (h_io H) (h_env H) (copy_file (dump_path (h_env H) ''rf_ope_sender_coeffs.txt'') fs_s fs_r)
      [''cg_check_ope'', dump_path (h_env H) ''rf_ope_sender_coeffs.txt'', dump_path (h_env H) ''rf_ope_receiver_output.txt''] = Inr 0"
proof -
  let ?c = "map (\<lambda>x. x mod h_q H) coeffs" and ?a = "alpha mod h_q H" and ?env = "h_env H"
  have q: "0 < h_q H" "0 < degree"
    using rf_channel.bound_pos[OF assms(1)] by simp_all
  have c: "length ?c = degree + 1" "0 \<le> ?c ! 0" "?c ! 0 < h_q H" "0 \<le> ?a" "?a < h_q H"
    using q assms(9) by simp_all
  obtain t u r s where run: "rf_net ?env (h_digest H) (h_disc H) (h_cs H) f g ord1 ord2 ord3 t u r s"
    "rf_ope_receiver ?env (h_digest H) (h_cs H) sk rx degree ?a r = Some (Inr (eval_poly_horner ?c ?a (h_q H), t))"
    "rf_ope_sender ?env (h_digest H) (h_disc H) (h_cs H) rs rho degree ?c s = Inr u"
    using rf_ope_correct[OF assms(1) c(1,4,5,2,3)] by blast
  obtain fs_r where r: "timed H ''rf_ope_receiver'' (write_ope_receiver_output (h_io H) ?env ''rf_ope_receiver_output.txt'' (h_q H) ?a
      (eval_poly_horner ?c ?a (h_q H))) fs = Inr fs_r"
    "fs_text fs_r (dump_path ?env ''rf_ope_receiver_output.txt'') = Some (ope_receiver_text (h_io H) (h_q H) ?a (eval_poly_horner ?c ?a (h_q H)))"
    by (rule ope_dump_receiver[OF assms(3)])
  obtain fs_s where s: "timed H ''rf_ope_sender'' (write_ope_sender_coeffs (h_io H) ?env ''rf_ope_sender_coeffs.txt'' (h_q H) ?c) fs = Inr fs_s"
    "fs_text fs_s (dump_path ?env ''rf_ope_sender_coeffs.txt'') = Some (ope_sender_text (h_io H) (h_q H) ?c)"
    by (rule ope_dump_sender[OF assms(3)])
  have "cg_rf_ope_receiver H sk rx rng [''cg_rf_ope_receiver'', d, ''--alpha-file'', af] fs r = Some (Inr (0, fs_r, Some t))"
    unfolding cg_rf_ope_receiver_def ope_receiver_args_file[OF assms(2,4) q(2) one_item[OF assms(5)] assms(6,7)]
    by (rule run_program_Go[OF refl]) (use run(2) r(1) in \<open>simp_all only: prod.case\<close>)
  moreover have "cg_rf_ope_sender H rs rho rng' [''cg_rf_ope_sender'', ip, d, ''--input-file'', cf] fs s = Some (Inr (0, fs_s, Some u))"
    unfolding cg_rf_ope_sender_def ope_sender_args_file[OF assms(2,4) q(2) assms(5,8,9)]
    by (rule run_program_Go[OF refl]) (use sending_Inr[OF run(3)] s(1) in \<open>simp_all only: prod.case\<close>)
  moreover have "check_ope (h_io H) ?env (copy_file (dump_path ?env ''rf_ope_sender_coeffs.txt'') fs_s fs_r)
      [''cg_check_ope'', dump_path ?env ''rf_ope_sender_coeffs.txt'', dump_path ?env ''rf_ope_receiver_output.txt''] = Inr 0"
    by (subst check_ope_texts[where coeffs = ?c and q = "h_q H" and alpha = ?a and out = "eval_poly_horner ?c ?a (h_q H)"])
      (use assms(2,5,9) q r(2) s(2) in simp_all)
  ultimately show ?thesis
    using run(1) r(2) by blast
qed

text \<open>The hosts of the concrete sessions.\<close>

definition demo_host :: "poly_cfg \<Rightarrow> int \<Rightarrow> qfi cl_ops \<Rightarrow> host" where
  "demo_host cfg disc cs = \<lparr> h_cfg = cfg, h_io = decimal_io, h_gen = (\<lambda>_ _ _. 0), h_digest = replicate 32 0, h_disc = disc, h_cs = cs, h_ms = ''0'' \<rparr>"

lemma demo_host_fields [simp]:
  "h_cfg (demo_host cfg disc cs) = cfg" "h_io (demo_host cfg disc cs) = decimal_io" "h_digest (demo_host cfg disc cs) = replicate 32 0"
  "h_disc (demo_host cfg disc cs) = disc" "h_cs (demo_host cfg disc cs) = cs"
  by (simp_all add: demo_host_def)

definition disk_with :: "(string \<times> string) list \<Rightarrow> filesys" where
  "disk_with files = \<lparr> fs_text = map_of files, fs_mkdir = \<lambda>_. True, fs_writable = \<lambda>_. True \<rparr>"

lemma disk_with_simps [simp]: "open_disk (disk_with files)" "fs_text (disk_with files) = map_of files"
  by (simp_all add: disk_with_def open_disk_def)

lemma session_max_items: "cg_max_items session_env = Inr (2 ^ 20)"
  by (simp add: cg_max_items_def env_value_def session_env_def)

lemma session_three: "cg_parse_size session_env (Some ''3'') name False 0 = Inr 3"
  by (simp add: cg_parse_size_def session_max_items cg_parse_u64_def strtoull_def detect_base_def is_digit_def in_base_def digit_value_def size_limit_def)

definition ope_disk :: filesys where
  "ope_disk = disk_with [(''alpha.txt'', value_lines decimal_io [5]), (''poly.txt'', value_lines decimal_io [1, 2, 0, 4])]"

theorem rf_ope_files_checked_witness:
  "let H = demo_host session_cfg (- 23) cl23; env = session_env; out = dump_path env ''rf_ope_receiver_output.txt''; poly = dump_path env ''rf_ope_sender_coeffs.txt'' in
   \<exists>t u r s fs_r fs_s. rf_net env (replicate 32 0) (- 23) cl23 demo_firewall demo_firewall [1, 0] [0, 1] [1, 0] t u r s \<and>
    cg_rf_ope_receiver H 1 int (\<lambda>_ _. 0) [''cg_rf_ope_receiver'', ''3'', ''--alpha-file'', ''alpha.txt''] ope_disk r = Some (Inr (0, fs_r, Some t)) \<and>
    cg_rf_ope_sender H int int (\<lambda>_ _. 0) [''cg_rf_ope_sender'', ''localhost'', ''3'', ''--input-file'', ''poly.txt''] ope_disk s = Some (Inr (0, fs_s, Some u)) \<and>
    fs_text fs_r out = Some (ope_receiver_text decimal_io 3 (5 mod 3) (eval_poly_horner (map (\<lambda>x. x mod 3) [1, 2, 0, 4]) (5 mod 3) 3)) \<and>
    check_ope decimal_io env (copy_file poly fs_s fs_r) [''cg_check_ope'', poly, out] = Inr 0"
proof -
  have q: "cleartext_bound cl23 = 3"
    by (simp add: cl23_def)
  show ?thesis
    using rf_ope_files_checked[of "demo_host session_cfg (- 23) cl23", simplified, OF session_ready decimal_io_documented,
        of ope_disk "''3''" "''alpha.txt''" 5 "''poly.txt''" "[1, 2, 0, 4]" demo_firewall demo_firewall 1 int "\<lambda>_ _. 0" int int "\<lambda>_ _. 0" "''localhost''"]
      session_three session_max_items
    by (simp add: ope_disk_def q Let_def cg_validate_count_Inr)
qed

subsection \<open>Polynomial addition, checked\<close>

lemma parsed_count: "cg_parse_size env v name False 0 = Inr n \<Longrightarrow> cg_validate_count env n False = Inr ()"
  by (auto simp: cg_parse_size_def bind_r_Inr_iff cg_validate_count_Inr not_less split: if_splits)

lemma count_below: "cg_validate_count env n False = Inr () \<Longrightarrow> 0 < m \<Longrightarrow> m \<le> n \<Longrightarrow> cg_validate_count env m False = Inr ()"
  by (auto simp: cg_validate_count_Inr)

lemma count_fits: "cg_validate_count env n z = Inr u \<Longrightarrow> n \<le> 2 ^ 24"
  using cg_max_items_bounds by (fastforce simp: cg_validate_count_Inr)

lemma counted_add: "cg_validate_count env (a + b) False = Inr () \<Longrightarrow> cg_checked_add env a b = Inr (a + b)"
  by (auto simp: cg_validate_count_Inr cg_checked_add_Inr)

lemma opa_receiver_args_file:
  assumes "gmp_documented (h_io H)" "cg_parse_size (h_env H) (Some nt) ''count'' False 0 = Inr n"
    and "cg_parse_size (h_env H) (Some dt) ''degree'' True 0 = Inr d" "cg_validate_count (h_env H) (d + 1) False = Inr ()"
    and "fs_text fs p = Some (value_lines (h_io H) coeffs)" "length coeffs = d + 1" "least \<le> 5"
  shows "opa_receiver_args H least listed [prog, nt, dt, ''--input-file'', p] fs = Inr (Go (n, map (\<lambda>x. x mod h_q H) coeffs, []))"
  using assms(2-4,6,7) counted_add[OF assms(4)] coeff_file_read[OF assms(1) _ assms(5), of "h_env H" "h_q H" "''opa_receiver''"]
  by (simp add: opa_receiver_args_def opa_coeffs_def bind_args_def)

lemma opa_sender_args_file:
  assumes "gmp_documented (h_io H)" "cg_parse_size (h_env H) (Some nt) ''count'' False 0 = Inr n"
    and "cg_parse_size (h_env H) (Some dt) ''degree'' True 0 = Inr d" "cg_validate_count (h_env H) (d + d + 1) False = Inr ()"
    and "fs_text fs p = Some (value_lines (h_io H) coeffs)" "length coeffs = d + d + 1"
  shows "opa_sender_args H 3 1 listed rng [prog, nt, dt, ''--input-file'', p] fs
    = Inr (Go (n, map (\<lambda>x. x mod h_q H) coeffs, random_poly d (\<lambda>k. rng k (h_q H)), []))"
proof -
  have "cg_checked_add (h_env H) d d = Inr (d + d)"
    using assms(4) by (auto simp: cg_validate_count_Inr cg_checked_add_Inr)
  then show ?thesis
    using assms(2-4,6) counted_add[OF assms(4)] coeff_file_read[OF assms(1) _ assms(5), of "h_env H" "h_q H" "''opa_sender''"]
    by (simp add: opa_sender_args_def opa_coeffs_def bind_args_def numeral_2_eq_2)
qed

lemma opa_dump_receiver:
  assumes "open_disk fs" "length alpha = length y"
  obtains fs' where "timed H component (write_opa_receiver_dump (h_io H) (h_env H) name q x alpha y) fs = Inr fs'"
    "fs_text fs' (dump_path (h_env H) name) = Some (opa_receiver_text (h_io H) q x alpha y)"
proof (rule timed_dump[OF assms(1)])
  show "fs_text fs' (dump_path (h_env H) name) = Some (opa_receiver_text (h_io H) q x alpha y)"
    if "write_opa_receiver_dump (h_io H) (h_env H) name q x alpha y fs = Inr fs'" for fs fs'
    using dump_texts(7)[OF that] by simp
qed (use dumps_open(7)[OF _ assms(2)] that in blast)+

lemma opa_dump_sender:
  assumes "open_disk fs"
  obtains fs' where "timed H component (write_opa_sender_coeffs (h_io H) (h_env H) name q b a) fs = Inr fs'"
    "fs_text fs' (dump_path (h_env H) name) = Some (opa_sender_text (h_io H) q b a)"
proof (rule timed_dump[OF assms])
  show "fs_text fs' (dump_path (h_env H) name) = Some (opa_sender_text (h_io H) q b a)"
    if "write_opa_sender_coeffs (h_io H) (h_env H) name q b a fs = Inr fs'" for fs fs'
    using dump_texts(6)[OF that] by simp
qed (use dumps_open(6) that in blast)+

lemma opa_outputs_expected:
  assumes "i < length alpha"
  shows "opa_expected q b a x (alpha ! i) = opa_values q b a x alpha ! i"
  using assms by (simp add: opa_expected_def opa_values_def eval_poly_horner_eq affine_mod)

text \<open>
  C3: A run of firewalled polynomial addition from input files to the checker. Both programs read
  their coefficient files and the sender draws its mask polynomial; all four programs run to the end,
  the endpoints exit with 0, and \<^verbatim>\<open>cg_check_opa\<close> accepts the two dumps: at every public point the
  receiver's value is \<open>b + a x\<close>.
\<close>

theorem rf_opa_files_checked:
  assumes "rf_ready (h_cs H) G D (h_disc H) (h_env H) (h_digest H) k ord1 ord2 ord3 n" "points_ok (h_cfg H) (h_q H) n"
    and "gmp_documented (h_io H)" "open_disk fs"
    and "cg_parse_size (h_env H) (Some nt) ''count'' False 0 = Inr n" "cg_parse_size (h_env H) (Some dt) ''degree'' True 0 = Inr d"
    and "cg_validate_count (h_env H) (d + d + 1) False = Inr ()"
    and "fs_text fs xf = Some (value_lines (h_io H) x)" "length x = d + 1" "fs_text fs sf = Some (value_lines (h_io H) b)" "length b = d + d + 1"
  shows "\<exists>alpha t u r s fs_r fs_s. rf_net (h_env H) (h_digest H) (h_disc H) (h_cs H) f g ord1 ord2 ord3 t u r s \<and>
    rf_opa_eval_points (h_env H) n (h_q H) = Inr alpha \<and> length alpha = n \<and>
    cg_rf_opa_receiver H sk rx [''cg_rf_opa_receiver'', nt, dt, ''--input-file'', xf] fs r = Some (Inr (0, fs_r, Some t)) \<and>
    cg_rf_opa_sender H rs rng [''cg_rf_opa_sender'', nt, dt, ''--input-file'', sf] fs s = Some (Inr (0, fs_s, Some u)) \<and>
    fs_text fs_r (dump_path (h_env H) ''rf_opa_receiver_output.txt'') = Some (opa_receiver_text (h_io H) (h_q H) (map (\<lambda>v. v mod h_q H) x) alpha
      (opa_values (h_q H) (map (\<lambda>v. v mod h_q H) b) (random_poly d (\<lambda>k. rng k (h_q H))) (map (\<lambda>v. v mod h_q H) x) alpha)) \<and>
    check_opa (h_io H) (h_env H) (copy_file (dump_path (h_env H) ''rf_opa_sender_coeffs.txt'') fs_s fs_r)
      [''cg_check_opa'', dump_path (h_env H) ''rf_opa_sender_coeffs.txt'', dump_path (h_env H) ''rf_opa_receiver_output.txt''] = Inr 0"
proof -
  let ?env = "h_env H" and ?q = "h_q H" and ?x = "map (\<lambda>v. v mod h_q H) x" and ?b = "map (\<lambda>v. v mod h_q H) b"
  let ?a = "random_poly d (\<lambda>k. rng k ?q)"
  have small: "cg_validate_count ?env (d + 1) False = Inr ()"
    by (rule count_below[OF assms(7)]) simp_all
  have short: "length ?x < 2 ^ 31" "length ?b < 2 ^ 31" "length ?a < 2 ^ 31"
    using count_fits[OF assms(7)] assms(9,11) by (simp_all add: random_poly_def)
  obtain alpha t u r s where run: "rf_opa_eval_points ?env n ?q = Inr alpha" "length alpha = n"
    "rf_net ?env (h_digest H) (h_disc H) (h_cs H) f g ord1 ord2 ord3 t u r s"
    "rf_opa_receive_with_q (h_cfg H) (h_digest H) (h_cs H) sk rx n ?x ?q r = Some (Inr (\<lparr> or_alpha = alpha,
      or_input_evals = map (\<lambda>t. peval ?x t mod ?q) alpha, or_y_vals = opa_values ?q ?b ?a ?x alpha, or_q = ?q \<rparr>, t))"
    "rf_opa_send_with_q (h_cfg H) (h_digest H) (h_disc H) (h_cs H) rs n ?b ?a ?q s = Inr (\<lparr> os_alpha = alpha,
      os_b_vals = map (\<lambda>t. peval ?b t mod ?q) alpha, os_a_vals = map (\<lambda>t. peval ?a t mod ?q) alpha, os_q = ?q \<rparr>, u)"
    using rf_opa_correct[OF assms(1,2) short] by blast
  let ?y = "opa_values ?q ?b ?a ?x alpha"
  have ly: "length alpha = length ?y"
    by (simp add: opa_values_def)
  obtain fs_r where r: "timed H ''opa_receiver'' (write_opa_receiver_dump (h_io H) ?env ''rf_opa_receiver_output.txt'' ?q ?x alpha ?y) fs = Inr fs_r"
    "fs_text fs_r (dump_path ?env ''rf_opa_receiver_output.txt'') = Some (opa_receiver_text (h_io H) ?q ?x alpha ?y)"
    by (rule opa_dump_receiver[OF assms(4) ly])
  obtain fs_s where s: "timed H ''opa_sender'' (write_opa_sender_coeffs (h_io H) ?env ''rf_opa_sender_coeffs.txt'' ?q ?b ?a) fs = Inr fs_s"
    "fs_text fs_s (dump_path ?env ''rf_opa_sender_coeffs.txt'') = Some (opa_sender_text (h_io H) ?q ?b ?a)"
    by (rule opa_dump_sender[OF assms(4)])
  have "cg_rf_opa_receiver H sk rx [''cg_rf_opa_receiver'', nt, dt, ''--input-file'', xf] fs r = Some (Inr (0, fs_r, Some t))"
    unfolding cg_rf_opa_receiver_def rf_opa_receive_def
    by (rule run_program_Go[OF opa_receiver_args_file[OF assms(3,5,6) small assms(8,9)]])
      (use run(4) r(1) in \<open>simp_all only: prod.case opa_result.simps\<close>, simp)
  moreover have "cg_rf_opa_sender H rs rng [''cg_rf_opa_sender'', nt, dt, ''--input-file'', sf] fs s = Some (Inr (0, fs_s, Some u))"
    unfolding cg_rf_opa_sender_def
    by (rule run_program_Go[OF opa_sender_args_file[OF assms(3,5,6,7,10,11)]])
      (use run(5) s(1) in \<open>simp_all only: prod.case opa_send_evals.simps\<close>, simp)
  moreover have "check_opa (h_io H) ?env (copy_file (dump_path ?env ''rf_opa_sender_coeffs.txt'') fs_s fs_r)
      [''cg_check_opa'', dump_path ?env ''rf_opa_sender_coeffs.txt'', dump_path ?env ''rf_opa_receiver_output.txt''] = Inr 0"
  proof (subst check_opa_texts[where b = ?b and a = ?a and x = ?x and alpha = alpha and y = ?y and q = ?q])
    show "\<forall>m \<in> {length ?b, length ?a, length ?x, length alpha}. cg_validate_count ?env m False = Inr ()"
      using assms(7,9,11) small parsed_count[OF assms(5)] run(2) by (simp add: random_poly_def)
  qed (use assms(2,3) ly r(2) s(2) opa_outputs_expected[of _ alpha ?q ?b ?a ?x] in \<open>auto simp: points_ok_def\<close>)
  ultimately show ?thesis
    using run(1-3) r(2) by blast
qed

lemma session_two: "cg_parse_size session_env (Some ''1'') name True 0 = Inr 1"
  by (simp add: cg_parse_size_def session_max_items cg_parse_u64_def strtoull_def detect_base_def is_digit_def in_base_def digit_value_def size_limit_def)

definition opa_disk :: filesys where
  "opa_disk = disk_with [(''x.txt'', value_lines decimal_io [2, 1]), (''b.txt'', value_lines decimal_io [1, - 4, 7])]"

theorem rf_opa_files_checked_witness:
  "let H = demo_host session_cfg (- 23) cl23; env = session_env; out = dump_path env ''rf_opa_receiver_output.txt''; poly = dump_path env ''rf_opa_sender_coeffs.txt'' in
   \<exists>alpha t u r s fs_r fs_s. rf_net env (replicate 32 0) (- 23) cl23 demo_firewall demo_firewall [1, 0] [0, 1] [1, 0] t u r s \<and>
    rf_opa_eval_points env 3 3 = Inr alpha \<and> length alpha = 3 \<and>
    cg_rf_opa_receiver H 1 int [''cg_rf_opa_receiver'', ''3'', ''1'', ''--input-file'', ''x.txt''] opa_disk r = Some (Inr (0, fs_r, Some t)) \<and>
    cg_rf_opa_sender H int (\<lambda>k _. int k) [''cg_rf_opa_sender'', ''3'', ''1'', ''--input-file'', ''b.txt''] opa_disk s = Some (Inr (0, fs_s, Some u)) \<and>
    fs_text fs_r out = Some (opa_receiver_text decimal_io 3 (map (\<lambda>v. v mod 3) [2, 1]) alpha
      (opa_values 3 (map (\<lambda>v. v mod 3) [1, - 4, 7]) (random_poly 1 int) (map (\<lambda>v. v mod 3) [2, 1]) alpha)) \<and>
    check_opa decimal_io env (copy_file poly fs_s fs_r) [''cg_check_opa'', poly, out] = Inr 0"
proof -
  have q: "cleartext_bound cl23 = 3"
    by (simp add: cl23_def)
  show ?thesis
    using rf_opa_files_checked[of "demo_host session_cfg (- 23) cl23", simplified demo_host_fields session_cfg_env q, OF session_ready session_points
        decimal_io_documented, of opa_disk "''3''" "''1''" 1 "''x.txt''" "[2, 1]" "''b.txt''" "[1, - 4, 7]" demo_firewall demo_firewall 1 int int "\<lambda>k _. int k"]
      session_three session_two session_max_items
    by (simp add: opa_disk_def Let_def cg_validate_count_Inr)
qed

subsection \<open>Batched evaluation, checked\<close>

lemma length_draws [simp]: "length (draws rng bound n) = n"
  by (simp add: draws_def)

lemma draw_range:
  assumes "\<forall>k. 0 \<le> rng k bound \<and> rng k bound < bound" "bound \<le> q"
  shows "0 \<le> rng k bound \<and> rng k bound < (q :: int)"
  using assms(1)[THEN spec, of k] assms(2) by auto

lemma draws_range:
  assumes "\<forall>k. 0 \<le> rng k bound \<and> rng k bound < bound" "bound \<le> q"
  shows "\<forall>m \<in> set (draws rng bound n). 0 \<le> m \<and> m < q"
  using draw_range[of rng bound q, OF assms] by (auto simp: draws_def)

lemma drawn_pairs_props:
  "length (fst (drawn_pairs rng bound n)) = n" "length (snd (drawn_pairs rng bound n)) = n"
  by (simp_all add: drawn_pairs_def)

lemma drawn_pairs_range:
  assumes "\<forall>k. 0 \<le> rng k bound \<and> rng k bound < bound" "bound \<le> q"
  shows "\<forall>m \<in> set (fst (drawn_pairs rng bound n)) \<union> set (snd (drawn_pairs rng bound n)). 0 \<le> m \<and> m < q"
  using draw_range[of rng bound q, OF assms] by (auto simp: drawn_pairs_def simp del: mult_Suc_right)

lemma ole_dump_receiver:
  assumes "open_disk fs" "length x = length y"
  obtains fs' where "timed H component (write_ole_receiver_io (h_io H) (h_env H) name q x y) fs = Inr fs'"
    "fs_text fs' (dump_path (h_env H) name) = Some (ole_receiver_text (h_io H) q x y)"
proof (rule timed_dump[OF assms(1)])
  show "fs_text fs' (dump_path (h_env H) name) = Some (ole_receiver_text (h_io H) q x y)"
    if "write_ole_receiver_io (h_io H) (h_env H) name q x y fs = Inr fs'" for fs fs'
    using dump_texts(2)[OF that] by simp
qed (use dumps_open(2)[OF _ assms(2)] that in blast)+

lemma ole_dump_sender:
  assumes "open_disk fs" "length a = length b"
  obtains fs' where "timed H component (write_ole_sender_inputs (h_io H) (h_env H) name a b) fs = Inr fs'"
    "fs_text fs' (dump_path (h_env H) name) = Some (ole_sender_text (h_io H) a b)"
proof (rule timed_dump[OF assms(1)])
  show "fs_text fs' (dump_path (h_env H) name) = Some (ole_sender_text (h_io H) a b)"
    if "write_ole_sender_inputs (h_io H) (h_env H) name a b fs = Inr fs'" for fs fs'
    using dump_texts(1)[OF that] by simp
qed (use dumps_open(1)[OF _ assms(2)] that in blast)+

text \<open>The checker without blinds, on one dump and a copy of the other.\<close>

lemma ole_copied_checked:
  assumes "gmp_documented io" "cg_validate_count env n False = Inr ()" "1 < q"
    and "length a = n" "length b = n" "length x = n" "p \<noteq> p'"
    and "fs_text fs_s p = Some (ole_sender_text io a b)" "fs_text fs_r p' = Some (ole_receiver_text io q x (affine_values q a b x))"
  shows "check_batch_ole io env (copy_file p fs_s fs_r) [prog, p, p'] = Inr 0"
proof -
  have "check_batch_ole io env (copy_file p fs_s fs_r) [prog, p, p']
      = Inr (if \<forall>i < n. affine_values q a b x ! i = ((a ! i + replicate n 0 ! i) * x ! i + (b ! i + replicate n 0 ! i)) mod q then 0 else 1)"
    by (rule check_ole_texts[OF assms(1-6)]) (use assms(4-9) in \<open>simp_all add: affine_values_def\<close>)
  then show ?thesis
    using assms(4-6) by (simp add: affine_values_def)
qed

text \<open>
  C4: A run of the firewalled batch from drawn inputs to the checker. Both endpoints draw their inputs
  below the benchmark bound, the four programs run to the end, the endpoints exit with 0, and
  \<^verbatim>\<open>cg_check_batch_ole\<close> accepts the two dumps.
\<close>

theorem rf_ole_draws_checked:
  assumes "rf_ready (h_cs H) G D (h_disc H) (h_env H) (h_digest H) k ord1 ord2 ord3 n" "gmp_documented (h_io H)" "open_disk fs"
    and "cg_parse_size (h_env H) (Some nt) ''n_oles'' False 0 = Inr n" "benchmark_input_bound (h_env H) (h_q H) = Inr bound" "1 < h_q H"
    and "\<forall>i. 0 \<le> rng i bound \<and> rng i bound < bound" "\<forall>i. 0 \<le> rng' i bound \<and> rng' i bound < bound"
  shows "\<exists>t u r s fs_r fs_s. rf_net (h_env H) (h_digest H) (h_disc H) (h_cs H) f g ord1 ord2 ord3 t u r s \<and>
    cg_rf_batch_ole_receiver H sk rx rng [''cg_rf_batch_ole_receiver'', nt] fs r = Some (Inr (0, fs_r, Some t)) \<and>
    cg_rf_batch_ole_sender H rs rng' [''cg_rf_batch_ole_sender'', nt] fs s = Some (Inr (0, fs_s, Some u)) \<and>
    check_batch_ole (h_io H) (h_env H) (copy_file (dump_path (h_env H) ''rf_ole_sender_inputs.txt'') fs_s fs_r)
      [''cg_check_batch_ole'', dump_path (h_env H) ''rf_ole_sender_inputs.txt'', dump_path (h_env H) ''rf_ole_receiver_io.txt''] = Inr 0"
proof -
  let ?env = "h_env H" and ?q = "h_q H" and ?x = "draws rng bound n"
  obtain a b where ab: "drawn_pairs rng' bound n = (a, b)"
    by fastforce
  have le: "bound \<le> ?q"
    by (rule benchmark_bound_le[OF assms(5)])
  have lab: "length a = n" "length b = n" "\<forall>m \<in> set ?x \<union> set b. 0 \<le> m \<and> m < ?q"
    using drawn_pairs_props[of rng' bound n] drawn_pairs_range[of rng' bound ?q n, OF assms(8) le] draws_range[of rng bound ?q n, OF assms(7) le] ab by auto
  obtain t u r s where run: "rf_net ?env (h_digest H) (h_disc H) (h_cs H) f g ord1 ord2 ord3 t u r s"
    "rf_ole_batch_receive ?env (h_digest H) (h_cs H) sk rx ?x r = Some (Inr (affine_values ?q a b ?x, t))"
    "rf_ole_batch_send ?env (h_digest H) (h_disc H) (h_cs H) rs a b s = Inr u"
    using rf_channel.run[OF assms(1) length_draws lab] by blast
  have ly: "length ?x = length (affine_values ?q a b ?x)" "length a = length b"
    using lab by (simp_all add: affine_values_def)
  obtain fs_r where r: "timed H ''batch_ole_receiver'' (write_ole_receiver_io (h_io H) ?env ''rf_ole_receiver_io.txt'' ?q ?x (affine_values ?q a b ?x)) fs = Inr fs_r"
    "fs_text fs_r (dump_path ?env ''rf_ole_receiver_io.txt'') = Some (ole_receiver_text (h_io H) ?q ?x (affine_values ?q a b ?x))"
    by (rule ole_dump_receiver[OF assms(3) ly(1)])
  obtain fs_s where s: "timed H ''batch_ole_sender'' (write_ole_sender_inputs (h_io H) ?env ''rf_ole_sender_inputs.txt'' a b) fs = Inr fs_s"
    "fs_text fs_s (dump_path ?env ''rf_ole_sender_inputs.txt'') = Some (ole_sender_text (h_io H) a b)"
    by (rule ole_dump_sender[OF assms(3) ly(2)])
  have "cg_rf_batch_ole_receiver H sk rx rng [''cg_rf_batch_ole_receiver'', nt] fs r = Some (Inr (0, fs_r, Some t))"
    unfolding cg_rf_batch_ole_receiver_def
    by (rule run_program_Go[where i = ?x]) (use run(2) r(1) in \<open>simp_all add: size_arg_def assms(4) ole_receiver_input_def assms(5)\<close>)
  moreover have "cg_rf_batch_ole_sender H rs rng' [''cg_rf_batch_ole_sender'', nt] fs s = Some (Inr (0, fs_s, Some u))"
    unfolding cg_rf_batch_ole_sender_def
    by (rule run_program_Go[where i = "(a, b)"])
      (use sending_Inr[OF run(3)] s(1) in \<open>simp_all add: size_arg_def assms(4) ole_sender_input_def assms(5) ab\<close>)
  moreover have "check_batch_ole (h_io H) ?env (copy_file (dump_path ?env ''rf_ole_sender_inputs.txt'') fs_s fs_r)
      [''cg_check_batch_ole'', dump_path ?env ''rf_ole_sender_inputs.txt'', dump_path ?env ''rf_ole_receiver_io.txt''] = Inr 0"
    by (rule ole_copied_checked[OF assms(2) parsed_count[OF assms(4)] assms(6) lab(1,2) length_draws _ s(2) r(2)]) simp
  ultimately show ?thesis
    using run(1) by blast
qed

theorem rf_ole_draws_checked_witness:
  "let H = demo_host session_cfg (- 23) cl23; env = session_env; out = dump_path env ''rf_ole_receiver_io.txt''; inp = dump_path env ''rf_ole_sender_inputs.txt'' in
   \<exists>t u r s fs_r fs_s. rf_net env (replicate 32 0) (- 23) cl23 demo_firewall demo_firewall [1, 0] [0, 1] [1, 0] t u r s \<and>
    cg_rf_batch_ole_receiver H 1 int (\<lambda>k b. int k mod b) [''cg_rf_batch_ole_receiver'', ''3''] empty_disk r = Some (Inr (0, fs_r, Some t)) \<and>
    cg_rf_batch_ole_sender H int (\<lambda>k b. 2 * int k mod b) [''cg_rf_batch_ole_sender'', ''3''] empty_disk s = Some (Inr (0, fs_s, Some u)) \<and>
    check_batch_ole decimal_io env (copy_file inp fs_s fs_r) [''cg_check_batch_ole'', inp, out] = Inr 0"
proof -
  have q: "cleartext_bound cl23 = 3"
    by (simp add: cl23_def)
  have pow: "cg_pow2_mpz 128 = 2 ^ 128"
    by (simp add: cg_pow2_mpz_def upt_rec)
  have "benchmark_input_bound session_env 3 = Inr 3"
    by (simp add: benchmark_input_bound_def cg_env_size_def cg_config_size_def env_value_def session_env_def pow)
  then show ?thesis
    using rf_ole_draws_checked[of "demo_host session_cfg (- 23) cl23", simplified demo_host_fields session_cfg_env q, OF session_ready
        decimal_io_documented open_empty_disk session_three, of 3 "\<lambda>k b. int k mod b" "\<lambda>k b. 2 * int k mod b" demo_firewall demo_firewall 1 int int]
    by (simp add: Let_def)
qed

end
