(* ===== verification/CG_SetPrograms.thy ===== *)
theory CG_SetPrograms
  imports CG_Programs
begin

text \<open>
  The set intersection programs from their command line to their exit: one-way intersection
  (\<^verbatim>\<open>cg_psi_receiver.cpp\<close>, \<^verbatim>\<open>cg_psi_sender.cpp\<close>, \<^verbatim>\<open>cg_rf_psi_receiver.cpp\<close>, \<^verbatim>\<open>cg_rf_psi_sender.cpp\<close>), two-way
  intersection in the clear (\<^verbatim>\<open>cg_psi2_receiver.cpp\<close>, \<^verbatim>\<open>cg_psi2_sender.cpp\<close>) and the two endpoints of the
  encrypted reveal (\<^verbatim>\<open>cg_rf_psi2_reveal_sender.cpp\<close>, \<^verbatim>\<open>cg_rf_psi2_reveal_receiver.cpp\<close>), with their argument
  loops, the three sources of a set and the files they leave. Printing is left out.
\<close>

subsection \<open>Argument loops\<close>

text \<open>The first loop: every argument that is followed by another one may be an option name; the last one wins.\<close>

fun last_option :: "string \<Rightarrow> string list \<Rightarrow> string \<Rightarrow> string" where
  "last_option name (arg # v # rest) old = last_option name (v # rest) (if arg = name then v else old)"
| "last_option name args old = old"

text \<open>
  The second loop, over listed elements: an option in \<open>skip\<close> is passed over with its value, one in
  \<open>stop\<close> ends the loop and its value is the second component.
\<close>

fun listed_elements :: "string list \<Rightarrow> string list \<Rightarrow> string list \<Rightarrow> string list \<times> string option" where
  "listed_elements stop skip [] = ([], None)"
| "listed_elements stop skip [arg] = ([arg], None)"
| "listed_elements stop skip (arg # v # rest) =
     (if arg \<in> set stop then ([], Some v)
      else if arg \<in> set skip then listed_elements stop skip rest
      else case listed_elements stop skip (v # rest) of (elems, port) \<Rightarrow> (arg # elems, port))"

text \<open>
  The set of a party: from a file, drawn together with the other party's set from a public seed, or
  listed. \<open>first\<close> says whether the party is A. The arguments start with the mode or the first element.
\<close>

definition random_set :: "host \<Rightarrow> bool \<Rightarrow> nat \<Rightarrow> string \<Rightarrow> string list \<Rightarrow> int list result" where
  "random_set H first m_other seed_name args =
     bind_r (size_arg (h_env H) args 1 ''count'') (\<lambda>m_own.
     bind_r (if length args > 2 \<and> take 2 (args ! 2) \<noteq> ''--'' then cg_parse_u64 (Some (args ! 2)) seed_name 10 else Inr 42) (\<lambda>seed.
     bind_r (make_random_psi_sets_full_field (h_gen H) (h_env H) (if first then m_own else m_other) (if first then m_other else m_own)
         (of_nat seed) (h_q H) [] []) (\<lambda>(set_A, set_B).
     Inr (if first then set_A else set_B))))"

definition set_input ::
  "host \<Rightarrow> filesys \<Rightarrow> string \<Rightarrow> bool \<Rightarrow> nat \<Rightarrow> string \<Rightarrow> (string list \<Rightarrow> string list) \<Rightarrow> string list \<Rightarrow> int list args result" where
  "set_input H fs role first m_other seed_name elements args =
     (if hd args = ''--input-file'' then
        (if length args < 2 then Inr (Exit 2)
         else bind_r (read_mpz_list_file (h_io H) (h_env H) fs (args ! 1) (h_q H) role) (\<lambda>s. Inr (Go s)))
      else if hd args = ''--random'' then bind_r (random_set H first m_other seed_name args) (\<lambda>s. Inr (Go s))
      else bind_r (map_r (mpz_of_text (h_io H)) (elements args)) (\<lambda>s. Inr (Go s)))"

definition listed_mode :: "string list \<Rightarrow> bool" where
  "listed_mode args \<longleftrightarrow> hd args \<noteq> ''--input-file'' \<and> hd args \<noteq> ''--random''"

text \<open>The port of the direct programs: in the listed mode the loop over the elements has the last word.\<close>

definition psi_port :: "env \<Rightarrow> string list \<Rightarrow> string list \<Rightarrow> string" where
  "psi_port env skip args =
     (case (if listed_mode args then snd (listed_elements [''--port''] skip args) else None) of
        Some p \<Rightarrow> p
      | None \<Rightarrow> last_option ''--port'' args (ope_port_rec env))"

subsection \<open>One-way intersection\<close>

text \<open>The count of the other party and the own set.\<close>

definition psi_args ::
  "host \<Rightarrow> filesys \<Rightarrow> string \<Rightarrow> bool \<Rightarrow> string \<Rightarrow> (string list \<Rightarrow> string list) \<Rightarrow> nat \<Rightarrow> string list \<Rightarrow> (nat \<times> int list) args result" where
  "psi_args H fs role first seed_name elements i argv =
     (if length argv < i + 2 then Inr (Exit 2)
      else bind_r (cg_parse_size (h_env H) (Some (argv ! i)) ''count'' False 0) (\<lambda>m_other.
        bind_args (set_input H fs role first m_other seed_name elements (drop (i + 1) argv)) (\<lambda>own.
        Inr (Go (m_other, own)))))"

text \<open>The files of a receiver: the timing file of the option, that of the environment, the intersection.\<close>

definition psi_files :: "host \<Rightarrow> string \<Rightarrow> string list \<Rightarrow> int list \<Rightarrow> filesys \<Rightarrow> filesys result" where
  "psi_files H component args intersection fs =
     bind_r (write_protocol_timing_file (last_option ''--timing-file'' args []) component (h_ms H) fs)
       (timed H component (write_mpz_list_file (h_io H) (last_option ''--output-file'' args ''intersection_out.txt'') intersection))"

definition cg_psi_receiver :: "host \<Rightarrow> int \<Rightarrow> (nat \<Rightarrow> int) \<Rightarrow> string list \<Rightarrow> filesys \<Rightarrow> (string \<Rightarrow> byte list list) \<Rightarrow> lanes run" where
  "cg_psi_receiver H sk rx argv fs listen =
     run_program
       (psi_args H fs ''psi_receiver'' False ''argument'' (fst \<circ> listed_elements [''--port''] [''--output-file'', ''--timing-file'']) 1 argv)
       (\<lambda>(m_A, set_B). psi_receiver (h_cfg H) (h_digest H) (h_cs H) sk rx m_A set_B
          (listen (psi_port (h_env H) [''--output-file'', ''--timing-file''] (drop 2 argv))))
       (\<lambda>_. psi_files H ''psi_receiver'' (drop 2 argv)) fs"

definition cg_psi_sender :: "host \<Rightarrow> (nat \<Rightarrow> int) \<Rightarrow> (nat \<Rightarrow> int \<Rightarrow> int) \<Rightarrow> string list \<Rightarrow> filesys \<Rightarrow> (string \<Rightarrow> string \<Rightarrow> lanes) \<Rightarrow> lanes run" where
  "cg_psi_sender H rs rng argv fs dial =
     run_program
       (psi_args H fs ''psi_sender'' True ''argument'' (fst \<circ> listed_elements [''--port''] [''--input-file'']) 2 argv)
       (\<lambda>(m_B, set_A). sending (psi_sender (h_cfg H) (h_digest H) (h_disc H) (h_cs H) rs (\<lambda>k. rng k (h_q H)) m_B set_A
          (dial (argv ! 1) (psi_port (h_env H) [''--input-file''] (drop 3 argv)))))
       (\<lambda>_ _. timed H ''psi_sender'' Inr) fs"

definition cg_rf_psi_receiver :: "host \<Rightarrow> int \<Rightarrow> (nat \<Rightarrow> int) \<Rightarrow> string list \<Rightarrow> filesys \<Rightarrow> byte list list \<Rightarrow> lanes run" where
  "cg_rf_psi_receiver H sk rx argv fs conns =
     run_program
       (psi_args H fs ''psi_receiver'' False ''integer'' (fst \<circ> listed_elements [] [''--output-file'', ''--timing-file'']) 1 argv)
       (\<lambda>(m_A, set_B). rf_psi_receiver (h_cfg H) (h_digest H) (h_cs H) sk rx m_A set_B conns)
       (\<lambda>_. psi_files H ''psi_receiver'' (drop 2 argv)) fs"

definition cg_rf_psi_sender :: "host \<Rightarrow> (nat \<Rightarrow> int) \<Rightarrow> (nat \<Rightarrow> int \<Rightarrow> int) \<Rightarrow> string list \<Rightarrow> filesys \<Rightarrow> lanes \<Rightarrow> lanes run" where
  "cg_rf_psi_sender H rs rng argv fs rx_lanes =
     run_program
       (psi_args H fs ''psi_sender'' True ''integer'' (\<lambda>args. args) 1 argv)
       (\<lambda>(m_B, set_A). sending (rf_psi_sender (h_cfg H) (h_digest H) (h_disc H) (h_cs H) rs (\<lambda>k. rng k (h_q H)) m_B set_A rx_lanes))
       (\<lambda>_ _. timed H ''psi_sender'' Inr) fs"

subsection \<open>Two-way intersection\<close>

definition psi2_reveal_port :: "env \<Rightarrow> string list \<Rightarrow> string" where
  "psi2_reveal_port env args = last_option ''--reveal-port'' args (env_or_default env ''CG_PSI2_DIRECT_REVEAL_PORT'' ''9143'')"

text \<open>Party B also writes the reveal connection, party A reads it.\<close>

definition cg_psi2_receiver ::
  "host \<Rightarrow> int \<Rightarrow> (nat \<Rightarrow> int) \<Rightarrow> string list \<Rightarrow> filesys \<Rightarrow> (string \<Rightarrow> byte list list) \<Rightarrow> (lanes \<times> string \<times> byte list) run" where
  "cg_psi2_receiver H sk rx argv fs listen =
     run_program
       (psi_args H fs ''psi2_receiver'' False ''argument''
          (fst \<circ> listed_elements [] [''--port'', ''--reveal-port'', ''--output-file'', ''--timing-file'']) 2 argv)
       (\<lambda>(m_A, set_B). map_option (\<lambda>res. bind_r res (\<lambda>(intersection, tx, reveal).
            Inr (intersection, tx, psi2_reveal_port (h_env H) (drop 3 argv), reveal)))
          (psi2_receiver (h_cfg H) (h_digest H) (h_cs H) sk rx m_A set_B
            (listen (last_option ''--port'' (drop 3 argv) (ope_port_rec (h_env H))))))
       (\<lambda>_. psi_files H ''psi2_B'' (drop 3 argv)) fs"

definition cg_psi2_sender ::
  "host \<Rightarrow> (nat \<Rightarrow> int) \<Rightarrow> (nat \<Rightarrow> int \<Rightarrow> int) \<Rightarrow> string list \<Rightarrow> filesys \<Rightarrow> (string \<Rightarrow> string \<Rightarrow> lanes) \<Rightarrow> (string \<Rightarrow> byte list) \<Rightarrow> lanes run" where
  "cg_psi2_sender H rs rng argv fs dial accept =
     run_program
       (psi_args H fs ''psi2_sender'' True ''argument''
          (fst \<circ> listed_elements [] [''--port'', ''--reveal-port'', ''--output-file'']) 2 argv)
       (\<lambda>(m_B, set_A). Some (psi2_sender (h_cfg H) (h_digest H) (h_disc H) (h_cs H) rs (\<lambda>k. rng k (h_q H)) m_B set_A
          (dial (argv ! 1) (last_option ''--port'' (drop 3 argv) (ope_port_rec (h_env H))))
          (accept (psi2_reveal_port (h_env H) (drop 3 argv)))))
       (\<lambda>_ intersection. timed H ''psi2_A''
          (write_mpz_list_file (h_io H) (last_option ''--output-file'' (drop 3 argv) ''psi2_sender_intersection.txt'') intersection)) fs"

text \<open>The endpoints of the encrypted reveal. The bound is required before the arguments are looked at.\<close>

definition cg_rf_psi2_reveal_sender :: "host \<Rightarrow> int \<Rightarrow> string list \<Rightarrow> filesys \<Rightarrow> lanes \<Rightarrow> lanes run" where
  "cg_rf_psi2_reveal_sender H sk argv fs rx_lanes =
     run_program
       (bind_r (required_env_size (h_env H) ''CG_PSI2_REVEAL_BOUND'') (\<lambda>_.
        let filter_file = last_option ''--filter-file'' (drop 1 argv) [] in
        if filter_file = [] then Inr (Exit 2)
        else bind_r (read_mpz_list_file (h_io H) (h_env H) fs filter_file (h_q H) ''psi2_reveal_sender'') (\<lambda>own. Inr (Go own))))
       (\<lambda>own. Some (rf_psi2_reveal_sender (h_env H) (h_digest H) (h_cs H) sk own rx_lanes))
       (\<lambda>_ intersection. timed H ''psi2_A''
          (write_mpz_list_file (h_io H) (last_option ''--output-file'' (drop 1 argv) ''psi2_sender_intersection.txt'') intersection)) fs"

definition cg_rf_psi2_reveal_receiver :: "host \<Rightarrow> (nat \<Rightarrow> int) \<Rightarrow> string list \<Rightarrow> filesys \<Rightarrow> byte list list \<Rightarrow> lanes run" where
  "cg_rf_psi2_reveal_receiver H rnd argv fs conns =
     run_program
       (bind_r (required_env_size (h_env H) ''CG_PSI2_REVEAL_BOUND'') (\<lambda>_.
        if length argv < 3 \<or> argv ! 1 \<noteq> ''--input-file'' then Inr (Exit 2)
        else bind_r (read_intersection_file (h_io H) (h_env H) fs (argv ! 2) (h_q H)) (\<lambda>intersection. Inr (Go intersection))))
       (\<lambda>intersection. map_option (\<lambda>res. bind_r res (\<lambda>tx. Inr ((), tx)))
          (rf_psi2_reveal_receiver (h_env H) (h_digest H) (h_disc H) (h_cs H) rnd intersection conns))
       (\<lambda>_ _. timed H ''psi2_B'' Inr) fs"

subsection \<open>From set files to the intersection file\<close>

lemma value_lines_words: "value_lines io vs = concat (map (\<lambda>v. io_print io v @ [CHR 0x0A]) vs)"
  by (simp add: value_lines_def value_line_def[abs_def])

lemma psi_args_file:
  assumes "gmp_documented (h_io H)" "cg_parse_size (h_env H) (Some m) ''count'' False 0 = Inr m_other"
    and "validate_psi_set (h_env H) own (h_q H) role' = Inr ()" "fs_text fs p = Some (value_lines (h_io H) own)"
  shows "psi_args H fs role first seed_name elements 1 [prog, m, ''--input-file'', p] = Inr (Go (m_other, own))"
proof -
  have "validate_psi_set (h_env H) own (h_q H) role = Inr ()"
    using assms(3) by (simp add: validate_psi_set_Inr)
  then have "read_mpz_list_file (h_io H) (h_env H) fs p (h_q H) role = Inr own"
    by (rule read_written_set[OF assms(1)]) (simp add: assms(4) value_lines_words)
  then show ?thesis
    using assms(2) by (simp add: psi_args_def set_input_def bind_args_def)
qed

lemma list_file_open:
  assumes "open_disk fs"
  shows "\<exists>fs'. write_mpz_list_file io p vs fs = Inr fs' \<and> open_disk fs'"
  using write_text_open[OF assms] by (simp add: write_mpz_list_file_def)

lemma list_file_text: "write_mpz_list_file io p vs fs = Inr fs' \<Longrightarrow> fs_text fs' = (fs_text fs)(p \<mapsto> value_lines io vs)"
  by (auto simp: write_mpz_list_file_def write_text_def value_lines_words split: if_splits)

lemma list_dump:
  assumes "open_disk fs"
  obtains fs' where "timed H component (write_mpz_list_file (h_io H) p vs) fs = Inr fs'" "fs_text fs' p = Some (value_lines (h_io H) vs)"
    "open_disk fs'"
proof -
  obtain fs' where t: "timed H component (write_mpz_list_file (h_io H) p vs) fs = Inr fs'" "open_disk fs'"
    using timed_open[where H = H and component = component and dump = "write_mpz_list_file (h_io H) p vs", OF assms list_file_open] by blast
  have "fs_text fs' p = Some (value_lines (h_io H) vs)"
    by (rule timed_text[OF t(1)]) (simp add: list_file_text)
  then show thesis
    using that t by blast
qed

lemma only_timed:
  assumes "open_disk fs" "env_value (h_env H) ''CG_PROTOCOL_TIMING_FILE'' \<noteq> Some p"
  obtains fs' where "timed H component Inr fs = Inr fs'" "fs_text fs' p = fs_text fs p" "open_disk fs'"
proof -
  obtain fs' where t: "write_protocol_timing_file_from_env (h_env H) component (h_ms H) fs = Inr fs'" "open_disk fs'"
    using timing_open[OF assms(1)] by blast
  have "fs_text fs' p = fs_text fs p"
    using t(1) assms(2)
    by (auto simp: write_protocol_timing_file_from_env_def write_protocol_timing_file_def write_text_def split: option.splits if_splits)
  then show thesis
    using that t by (simp add: timed_def)
qed

text \<open>The two endpoints of one-way intersection behind the firewalls, on their files.\<close>

lemma rf_psi_files:
  assumes "rf_ready (h_cs H) G D (h_disc H) (h_env H) (h_digest H) k ord1 ord2 ord3 n" "psi_ok (h_cfg H) (h_q H) (length A) (length B) n"
    and "validate_psi_set (h_env H) A (h_q H) role = Inr ()" "validate_psi_set (h_env H) B (h_q H) role = Inr ()"
    and "field_modulus (h_q H)"
    and "\<forall>b \<in> set B - set A. peval (random_poly (length B) (\<lambda>i. rng (length A + 1 + i) (h_q H))) b mod h_q H \<noteq> 0"
    and "gmp_documented (h_io H)" "open_disk fs_a" "open_disk fs_b"
    and "cg_parse_size (h_env H) (Some ma) ''count'' False 0 = Inr (length A)" "cg_parse_size (h_env H) (Some mb) ''count'' False 0 = Inr (length B)"
    and "fs_text fs_a fa = Some (value_lines (h_io H) A)" "fs_text fs_b fb = Some (value_lines (h_io H) B)"
    and "env_value (h_env H) ''CG_PROTOCOL_TIMING_FILE'' \<noteq> Some fa"
  obtains t u r s fs_r fs_s where "rf_net (h_env H) (h_digest H) (h_disc H) (h_cs H) f g ord1 ord2 ord3 t u r s"
    "cg_rf_psi_receiver H sk rx [''cg_rf_psi_receiver'', ma, ''--input-file'', fb] fs_b r = Some (Inr (0, fs_r, Some t))"
    "cg_rf_psi_sender H rs rng [''cg_rf_psi_sender'', mb, ''--input-file'', fa] fs_a s = Some (Inr (0, fs_s, Some u))"
    "fs_text fs_r ''intersection_out.txt'' = Some (value_lines (h_io H) (filter (\<lambda>b. b \<in> set A) B))" "open_disk fs_r"
    "fs_text fs_s fa = Some (value_lines (h_io H) A)" "open_disk fs_s"
proof -
  let ?env = "h_env H" and ?I = "filter (\<lambda>b. b \<in> set A) B"
  obtain t u r s where run: "rf_net ?env (h_digest H) (h_disc H) (h_cs H) f g ord1 ord2 ord3 t u r s"
    "rf_psi_receiver (h_cfg H) (h_digest H) (h_cs H) sk rx (length A) B r = Some (Inr (?I, t))"
    "rf_psi_sender (h_cfg H) (h_digest H) (h_disc H) (h_cs H) rs (\<lambda>k. rng k (h_q H)) (length B) A s = Inr u"
    using rf_psi_correct[OF assms(1-6)] by blast
  obtain fs_r where r: "timed H ''psi_receiver'' (write_mpz_list_file (h_io H) ''intersection_out.txt'' ?I) fs_b = Inr fs_r"
    "fs_text fs_r ''intersection_out.txt'' = Some (value_lines (h_io H) ?I)" "open_disk fs_r"
    by (rule list_dump[OF assms(9)])
  obtain fs_s where s: "timed H ''psi_sender'' Inr fs_a = Inr fs_s" "fs_text fs_s fa = fs_text fs_a fa" "open_disk fs_s"
    by (rule only_timed[OF assms(8,14)])
  have "cg_rf_psi_receiver H sk rx [''cg_rf_psi_receiver'', ma, ''--input-file'', fb] fs_b r = Some (Inr (0, fs_r, Some t))"
    unfolding cg_rf_psi_receiver_def
    by (rule run_program_Go[OF psi_args_file[OF assms(7,10,4,13)]])
      (use run(2) r(1) in \<open>simp_all add: psi_files_def write_protocol_timing_file_def\<close>)
  moreover have "cg_rf_psi_sender H rs rng [''cg_rf_psi_sender'', mb, ''--input-file'', fa] fs_a s = Some (Inr (0, fs_s, Some u))"
    unfolding cg_rf_psi_sender_def
    by (rule run_program_Go[OF psi_args_file[OF assms(7,11,3,12)]]) (use sending_Inr[OF run(3)] s(1) in simp_all)
  ultimately show thesis
    using that run(1) r(2,3) s(2,3) assms(12) by simp
qed

lemma read_intersection_written:
  assumes "gmp_documented io" "fs_text fs p = Some (value_lines io vs)" "distinct vs" "set vs \<subseteq> {0..<q}"
    and "cg_max_items env = Inr m" "length vs \<le> m"
  shows "read_intersection_file io env fs p q = Inr vs"
proof -
  let ?conv = "\<lambda>tok. bind_r (mpz_of_text io tok) (\<lambda>x.
    bind_r (throw_if (x < 0 \<or> q \<le> x) (Runtime_error ''psi2_reveal_receiver: input value outside plaintext field'')) (\<lambda>_. Inr x))"
  have "?conv (map (io_print io) vs ! i) = Inr (vs ! i)" if "i < length (map (io_print io) vs)" for i
  proof -
    have "0 \<le> vs ! i" "vs ! i < q"
      using that assms(4) nth_mem[of i vs] by (auto simp: subset_iff)
    then show ?thesis
      using that assms(1) by simp
  qed
  then have "read_values env ?conv (map (io_print io) vs) = Inr ([] @ vs)"
    unfolding read_values_def by (intro read_values_all[OF assms(5)]) (use assms(6) in simp_all)
  moreover have "validate_psi_set env vs q ''psi2_reveal_receiver'' = Inr ()" if "vs \<noteq> []"
    using that assms(3-6) by (simp add: validate_psi_set_Inr)
  ultimately show ?thesis
    by (simp add: read_intersection_file_def assms(2) value_lines_words written_words[OF assms(1)] del: mpz_of_printed)
qed

lemma reveal_args_filter:
  "last_option ''--filter-file'' (drop 1 [prog, ''--filter-file'', fa]) [] = fa"
  "last_option ''--output-file'' (drop 1 [prog, ''--filter-file'', fa]) out = out"
  by simp_all

text \<open>The four programs of the reveal, on the files of the one-way protocol.\<close>

lemma rf_reveal_files:
  assumes "params_ok (h_cs K) G D (h_disc K)" "endpoint (h_env K) (G \<union> D) m" "rf_transport_lanes (h_env K) = Inr k"
    and "required_env_size (h_env K) ''CG_PSI2_REVEAL_BOUND'' = Inr m" "length (h_digest K) = 32"
    and "connect_rf_lanes (h_env K) (h_digest K) k m = Inr hs" "arrival_order k ord1" "arrival_order k ord2" "arrival_order k ord3"
    and "gmp_documented (h_io K)" "open_disk fs_a" "open_disk fs_b" "fa \<noteq> []"
    and "validate_psi_set (h_env K) A (h_q K) role = Inr ()" "set vs \<subseteq> set A" "distinct vs" "length vs \<le> m"
    and "0 \<notin> set A \<or> 0 \<in> set vs \<or> length vs = m"
    and "fs_text fs_a fa = Some (value_lines (h_io K) A)" "fs_text fs_b fb = Some (value_lines (h_io K) vs)"
  obtains sen_srf srf_rrf rrf_rec rec_rrf rrf_srf srf_sen fs_r fs_s where
    "cg_rf_psi2_reveal_sender K sk [''cg_rf_psi2_reveal_sender'', ''--filter-file'', fa] fs_a srf_sen = Some (Inr (0, fs_s, Some sen_srf))"
    "rf_psi2_reveal_srf (h_env K) (h_digest K) (h_disc K) (h_cs K) rho_s rnd_s rrf_srf (arrive ord3 sen_srf) = Some (Inr (srf_rrf, srf_sen))"
    "rf_psi2_reveal_rrf (h_env K) (h_digest K) (h_disc K) (h_cs K) rho_r rnd_r rec_rrf (arrive ord2 srf_rrf) = Some (Inr (rrf_rec, rrf_srf))"
    "cg_rf_psi2_reveal_receiver K rnd [''cg_rf_psi2_reveal_receiver'', ''--input-file'', fb] fs_b (arrive ord1 rrf_rec) = Some (Inr (0, fs_r, Some rec_rrf))"
    "fs_text fs_s ''psi2_sender_intersection.txt'' = Some (value_lines (h_io K) vs)"
proof -
  let ?env = "h_env K" and ?q = "h_q K"
  obtain M where M: "cg_max_items ?env = Inr M" "length A \<le> M" "A \<noteq> []" "distinct A" "set A \<subseteq> {0..<?q}"
    using assms(14) by (auto simp: validate_psi_set_Inr)
  have "length vs \<le> length A"
    using card_mono[OF _ assms(15)] distinct_card[OF assms(16)] distinct_card[OF M(4)] by simp
  then have vs: "set vs \<subseteq> {0..<?q}" "length vs \<le> M" "\<forall>v \<in> set vs. 0 \<le> v \<and> v < ?q"
    using M assms(15) by auto
  have "revealed A vs m = vs"
    using assms(15,18) by (auto simp: revealed_def filter_id_conv)
  then obtain sen_srf srf_rrf rrf_rec rec_rrf rrf_srf srf_sen where run:
    "rf_psi2_reveal_sender ?env (h_digest K) (h_cs K) sk A srf_sen = Inr (vs, sen_srf)"
    "rf_psi2_reveal_srf ?env (h_digest K) (h_disc K) (h_cs K) rho_s rnd_s rrf_srf (arrive ord3 sen_srf) = Some (Inr (srf_rrf, srf_sen))"
    "rf_psi2_reveal_rrf ?env (h_digest K) (h_disc K) (h_cs K) rho_r rnd_r rec_rrf (arrive ord2 srf_rrf) = Some (Inr (rrf_rec, rrf_srf))"
    "rf_psi2_reveal_receiver ?env (h_digest K) (h_disc K) (h_cs K) rnd vs (arrive ord1 rrf_rec) = Some (Inr rec_rrf)"
    using rf_reveal_run[OF assms(1-9) vs(3) assms(16,17), of sk A rho_s rnd_s rho_r rnd_r rnd] by metis
  have rA: "read_mpz_list_file (h_io K) ?env fs_a fa ?q ''psi2_reveal_sender'' = Inr A"
    by (rule read_written_set[OF assms(10)]) (use assms(14,19) in \<open>simp_all add: validate_psi_set_Inr value_lines_words\<close>)
  have rI: "read_intersection_file (h_io K) ?env fs_b fb ?q = Inr vs"
    by (rule read_intersection_written[OF assms(10,20,16) vs(1) M(1) vs(2)])
  obtain fs_s where s: "timed K ''psi2_A'' (write_mpz_list_file (h_io K) ''psi2_sender_intersection.txt'' vs) fs_a = Inr fs_s"
    "fs_text fs_s ''psi2_sender_intersection.txt'' = Some (value_lines (h_io K) vs)"
    using list_dump[OF assms(11)] by blast
  obtain fs_r where r: "timed K ''psi2_B'' Inr fs_b = Inr fs_r"
    using timed_open[where H = K and component = "''psi2_B''" and dump = Inr, OF assms(12)] by auto
  have "cg_rf_psi2_reveal_sender K sk [''cg_rf_psi2_reveal_sender'', ''--filter-file'', fa] fs_a srf_sen = Some (Inr (0, fs_s, Some sen_srf))"
    unfolding cg_rf_psi2_reveal_sender_def reveal_args_filter
    by (rule run_program_Go[where i = A]) (use run(1) s(1) assms(4,13) rA in simp_all)
  moreover have "cg_rf_psi2_reveal_receiver K rnd [''cg_rf_psi2_reveal_receiver'', ''--input-file'', fb] fs_b (arrive ord1 rrf_rec)
      = Some (Inr (0, fs_r, Some rec_rrf))"
    unfolding cg_rf_psi2_reveal_receiver_def
    by (rule run_program_Go[where i = vs]) (use run(4) r assms(4) rI in \<open>simp_all add: numeral_2_eq_2\<close>)
  ultimately show thesis
    using that run(2,3) s(2) by blast
qed

subsection \<open>Properties\<close>

text \<open>
  C1: Two-way intersection behind the firewalls, from the set files of both parties to party A's result
  file. In the first session party B's program reads its set and leaves the common elements in
  \<^verbatim>\<open>intersection_out.txt\<close>; in the second, with an environment of its own, it reads that file back and
  party A's program, which filters with its set file, leaves exactly the common elements in
  \<^verbatim>\<open>psi2_sender_intersection.txt\<close>. All eight programs run to the end and the endpoints exit with 0,
  under the conditions of the one-way protocol and when zero cannot be mistaken for padding.
\<close>

theorem rf_psi2_files_correct:
  assumes "rf_ready (h_cs H) G D (h_disc H) (h_env H) (h_digest H) k ord1 ord2 ord3 n" "psi_ok (h_cfg H) (h_q H) (length A) (length B) n"
    and "validate_psi_set (h_env H) A (h_q H) role = Inr ()" "validate_psi_set (h_env H) B (h_q H) role = Inr ()"
    and "field_modulus (h_q H)"
    and "\<forall>b \<in> set B - set A. peval (random_poly (length B) (\<lambda>i. rng (length A + 1 + i) (h_q H))) b mod h_q H \<noteq> 0"
    and "gmp_documented (h_io H)" "open_disk fs_a" "open_disk fs_b"
    and "cg_parse_size (h_env H) (Some ma) ''count'' False 0 = Inr (length A)" "cg_parse_size (h_env H) (Some mb) ''count'' False 0 = Inr (length B)"
    and "fs_text fs_a fa = Some (value_lines (h_io H) A)" "fs_text fs_b fb = Some (value_lines (h_io H) B)"
    and "env_value (h_env H) ''CG_PROTOCOL_TIMING_FILE'' \<noteq> Some fa" "fa \<noteq> []"
    and "h_io K = h_io H" "h_cs K = h_cs H" "validate_psi_set (h_env K) A (h_q K) role = Inr ()"
    and "params_ok (h_cs K) G D (h_disc K)" "endpoint (h_env K) (G \<union> D) m" "rf_transport_lanes (h_env K) = Inr l"
    and "required_env_size (h_env K) ''CG_PSI2_REVEAL_BOUND'' = Inr m" "length (h_digest K) = 32"
    and "connect_rf_lanes (h_env K) (h_digest K) l m = Inr hs" "arrival_order l ord4" "arrival_order l ord5" "arrival_order l ord6"
    and "card (set A \<inter> set B) \<le> m" "0 \<notin> set A \<or> 0 \<in> set B \<or> card (set A \<inter> set B) = m"
  shows "\<exists>t u r s fs_r fs_s sen_srf srf_rrf rrf_rec rec_rrf rrf_srf srf_sen fs_r' fs_s'.
    rf_net (h_env H) (h_digest H) (h_disc H) (h_cs H) f g ord1 ord2 ord3 t u r s \<and>
    cg_rf_psi_receiver H sk rx [''cg_rf_psi_receiver'', ma, ''--input-file'', fb] fs_b r = Some (Inr (0, fs_r, Some t)) \<and>
    cg_rf_psi_sender H rs rng [''cg_rf_psi_sender'', mb, ''--input-file'', fa] fs_a s = Some (Inr (0, fs_s, Some u)) \<and>
    fs_text fs_r ''intersection_out.txt'' = Some (value_lines (h_io H) (filter (\<lambda>b. b \<in> set A) B)) \<and>
    cg_rf_psi2_reveal_sender K sk' [''cg_rf_psi2_reveal_sender'', ''--filter-file'', fa] fs_s srf_sen = Some (Inr (0, fs_s', Some sen_srf)) \<and>
    rf_psi2_reveal_srf (h_env K) (h_digest K) (h_disc K) (h_cs K) rho1 rnd1 rrf_srf (arrive ord6 sen_srf) = Some (Inr (srf_rrf, srf_sen)) \<and>
    rf_psi2_reveal_rrf (h_env K) (h_digest K) (h_disc K) (h_cs K) rho2 rnd2 rec_rrf (arrive ord5 srf_rrf) = Some (Inr (rrf_rec, rrf_srf)) \<and>
    cg_rf_psi2_reveal_receiver K rnd [''cg_rf_psi2_reveal_receiver'', ''--input-file'', ''intersection_out.txt''] fs_r (arrive ord4 rrf_rec)
      = Some (Inr (0, fs_r', Some rec_rrf)) \<and>
    fs_text fs_s' ''psi2_sender_intersection.txt'' = Some (value_lines (h_io H) (filter (\<lambda>b. b \<in> set A) B))"
proof -
  let ?I = "filter (\<lambda>b. b \<in> set A) B"
  have "distinct ?I" and i: "set ?I = set A \<inter> set B"
    using assms(4) by (auto simp: validate_psi_set_Inr)
  then have I: "distinct ?I" "set ?I \<subseteq> set A" "length ?I \<le> m" "0 \<notin> set A \<or> 0 \<in> set ?I \<or> length ?I = m"
    using assms(28,29) distinct_card[of ?I] by (auto simp: i)
  obtain t u r s fs_r fs_s where one: "rf_net (h_env H) (h_digest H) (h_disc H) (h_cs H) f g ord1 ord2 ord3 t u r s"
    "cg_rf_psi_receiver H sk rx [''cg_rf_psi_receiver'', ma, ''--input-file'', fb] fs_b r = Some (Inr (0, fs_r, Some t))"
    "cg_rf_psi_sender H rs rng [''cg_rf_psi_sender'', mb, ''--input-file'', fa] fs_a s = Some (Inr (0, fs_s, Some u))"
    "fs_text fs_r ''intersection_out.txt'' = Some (value_lines (h_io H) ?I)" "open_disk fs_r"
    "fs_text fs_s fa = Some (value_lines (h_io H) A)" "open_disk fs_s"
    by (rule rf_psi_files[where rng = rng and f = f and g = g and sk = sk and rx = rx and rs = rs, OF assms(1-14)])
  obtain sen_srf srf_rrf rrf_rec rec_rrf rrf_srf srf_sen fs_r' fs_s' where two:
    "cg_rf_psi2_reveal_sender K sk' [''cg_rf_psi2_reveal_sender'', ''--filter-file'', fa] fs_s srf_sen = Some (Inr (0, fs_s', Some sen_srf))"
    "rf_psi2_reveal_srf (h_env K) (h_digest K) (h_disc K) (h_cs K) rho1 rnd1 rrf_srf (arrive ord6 sen_srf) = Some (Inr (srf_rrf, srf_sen))"
    "rf_psi2_reveal_rrf (h_env K) (h_digest K) (h_disc K) (h_cs K) rho2 rnd2 rec_rrf (arrive ord5 srf_rrf) = Some (Inr (rrf_rec, rrf_srf))"
    "cg_rf_psi2_reveal_receiver K rnd [''cg_rf_psi2_reveal_receiver'', ''--input-file'', ''intersection_out.txt''] fs_r (arrive ord4 rrf_rec)
      = Some (Inr (0, fs_r', Some rec_rrf))"
    "fs_text fs_s' ''psi2_sender_intersection.txt'' = Some (value_lines (h_io K) ?I)"
    by (rule rf_reveal_files[OF assms(19-27) _ one(7,5) assms(15,18) I(2,1,3,4), where fb = "''intersection_out.txt''" and sk = sk' and rho_s = rho1
        and rnd_s = rnd1 and rho_r = rho2 and rnd_r = rnd2 and rnd = rnd]) (use assms(7,16) one(4,6) in simp_all)
  show ?thesis
    using one(1-4) two assms(16) by (simp only: ex_simps simp_thms) blast
qed

definition two_env :: env where
  "two_env name = (if name = ''CG_PSI2_REVEAL_BOUND'' then Some ''2'' else None)"

definition two_cfg :: poly_cfg where
  "two_cfg = \<lparr> pc_env = two_env, pc_ntl = None \<rparr>"

lemma two_cfg_env [simp]: "pc_env two_cfg = two_env"
  by (simp add: two_cfg_def)

lemma two_parsed: "cg_parse_u64 (Some ''2'') lbl 10 = Inr 2"
  by (subst cg_parse_u64_decimal) (simp add: is_digit_def digit_value_def size_limit_def)

lemma two_env_config:
  "rf_transport_lanes two_env = Inr 1" "required_env_size two_env ''CG_PSI2_REVEAL_BOUND'' = Inr 2" "cg_max_items two_env = Inr (2 ^ 20)"
  "connect_rf_lanes two_env (replicate 32 0) 1 2 = Inr [send_u64 0]" "endpoint two_env (cyc_forms 7 \<union> cyc_forms 7) 2"
proof -
  have u: "[0..<1] = [0 :: nat]"
    by (simp add: upt_rec)
  have c: "rf_chunk_size two_env = Inr 64" "mpz_limit two_env = Inr 16384" "cg_validate_count two_env 2 False = Inr ()"
    by (simp_all add: rf_chunk_size_def cg_config_size_def env_value_def two_env_def mpz_limit_default cg_validate_count_def cg_max_items_def)
  show "rf_transport_lanes two_env = Inr 1"
    by (simp add: rf_transport_lanes_def cg_config_size_def env_value_def two_env_def)
  show "cg_max_items two_env = Inr (2 ^ 20)"
    by (simp add: cg_max_items_def env_value_def two_env_def)
  then show "required_env_size two_env ''CG_PSI2_REVEAL_BOUND'' = Inr 2"
    using two_parsed by (simp add: required_env_size_def two_env_def cg_parse_size_def size_limit_def)
  show "connect_rf_lanes two_env (replicate 32 0) 1 2 = Inr [send_u64 0]"
    by (simp add: connect_rf_lanes_def connect_lane_def c validate_lane_metadata_def env_value_def two_env_def u)
  show "endpoint two_env (cyc_forms 7 \<union> cyc_forms 7) 2"
    by (rule cyc_endpoint) (simp_all add: c)
qed

lemma five_max_items: "cg_max_items five_env = Inr (2 ^ 20)"
  by (simp add: cg_max_items_def env_value_def)

lemma five_two: "cg_parse_size five_env (Some ''2'') name False 0 = Inr 2"
  using two_parsed by (simp add: cg_parse_size_def five_max_items size_limit_def)

definition set_disk :: "int list \<Rightarrow> filesys" where
  "set_disk vs = disk_with [(''set.txt'', value_lines decimal_io vs)]"

theorem rf_psi2_files_correct_witness:
  "let H = demo_host five_cfg (1 - 2 ^ (2 * 7)) (cyc 7); K = demo_host two_cfg (1 - 2 ^ (2 * 7)) (cyc 7); dig = replicate 32 0; disc = 1 - 2 ^ (2 * 7) in
   \<exists>t u r s fs_r fs_s sen_srf srf_rrf rrf_rec rec_rrf rrf_srf srf_sen fs_r' fs_s'.
    rf_net five_env dig disc (cyc 7) demo_firewall demo_firewall [0] [0] [0] t u r s \<and>
    cg_rf_psi_receiver H 3 int [''cg_rf_psi_receiver'', ''2'', ''--input-file'', ''set.txt''] (set_disk [2, 3]) r = Some (Inr (0, fs_r, Some t)) \<and>
    cg_rf_psi_sender H int (\<lambda>k _. five_masks k) [''cg_rf_psi_sender'', ''2'', ''--input-file'', ''set.txt''] (set_disk [1, 2]) s = Some (Inr (0, fs_s, Some u)) \<and>
    fs_text fs_r ''intersection_out.txt'' = Some (value_lines decimal_io (filter (\<lambda>b. b \<in> set [1, 2]) [2, 3])) \<and>
    cg_rf_psi2_reveal_sender K 5 [''cg_rf_psi2_reveal_sender'', ''--filter-file'', ''set.txt''] fs_s srf_sen = Some (Inr (0, fs_s', Some sen_srf)) \<and>
    rf_psi2_reveal_srf two_env dig disc (cyc 7) 2 int rrf_srf (arrive [0] sen_srf) = Some (Inr (srf_rrf, srf_sen)) \<and>
    rf_psi2_reveal_rrf two_env dig disc (cyc 7) 3 int rec_rrf (arrive [0] srf_rrf) = Some (Inr (rrf_rec, rrf_srf)) \<and>
    cg_rf_psi2_reveal_receiver K int [''cg_rf_psi2_reveal_receiver'', ''--input-file'', ''intersection_out.txt''] fs_r (arrive [0] rrf_rec)
      = Some (Inr (0, fs_r', Some rec_rrf)) \<and>
    fs_text fs_s' ''psi2_sender_intersection.txt'' = Some (value_lines decimal_io (filter (\<lambda>b. b \<in> set [1, 2]) [2, 3]))"
proof -
  let ?H = "demo_host five_cfg (1 - 2 ^ (2 * 7)) (cyc 7)" and ?K = "demo_host two_cfg (1 - 2 ^ (2 * 7)) (cyc 7)"
  have ready: "rf_ready (h_cs ?H) (cyc_forms 7) (cyc_forms 7) (h_disc ?H) (h_env ?H) (h_digest ?H) 1 [0] [0] [0] 5"
    using five_ready by simp
  have psi: "psi_ok (h_cfg ?H) (h_q ?H) (length [1, 2 :: int]) (length [2, 3 :: int]) 5"
    using five_psi by (simp add: numeral_2_eq_2)
  have sets: "validate_psi_set (h_env ?H) [1, 2] (h_q ?H) ''psi'' = Inr ()" "validate_psi_set (h_env ?H) [2, 3] (h_q ?H) ''psi'' = Inr ()"
    "validate_psi_set (h_env ?K) [1, 2] (h_q ?K) ''psi'' = Inr ()"
    by (simp_all add: validate_psi_set_Inr five_max_items two_env_config)
  have field: "field_modulus (h_q ?H)"
    using field_7 by simp
  have "[0..<2 + 1] = [0, 1, 2 :: nat]"
    by (simp add: upt_rec)
  then have masks: "\<forall>b \<in> set [2, 3] - set [1, 2]. peval (random_poly (length [2, 3 :: int]) (\<lambda>i. five_masks (length [1, 2 :: int] + 1 + i))) b mod h_q ?H \<noteq> 0"
    by (simp add: random_poly_def five_masks_def)
  have args: "cg_parse_size (h_env ?H) (Some ''2'') ''count'' False 0 = Inr (length [1, 2 :: int])"
    "cg_parse_size (h_env ?H) (Some ''2'') ''count'' False 0 = Inr (length [2, 3 :: int])"
    using five_two by (simp_all add: numeral_2_eq_2)
  have order: "arrival_order 1 [0]"
    by (simp add: arrival_order_def lessThan_Suc)
  have params: "params_ok (h_cs ?K) (cyc_forms 7) (cyc_forms 7) (h_disc ?K)"
    using cyc_params[of 7] by simp
  have common: "card (set [1, 2 :: int] \<inter> set [2, 3]) \<le> 2"
    by simp
  show ?thesis
    using rf_psi2_files_correct[where rng = "\<lambda>k _. five_masks k", OF ready psi sets(1,2) field masks, of "set_disk [1, 2]" "set_disk [2, 3]"
        "''2''" "''2''" "''set.txt''" "''set.txt''" ?K 2 1 "[send_u64 0]" "[0]" "[0]" "[0]" demo_firewall demo_firewall 3 int int 5 2 int 3 int int]
      args sets(3) order params common two_env_config decimal_io_documented
    by (simp add: Let_def set_disk_def env_value_def del: value_lines_words)
qed

end
