(* ===== verification/CG_Pool.thy ===== *)
theory CG_Pool
  imports CG_Stream "HOL-Library.Multiset"
begin

text \<open>
  The worker pool (\<^verbatim>\<open>cg_thread_pool.hpp\<close>): one call of \<^verbatim>\<open>parallel_for\<close> as a step relation of the
  calling thread and the workers, one step for each access to shared state and one for each critical
  section. The order of the steps is free. The loop body assigns its result to its own index of a
  vector, as every body in the repository does, and is one step. Spurious wake-ups of the two
  condition variables are left out: both waits loop on their condition.
\<close>

subsection \<open>State\<close>

text \<open>
  Where a worker is: before the lock of the task queue, waiting on \<^verbatim>\<open>cv_work_\<close>, before the test of
  \<^verbatim>\<open>has_exception\<close>, before the \<^verbatim>\<open>fetch_add\<close>, in the loop over its claimed indices, in the handler, before the
  count of finished tasks.
\<close>

datatype worker = Top | Asleep | Check | Claim | Run nat nat | Caught cg_error | Leave

text \<open>The caller: before the dispatch, before \<^verbatim>\<open>notify_all\<close>, before the test of \<^verbatim>\<open>done_count\<close>, waiting on \<^verbatim>\<open>done_cv\<close>, done.\<close>

datatype 'a caller = Submit | Notify | Await | Blocked | Return "'a list result"

record 'a pool =
  p_tasks :: nat
  p_cursor :: nat
  p_done :: nat
  p_first :: "cg_error option"
  p_workers :: "worker list"
  p_caller :: "'a caller"
  p_vec :: "'a list"
  p_log :: "nat list"

text \<open>
  \<open>p_first\<close> stands for \<^verbatim>\<open>first_exception\<close> and \<^verbatim>\<open>has_exception\<close>, which are set together; \<open>p_log\<close> records the
  indices whose body has run, for the statements only.
\<close>

record 'a job =
  j_begin :: nat
  j_end :: nat
  j_chunk :: nat
  j_body :: "nat \<Rightarrow> 'a result"

definition n_tasks :: "'a job \<Rightarrow> nat \<Rightarrow> nat" where
  "n_tasks J n = min n ((j_end J - j_begin J + j_chunk J - 1) div j_chunk J)"

definition pool_start :: "'a job \<Rightarrow> nat \<Rightarrow> 'a list \<Rightarrow> 'a pool" where
  "pool_start J n v = \<lparr> p_tasks = 0, p_cursor = j_begin J, p_done = 0, p_first = None, p_workers = replicate n Top,
     p_caller = Submit, p_vec = v, p_log = [] \<rparr>"

definition wake :: "worker \<Rightarrow> worker" where
  "wake w = (if w = Asleep then Top else w)"

abbreviation at_worker :: "'a pool \<Rightarrow> nat \<Rightarrow> worker \<Rightarrow> bool" where
  "at_worker s w x \<equiv> w < length (p_workers s) \<and> p_workers s ! w = x"

abbreviation move :: "nat \<Rightarrow> worker \<Rightarrow> 'a pool \<Rightarrow> 'a pool" where
  "move w x s \<equiv> s\<lparr>p_workers := (p_workers s)[w := x]\<rparr>"

subsection \<open>Steps\<close>

inductive pool_step :: "'a job \<Rightarrow> 'a pool \<Rightarrow> 'a pool \<Rightarrow> bool" for J where
  submit: "p_caller s = Submit \<Longrightarrow>
    pool_step J s (s\<lparr>p_tasks := p_tasks s + n_tasks J (length (p_workers s)), p_caller := Notify\<rparr>)"
| notify: "p_caller s = Notify \<Longrightarrow> pool_step J s (s\<lparr>p_workers := map wake (p_workers s), p_caller := Await\<rparr>)"
| finish: "p_caller s = Await \<Longrightarrow> p_done s = n_tasks J (length (p_workers s)) \<Longrightarrow>
    pool_step J s (s\<lparr>p_caller := Return (case p_first s of None \<Rightarrow> Inr (p_vec s) | Some e \<Rightarrow> Inl e)\<rparr>)"
| block: "p_caller s = Await \<Longrightarrow> p_done s \<noteq> n_tasks J (length (p_workers s)) \<Longrightarrow> pool_step J s (s\<lparr>p_caller := Blocked\<rparr>)"
| take: "at_worker s w Top \<Longrightarrow> p_tasks s > 0 \<Longrightarrow> pool_step J s (move w Check (s\<lparr>p_tasks := p_tasks s - 1\<rparr>))"
| sleep: "at_worker s w Top \<Longrightarrow> p_tasks s = 0 \<Longrightarrow> pool_step J s (move w Asleep s)"
| proceed: "at_worker s w Check \<Longrightarrow> p_first s = None \<Longrightarrow> pool_step J s (move w Claim s)"
| give_up: "at_worker s w Check \<Longrightarrow> p_first s \<noteq> None \<Longrightarrow> pool_step J s (move w Leave s)"
| claim: "at_worker s w Claim \<Longrightarrow> p_cursor s < j_end J \<Longrightarrow>
    pool_step J s (move w (Run (p_cursor s) (min (sz_add (p_cursor s) (j_chunk J)) (j_end J)))
      (s\<lparr>p_cursor := sz_add (p_cursor s) (j_chunk J)\<rparr>))"
| exhausted: "at_worker s w Claim \<Longrightarrow> \<not> p_cursor s < j_end J \<Longrightarrow>
    pool_step J s (move w Leave (s\<lparr>p_cursor := sz_add (p_cursor s) (j_chunk J)\<rparr>))"
| body: "at_worker s w (Run i stop) \<Longrightarrow> i < stop \<Longrightarrow> j_body J i = Inr x \<Longrightarrow>
    pool_step J s (move w (Run (i + 1) stop) (s\<lparr>p_vec := (p_vec s)[i := x], p_log := p_log s @ [i]\<rparr>))"
| throw: "at_worker s w (Run i stop) \<Longrightarrow> i < stop \<Longrightarrow> j_body J i = Inl e \<Longrightarrow> pool_step J s (move w (Caught e) s)"
| again: "at_worker s w (Run i stop) \<Longrightarrow> \<not> i < stop \<Longrightarrow> pool_step J s (move w Check s)"
| catch: "at_worker s w (Caught e) \<Longrightarrow>
    pool_step J s (move w Leave (s\<lparr>p_first := (case p_first s of None \<Rightarrow> Some e | Some e' \<Rightarrow> Some e')\<rparr>))"
| leave: "at_worker s w Leave \<Longrightarrow>
    pool_step J s (move w Top (s\<lparr>p_done := p_done s + 1,
      p_caller := (if p_done s + 1 = n_tasks J (length (p_workers s)) \<and> p_caller s = Blocked then Await else p_caller s)\<rparr>))"

text \<open>
  The two cases that do not use the workers, and the size of the process-wide pool: \<open>hw\<close> is the number
  of hardware threads.
\<close>

definition parallel_for_inline :: "'a job \<Rightarrow> nat \<Rightarrow> 'a list \<Rightarrow> 'a list result option" where
  "parallel_for_inline J n v =
     (if j_end J \<le> j_begin J then Some (Inr v)
      else if n = 0 then Some (par_fill (j_body J) (j_begin J) (j_end J) v) else None)"

definition pool_job :: "nat \<Rightarrow> nat \<Rightarrow> nat \<Rightarrow> (nat \<Rightarrow> 'a result) \<Rightarrow> 'a job" where
  "pool_job b e chunk_size f = \<lparr> j_begin = b, j_end = e, j_chunk = (if chunk_size = 0 then 1 else chunk_size), j_body = f \<rparr>"

definition thread_pool_size :: "nat \<Rightarrow> nat \<Rightarrow> nat result" where
  "thread_pool_size n_threads hw =
     (let n = (if n_threads = 0 then hw else n_threads) in
      if n > 256 then Inl (Runtime_error ''too many worker threads'') else Inr n)"

definition global_pool_size :: "env \<Rightarrow> nat \<Rightarrow> nat result" where
  "global_pool_size env hw =
     bind_r (case env_value env ''CG_RF_THREADS'' of
         Some v \<Rightarrow> cg_parse_size env (Some v) ''CG_RF_THREADS'' False 256
       | None \<Rightarrow> Inr (if hw = 0 then 1 else hw)) (\<lambda>n. thread_pool_size n hw)"

inductive_cases pool_stepE: "pool_step J s s'"

subsection \<open>Counting over the workers\<close>

definition tot :: "(worker \<Rightarrow> int) \<Rightarrow> worker list \<Rightarrow> int" where
  "tot g ws = sum_list (map g ws)"

lemma tot_update [simp]: "w < length ws \<Longrightarrow> tot g (ws[w := x]) = tot g ws + g x - g (ws ! w)"
proof (induction ws arbitrary: w)
  case (Cons y ws)
  then show ?case
    by (cases w) (simp_all add: tot_def)
qed simp

lemma tot_wake [simp]: "g Top = g Asleep \<Longrightarrow> tot g (map wake ws) = tot g ws"
  by (induction ws) (auto simp: tot_def wake_def)

lemma tot_nonneg: "(\<And>x. 0 \<le> g x) \<Longrightarrow> 0 \<le> tot g ws"
  by (induction ws) (simp_all add: tot_def)

lemma tot_member: "(\<And>x. 0 \<le> g x) \<Longrightarrow> w < length ws \<Longrightarrow> g (ws ! w) \<le> tot g ws"
proof (induction ws arbitrary: w)
  case (Cons y ws)
  then show ?case
    using tot_nonneg[of g ws] by (cases w) (auto simp: tot_def intro: add_increasing)
qed simp

lemma tot_replicate: "tot g (replicate n x) = int n * g x"
  by (simp add: tot_def sum_list_replicate)

definition busy :: "worker \<Rightarrow> int" where
  "busy x = (case x of Top \<Rightarrow> 0 | Asleep \<Rightarrow> 0 | _ \<Rightarrow> 1)"

definition asleep :: "worker \<Rightarrow> int" where
  "asleep x = (if x = Asleep then 1 else 0)"

definition leaving :: "worker \<Rightarrow> int" where
  "leaving x = (if x = Leave then 1 else 0)"

definition caught :: "worker \<Rightarrow> int" where
  "caught x = (case x of Caught e \<Rightarrow> 1 | _ \<Rightarrow> 0)"

definition owns :: "nat \<Rightarrow> worker \<Rightarrow> int" where
  "owns i x = (case x of Run a b \<Rightarrow> (if a \<le> i \<and> i < b then 1 else 0) | _ \<Rightarrow> 0)"

lemmas weights = busy_def asleep_def leaving_def caught_def owns_def

lemma weights_nonneg: "0 \<le> busy x" "0 \<le> asleep x" "0 \<le> leaving x" "0 \<le> caught x" "0 \<le> owns i x"
  by (auto simp: weights split: worker.splits)

lemma asleep_wake [simp]: "tot asleep (map wake ws) = 0"
  by (induction ws) (auto simp: tot_def wake_def asleep_def)

subsection \<open>Invariant\<close>

definition job_ok :: "'a job \<Rightarrow> nat \<Rightarrow> 'a list \<Rightarrow> bool" where
  "job_ok J n v \<longleftrightarrow> 0 < n \<and> j_begin J < j_end J \<and> 0 < j_chunk J \<and> j_end J \<le> length v \<and>
     j_end J + j_chunk J * (n + 2) < size_limit"

definition failed :: "'a pool \<Rightarrow> bool" where
  "failed s \<longleftrightarrow> p_first s \<noteq> None \<or> 0 < tot caught (p_workers s)"

text \<open>Every task is in the queue, with a worker, or counted.\<close>

definition tasks_inv :: "'a job \<Rightarrow> nat \<Rightarrow> 'a pool \<Rightarrow> bool" where
  "tasks_inv J n s \<longleftrightarrow> length (p_workers s) = n \<and>
     int (p_tasks s) + tot busy (p_workers s) + int (p_done s) = (if p_caller s = Submit then 0 else int (n_tasks J n))"

text \<open>The cursor does not wrap: each task adds at most once after the end is reached.\<close>

definition cursor_inv :: "'a job \<Rightarrow> 'a pool \<Rightarrow> bool" where
  "cursor_inv J s \<longleftrightarrow> j_begin J \<le> p_cursor s \<and>
     int (p_cursor s) < int (j_end J) + int (j_chunk J) * (1 + int (p_done s) + tot leaving (p_workers s))"

text \<open>
  An index below the cursor that is neither in the log nor claimed by a worker was dropped; indices are
  dropped only after an exception.
\<close>

definition dropped :: "'a job \<Rightarrow> 'a pool \<Rightarrow> nat \<Rightarrow> int" where
  "dropped J s i = (if j_begin J \<le> i \<and> i < min (p_cursor s) (j_end J) then 1 else 0)
     - int (count_list (p_log s) i) - tot (owns i) (p_workers s)"

definition owner_inv :: "'a job \<Rightarrow> 'a pool \<Rightarrow> bool" where
  "owner_inv J s \<longleftrightarrow> (\<forall>i. 0 \<le> dropped J s i \<and> (\<not> failed s \<longrightarrow> dropped J s i = 0))"

definition error_inv :: "'a job \<Rightarrow> 'a pool \<Rightarrow> bool" where
  "error_inv J s \<longleftrightarrow> (\<forall>e. p_first s = Some e \<or> Caught e \<in> set (p_workers s) \<longrightarrow>
     (\<exists>i. j_begin J \<le> i \<and> i < j_end J \<and> j_body J i = Inl e))"

definition vec_inv :: "'a job \<Rightarrow> 'a list \<Rightarrow> 'a pool \<Rightarrow> bool" where
  "vec_inv J v s \<longleftrightarrow> length (p_vec s) = length v \<and>
     (\<forall>i. (i \<in> set (p_log s) \<longrightarrow> j_body J i = Inr (p_vec s ! i)) \<and> (i \<notin> set (p_log s) \<longrightarrow> p_vec s ! i = v ! i))"

definition exit_inv :: "'a job \<Rightarrow> 'a pool \<Rightarrow> bool" where
  "exit_inv J s \<longleftrightarrow> (0 < int (p_done s) + tot leaving (p_workers s) \<longrightarrow> j_end J \<le> p_cursor s \<or> failed s)"

text \<open>No wake-up is lost.\<close>

definition wake_inv :: "'a job \<Rightarrow> nat \<Rightarrow> 'a pool \<Rightarrow> bool" where
  "wake_inv J n s \<longleftrightarrow> (p_caller s \<notin> {Submit, Notify} \<and> 0 < p_tasks s \<longrightarrow> tot asleep (p_workers s) = 0) \<and>
     (p_caller s = Blocked \<longrightarrow> p_done s \<noteq> n_tasks J n)"

definition outcome_ok :: "'a job \<Rightarrow> 'a list \<Rightarrow> 'a list result \<Rightarrow> bool" where
  "outcome_ok J v res = (case res of
      Inr v' \<Rightarrow> par_fill (j_body J) (j_begin J) (j_end J) v = Inr v'
    | Inl e \<Rightarrow> (\<exists>i. j_begin J \<le> i \<and> i < j_end J \<and> j_body J i = Inl e))"

definition result_inv :: "'a job \<Rightarrow> nat \<Rightarrow> 'a list \<Rightarrow> 'a pool \<Rightarrow> bool" where
  "result_inv J n v s \<longleftrightarrow> (\<forall>res. p_caller s = Return res \<longrightarrow>
     outcome_ok J v res \<and> p_done s = n_tasks J n \<and> (\<forall>v'. res = Inr v' \<longrightarrow> p_first s = None))"

definition pool_inv :: "'a job \<Rightarrow> nat \<Rightarrow> 'a list \<Rightarrow> 'a pool \<Rightarrow> bool" where
  "pool_inv J n v s \<longleftrightarrow> tasks_inv J n s \<and> cursor_inv J s \<and> owner_inv J s \<and> error_inv J s \<and> vec_inv J v s \<and> exit_inv J s \<and>
     wake_inv J n s \<and> result_inv J n v s"

lemma pool_invD:
  assumes "pool_inv J n v s"
  shows "tasks_inv J n s" "cursor_inv J s" "owner_inv J s" "error_inv J s" "vec_inv J v s" "exit_inv J s" "wake_inv J n s" "result_inv J n v s"
  using assms by (simp_all add: pool_inv_def)

lemma n_tasks_pos: "job_ok J n v \<Longrightarrow> 0 < n_tasks J n \<and> n_tasks J n \<le> n"
  by (auto simp: job_ok_def n_tasks_def div_greater_zero_iff)

lemma pool_inv_start:
  assumes "job_ok J n v"
  shows "pool_inv J n v (pool_start J n v)"
  using assms
  by (auto simp: pool_inv_def pool_start_def tasks_inv_def cursor_inv_def owner_inv_def dropped_def failed_def error_inv_def vec_inv_def
      exit_inv_def wake_inv_def result_inv_def tot_replicate weights job_ok_def)

lemma step_tasks: "pool_step J s s' \<Longrightarrow> tasks_inv J n s \<Longrightarrow> tasks_inv J n s'"
  by (erule pool_stepE) (auto simp: tasks_inv_def busy_def of_nat_diff)

lemma step_wake: "pool_step J s s' \<Longrightarrow> tasks_inv J n s \<Longrightarrow> wake_inv J n s \<Longrightarrow> wake_inv J n s'"
  by (erule pool_stepE) (auto simp: tasks_inv_def wake_inv_def asleep_def)

lemma tot_mono: "(\<And>x. g x \<le> h x) \<Longrightarrow> tot g ws \<le> tot h ws"
  by (simp add: tot_def sum_list_mono)

lemma left_bound:
  assumes "job_ok J n v" "tasks_inv J n s"
  shows "int (p_done s) + tot leaving (p_workers s) \<le> int n"
proof -
  have "tot leaving (p_workers s) \<le> tot busy (p_workers s)"
    by (rule tot_mono) (auto simp: weights split: worker.splits)
  then show ?thesis
    using assms(2) n_tasks_pos[OF assms(1)] by (auto simp: tasks_inv_def split: if_splits)
qed

lemma cursor_no_wrap:
  assumes "job_ok J n v" "tasks_inv J n s" "cursor_inv J s"
  shows "sz_add (p_cursor s) (j_chunk J) = p_cursor s + j_chunk J"
proof -
  have "int (j_chunk J) * (1 + int (p_done s) + tot leaving (p_workers s)) \<le> int (j_chunk J) * (1 + int n)"
    using left_bound[OF assms(1,2)] by (intro mult_left_mono) auto
  then have "int (p_cursor s) + int (j_chunk J) < int (j_end J) + int (j_chunk J) * (2 + int n)"
    using assms(3) by (simp add: cursor_inv_def algebra_simps)
  then have "p_cursor s + j_chunk J < j_end J + j_chunk J * (n + 2)"
    by (simp add: algebra_simps flip: of_nat_add of_nat_mult)
  then show ?thesis
    using assms(1) by (intro sz_add_exact) (simp add: job_ok_def)
qed

lemma step_cursor:
  assumes "pool_step J s s'" "job_ok J n v" "tasks_inv J n s" "cursor_inv J s"
  shows "cursor_inv J s'"
proof -
  note w = cursor_no_wrap[OF assms(2-4)]
  have c: "0 < j_chunk J" "j_begin J < j_end J"
    using assms(2) by (simp_all add: job_ok_def)
  have pos: "0 \<le> int (j_chunk J) * (int (p_done s) + tot leaving (p_workers s))"
    using weights_nonneg(3) by (intro mult_nonneg_nonneg add_nonneg_nonneg tot_nonneg) auto
  show ?thesis
    using assms(1,4) c pos by (elim pool_stepE) (auto simp: cursor_inv_def leaving_def w algebra_simps)
qed

lemma failed_simps: "failed s \<longleftrightarrow> p_first s \<noteq> None \<or> tot caught (p_workers s) > 0"
  by (simp add: failed_def)

lemma caught_nonneg: "0 \<le> tot caught ws"
  by (rule tot_nonneg) (rule weights_nonneg)

text \<open>An exception, once raised, stays known.\<close>

lemma failed_stays: "pool_step J s s' \<Longrightarrow> failed s \<Longrightarrow> failed s'"
  by (erule pool_stepE) (auto simp: failed_def caught_def split: option.splits)

lemma step_exit:
  assumes "pool_step J s s'" "job_ok J n v" "tasks_inv J n s" "cursor_inv J s" "exit_inv J s"
  shows "exit_inv J s'"
proof -
  note w = cursor_no_wrap[OF assms(2-4)]
  have f: "failed s \<Longrightarrow> failed s'"
    by (rule failed_stays[OF assms(1)])
  have n: "0 \<le> tot leaving (p_workers s)"
    by (rule tot_nonneg) (rule weights_nonneg)
  show ?thesis
    using assms(1,5) f n by (elim pool_stepE) (auto simp: exit_inv_def leaving_def w failed_def caught_def split: option.splits)
qed

lemma owner_step_dropped:
  assumes "pool_step J s s'" "job_ok J n v" "tasks_inv J n s" "cursor_inv J s"
  shows "dropped J s i \<le> dropped J s' i \<and> (dropped J s' i = dropped J s i \<or> failed s')"
proof -
  note w = cursor_no_wrap[OF assms(2-4)]
  have c: "j_begin J \<le> p_cursor s" "0 < j_chunk J"
    using assms(2,4) by (simp_all add: cursor_inv_def job_ok_def)
  have n: "0 \<le> tot caught (p_workers s)"
    by (rule caught_nonneg)
  show ?thesis
    using assms(1) c n by (elim pool_stepE) (auto simp: dropped_def owns_def w failed_def caught_def)
qed

lemma step_owner:
  assumes "pool_step J s s'" "job_ok J n v" "tasks_inv J n s" "cursor_inv J s" "owner_inv J s"
  shows "owner_inv J s'"
  using owner_step_dropped[OF assms(1-4)] failed_stays[OF assms(1)] assms(5) unfolding owner_inv_def by (metis order_trans)

text \<open>A worker's next index is in range and has not run yet.\<close>

lemma owned_index:
  assumes "owner_inv J s" "at_worker s w (Run a b)" "a < b"
  shows "j_begin J \<le> a" "a < j_end J" "a < p_cursor s" "a \<notin> set (p_log s)"
proof -
  have "1 \<le> tot (owns a) (p_workers s)"
    using tot_member[of "owns a" w "p_workers s"] weights_nonneg(5) assms(2,3) by (simp add: owns_def)
  moreover have "0 \<le> dropped J s a"
    using assms(1) by (simp add: owner_inv_def)
  ultimately have d: "(if j_begin J \<le> a \<and> a < min (p_cursor s) (j_end J) then 1 else 0) \<ge> 1 + int (count_list (p_log s) a)"
    by (simp add: dropped_def)
  then show "j_begin J \<le> a" "a < j_end J" "a < p_cursor s"
    by (auto split: if_splits)
  have "count_list (p_log s) a = 0"
    using d by (auto split: if_splits)
  then show "a \<notin> set (p_log s)"
    by (simp add: count_list_0_iff)
qed

lemma step_error:
  assumes "pool_step J s s'" "owner_inv J s" "error_inv J s"
  shows "error_inv J s'"
proof -
  have r: "\<exists>i \<ge> j_begin J. i < j_end J \<and> j_body J i = Inl e"
    if "at_worker s w (Run a b)" "a < b" "j_body J a = Inl e" for w a b e
    using owned_index(1,2)[OF assms(2) that(1,2)] that(3) by auto
  have m: "Caught e \<in> set (p_workers s)" if "at_worker s w (Caught e)" for w e
    using that by (metis nth_mem)
  have u: "Caught e \<in> set (ws[w := x]) \<Longrightarrow> x = Caught e \<or> Caught e \<in> set ws" for e w x ws
    using set_update_subset_insert[of ws w x] by auto
  have k: "Caught e \<in> wake ` set ws \<Longrightarrow> Caught e \<in> set ws" for e ws
    by (auto simp: wake_def split: if_splits)
  show ?thesis
    using assms(1)
  proof (cases rule: pool_step.cases)
    case (throw w i stop e)
    then show ?thesis
      using r[of w i stop e] assms(3) u by (auto simp: error_inv_def dest!: u)
  next
    case (catch w e)
    then show ?thesis
      using m[of w e] assms(3) by (auto simp: error_inv_def split: option.splits dest!: u)
  qed (use assms(3) in \<open>auto simp: error_inv_def dest!: u k\<close>)
qed

lemma step_vec:
  assumes "pool_step J s s'" "job_ok J n v" "owner_inv J s" "vec_inv J v s"
  shows "vec_inv J v s'"
  using assms(1)
proof (cases rule: pool_step.cases)
  case (body w i stop x)
  have "i < length (p_vec s)" "i \<notin> set (p_log s)"
    using owned_index[OF assms(3)] body assms(2,4) by (fastforce simp: job_ok_def vec_inv_def)+
  then show ?thesis
    using body assms(4) by (auto simp: vec_inv_def nth_list_update)
qed (use assms(4) in \<open>auto simp: vec_inv_def\<close>)

text \<open>When all tasks are counted without an exception, every index has run exactly once.\<close>

lemma all_run:
  assumes "job_ok J n v" "pool_inv J n v s" "p_done s = n_tasks J n" "p_caller s \<noteq> Submit" "p_first s = None"
  shows "count_list (p_log s) i = (if j_begin J \<le> i \<and> i < j_end J then 1 else 0)"
proof -
  note I = pool_invD[OF assms(2)]
  have "int (p_tasks s) + tot busy (p_workers s) = 0"
    using I(1) assms(3,4) by (simp add: tasks_inv_def)
  moreover have "0 \<le> tot busy (p_workers s)"
    by (rule tot_nonneg) (rule weights_nonneg)
  ultimately have b: "tot busy (p_workers s) = 0"
    by simp
  have "tot g (p_workers s) = 0" if "\<And>x. 0 \<le> g x" "\<And>x. g x \<le> busy x" for g
    using tot_mono[of g busy "p_workers s"] tot_nonneg[of g "p_workers s"] that b by simp
  then have z: "tot caught (p_workers s) = 0" "tot (owns i) (p_workers s) = 0" "tot leaving (p_workers s) = 0"
    by (auto simp: weights split: worker.splits)
  have nf: "\<not> failed s"
    using assms(5) z(1) by (simp add: failed_def)
  then have "j_end J \<le> p_cursor s"
    using I(6) n_tasks_pos[OF assms(1)] assms(3) z(3) by (simp add: exit_inv_def)
  moreover have "dropped J s i = 0"
    using I(3) nf by (simp add: owner_inv_def)
  ultimately show ?thesis
    using z(2) by (auto simp: dropped_def split: if_splits)
qed

lemma filled_outcome:
  assumes "job_ok J n v" "vec_inv J v s" "\<And>i. i \<in> set (p_log s) \<longleftrightarrow> j_begin J \<le> i \<and> i < j_end J"
  shows "par_fill (j_body J) (j_begin J) (j_end J) v = Inr (p_vec s)"
proof -
  have b: "j_end J \<le> length v" "j_begin J \<le> j_end J"
    using assms(1) by (simp_all add: job_ok_def)
  have "map_r (j_body J) [j_begin J..<j_end J] = Inr (map ((!) (p_vec s)) [j_begin J..<j_end J])"
    using assms(2,3) by (intro map_r_Inr_all) (simp add: vec_inv_def)
  moreover have "put_vec (j_begin J) (map ((!) (p_vec s)) [j_begin J..<j_end J]) v = p_vec s"
    using assms(2,3) b by (intro nth_equalityI) (auto simp: vec_inv_def nth_put_vec)
  ultimately show ?thesis
    by (simp add: par_fill_def)
qed

text \<open>When all tasks are counted the workers have nothing to do.\<close>

lemma done_idle:
  assumes "tasks_inv J n s" "p_caller s \<noteq> Submit" "p_done s = n_tasks J n"
  shows "p_tasks s = 0" "w < length (p_workers s) \<Longrightarrow> busy (p_workers s ! w) = 0"
proof -
  have t: "int (p_tasks s) + tot busy (p_workers s) = 0"
    using assms by (simp add: tasks_inv_def)
  have b: "0 \<le> tot busy (p_workers s)"
    by (rule tot_nonneg) (rule weights_nonneg)
  show "p_tasks s = 0"
    using t b by simp
  show "busy (p_workers s ! w) = 0" if "w < length (p_workers s)"
    using tot_member[of busy w "p_workers s"] weights_nonneg(1)[of "p_workers s ! w"] weights_nonneg(1) that t b by fastforce
qed

lemma step_result:
  assumes "pool_step J s s'" "job_ok J n v" "pool_inv J n v s"
  shows "result_inv J n v s'"
proof -
  note I = pool_invD[OF assms(3)]
  have len: "length (p_workers s) = n"
    using I(1) by (simp add: tasks_inv_def)
  show ?thesis
  proof (cases "\<exists>res. p_caller s = Return res")
    case True
    then have "p_caller s \<noteq> Submit" "p_done s = n_tasks J n"
      using I(8) by (auto simp: result_inv_def)
    note idle = done_idle[OF I(1) this]
    from assms(1) show ?thesis
      using True I(8) idle(1) idle(2) by (cases rule: pool_step.cases) (force simp: result_inv_def busy_def)+
  next
    case False
    from assms(1) show ?thesis
    proof (cases rule: pool_step.cases)
      case finish
      show ?thesis
      proof (cases "p_first s")
        case None
        have "i \<in> set (p_log s) \<longleftrightarrow> j_begin J \<le> i \<and> i < j_end J" for i
          using all_run[OF assms(2,3) _ _ None, of i] finish len count_list_0_iff[of "p_log s" i] by (auto split: if_splits)
        then show ?thesis
          using filled_outcome[OF assms(2) I(5)] finish None len by (simp add: result_inv_def outcome_ok_def)
      next
        case (Some e)
        then show ?thesis
          using I(4) finish len by (auto simp: result_inv_def outcome_ok_def error_inv_def)
      qed
    qed (use False in \<open>auto simp: result_inv_def split: if_splits\<close>)
  qed
qed

lemma step_inv:
  assumes "pool_step J s s'" "job_ok J n v" "pool_inv J n v s"
  shows "pool_inv J n v s'"
  using pool_invD[OF assms(3)] step_tasks[OF assms(1)] step_cursor[OF assms(1,2)] step_owner[OF assms(1,2)] step_error[OF assms(1)]
    step_vec[OF assms(1,2)] step_exit[OF assms(1,2)] step_wake[OF assms(1)] step_result[OF assms]
  by (simp add: pool_inv_def)

lemma reachable_inv:
  assumes "(pool_step J)\<^sup>*\<^sup>* (pool_start J n v) s" "job_ok J n v"
  shows "pool_inv J n v s"
  using assms(1) by (induction rule: rtranclp_induct) (auto intro: pool_inv_start[OF assms(2)] step_inv[OF _ assms(2)])

subsection \<open>Progress\<close>

lemma worker_can_step:
  assumes "w < length (p_workers s)" "p_workers s ! w \<noteq> Asleep"
  shows "\<exists>s'. pool_step J s s'"
proof (cases "p_workers s ! w")
  case Top
  then show ?thesis
    using assms pool_step.take[of w s J] pool_step.sleep[of w s J] by (cases "p_tasks s = 0") auto
next
  case Check
  then show ?thesis
    using assms pool_step.proceed[of w s J] pool_step.give_up[of w s J] by (cases "p_first s = None") auto
next
  case Claim
  then show ?thesis
    using assms pool_step.claim[of w s J] pool_step.exhausted[of w s J] by (cases "p_cursor s < j_end J") auto
next
  case (Run a b)
  then show ?thesis
    using assms pool_step.body[of w s a b J] pool_step.throw[of w s a b J] pool_step.again[of w s a b J]
    by (cases "a < b"; cases "j_body J a") auto
next
  case (Caught e)
  then show ?thesis
    using assms pool_step.catch[of w s e J] by auto
next
  case Leave
  then show ?thesis
    using assms pool_step.leave[of w s J] by auto
qed (use assms in simp)

lemma pool_progress:
  assumes "job_ok J n v" "pool_inv J n v s" "\<forall>res. p_caller s \<noteq> Return res"
  shows "\<exists>s'. pool_step J s s'"
proof (cases "p_caller s")
  case Blocked
  note I = pool_invD[OF assms(2)]
  have len: "length (p_workers s) = n" and d: "p_done s \<noteq> n_tasks J n"
    and t: "int (p_tasks s) + tot busy (p_workers s) + int (p_done s) = int (n_tasks J n)"
    using I(1,7) Blocked by (simp_all add: tasks_inv_def wake_inv_def)
  show ?thesis
  proof (cases "p_tasks s = 0")
    case False
    then have "tot asleep (p_workers s) = 0"
      using I(7) Blocked by (simp add: wake_inv_def)
    then have "p_workers s ! 0 \<noteq> Asleep" "0 < length (p_workers s)"
      using tot_member[of asleep 0 "p_workers s"] weights_nonneg(2) assms(1) len by (auto simp: job_ok_def asleep_def)
    then show ?thesis
      using worker_can_step by blast
  next
    case True
    have "\<exists>w < length (p_workers s). p_workers s ! w \<noteq> Asleep"
    proof (rule ccontr)
      assume "\<not> ?thesis"
      then have "map busy (p_workers s) = map (\<lambda>_. 0) (p_workers s)"
        by (auto simp: in_set_conv_nth busy_def)
      then have "tot busy (p_workers s) = (\<Sum>_ \<leftarrow> p_workers s. 0)"
        by (simp only: tot_def)
      then have "tot busy (p_workers s) = 0"
        by simp
      then show False
        using t d True by simp
    qed
    then show ?thesis
      using worker_can_step by blast
  qed
qed (use assms(3) pool_step.submit[of s J] pool_step.notify[of s J] pool_step.finish[of s J] pool_step.block[of s J] in blast)+

text \<open>A bound on the steps that are left.\<close>

fun effort_worker :: "worker \<Rightarrow> int" where
  "effort_worker Top = 1"
| "effort_worker Asleep = 0"
| "effort_worker Check = 5"
| "effort_worker Claim = 4"
| "effort_worker (Run a b) = 6 + int (b - a)"
| "effort_worker (Caught e) = 4"
| "effort_worker Leave = 3"

fun effort_caller :: "'a job \<Rightarrow> nat \<Rightarrow> 'a caller \<Rightarrow> int" where
  "effort_caller J n Submit = 5 * int (n_tasks J n) + int n + 4"
| "effort_caller J n Notify = int n + 3"
| "effort_caller J n Await = 2"
| "effort_caller J n Blocked = 1"
| "effort_caller J n (Return res) = 0"

definition effort :: "'a job \<Rightarrow> nat \<Rightarrow> 'a pool \<Rightarrow> int" where
  "effort J n s = effort_caller J n (p_caller s) + 5 * int (p_tasks s) + tot effort_worker (p_workers s) + 4 * int (j_end J - p_cursor s)"

lemma effort_worker_nonneg: "0 \<le> effort_worker x"
  by (cases x) simp_all

lemma effort_nonneg: "0 \<le> effort J n s"
proof -
  have "0 \<le> effort_caller J n (p_caller s)"
    by (cases "p_caller s") simp_all
  then show ?thesis
    using tot_nonneg[of effort_worker] effort_worker_nonneg by (simp add: effort_def)
qed

lemma effort_wake: "tot effort_worker (map wake ws) \<le> tot effort_worker ws + int (length ws)"
  by (induction ws) (auto simp: tot_def wake_def)

lemma effort_decreases:
  assumes "pool_step J s s'" "job_ok J n v" "pool_inv J n v s"
  shows "effort J n s' < effort J n s"
proof -
  note I = pool_invD[OF assms(3)]
  note w = cursor_no_wrap[OF assms(2) I(1,2)]
  have len: "length (p_workers s) = n" "0 < j_chunk J"
    using I(1) assms(2) by (simp_all add: tasks_inv_def job_ok_def)
  show ?thesis
    using assms(1) len effort_wake[of "p_workers s"]
    by (elim pool_stepE) (auto simp: effort_def w of_nat_diff min_def)
qed

lemma run_bounded:
  assumes "(pool_step J ^^ m) (pool_start J n v) s" "job_ok J n v"
  shows "int m + effort J n s \<le> effort J n (pool_start J n v) \<and> (pool_step J)\<^sup>*\<^sup>* (pool_start J n v) s"
  using assms(1)
proof (induction m arbitrary: s)
  case (Suc m)
  then obtain s0 where s0: "(pool_step J ^^ m) (pool_start J n v) s0" "pool_step J s0 s"
    by auto
  note IH = Suc.IH[OF s0(1)]
  then have "effort J n s < effort J n s0"
    using effort_decreases[OF s0(2) assms(2)] reachable_inv[OF _ assms(2)] by blast
  then show ?case
    using IH s0(2) by auto
qed simp

lemma effort_start: "job_ok J n v \<Longrightarrow> effort J n (pool_start J n v) = 5 * int (n_tasks J n) + 2 * int n + 4 + 4 * int (j_end J - j_begin J)"
  by (simp add: effort_def pool_start_def tot_replicate)

subsection \<open>Properties\<close>

text \<open>
  C12: A parallel loop is its sequential loop. Whatever the interleaving of the caller and of any number
  of workers, when the call returns normally the vector is the one the index loop of the models
  produces, and the body has run exactly once for each index of the range; when it throws, the exception
  is that of the body at some index of the range.
\<close>

theorem pool_refines_loop:
  assumes "job_ok J n v" "(pool_step J)\<^sup>*\<^sup>* (pool_start J n v) s" "p_caller s = Return res"
  shows "case res of
      Inr v' \<Rightarrow> par_fill (j_body J) (j_begin J) (j_end J) v = Inr v' \<and> mset (p_log s) = mset [j_begin J..<j_end J]
    | Inl e \<Rightarrow> \<exists>i. j_begin J \<le> i \<and> i < j_end J \<and> j_body J i = Inl e"
proof -
  note I = reachable_inv[OF assms(2,1)]
  have r: "outcome_ok J v res" "p_done s = n_tasks J n" "\<forall>v'. res = Inr v' \<longrightarrow> p_first s = None"
    using pool_invD(8)[OF I] assms(3) by (simp_all add: result_inv_def)
  have "mset (p_log s) = mset [j_begin J..<j_end J]" if "res = Inr v'" for v'
  proof (rule multiset_eqI)
    fix i
    have "count_list (p_log s) i = (if j_begin J \<le> i \<and> i < j_end J then 1 else 0)"
      using all_run[OF assms(1) I r(2)] r(3) that assms(3) by simp
    moreover have "count (mset [j_begin J..<j_end J]) i = (if j_begin J \<le> i \<and> i < j_end J then 1 else 0)"
      by simp
    ultimately show "count (mset (p_log s)) i = count (mset [j_begin J..<j_end J]) i"
      by (simp only: count_mset)
  qed
  then show ?thesis
    using r(1) by (simp add: outcome_ok_def split: sum.splits)
qed

text \<open>
  C13: A parallel loop returns. No interleaving takes more than a fixed number of steps, linear in the
  workers and the indices, and a state in which nothing can move is one in which the caller has
  returned: there is no deadlock and no lost wake-up.
\<close>

theorem pool_call_returns:
  assumes "job_ok J n v" "(pool_step J ^^ m) (pool_start J n v) s"
  shows "m \<le> 5 * n_tasks J n + 2 * n + 4 + 4 * (j_end J - j_begin J) \<and> ((\<exists>res. p_caller s = Return res) \<or> (\<exists>s'. pool_step J s s'))"
proof -
  note b = run_bounded[OF assms(2,1)]
  have "int m \<le> 5 * int (n_tasks J n) + 2 * int n + 4 + 4 * int (j_end J - j_begin J)"
    using b effort_nonneg[of J n s] effort_start[OF assms(1)] by simp
  then have "m \<le> 5 * n_tasks J n + 2 * n + 4 + 4 * (j_end J - j_begin J)"
    by linarith
  then show ?thesis
    using b pool_progress[OF assms(1) reachable_inv[OF _ assms(1)]] by blast
qed

definition demo_job :: "int job" where
  "demo_job = pool_job 0 1 0 (\<lambda>i. Inr 7)"

definition demo_pool :: "nat \<Rightarrow> nat \<Rightarrow> nat \<Rightarrow> worker \<Rightarrow> int caller \<Rightarrow> int \<Rightarrow> nat list \<Rightarrow> int pool" where
  "demo_pool t c d w cl x lg = \<lparr> p_tasks = t, p_cursor = c, p_done = d, p_first = None, p_workers = [w], p_caller = cl, p_vec = [x], p_log = lg \<rparr>"

lemma demo_job_simps: "j_begin demo_job = 0" "j_end demo_job = 1" "j_chunk demo_job = 1" "j_body demo_job i = Inr 7" "n_tasks demo_job 1 = 1"
  "n_tasks demo_job (Suc 0) = 1"
  by (simp_all add: demo_job_def pool_job_def n_tasks_def)

lemma demo_job_ok: "job_ok demo_job 1 [0 :: int]"
  by (simp add: job_ok_def demo_job_simps size_limit_def)

lemma demo_run: "(pool_step demo_job ^^ 12) (pool_start demo_job 1 [0]) (demo_pool 0 2 1 Top (Return (Inr [7])) 7 [0])"
proof -
  note d = demo_pool_def demo_job_simps
  have s0: "pool_start demo_job 1 [0] = demo_pool 0 0 0 Top Submit 0 []"
    by (simp add: pool_start_def d)
  have "pool_step demo_job (demo_pool 0 0 0 Top Submit 0 []) (demo_pool 1 0 0 Top Notify 0 [])"
    using pool_step.submit[of "demo_pool 0 0 0 Top Submit 0 []" demo_job] by (simp add: d)
  moreover have "pool_step demo_job (demo_pool 1 0 0 Top Notify 0 []) (demo_pool 1 0 0 Top Await 0 [])"
    using pool_step.notify[of "demo_pool 1 0 0 Top Notify 0 []" demo_job] by (simp add: d wake_def)
  moreover have "pool_step demo_job (demo_pool 1 0 0 Top Await 0 []) (demo_pool 1 0 0 Top Blocked 0 [])"
    using pool_step.block[of "demo_pool 1 0 0 Top Await 0 []" demo_job] by (simp add: d)
  moreover have "pool_step demo_job (demo_pool 1 0 0 Top Blocked 0 []) (demo_pool 0 0 0 Check Blocked 0 [])"
    using pool_step.take[of 0 "demo_pool 1 0 0 Top Blocked 0 []" demo_job] by (simp add: d)
  moreover have "pool_step demo_job (demo_pool 0 0 0 Check Blocked 0 []) (demo_pool 0 0 0 Claim Blocked 0 [])"
    using pool_step.proceed[of 0 "demo_pool 0 0 0 Check Blocked 0 []" demo_job] by (simp add: d)
  moreover have "pool_step demo_job (demo_pool 0 0 0 Claim Blocked 0 []) (demo_pool 0 1 0 (Run 0 1) Blocked 0 [])"
    using pool_step.claim[of 0 "demo_pool 0 0 0 Claim Blocked 0 []" demo_job] by (simp add: d sz_add_def size_limit_def)
  moreover have "pool_step demo_job (demo_pool 0 1 0 (Run 0 1) Blocked 0 []) (demo_pool 0 1 0 (Run 1 1) Blocked 7 [0])"
    using pool_step.body[of 0 "demo_pool 0 1 0 (Run 0 1) Blocked 0 []" 0 1 demo_job 7] by (simp add: d)
  moreover have "pool_step demo_job (demo_pool 0 1 0 (Run 1 1) Blocked 7 [0]) (demo_pool 0 1 0 Check Blocked 7 [0])"
    using pool_step.again[of 0 "demo_pool 0 1 0 (Run 1 1) Blocked 7 [0]" 1 1 demo_job] by (simp add: d)
  moreover have "pool_step demo_job (demo_pool 0 1 0 Check Blocked 7 [0]) (demo_pool 0 1 0 Claim Blocked 7 [0])"
    using pool_step.proceed[of 0 "demo_pool 0 1 0 Check Blocked 7 [0]" demo_job] by (simp add: d)
  moreover have "pool_step demo_job (demo_pool 0 1 0 Claim Blocked 7 [0]) (demo_pool 0 2 0 Leave Blocked 7 [0])"
    using pool_step.exhausted[of 0 "demo_pool 0 1 0 Claim Blocked 7 [0]" demo_job] by (simp add: d sz_add_def size_limit_def numeral_2_eq_2)
  moreover have "pool_step demo_job (demo_pool 0 2 0 Leave Blocked 7 [0]) (demo_pool 0 2 1 Top Await 7 [0])"
    using pool_step.leave[of 0 "demo_pool 0 2 0 Leave Blocked 7 [0]" demo_job] by (simp add: d)
  moreover have "pool_step demo_job (demo_pool 0 2 1 Top Await 7 [0]) (demo_pool 0 2 1 Top (Return (Inr [7])) 7 [0])"
    using pool_step.finish[of "demo_pool 0 2 1 Top Await 7 [0]" demo_job] by (simp add: d)
  ultimately have "\<exists>f. f 0 = demo_pool 0 0 0 Top Submit 0 [] \<and> f 12 = demo_pool 0 2 1 Top (Return (Inr [7])) 7 [0] \<and> (\<forall>i < 12. pool_step demo_job (f i) (f (Suc i)))"
    by (intro exI[of _ "(!) [demo_pool 0 0 0 Top Submit 0 [], demo_pool 1 0 0 Top Notify 0 [], demo_pool 1 0 0 Top Await 0 [],
        demo_pool 1 0 0 Top Blocked 0 [], demo_pool 0 0 0 Check Blocked 0 [], demo_pool 0 0 0 Claim Blocked 0 [], demo_pool 0 1 0 (Run 0 1) Blocked 0 [],
        demo_pool 0 1 0 (Run 1 1) Blocked 7 [0], demo_pool 0 1 0 Check Blocked 7 [0], demo_pool 0 1 0 Claim Blocked 7 [0], demo_pool 0 2 0 Leave Blocked 7 [0],
        demo_pool 0 2 1 Top Await 7 [0], demo_pool 0 2 1 Top (Return (Inr [7])) 7 [0]]"]) (simp add: less_Suc_eq numeral_eq_Suc)
  then show ?thesis
    unfolding s0 relpowp_fun_conv .
qed

theorem pool_refines_loop_witness:
  "case Inr [7 :: int] of
      Inr v' \<Rightarrow> par_fill (j_body demo_job) (j_begin demo_job) (j_end demo_job) [0] = Inr v' \<and>
        mset (p_log (demo_pool 0 2 1 Top (Return (Inr [7])) 7 [0])) = mset [j_begin demo_job..<j_end demo_job]
    | Inl e \<Rightarrow> \<exists>i. j_begin demo_job \<le> i \<and> i < j_end demo_job \<and> j_body demo_job i = Inl e"
  by (rule pool_refines_loop[OF demo_job_ok relpowp_imp_rtranclp[OF demo_run]]) (simp add: demo_pool_def)

theorem pool_call_returns_witness:
  "12 \<le> 5 * n_tasks demo_job 1 + 2 * 1 + 4 + 4 * (j_end demo_job - j_begin demo_job) \<and>
    ((\<exists>res. p_caller (demo_pool 0 2 1 Top (Return (Inr [7])) 7 [0]) = Return res) \<or>
     (\<exists>s'. pool_step demo_job (demo_pool 0 2 1 Top (Return (Inr [7])) 7 [0]) s'))"
  by (rule pool_call_returns[OF demo_job_ok demo_run])

end
