(* ===== verification/CG_ParallelIO.thy ===== *)
theory CG_ParallelIO
  imports CG_Lanes
begin

text \<open>
  \<^verbatim>\<open>rf_parallel_io\<close> of \<^verbatim>\<open>cg_rf_ole_batch.hpp\<close>: one thread per lane, a failure on one lane shuts down all
  connections, the first failure is rethrown after all threads were joined. A call is a step relation
  of the calling thread and the lane threads over a memory they share; the order of the steps is free.
  The lane loops of \<^verbatim>\<open>CG_Lanes\<close>, which run one lane after the other, are what a call amounts to.
\<close>

subsection \<open>State\<close>

text \<open>
  A lane thread: in its loop with the items that are left, in the handler before the lock, in \<^verbatim>\<open>cancel\<close>
  before the next connection, ended normally or after its handler.
\<close>

datatype 'i io_worker = Busy "'i list" | Raised cg_error | Cutting nat | Finished | Cancelled

text \<open>
  The caller: creating threads, in \<^verbatim>\<open>cancel\<close> because a thread could not be created, joining the threads
  in their order (with the exception it will rethrow), out of the call.
\<close>

datatype io_caller = Spawning | Aborting cg_error nat | Joining "cg_error option" nat | Returned "cg_error option"

text \<open>
  What is called: the lanes with work, the number of connections, the items of a lane, one turn of its
  loop, and whether the thread of the k-th lane can be created. A turn that waits for the peer forever
  is \<open>None\<close>.
\<close>

record ('i, 'm) io_call =
  ic_lanes :: "nat list"
  ic_fds :: nat
  ic_items :: "nat \<Rightarrow> 'i list"
  ic_turn :: "nat \<Rightarrow> 'i \<Rightarrow> 'm \<Rightarrow> 'm result option"
  ic_spawn :: "nat \<Rightarrow> cg_error option"

record ('i, 'm) io_state =
  io_workers :: "'i io_worker list"
  io_failure :: "cg_error option"
  io_shut :: "nat set"
  io_main :: io_caller
  io_mem :: 'm

definition io_start :: "'m \<Rightarrow> ('i, 'm) io_state" where
  "io_start m = \<lparr> io_workers = [], io_failure = None, io_shut = {}, io_main = Spawning, io_mem = m \<rparr>"

abbreviation io_at :: "('i, 'm) io_state \<Rightarrow> nat \<Rightarrow> 'i io_worker \<Rightarrow> bool" where
  "io_at s w x \<equiv> w < length (io_workers s) \<and> io_workers s ! w = x"

abbreviation io_move :: "nat \<Rightarrow> 'i io_worker \<Rightarrow> ('i, 'm) io_state \<Rightarrow> ('i, 'm) io_state" where
  "io_move w x s \<equiv> s\<lparr>io_workers := (io_workers s)[w := x]\<rparr>"

subsection \<open>Steps\<close>

text \<open>A thread whose connection was shut down may still find data, or fails with any error.\<close>

inductive io_step :: "('i, 'm) io_call \<Rightarrow> ('i, 'm) io_state \<Rightarrow> ('i, 'm) io_state \<Rightarrow> bool" for J where
  spawn: "io_main s = Spawning \<Longrightarrow> k = length (io_workers s) \<Longrightarrow> k < length (ic_lanes J) \<Longrightarrow> ic_spawn J k = None \<Longrightarrow>
    io_step J s (s\<lparr>io_workers := io_workers s @ [Busy (ic_items J (ic_lanes J ! k))]\<rparr>)"
| spawn_fail: "io_main s = Spawning \<Longrightarrow> k = length (io_workers s) \<Longrightarrow> k < length (ic_lanes J) \<Longrightarrow> ic_spawn J k = Some e \<Longrightarrow>
    io_step J s (s\<lparr>io_main := Aborting e 0\<rparr>)"
| spawned: "io_main s = Spawning \<Longrightarrow> length (io_workers s) = length (ic_lanes J) \<Longrightarrow> io_step J s (s\<lparr>io_main := Joining None 0\<rparr>)"
| abort_cut: "io_main s = Aborting e k \<Longrightarrow> k < ic_fds J \<Longrightarrow>
    io_step J s (s\<lparr>io_main := Aborting e (k + 1), io_shut := insert k (io_shut s)\<rparr>)"
| abort_join: "io_main s = Aborting e k \<Longrightarrow> \<not> k < ic_fds J \<Longrightarrow> io_step J s (s\<lparr>io_main := Joining (Some e) 0\<rparr>)"
| join: "io_main s = Joining r k \<Longrightarrow> k < length (io_workers s) \<Longrightarrow> io_workers s ! k \<in> {Finished, Cancelled} \<Longrightarrow>
    io_step J s (s\<lparr>io_main := Joining r (k + 1)\<rparr>)"
| rethrow: "io_main s = Joining r k \<Longrightarrow> \<not> k < length (io_workers s) \<Longrightarrow>
    io_step J s (s\<lparr>io_main := Returned (case r of Some e \<Rightarrow> Some e | None \<Rightarrow> io_failure s)\<rparr>)"
| turn: "io_at s w (Busy (i # is)) \<Longrightarrow> ic_turn J (ic_lanes J ! w) i (io_mem s) = Some (Inr m) \<Longrightarrow>
    io_step J s (io_move w (Busy is) (s\<lparr>io_mem := m\<rparr>))"
| throw: "io_at s w (Busy (i # is)) \<Longrightarrow> ic_turn J (ic_lanes J ! w) i (io_mem s) = Some (Inl e) \<Longrightarrow> io_step J s (io_move w (Raised e) s)"
| cut: "io_at s w (Busy (i # is)) \<Longrightarrow> ic_lanes J ! w \<in> io_shut s \<Longrightarrow> io_step J s (io_move w (Raised e) s)"
| finish: "io_at s w (Busy []) \<Longrightarrow> io_step J s (io_move w Finished s)"
| fail: "io_at s w (Raised e) \<Longrightarrow>
    io_step J s (io_move w (Cutting 0) (s\<lparr>io_failure := (case io_failure s of None \<Rightarrow> Some e | Some e' \<Rightarrow> Some e')\<rparr>))"
| shut_next: "io_at s w (Cutting k) \<Longrightarrow> k < ic_fds J \<Longrightarrow>
    io_step J s (io_move w (Cutting (k + 1)) (s\<lparr>io_shut := insert k (io_shut s)\<rparr>))"
| cancelled: "io_at s w (Cutting k) \<Longrightarrow> \<not> k < ic_fds J \<Longrightarrow> io_step J s (io_move w Cancelled s)"

inductive_cases io_stepE: "io_step J s s'"

definition io_call_ok :: "('i, 'm) io_call \<Rightarrow> bool" where
  "io_call_ok J \<longleftrightarrow> distinct (ic_lanes J) \<and> (\<forall>l \<in> set (ic_lanes J). l < ic_fds J)"

subsection \<open>Invariant of the threads\<close>

definition ended :: "'i io_worker \<Rightarrow> bool" where
  "ended x \<longleftrightarrow> x = Finished \<or> x = Cancelled"

text \<open>What the caller will rethrow for a failed creation, once it has stopped creating.\<close>

definition settled :: "('i, 'm) io_call \<Rightarrow> nat \<Rightarrow> cg_error option \<Rightarrow> bool" where
  "settled J n r \<longleftrightarrow> (\<forall>k < n. ic_spawn J k = None) \<and>
     (case r of None \<Rightarrow> n = length (ic_lanes J) | Some e \<Rightarrow> n < length (ic_lanes J) \<and> ic_spawn J n = Some e)"

text \<open>The first thread of a call that could not be created, read off the outcomes of the attempts.\<close>

definition first_refused :: "(nat \<Rightarrow> cg_error option) \<Rightarrow> nat \<Rightarrow> cg_error option" where
  "first_refused spawn n = (case filter (\<lambda>x. x \<noteq> None) (map spawn [0..<n]) of [] \<Rightarrow> None | x # _ \<Rightarrow> x)"

lemma upt_split: "n < k \<Longrightarrow> [0..<k] = [0..<n] @ n # [Suc n..<k]"
  using upt_add_eq_append[of 0 n "k - n"] by (simp add: upt_conv_Cons)

lemma settled_refused:
  assumes "settled J n r"
  shows "first_refused (ic_spawn J) (length (ic_lanes J)) = r"
proof -
  have none: "filter (\<lambda>x. x \<noteq> None) (map (ic_spawn J) [0..<n]) = []"
    using assms by (auto simp: settled_def filter_empty_conv)
  show ?thesis
  proof (cases r)
    case None
    then show ?thesis
      using none assms by (simp add: settled_def first_refused_def)
  next
    case (Some e)
    then have "[0..<length (ic_lanes J)] = [0..<n] @ n # [Suc n..<length (ic_lanes J)]" "ic_spawn J n = Some e"
      using assms upt_split[of n "length (ic_lanes J)"] by (auto simp: settled_def)
    then show ?thesis
      using none Some by (simp add: first_refused_def)
  qed
qed

definition main_inv :: "('i, 'm) io_call \<Rightarrow> ('i, 'm) io_state \<Rightarrow> bool" where
  "main_inv J s \<longleftrightarrow> length (io_workers s) \<le> length (ic_lanes J) \<and>
     (case io_main s of
        Spawning \<Rightarrow> \<forall>k < length (io_workers s). ic_spawn J k = None
      | Aborting e k \<Rightarrow> settled J (length (io_workers s)) (Some e)
      | Joining r k \<Rightarrow> settled J (length (io_workers s)) r \<and> k \<le> length (io_workers s) \<and> (\<forall>j < k. ended (io_workers s ! j))
      | Returned r \<Rightarrow> \<exists>r0. settled J (length (io_workers s)) r0 \<and> r = (case r0 of Some e \<Rightarrow> Some e | None \<Rightarrow> io_failure s) \<and>
          (\<forall>j < length (io_workers s). ended (io_workers s ! j)))"

text \<open>Who has gone through \<^verbatim>\<open>cancel\<close> has shut down all connections.\<close>

definition cut_inv :: "('i, 'm) io_call \<Rightarrow> ('i, 'm) io_state \<Rightarrow> bool" where
  "cut_inv J s \<longleftrightarrow>
     (\<forall>w k. io_at s w (Cutting k) \<longrightarrow> {..<k} \<subseteq> io_shut s) \<and>
     (\<forall>w. io_at s w Cancelled \<longrightarrow> {..<ic_fds J} \<subseteq> io_shut s) \<and>
     (\<forall>e k. io_main s = Aborting e k \<longrightarrow> {..<k} \<subseteq> io_shut s) \<and>
     (\<forall>e k. io_main s = Joining (Some e) k \<longrightarrow> {..<ic_fds J} \<subseteq> io_shut s)"

definition handled :: "'i io_worker \<Rightarrow> bool" where
  "handled x \<longleftrightarrow> x = Cancelled \<or> (\<exists>k. x = Cutting k)"

definition failure_inv :: "('i, 'm) io_state \<Rightarrow> bool" where
  "failure_inv s \<longleftrightarrow> (io_failure s \<noteq> None \<longleftrightarrow> (\<exists>x \<in> set (io_workers s). handled x))"

lemma start_inv: "main_inv J (io_start m)" "cut_inv J (io_start m)" "failure_inv (io_start m)"
  by (simp_all add: main_inv_def cut_inv_def failure_inv_def io_start_def)

lemma step_main:
  assumes "io_step J s s'" "main_inv J s"
  shows "main_inv J s'"
  using assms
  by (cases rule: io_step.cases)
    (auto simp: main_inv_def settled_def ended_def nth_list_update less_Suc_eq nth_append split: io_caller.splits option.splits)

lemma step_cut:
  assumes "io_step J s s'" "cut_inv J s"
  shows "cut_inv J s'"
  using assms(1)
proof (cases rule: io_step.cases)
  case (shut_next w k)
  then have "{..<k} \<subseteq> io_shut s"
    using assms(2) by (auto simp: cut_inv_def)
  then show ?thesis
    using assms(2) shut_next by (simp add: cut_inv_def nth_list_update lessThan_Suc subset_insertI2) blast
next
  case (cancelled w k)
  then have k: "{..<k} \<subseteq> io_shut s" "{..<ic_fds J} \<subseteq> {..<k}"
    using assms(2) by (auto simp: cut_inv_def)
  have "{..<ic_fds J} \<subseteq> io_shut s"
    using k(2,1) by (rule order_trans)
  then show ?thesis
    using assms(2) cancelled by (auto simp: cut_inv_def nth_list_update)
qed (use assms(2) in \<open>auto simp: cut_inv_def nth_list_update less_Suc_eq nth_append split: if_splits\<close>)

lemma bex_update:
  assumes "w < length ws"
  shows "(P y \<longleftrightarrow> P (ws ! w)) \<Longrightarrow> (\<exists>x \<in> set (ws[w := y]). P x) \<longleftrightarrow> (\<exists>x \<in> set ws. P x)"
    and "P y \<Longrightarrow> \<exists>x \<in> set (ws[w := y]). P x"
proof -
  have "set (ws[w := y]) = insert y (set (take w ws) \<union> set (drop (Suc w) ws))"
    using assms by (simp add: upd_conv_take_nth_drop)
  moreover have "set ws = insert (ws ! w) (set (take w ws) \<union> set (drop (Suc w) ws))"
    using arg_cong[OF id_take_nth_drop[OF assms], of set] by simp
  ultimately show "(P y \<longleftrightarrow> P (ws ! w)) \<Longrightarrow> (\<exists>x \<in> set (ws[w := y]). P x) \<longleftrightarrow> (\<exists>x \<in> set ws. P x)"
      "P y \<Longrightarrow> \<exists>x \<in> set (ws[w := y]). P x"
    by auto
qed

lemma step_failure:
  assumes "io_step J s s'" "failure_inv s"
  shows "failure_inv s'"
  using assms
proof (cases rule: io_step.cases)
  case (fail w e)
  then show ?thesis
    using bex_update(2)[of w "io_workers s" handled "Cutting 0"] by (auto simp: failure_inv_def handled_def split: option.splits)
qed (auto simp: failure_inv_def handled_def bex_update(1))

definition io_inv :: "('i, 'm) io_call \<Rightarrow> ('i, 'm) io_state \<Rightarrow> bool" where
  "io_inv J s \<longleftrightarrow> main_inv J s \<and> cut_inv J s \<and> failure_inv s"

lemma reachable_io_inv:
  assumes "(io_step J)\<^sup>*\<^sup>* (io_start m) s"
  shows "io_inv J s"
  using assms by (induction rule: rtranclp_induct) (auto simp: io_inv_def intro: start_inv step_main step_cut step_failure)

subsection \<open>A failed call returns\<close>

text \<open>Something has gone wrong: a thread or the caller has an exception.\<close>

definition doomed :: "('i, 'm) io_state \<Rightarrow> bool" where
  "doomed s \<longleftrightarrow> io_failure s \<noteq> None \<or> (\<exists>x \<in> set (io_workers s). \<exists>e. x = Raised e) \<or>
     (\<exists>e k. io_main s = Aborting e k \<or> io_main s = Joining (Some e) k)"

lemma worker_moves:
  assumes "w < length (io_workers s)" "\<not> ended (io_workers s ! w)" "\<nexists>s'. io_step J s s'"
  obtains i "is" where "io_workers s ! w = Busy (i # is)" "ic_turn J (ic_lanes J ! w) i (io_mem s) = None" "ic_lanes J ! w \<notin> io_shut s"
proof (cases "io_workers s ! w")
  case (Busy items)
  show thesis
  proof (cases items)
    case Nil
    then show thesis
      using io_step.finish[of w s J] assms Busy by auto
  next
    case (Cons i "is")
    have "ic_turn J (ic_lanes J ! w) i (io_mem s) = None"
    proof (cases "ic_turn J (ic_lanes J ! w) i (io_mem s)")
      case (Some r)
      then show ?thesis
        using io_step.turn[of w s i "is" J] io_step.throw[of w s i "is" J] assms Busy Cons by (cases r) auto
    qed
    moreover have "ic_lanes J ! w \<notin> io_shut s"
      using io_step.cut[of w s i "is" J] assms Busy Cons by auto
    ultimately show thesis
      using that Busy Cons by blast
  qed
next
  case (Raised e)
  then show thesis
    using io_step.fail[of w s e J] assms by auto
next
  case (Cutting k)
  then show thesis
    using io_step.shut_next[of w s k J] io_step.cancelled[of w s k J] assms by (cases "k < ic_fds J") auto
qed (use assms(2) in \<open>auto simp: ended_def\<close>)

text \<open>A call that can make no step has returned, or joins a thread whose peer is silent on an open connection.\<close>

lemma io_stuck:
  assumes "io_inv J s" "\<nexists>s'. io_step J s s'"
  shows "(\<exists>r. io_main s = Returned r) \<or>
    (\<exists>r w i is. io_main s = Joining r w \<and> w < length (io_workers s) \<and> io_workers s ! w = Busy (i # is) \<and>
       ic_turn J (ic_lanes J ! w) i (io_mem s) = None \<and> ic_lanes J ! w \<notin> io_shut s)"
proof (cases "io_main s")
  case Spawning
  then have "length (io_workers s) \<le> length (ic_lanes J)"
    using assms(1) by (simp add: io_inv_def main_inv_def)
  then show ?thesis
    using Spawning io_step.spawn[of s "length (io_workers s)" J] io_step.spawn_fail[of s "length (io_workers s)" J] io_step.spawned[of s J] assms(2)
    by (cases "ic_spawn J (length (io_workers s))") (auto simp: le_less)
next
  case (Aborting e k)
  then show ?thesis
    using io_step.abort_cut[of s e k J] io_step.abort_join[of s e k J] assms(2) by (cases "k < ic_fds J") auto
next
  case (Joining r k)
  have k: "k < length (io_workers s)"
    using io_step.rethrow[of s r k J] Joining assms(2) by auto
  then have "\<not> ended (io_workers s ! k)"
    using io_step.join[of s r k J] Joining assms(2) by (auto simp: ended_def)
  then show ?thesis
    using worker_moves[OF k _ assms(2)] Joining k by metis
qed simp

lemma doomed_moves:
  assumes "io_call_ok J" "io_inv J s" "doomed s" "\<nexists>s'. io_step J s s'"
  shows "\<exists>r. io_main s = Returned r"
proof (rule ccontr)
  assume "\<not> ?thesis"
  then obtain r w i "is" where w: "io_main s = Joining r w" "w < length (io_workers s)" "io_workers s ! w = Busy (i # is)"
    "ic_lanes J ! w \<notin> io_shut s"
    using io_stuck[OF assms(2,4)] by blast
  note I = assms(2)[unfolded io_inv_def]
  have "w < length (ic_lanes J)"
    using I w(2) by (auto simp: main_inv_def)
  then have lane: "ic_lanes J ! w < ic_fds J"
    using assms(1) by (simp add: io_call_ok_def)
  have "\<exists>x \<in> set (io_workers s). handled x \<or> (\<exists>e. x = Raised e)" if "r = None"
    using assms(3) I that w(1) by (auto simp: doomed_def failure_inv_def)
  then have "\<exists>v < length (io_workers s). handled (io_workers s ! v) \<or> (\<exists>e. io_workers s ! v = Raised e)" if "r = None"
    using that by (metis in_set_conv_nth)
  moreover have "io_workers s ! v = Cancelled" if "v < length (io_workers s)" "handled (io_workers s ! v) \<or> (\<exists>e. io_workers s ! v = Raised e)" for v
    using worker_moves[OF that(1) _ assms(4)] that(2) by (auto simp: handled_def ended_def)
  ultimately have "(\<exists>e. r = Some e) \<or> (\<exists>v < length (io_workers s). io_workers s ! v = Cancelled)"
    by (cases r) blast+
  then have "{..<ic_fds J} \<subseteq> io_shut s"
    using I w(1) by (auto simp: cut_inv_def)
  then show False
    using lane w(4) by blast
qed

lemma returned_doomed:
  assumes "io_inv J s" "io_main s = Returned r" "io_failure s \<noteq> None \<or> length (io_workers s) < length (ic_lanes J)"
  shows "\<exists>e. r = Some e"
  using assms by (auto simp: io_inv_def main_inv_def settled_def split: option.splits)

lemma returned_final:
  assumes "io_inv J s" "io_main s = Returned r"
  shows "\<not> io_step J s s'"
proof
  assume "io_step J s s'"
  moreover have "ended (io_workers s ! w)" if "w < length (io_workers s)" for w
    using assms that by (auto simp: io_inv_def main_inv_def)
  ultimately show False
    using assms(2) by (cases rule: io_step.cases) (fastforce simp: ended_def)+
qed

lemma doomed_step:
  assumes "io_step J s s'" "io_inv J s" "doomed s"
  shows "doomed s' \<or> (\<exists>e. io_main s' = Returned (Some e))"
  using assms(1)
proof (cases rule: io_step.cases)
  case (rethrow r k)
  have e: "ended x" if "x \<in> set (io_workers s)" for x
    using assms(2) rethrow that unfolding io_inv_def main_inv_def by (auto simp: in_set_conv_nth)
  show ?thesis
    using assms(3) rethrow e by (cases r; cases "io_failure s") (auto simp: doomed_def ended_def)
next
  case (fail w e)
  then show ?thesis
    by (auto simp: doomed_def split: option.splits)
next
  case (throw w i "is" e)
  then show ?thesis
    using bex_update(2)[of w "io_workers s" "\<lambda>x. \<exists>e. x = Raised e" "Raised e"] by (simp add: doomed_def)
next
  case (cut w i "is" e)
  then show ?thesis
    using bex_update(2)[of w "io_workers s" "\<lambda>x. \<exists>e. x = Raised e" "Raised e"] by (simp add: doomed_def)
qed (use assms(3) in \<open>auto simp: doomed_def bex_update(1)\<close>)

text \<open>A bound on the steps that are left.\<close>

fun effort_thread :: "nat \<Rightarrow> 'i io_worker \<Rightarrow> nat" where
  "effort_thread f (Busy items) = length items + f + 5"
| "effort_thread f (Raised e) = f + 3"
| "effort_thread f (Cutting k) = f - k + 1"
| "effort_thread f Finished = 0"
| "effort_thread f Cancelled = 0"

fun effort_main :: "nat \<Rightarrow> nat \<Rightarrow> io_caller \<Rightarrow> nat" where
  "effort_main f n Spawning = f + n + 5"
| "effort_main f n (Aborting e k) = f - k + n + 3"
| "effort_main f n (Joining r k) = n - k + 1"
| "effort_main f n (Returned r) = 0"

definition effort_io :: "('i, 'm) io_call \<Rightarrow> ('i, 'm) io_state \<Rightarrow> nat" where
  "effort_io J s = effort_main (ic_fds J) (length (ic_lanes J)) (io_main s)
     + sum_list (map (effort_thread (ic_fds J)) (io_workers s))
     + sum_list (map (\<lambda>l. length (ic_items J l) + ic_fds J + 6) (drop (length (io_workers s)) (ic_lanes J)))"

lemma sum_list_update_less:
  "w < length ws \<Longrightarrow> g y < g (ws ! w) \<Longrightarrow> sum_list (map g (ws[w := y])) < (sum_list (map g ws) :: nat)"
proof (induction ws arbitrary: w)
  case (Cons x ws)
  then show ?case
    by (cases w) auto
qed simp

lemma effort_io_decreases:
  assumes "io_step J s s'" "io_inv J s"
  shows "effort_io J s' < effort_io J s"
proof -
  have n: "length (io_workers s) \<le> length (ic_lanes J)"
    using assms(2) by (simp add: io_inv_def main_inv_def)
  note less = sum_list_update_less[where g = "effort_thread (ic_fds J)" and ws = "io_workers s"]
  show ?thesis
    using assms(1)
  proof (cases rule: io_step.cases)
    case (spawn k)
    then show ?thesis
      by (simp add: effort_io_def Cons_nth_drop_Suc[symmetric])
  next
    case (turn w i "is" m)
    then show ?thesis
      using less[of w "Busy is"] by (simp add: effort_io_def)
  next
    case (throw w i "is" e)
    then show ?thesis
      using less[of w "Raised e"] by (simp add: effort_io_def)
  next
    case (cut w i "is" e)
    then show ?thesis
      using less[of w "Raised e"] by (simp add: effort_io_def)
  next
    case (finish w)
    then show ?thesis
      using less[of w Finished] by (simp add: effort_io_def)
  next
    case (fail w e)
    then show ?thesis
      using less[of w "Cutting 0"] by (simp add: effort_io_def)
  next
    case (shut_next w k)
    then show ?thesis
      using less[of w "Cutting (Suc k)"] by (simp add: effort_io_def)
  next
    case (cancelled w k)
    then show ?thesis
      using less[of w Cancelled] by (simp add: effort_io_def)
  qed (use n in \<open>auto simp: effort_io_def\<close>)
qed

lemma io_run_bounded:
  assumes "(io_step J ^^ n) (io_start m) s"
  shows "n + effort_io J s \<le> effort_io J (io_start m :: ('i, 'm) io_state) \<and> io_inv J s"
  using assms
proof (induction n arbitrary: s)
  case 0
  then show ?case
    using reachable_io_inv[of J m s] by simp
next
  case (Suc n)
  then obtain s0 where s0: "(io_step J ^^ n) (io_start m) s0" "io_step J s0 s"
    by auto
  have "(io_step J)\<^sup>*\<^sup>* (io_start m) s"
    using Suc.prems by (rule relpowp_imp_rtranclp)
  then show ?case
    using Suc.IH[OF s0(1)] effort_io_decreases[OF s0(2)] reachable_io_inv by fastforce
qed

text \<open>
  C15: A failure never leaves the call waiting. Once a lane thread has an exception or a thread could
  not be created, the call returns with an exception after a bounded number of steps, whatever the
  interleaving, even when the peers of all other lanes are silent forever: the shutdown releases every
  thread that waits.
\<close>

theorem failed_io_returns:
  assumes "io_call_ok J" "(io_step J ^^ n) (io_start m) s" "doomed s" "(io_step J ^^ k) s s'"
  shows "n + k \<le> sum_list (map (\<lambda>l. length (ic_items J l) + ic_fds J + 6) (ic_lanes J)) + length (ic_lanes J) + ic_fds J + 5 \<and>
    ((\<exists>e. io_main s' = Returned (Some e)) \<or> (\<exists>t. io_step J s' t))"
proof -
  have run: "(io_step J ^^ (n + k)) (io_start m) s'"
    using assms(2,4) by (auto simp: relpowp_add)
  note b = io_run_bounded[OF run]
  have "doomed s' \<or> (\<exists>e. io_main s' = Returned (Some e))"
    using assms(4)
  proof (induction k arbitrary: s')
    case (Suc k)
    then obtain t where t: "(io_step J ^^ k) s t" "io_step J t s'"
      by auto
    have inv: "io_inv J t"
      using io_run_bounded[of "n + k" J m t] assms(2) t(1) by (auto simp: relpowp_add)
    have no: "\<not> (\<exists>e. io_main t = Returned (Some e))"
      using t(2) returned_final[OF inv] by blast
    show ?case
      using Suc.IH[OF t(1)] no doomed_step[OF t(2) inv] by blast
  qed (use assms(3) in simp)
  moreover have "\<exists>e. r = Some e" if "io_main s' = Returned r" "doomed s'" for r
    using b that returned_doomed[of J s' r] unfolding io_inv_def main_inv_def doomed_def ended_def
    by (fastforce simp: in_set_conv_nth)
  ultimately have "(\<exists>e. io_main s' = Returned (Some e)) \<or> (\<exists>t. io_step J s' t)"
    using doomed_moves[OF assms(1), of s'] b by blast
  then show ?thesis
    using b by (simp add: effort_io_def io_start_def)
qed


subsection \<open>One lane after the other\<close>

fun lane_run :: "('i \<Rightarrow> 's \<Rightarrow> 's result option) \<Rightarrow> 'i list \<Rightarrow> 's \<Rightarrow> 's result option" where
  "lane_run f [] s = Some (Inr s)"
| "lane_run f (i # is) s = (case f i s of Some (Inr s') \<Rightarrow> lane_run f is s' | r \<Rightarrow> r)"

fun lanes_run :: "(nat \<Rightarrow> 'i \<Rightarrow> 'm \<Rightarrow> 'm result option) \<Rightarrow> (nat \<Rightarrow> 'i list) \<Rightarrow> nat list \<Rightarrow> 'm \<Rightarrow> 'm result option" where
  "lanes_run turn items [] m = Some (Inr m)"
| "lanes_run turn items (l # ls) m = (case lane_run (turn l) (items l) m of Some (Inr m') \<Rightarrow> lanes_run turn items ls m' | r \<Rightarrow> r)"

text \<open>
  What the lanes must be for their order not to matter: every lane has a part \<open>own\<close> of the memory, its
  turns depend on this part and change nothing else, and the parts with \<open>rest\<close> are the memory.
\<close>

lemma lift_outcome:
  "map_option (map_sum id f) r = Some (Inr s) \<longleftrightarrow> (\<exists>m. r = Some (Inr m) \<and> f m = s)"
  by (cases r; cases "the r"; auto)

lemma lift_error: "map_option (map_sum id f) r = Some (Inl e) \<longleftrightarrow> r = Some (Inl e)"
  by (cases r; cases "the r"; auto)

locale separate_lanes =
  fixes lanes :: "nat list" and items :: "nat \<Rightarrow> 'i list" and turn :: "nat \<Rightarrow> 'i \<Rightarrow> 'm \<Rightarrow> 'm result option"
    and own :: "nat \<Rightarrow> 'm \<Rightarrow> 's" and rest :: "'m \<Rightarrow> 'r" and lturn :: "nat \<Rightarrow> 'i \<Rightarrow> 's \<Rightarrow> 's result option"
  assumes turn_own: "l \<in> set lanes \<Longrightarrow> i \<in> set (items l) \<Longrightarrow> map_option (map_sum id (own l)) (turn l i m) = lturn l i (own l m)"
    and turn_frame: "l \<in> set lanes \<Longrightarrow> i \<in> set (items l) \<Longrightarrow> turn l i m = Some (Inr m') \<Longrightarrow> l' \<in> set lanes \<Longrightarrow> l' \<noteq> l \<Longrightarrow> own l' m' = own l' m"
    and turn_rest: "l \<in> set lanes \<Longrightarrow> i \<in> set (items l) \<Longrightarrow> turn l i m = Some (Inr m') \<Longrightarrow> rest m' = rest m"
    and whole: "(\<And>l. l \<in> set lanes \<Longrightarrow> own l m = own l m') \<Longrightarrow> rest m = rest m' \<Longrightarrow> m = m'"
    and distinct_lanes: "distinct lanes"
begin

lemma run_own:
  assumes "l \<in> set lanes" "set is \<subseteq> set (items l)"
  shows "map_option (map_sum id (own l)) (lane_run (turn l) is m) = lane_run (lturn l) is (own l m)"
  using assms(2)
proof (induction "is" arbitrary: m)
  case (Cons i "is")
  then have "lturn l i (own l m) = map_option (map_sum id (own l)) (turn l i m)"
    using turn_own[OF assms(1)] by simp
  then show ?case
    using Cons by (auto split: option.splits sum.splits)
qed simp

lemma run_frame:
  assumes "l \<in> set lanes" "set is \<subseteq> set (items l)" "lane_run (turn l) is m = Some (Inr m')"
  shows "l' \<in> set lanes \<Longrightarrow> l' \<noteq> l \<Longrightarrow> own l' m' = own l' m" "rest m' = rest m"
  using assms(2,3)
proof (induction "is" arbitrary: m)
  case (Cons i "is")
  {
    case 1
    then show ?case
      using Cons.IH(1) turn_frame[OF assms(1), of i m] by (auto split: option.splits sum.splits)
  next
    case 2
    then show ?case
      using Cons.IH(2) turn_rest[OF assms(1), of i m] by (auto split: option.splits sum.splits)
  }
qed simp_all

text \<open>The outcome of a lane is settled by its own part.\<close>

definition local_run :: "nat \<Rightarrow> 'm \<Rightarrow> 's result option" where
  "local_run l m = lane_run (lturn l) (items l) (own l m)"

lemma local_run_own: "l \<in> set lanes \<Longrightarrow> local_run l m = map_option (map_sum id (own l)) (lane_run (turn l) (items l) m)"
  using run_own[of l "items l" m] by (simp add: local_run_def)

lemma lanes_run_ok:
  assumes "set ls \<subseteq> set lanes" "distinct ls" "\<forall>l \<in> set ls. \<exists>s. local_run l m = Some (Inr s)"
  shows "\<exists>m'. lanes_run turn items ls m = Some (Inr m') \<and> (\<forall>l \<in> set ls. local_run l m = Some (Inr (own l m'))) \<and>
    (\<forall>l \<in> set lanes - set ls. own l m' = own l m) \<and> rest m' = rest m"
  using assms
proof (induction ls arbitrary: m)
  case (Cons l ls)
  have l: "l \<in> set lanes" "l \<notin> set ls" "set ls \<subseteq> set lanes"
    using Cons.prems(1,2) by simp_all
  obtain m1 where m1: "lane_run (turn l) (items l) m = Some (Inr m1)" "local_run l m = Some (Inr (own l m1))"
  proof -
    obtain s where s: "local_run l m = Some (Inr s)"
      using Cons.prems(3) by auto
    then have "map_option (map_sum id (own l)) (lane_run (turn l) (items l) m) = Some (Inr s)"
      using local_run_own[OF l(1), of m] by simp
    then show thesis
      using that s unfolding lift_outcome by blast
  qed
  note f = run_frame[OF l(1) order_refl m1(1)]
  have same: "local_run k m1 = local_run k m" if "k \<in> set ls" for k
  proof -
    have "own k m1 = own k m"
      by (rule f(1)) (use that l in auto)
    then show ?thesis
      by (simp add: local_run_def)
  qed
  have ih: "\<forall>k \<in> set ls. \<exists>s. local_run k m1 = Some (Inr s)"
    using Cons.prems(3) same by simp
  have "distinct ls"
    using Cons.prems(2) by simp
  from Cons.IH[OF l(3) this ih] obtain m' where "lanes_run turn items ls m1 = Some (Inr m')" "\<forall>k \<in> set ls. local_run k m1 = Some (Inr (own k m'))"
    "\<forall>k \<in> set lanes - set ls. own k m' = own k m1" "rest m' = rest m1"
    by blast
  then show ?case
    using m1 f l same by (intro exI[of _ m']) auto
qed simp

lemma lanes_run_local:
  assumes "set ls \<subseteq> set lanes" "distinct ls" "lanes_run turn items ls m = Some (Inr m')" "l \<in> set ls"
  shows "\<exists>s. local_run l m = Some (Inr s)"
  using assms
proof (induction ls arbitrary: m)
  case (Cons k ls)
  then obtain m1 where m1: "lane_run (turn k) (items k) m = Some (Inr m1)" "lanes_run turn items ls m1 = Some (Inr m')"
    by (auto split: option.splits sum.splits)
  have k: "k \<in> set lanes"
    using Cons.prems(1) by simp
  show ?case
  proof (cases "l = k")
    case True
    then show ?thesis
      using m1(1) local_run_own[OF k, of m] by simp
  next
    case False
    then have "own l m1 = own l m"
      using run_frame(1)[OF k order_refl m1(1), of l] Cons.prems(1,4) by auto
    then show ?thesis
      using Cons.IH[OF _ _ m1(2)] Cons.prems False by (simp add: local_run_def)
  qed
qed simp

text \<open>A call on these lanes, and what its threads have done so far.\<close>

definition calls :: "('i, 'm) io_call \<Rightarrow> bool" where
  "calls J \<longleftrightarrow> ic_lanes J = lanes \<and> ic_items J = items \<and> ic_turn J = turn"

definition thread_ok :: "'m \<Rightarrow> 'm \<Rightarrow> nat \<Rightarrow> 'i io_worker \<Rightarrow> bool" where
  "thread_ok m0 m l x = (case x of
       Busy is \<Rightarrow> set is \<subseteq> set (items l) \<and> lane_run (lturn l) is (own l m) = local_run l m0
     | Finished \<Rightarrow> local_run l m0 = Some (Inr (own l m))
     | _ \<Rightarrow> True)"

lemma thread_ok_simps [simp]:
  "thread_ok m0 m l (Busy is) \<longleftrightarrow> set is \<subseteq> set (items l) \<and> lane_run (lturn l) is (own l m) = local_run l m0"
  "thread_ok m0 m l Finished \<longleftrightarrow> local_run l m0 = Some (Inr (own l m))"
  "thread_ok m0 m l (Raised e)" "thread_ok m0 m l (Cutting k)" "thread_ok m0 m l Cancelled"
  by (simp_all add: thread_ok_def)

lemma thread_ok_own: "own l m = own l m' \<Longrightarrow> thread_ok m0 m l x = thread_ok m0 m' l x"
  by (simp add: thread_ok_def split: io_worker.split)

definition work_inv :: "'m \<Rightarrow> ('i, 'm) io_state \<Rightarrow> bool" where
  "work_inv m0 s \<longleftrightarrow> length (io_workers s) \<le> length lanes \<and> rest (io_mem s) = rest m0 \<and>
     (\<forall>w < length lanes. if w < length (io_workers s)
        then thread_ok m0 (io_mem s) (lanes ! w) (io_workers s ! w)
        else own (lanes ! w) (io_mem s) = own (lanes ! w) m0)"

definition aborted :: "('i, 'm) io_state \<Rightarrow> bool" where
  "aborted s \<longleftrightarrow> io_main s \<noteq> Spawning \<and> length (io_workers s) < length lanes"

text \<open>An exception is a lane's own until one has been recorded, and the recorded one stays a lane's own.\<close>

definition blame_inv :: "'m \<Rightarrow> ('i, 'm) io_state \<Rightarrow> bool" where
  "blame_inv m0 s \<longleftrightarrow> aborted s \<or>
     (case io_failure s of
        None \<Rightarrow> io_shut s = {} \<and> (\<forall>w < length (io_workers s). \<forall>e. io_workers s ! w = Raised e \<longrightarrow> local_run (lanes ! w) m0 = Some (Inl e))
      | Some e \<Rightarrow> \<exists>l \<in> set lanes. local_run l m0 = Some (Inl e))"

lemma start_work: "work_inv m0 (io_start m0)" "blame_inv m0 (io_start m0)"
  by (simp_all add: work_inv_def blame_inv_def io_start_def)

lemma lane_index: "w < length lanes \<Longrightarrow> v < length lanes \<Longrightarrow> lanes ! w = lanes ! v \<longleftrightarrow> w = v"
  using distinct_lanes by (simp add: nth_eq_iff_index_eq)

lemma work_invD:
  assumes "work_inv m0 s" "w < length (io_workers s)"
  shows "w < length lanes" "lanes ! w \<in> set lanes" "thread_ok m0 (io_mem s) (lanes ! w) (io_workers s ! w)"
  using assms by (auto simp: work_inv_def)

lemma step_work:
  assumes "io_step J s s'" "calls J" "work_inv m0 s"
  shows "work_inv m0 s'"
  using assms(1)
proof (cases rule: io_step.cases)
  case (spawn k)
  then show ?thesis
    using assms(2,3) by (auto simp: work_inv_def calls_def nth_append local_run_def less_Suc_eq)
next
  case (turn w i "is" m)
  have w: "w < length lanes" "lanes ! w \<in> set lanes" "set (i # is) \<subseteq> set (items (lanes ! w))"
      "lane_run (lturn (lanes ! w)) (i # is) (own (lanes ! w) (io_mem s)) = local_run (lanes ! w) m0"
    using work_invD[OF assms(3), of w] turn by simp_all
  have t: "turn (lanes ! w) i (io_mem s) = Some (Inr m)" and i: "i \<in> set (items (lanes ! w))"
    using assms(2) turn w(3) by (simp_all add: calls_def)
  have o: "own (lanes ! v) m = own (lanes ! v) (io_mem s)" if "v < length lanes" "v \<noteq> w" for v
    using turn_frame[OF w(2) i t] lane_index[OF that(1) w(1)] that by simp
  have "lturn (lanes ! w) i (own (lanes ! w) (io_mem s)) = Some (Inr (own (lanes ! w) m))"
    using turn_own[OF w(2) i, of "io_mem s"] t by simp
  then have "lane_run (lturn (lanes ! w)) is (own (lanes ! w) m) = local_run (lanes ! w) m0"
    using w(4) by simp
  then show ?thesis
    using assms(3) turn w o turn_rest[OF w(2) i t] thread_ok_own[OF o] by (auto simp: work_inv_def nth_list_update)
next
  case (finish w)
  then have "lane_run (lturn (lanes ! w)) [] (own (lanes ! w) (io_mem s)) = local_run (lanes ! w) m0"
    using work_invD[OF assms(3), of w] by simp
  then show ?thesis
    using assms(3) finish by (auto simp: work_inv_def nth_list_update)
qed (use assms(3) in \<open>auto simp: work_inv_def nth_list_update\<close>)

lemma step_blame:
  assumes "io_step J s s'" "calls J" "io_inv J s" "work_inv m0 s" "blame_inv m0 s"
  shows "blame_inv m0 s'"
proof (cases "aborted s")
  case True
  have "aborted s'"
    using assms(1) by (cases rule: io_step.cases) (use True assms(2,3) in \<open>auto simp: aborted_def io_inv_def main_inv_def settled_def calls_def\<close>)
  then show ?thesis
    by (simp add: blame_inv_def)
next
  case False
  show ?thesis
    using assms(1)
  proof (cases rule: io_step.cases)
    case (throw w i "is" e)
    have w: "lanes ! w \<in> set lanes" "i \<in> set (items (lanes ! w))"
        "lane_run (lturn (lanes ! w)) (i # is) (own (lanes ! w) (io_mem s)) = local_run (lanes ! w) m0"
      using work_invD[OF assms(4), of w] throw by simp_all
    have "lturn (lanes ! w) i (own (lanes ! w) (io_mem s)) = Some (Inl e)"
      using turn_own[OF w(1,2), of "io_mem s"] throw assms(2) by (simp add: calls_def)
    then have "local_run (lanes ! w) m0 = Some (Inl e)"
      using w(3) by simp
    then show ?thesis
      using assms(5) throw False by (auto simp: blame_inv_def aborted_def nth_list_update split: option.splits)
  next
    case (fail w e)
    then have "w < length lanes"
      using assms(4) by (simp add: work_inv_def)
    then have "lanes ! w \<in> set lanes"
      by simp
    then show ?thesis
      using assms(5) fail False by (auto simp: blame_inv_def aborted_def split: option.splits)
  next
    case (shut_next w k)
    then have "handled (io_workers s ! w)"
      by (simp add: handled_def)
    then have "io_failure s \<noteq> None"
      using assms(3) shut_next nth_mem[of w "io_workers s"] unfolding io_inv_def failure_inv_def by blast
    then show ?thesis
      using assms(5) shut_next False by (auto simp: blame_inv_def aborted_def split: option.splits)
  next
    case (abort_cut e k)
    then have "aborted s"
      using assms(2,3) by (auto simp: aborted_def io_inv_def main_inv_def settled_def calls_def)
    then show ?thesis
      using False by simp
  next
    case (spawn_fail k e)
    then show ?thesis
      using assms(2) by (simp add: blame_inv_def aborted_def calls_def)
  qed (use assms(5) False in \<open>auto simp: blame_inv_def aborted_def nth_list_update nth_append split: option.splits\<close>)
qed

lemma reachable_work:
  assumes "(io_step J)\<^sup>*\<^sup>* (io_start m0) s" "calls J"
  shows "work_inv m0 s \<and> blame_inv m0 s"
  using assms(1)
proof (induction rule: rtranclp_induct)
  case (step s s')
  then show ?case
    using step_work[OF step(2) assms(2)] step_blame[OF step(2) assms(2) reachable_io_inv[OF step(1)]] by blast
qed (simp add: start_work)

text \<open>
  A call that could not create one of its threads throws the error of the creation; a call with all
  its threads amounts to running the lanes one after the other.
\<close>

lemma call_is_sequential:
  assumes "(io_step J)\<^sup>*\<^sup>* (io_start m0) s" "calls J" "io_main s = Returned r"
  shows "case first_refused (ic_spawn J) (length lanes) of
      Some e \<Rightarrow> r = Some e
    | None \<Rightarrow> (case r of
        None \<Rightarrow> lanes_run turn items lanes m0 = Some (Inr (io_mem s))
      | Some e \<Rightarrow> (\<exists>l \<in> set lanes. local_run l m0 = Some (Inl e)) \<and> (\<forall>m. lanes_run turn items lanes m0 \<noteq> Some (Inr m)))"
proof (cases "first_refused (ic_spawn J) (length lanes)")
  case (Some e)
  have "main_inv J s"
    using reachable_io_inv[OF assms(1)] by (simp add: io_inv_def)
  then obtain r0 where r0: "settled J (length (io_workers s)) r0" "r = (case r0 of Some e \<Rightarrow> Some e | None \<Rightarrow> io_failure s)"
    using assms(3) by (auto simp: main_inv_def)
  have "r0 = Some e"
    using settled_refused[OF r0(1)] Some assms(2) by (simp add: calls_def)
  then show ?thesis
    using Some r0(2) by simp
next
  case created: None
  note I = reachable_io_inv[OF assms(1), unfolded io_inv_def]
  note W = reachable_work[OF assms(1,2)]
  obtain r0 where r0: "settled J (length (io_workers s)) r0" "r = (case r0 of Some e \<Rightarrow> Some e | None \<Rightarrow> io_failure s)"
      "\<forall>w < length (io_workers s). ended (io_workers s ! w)"
    using I assms(3) by (auto simp: main_inv_def)
  have "r0 = None"
    using settled_refused[OF r0(1)] created assms(2) by (simp add: calls_def)
  then have r: "r = io_failure s" "length (io_workers s) = length lanes" "\<forall>w < length lanes. ended (io_workers s ! w)"
    using r0 assms(2) by (simp_all add: settled_def calls_def)
  have blame: "\<not> aborted s"
    using r(2) by (simp add: aborted_def)
  show ?thesis
  proof (cases r)
    case None
    have "io_workers s ! w = Finished" if "w < length lanes" for w
    proof -
      have "\<not> handled (io_workers s ! w)"
        using I None r(1,2) that by (auto simp: failure_inv_def)
      then show ?thesis
        using r(3) that by (auto simp: ended_def handled_def)
    qed
    then have all: "local_run l m0 = Some (Inr (own l (io_mem s)))" if "l \<in> set lanes" for l
      using W r(2) that by (auto simp: work_inv_def in_set_conv_nth)
    then obtain m' where m': "lanes_run turn items lanes m0 = Some (Inr m')" "\<forall>l \<in> set lanes. local_run l m0 = Some (Inr (own l m'))"
      "rest m' = rest m0"
      using lanes_run_ok[OF order_refl distinct_lanes, of m0] by blast
    have "m' = io_mem s"
      by (rule whole) (use all m'(2,3) W in \<open>auto simp: work_inv_def\<close>)
    then show ?thesis
      using m'(1) None created by simp
  next
    case (Some e)
    then obtain l where l: "l \<in> set lanes" "local_run l m0 = Some (Inl e)"
      using W blame r(1) by (auto simp: blame_inv_def)
    then have "lanes_run turn items lanes m0 \<noteq> Some (Inr m)" for m
      using lanes_run_local[OF order_refl distinct_lanes _ l(1), of m0 m] by auto
    then show ?thesis
      using l Some created by auto
  qed
qed

end


subsection \<open>Receiving and sending on lanes\<close>

definition lane_items :: "nat \<Rightarrow> nat \<Rightarrow> nat \<Rightarrow> nat \<Rightarrow> nat \<Rightarrow> nat list" where
  "lane_items n k b e l = [lane_lo n k b l..<lane_hi n k e l]"

definition live_lanes :: "env \<Rightarrow> nat \<Rightarrow> nat \<Rightarrow> nat \<Rightarrow> nat \<Rightarrow> nat \<Rightarrow> nat list" where
  "live_lanes env k n vsize b e = (case rf_active_lanes env k n vsize b e of Inr ls \<Rightarrow> ls | Inl _ \<Rightarrow> [])"

text \<open>One turn: \<^verbatim>\<open>values[i] = recv_ct(fds[lane])\<close> and \<^verbatim>\<open>send_ct(fds[lane], values[i])\<close>.\<close>

definition recv_turn :: "'c reader \<Rightarrow> nat \<Rightarrow> nat \<Rightarrow> 'c list \<times> byte list list \<Rightarrow> ('c list \<times> byte list list) result option" where
  "recv_turn rcv lane i m = Some (bind_r (rcv (snd m ! lane)) (\<lambda>(x, rest). Inr ((fst m)[i := x], (snd m)[lane := rest])))"

definition send_turn :: "('c \<Rightarrow> byte list result) \<Rightarrow> 'c list \<Rightarrow> nat \<Rightarrow> nat \<Rightarrow> byte list list \<Rightarrow> byte list list result option" where
  "send_turn snd_ct values lane i fds = Some (bind_r (snd_ct (values ! i)) (\<lambda>bs. Inr (fds[lane := fds ! lane @ bs])))"

text \<open>
  The calls of \<^verbatim>\<open>rf_parallel_io\<close> made for a range of ciphertexts. Whether the thread of a lane can be
  created is up to the system: \<open>spawn k\<close> is the error of creating the k-th thread, if there is one.
\<close>

definition recv_call :: "env \<Rightarrow> 'c reader \<Rightarrow> (nat \<Rightarrow> cg_error option) \<Rightarrow> byte list list \<Rightarrow> 'c list \<Rightarrow> nat \<Rightarrow> nat \<Rightarrow> nat \<Rightarrow> (nat, 'c list \<times> byte list list) io_call" where
  "recv_call env rcv spawn fds values n b e = \<lparr> ic_lanes = live_lanes env (length fds) n (length values) b e, ic_fds = length fds,
     ic_items = lane_items n (length fds) b e, ic_turn = recv_turn rcv, ic_spawn = spawn \<rparr>"

definition send_call :: "env \<Rightarrow> ('c \<Rightarrow> byte list result) \<Rightarrow> (nat \<Rightarrow> cg_error option) \<Rightarrow> byte list list \<Rightarrow> 'c list \<Rightarrow> nat \<Rightarrow> nat \<Rightarrow> nat \<Rightarrow> (nat, byte list list) io_call" where
  "send_call env snd_ct spawn fds values n b e = \<lparr> ic_lanes = live_lanes env (length fds) n (length values) b e, ic_fds = length fds,
     ic_items = lane_items n (length fds) b e, ic_turn = send_turn snd_ct values, ic_spawn = spawn \<rparr>"

lemma live_lane:
  assumes "l \<in> set (live_lanes env k n vsize b e)"
  shows "l < k" "0 < k" "k \<le> 64" "n \<le> 2 ^ 24" "n \<le> vsize" "e \<le> n" "cg_validate_count env n False = Inr ()"
proof -
  obtain ls where ls: "rf_active_lanes env k n vsize b e = Inr ls" "l \<in> set ls"
    using assms by (cases "rf_active_lanes env k n vsize b e") (auto simp: live_lanes_def)
  note c = rf_active_lanes_Inr[OF ls(1)]
  then show "0 < k" "k \<le> 64" "n \<le> vsize" "e \<le> n" "cg_validate_count env n False = Inr ()" "n \<le> 2 ^ 24"
    using validate_count_bound by blast+
  show "l < k"
    using ls c rf_active_lanes_eq[of env n k vsize b e] by auto
qed

lemma live_lanes_distinct: "distinct (live_lanes env k n vsize b e)"
proof (cases "rf_active_lanes env k n vsize b e")
  case (Inr ls)
  then show ?thesis
    using rf_active_lanes_Inr[OF Inr] rf_active_lanes_eq[of env n k vsize b e] by (auto simp: live_lanes_def)
qed (simp add: live_lanes_def)

lemma live_items_disjoint:
  assumes "l \<in> set (live_lanes env k n vsize b e)" "l' \<in> set (live_lanes env k n vsize b e)" "l' \<noteq> l" "i \<in> set (lane_items n k b e l)"
  shows "i \<notin> set (lane_items n k b e l')"
  using lane_unique[OF live_lane(2-4)[OF assms(1)] live_lane(1)[OF assms(1)] live_lane(1)[OF assms(2)], of i] assms(3,4)
  by (auto simp: lane_items_def lane_lo_def lane_hi_def)

text \<open>The part of a lane: the slots of its range and its connection.\<close>

definition recv_own :: "(nat \<Rightarrow> nat list) \<Rightarrow> nat \<Rightarrow> 'c list \<times> byte list list \<Rightarrow> (nat \<Rightarrow> 'c option) \<times> bool \<times> byte list" where
  "recv_own items l m = (\<lambda>i. if i \<in> set (items l) \<and> i < length (fst m) then Some (fst m ! i) else None, l < length (snd m), snd m ! l)"

definition recv_rest :: "nat list \<Rightarrow> (nat \<Rightarrow> nat list) \<Rightarrow> 'c list \<times> byte list list \<Rightarrow> nat \<times> nat \<times> (nat \<Rightarrow> 'c option) \<times> (nat \<Rightarrow> byte list option)" where
  "recv_rest lanes items m = (length (fst m), length (snd m),
     \<lambda>i. if (\<exists>l \<in> set lanes. i \<in> set (items l)) \<or> length (fst m) \<le> i then None else Some (fst m ! i),
     \<lambda>l. if l \<in> set lanes \<or> length (snd m) \<le> l then None else Some (snd m ! l))"

definition recv_lturn :: "'c reader \<Rightarrow> nat \<Rightarrow> nat \<Rightarrow> (nat \<Rightarrow> 'c option) \<times> bool \<times> byte list \<Rightarrow> ((nat \<Rightarrow> 'c option) \<times> bool \<times> byte list) result option" where
  "recv_lturn rcv lane i = (\<lambda>(f, b, s). Some (bind_r (rcv s) (\<lambda>(x, rest). Inr (if f i = None then f else f(i \<mapsto> x), b, if b then rest else s))))"

lemma recv_turn_own:
  assumes "i \<in> set (items l)"
  shows "map_option (map_sum id (recv_own items l)) (recv_turn rcv l i m) = recv_lturn rcv l i (recv_own items l m)"
proof (cases "rcv (snd m ! l)")
  case (Inr p)
  obtain x r where p: "p = (x, r)"
    by (cases p)
  have "recv_own items l ((fst m)[i := x], (snd m)[l := r])
      = (if fst (recv_own items l m) i = None then fst (recv_own items l m) else (fst (recv_own items l m))(i \<mapsto> x),
         l < length (snd m), if l < length (snd m) then r else snd m ! l)"
    using assms by (auto simp: recv_own_def nth_list_update fun_eq_iff not_less list_update_beyond)
  then show ?thesis
    using Inr p by (simp add: recv_turn_def recv_lturn_def recv_own_def)
qed (simp add: recv_turn_def recv_lturn_def recv_own_def)

lemma recv_turn_Inr:
  assumes "recv_turn rcv l i m = Some (Inr m')"
  obtains x r where "m' = ((fst m)[i := x], (snd m)[l := r])"
  using assms by (auto simp: recv_turn_def bind_r_Inr_iff)

lemma recv_state:
  assumes "\<And>l. l \<in> set lanes \<Longrightarrow> recv_own items l m = recv_own items l m'" "recv_rest lanes items m = recv_rest lanes items m'"
  shows "m = m'"
proof (rule prod_eqI)
  have len: "length (fst m) = length (fst m')" "length (snd m) = length (snd m')"
    using assms(2) by (simp_all add: recv_rest_def)
  have f: "fst (recv_own items l m) i = fst (recv_own items l m') i" "snd m ! l = snd m' ! l" if "l \<in> set lanes" for l i
    using assms(1)[OF that] by (simp_all add: recv_own_def)
  have g: "fst (snd (snd (recv_rest lanes items m))) i = fst (snd (snd (recv_rest lanes items m'))) i"
    "snd (snd (snd (recv_rest lanes items m))) l = snd (snd (snd (recv_rest lanes items m'))) l" for i l
    using assms(2) by simp_all
  show "fst m = fst m'"
  proof (rule nth_equalityI[OF len(1)])
    fix i assume i: "i < length (fst m)"
    show "fst m ! i = fst m' ! i"
    proof (cases "\<exists>l \<in> set lanes. i \<in> set (items l)")
      case True
      then obtain l where "l \<in> set lanes" "i \<in> set (items l)"
        by blast
      then show ?thesis
        using f(1)[of l i] i len by (simp add: recv_own_def)
    next
      case False
      then show ?thesis
        using g(1)[of i] i len by (simp add: recv_rest_def)
    qed
  qed
  show "snd m = snd m'"
  proof (rule nth_equalityI[OF len(2)])
    fix l assume l: "l < length (snd m)"
    show "snd m ! l = snd m' ! l"
    proof (cases "l \<in> set lanes")
      case False
      then show ?thesis
        using g(2)[of l] l len by (simp add: recv_rest_def)
    qed (rule f(2))
  qed
qed

interpretation recv_lanes: separate_lanes "live_lanes env k n vsize b e" "lane_items n k b e" "recv_turn rcv"
    "recv_own (lane_items n k b e)" "recv_rest (live_lanes env k n vsize b e) (lane_items n k b e)" "recv_lturn rcv"
  for env k n vsize b e rcv
proof
  fix l l' i m m'
  assume l: "l \<in> set (live_lanes env k n vsize b e)" "i \<in> set (lane_items n k b e l)"
  show "map_option (map_sum id (recv_own (lane_items n k b e) l)) (recv_turn rcv l i m) = recv_lturn rcv l i (recv_own (lane_items n k b e) l m)"
    using l(2) by (rule recv_turn_own)
  assume "recv_turn rcv l i m = Some (Inr m')"
  then obtain x r where m': "m' = ((fst m)[i := x], (snd m)[l := r])"
    by (rule recv_turn_Inr)
  show "recv_rest (live_lanes env k n vsize b e) (lane_items n k b e) m' = recv_rest (live_lanes env k n vsize b e) (lane_items n k b e) m"
    using l by (auto simp: recv_rest_def m' fun_eq_iff intro!: nth_list_update_neq)
  assume "l' \<in> set (live_lanes env k n vsize b e)" "l' \<noteq> l"
  then show "recv_own (lane_items n k b e) l' m' = recv_own (lane_items n k b e) l' m"
    using live_items_disjoint[OF l(1) _ _ l(2)] by (auto simp: recv_own_def m' fun_eq_iff intro!: nth_list_update_neq)
qed (rule recv_state, blast, assumption, rule live_lanes_distinct)


text \<open>The lane loop of a call is the one the sequential model runs.\<close>

lemma put_vec_cons: "l < length vals \<Longrightarrow> put_vec (Suc l) xs (vals[l := x]) = put_vec l (x # xs) vals"
  by (simp add: put_vec_def take_Suc_conv_app_nth)

lemma lane_run_recv:
  assumes "lane < length fds" "hi \<le> length vals"
  shows "lane_run (recv_turn rcv lane) [lo..<hi] (vals, fds)
    = Some (bind_r (recv_list rcv (hi - lo) (fds ! lane)) (\<lambda>(xs, rest). Inr (put_vec lo xs vals, fds[lane := rest])))"
  using assms
proof (induction "hi - lo" arbitrary: lo vals fds)
  case 0
  then show ?case
    by (simp add: put_vec_def)
next
  case (Suc d)
  then have lo: "lo < hi" "[lo..<hi] = lo # [Suc lo..<hi]" "hi - lo = Suc (hi - Suc lo)"
    by (simp_all add: upt_conv_Cons)
  show ?case
  proof (cases "rcv (fds ! lane)")
    case (Inr p)
    obtain x r where p: "p = (x, r)"
      by (cases p)
    have "lane_run (recv_turn rcv lane) [Suc lo..<hi] (vals[lo := x], fds[lane := r])
      = Some (bind_r (recv_list rcv (hi - Suc lo) (fds[lane := r] ! lane))
          (\<lambda>(xs, rest). Inr (put_vec (Suc lo) xs (vals[lo := x]), fds[lane := r, lane := rest])))"
      using Suc.hyps(2) Suc.prems by (intro Suc.hyps(1)) auto
    moreover have "lo < length vals"
      using lo(1) Suc.prems(2) by simp
    ultimately show ?thesis
      using Inr p Suc.prems lo(2,3)
      by (cases "recv_list rcv (hi - Suc lo) r") (auto simp: recv_turn_def put_vec_cons)
  qed (use lo in \<open>simp add: recv_turn_def\<close>)
qed

lemma lanes_run_recv:
  assumes "set ls \<subseteq> set (live_lanes env k n vsize b e)" "length (fst m) = vsize" "length (snd m) = k"
  shows "lanes_run (recv_turn rcv) (lane_items n k b e) ls m = Some (fold_r (recv_lane env rcv n b e) ls m)"
  using assms
proof (induction ls arbitrary: m)
  case (Cons l ls)
  have l: "l \<in> set (live_lanes env k n vsize b e)"
    using Cons.prems(1) by simp
  note live = live_lane[OF l]
  have "lane_hi n k e l \<le> length (fst m)"
    using live Cons.prems(2) by (simp add: lane_hi_def)
  then have run: "lane_run (recv_turn rcv l) (lane_items n k b e l) m = Some (recv_lane env rcv n b e l m)"
    using lane_run_recv[of l "snd m" "lane_hi n k e l" "fst m" rcv "lane_lo n k b l"] live Cons.prems(3)
      rf_lane_range_intersection_eq[OF live(7,3,1), of b e] by (simp add: recv_lane_def lane_items_def)
  show ?case
  proof (cases "recv_lane env rcv n b e l m")
    case (Inr m')
    then have "recv_rest (live_lanes env k n vsize b e) (lane_items n k b e) m' = recv_rest (live_lanes env k n vsize b e) (lane_items n k b e) m"
      using recv_lanes.run_frame(2)[OF l order_refl, of rcv m m'] run by simp
    then have "length (fst m') = vsize" "length (snd m') = k"
      using Cons.prems(2,3) by (simp_all add: recv_rest_def)
    then show ?thesis
      using Cons.IH[of m'] Cons.prems(1) run Inr by simp
  qed (use run in simp)
qed simp

lemma recv_range_lanes:
  assumes "rf_active_lanes env (length fds) n (length values) b e = Inr lanes" "length fds \<noteq> 1"
  shows "lanes_run (recv_turn rcv) (lane_items n (length fds) b e) (live_lanes env (length fds) n (length values) b e) (values, fds)
    = Some (recv_ct_lanes_range env rcv fds values n b e)"
  using assms lanes_run_recv[of "live_lanes env (length fds) n (length values) b e" env "length fds" n "length values" b e "(values, fds)" rcv]
  by (simp add: recv_ct_lanes_range_def live_lanes_def)

text \<open>
  C14: Receiving on lanes in parallel is receiving on them one after the other. Whatever the
  interleaving of the lane threads, which share the vector and the connections, a call that returns
  normally leaves the vector and the unread bytes that the sequential loop of the models leaves. When
  one of its threads cannot be created, the call throws the error of the first such creation. When it
  throws otherwise, the sequential loop throws as well, and the exception is one that a lane meets on
  its own bytes, never a consequence of the shutdown of the other connections.
\<close>

theorem parallel_receive_sequential:
  assumes "rf_active_lanes env (length fds) n (length values) b e = Inr lanes" "length fds \<noteq> 1"
    and "(io_step (recv_call env rcv spawn fds values n b e))\<^sup>*\<^sup>* (io_start (values, fds)) s" "io_main s = Returned r"
  shows "case first_refused spawn (length lanes) of
      Some err \<Rightarrow> r = Some err
    | None \<Rightarrow> (case r of
        None \<Rightarrow> recv_ct_lanes_range env rcv fds values n b e = Inr (io_mem s)
      | Some err \<Rightarrow> (\<exists>err'. recv_ct_lanes_range env rcv fds values n b e = Inl err') \<and>
          (\<exists>lane \<in> set lanes. recv_list rcv (lane_hi n (length fds) e lane - lane_lo n (length fds) b lane) (fds ! lane) = Inl err))"
proof -
  have live: "live_lanes env (length fds) n (length values) b e = lanes"
    using assms(1) by (simp add: live_lanes_def)
  have calls: "recv_lanes.calls env (length fds) n (length values) b e rcv (recv_call env rcv spawn fds values n b e)"
    by (simp add: recv_lanes.calls_def recv_call_def)
  have seq: "lanes_run (recv_turn rcv) (lane_items n (length fds) b e) lanes (values, fds) = Some (recv_ct_lanes_range env rcv fds values n b e)"
    using recv_range_lanes[OF assms(1,2), of rcv] live by simp
  note out = recv_lanes.call_is_sequential[OF assms(3) calls assms(4), unfolded live seq]
  consider (refused) err where "first_refused spawn (length lanes) = Some err"
    | (normal) "first_refused spawn (length lanes) = None" "r = None"
    | (failed) err where "first_refused spawn (length lanes) = None" "r = Some err"
    by (cases "first_refused spawn (length lanes)"; cases r) auto
  then show ?thesis
  proof cases
    case (refused err)
    then show ?thesis
      using out by (simp add: recv_call_def)
  next
    case normal
    then show ?thesis
      using out by (simp add: recv_call_def)
  next
    case (failed err)
    then obtain l where l: "l \<in> set lanes" "recv_lanes.local_run n (length fds) b e rcv l (values, fds) = Some (Inl err)"
      using out by (auto simp: recv_call_def)
    note lv = live_lane[of l env "length fds" n "length values" b e, unfolded live, OF l(1)]
    have "lane_run (recv_turn rcv l) (lane_items n (length fds) b e l) (values, fds) = Some (Inl err)"
      using l recv_lanes.local_run_own[of l env "length fds" n "length values" b e rcv "(values, fds)"] live lift_error by metis
    moreover have "lane_hi n (length fds) e l \<le> length values"
      using lv by (simp add: lane_hi_def)
    ultimately have "recv_list rcv (lane_hi n (length fds) e l - lane_lo n (length fds) b l) (fds ! l) = Inl err"
      using lane_run_recv[of l fds "lane_hi n (length fds) e l" "values" rcv "lane_lo n (length fds) b l"] lv(1)
      by (auto simp: lane_items_def bind_r_def split: sum.splits)
    moreover have "\<exists>err'. recv_ct_lanes_range env rcv fds values n b e = Inl err'"
      using out failed by (cases "recv_ct_lanes_range env rcv fds values n b e") (auto simp: recv_call_def)
    ultimately show ?thesis
      using failed l(1) by auto
  qed
qed


text \<open>Sending: the part of a lane is what it has written.\<close>

definition send_own :: "nat \<Rightarrow> byte list list \<Rightarrow> bool \<times> byte list" where
  "send_own l fds = (l < length fds, fds ! l)"

definition send_rest :: "nat list \<Rightarrow> byte list list \<Rightarrow> nat \<times> (nat \<Rightarrow> byte list option)" where
  "send_rest lanes fds = (length fds, \<lambda>l. if l \<in> set lanes \<or> length fds \<le> l then None else Some (fds ! l))"

definition send_lturn :: "('c \<Rightarrow> byte list result) \<Rightarrow> 'c list \<Rightarrow> nat \<Rightarrow> nat \<Rightarrow> bool \<times> byte list \<Rightarrow> (bool \<times> byte list) result option" where
  "send_lturn snd_ct values lane i = (\<lambda>(b, s). Some (bind_r (snd_ct (values ! i)) (\<lambda>bs. Inr (b, if b then s @ bs else s))))"

lemma send_state:
  assumes "\<And>l. l \<in> set lanes \<Longrightarrow> send_own l fds = send_own l fds'" "send_rest lanes fds = send_rest lanes fds'"
  shows "fds = fds'"
proof (rule nth_equalityI)
  show len: "length fds = length fds'"
    using assms(2) by (simp add: send_rest_def)
  fix l assume l: "l < length fds"
  have "snd (send_rest lanes fds) l = snd (send_rest lanes fds') l"
    using assms(2) by simp
  then show "fds ! l = fds' ! l"
    using assms(1)[of l] l len by (auto simp: send_rest_def send_own_def split: if_splits)
qed

interpretation send_lanes: separate_lanes "live_lanes env k n vsize b e" "lane_items n k b e" "send_turn snd_ct values"
    send_own "send_rest (live_lanes env k n vsize b e)" "send_lturn snd_ct values"
  for env k n vsize b e snd_ct "values"
proof
  fix l l' i and m m' :: "byte list list"
  assume l: "l \<in> set (live_lanes env k n vsize b e)" "i \<in> set (lane_items n k b e l)"
  show "map_option (map_sum id (send_own l)) (send_turn snd_ct values l i m) = send_lturn snd_ct values l i (send_own l m)"
    by (cases "snd_ct (values ! i)") (auto simp: send_turn_def send_lturn_def send_own_def not_less list_update_beyond)
  assume "send_turn snd_ct values l i m = Some (Inr m')"
  then obtain bs where m': "m' = m[l := m ! l @ bs]"
    by (auto simp: send_turn_def bind_r_Inr_iff)
  show "send_rest (live_lanes env k n vsize b e) m' = send_rest (live_lanes env k n vsize b e) m"
    using l by (auto simp: send_rest_def m' fun_eq_iff intro!: nth_list_update_neq)
  assume "l' \<in> set (live_lanes env k n vsize b e)" "l' \<noteq> l"
  then show "send_own l' m' = send_own l' m"
    by (simp add: send_own_def m')
qed (rule send_state, blast, assumption, rule live_lanes_distinct)

lemma lane_run_send:
  assumes "lane < length fds" "hi \<le> length values"
  shows "lane_run (send_turn snd_ct values lane) [lo..<hi] fds
    = Some (bind_r (send_list snd_ct (vslice lo hi values)) (\<lambda>bs. Inr (fds[lane := fds ! lane @ bs])))"
  using assms
proof (induction "hi - lo" arbitrary: lo fds)
  case 0
  then show ?case
    by (simp add: send_list_def)
next
  case (Suc d)
  then have lo: "lo < hi" "[lo..<hi] = lo # [Suc lo..<hi]" "hi - lo = Suc (hi - Suc lo)" "lo < length values"
    by (simp_all add: upt_conv_Cons)
  have v: "vslice lo hi values = values ! lo # vslice (Suc lo) hi values"
    using lo(3,4) by (simp add: vslice_def Cons_nth_drop_Suc[symmetric])
  show ?case
  proof (cases "snd_ct (values ! lo)")
    case (Inr bs)
    have "lane_run (send_turn snd_ct values lane) [Suc lo..<hi] (fds[lane := fds ! lane @ bs])
      = Some (bind_r (send_list snd_ct (vslice (Suc lo) hi values)) (\<lambda>cs. Inr (fds[lane := fds ! lane @ bs, lane := fds[lane := fds ! lane @ bs] ! lane @ cs])))"
      using Suc.hyps(2) Suc.prems by (intro Suc.hyps(1)) auto
    then show ?thesis
      using Inr Suc.prems lo(2) v by (cases "map_r snd_ct (vslice (Suc lo) hi values)") (auto simp: send_turn_def send_list_def)
  qed (use lo v in \<open>simp add: send_turn_def send_list_def\<close>)
qed

lemma lanes_run_send:
  assumes "set ls \<subseteq> set (live_lanes env k n (length values) b e)" "length fds = k"
  shows "lanes_run (send_turn snd_ct values) (lane_items n k b e) ls fds = Some (fold_r (send_lane env snd_ct values n b e) ls fds)"
  using assms
proof (induction ls arbitrary: fds)
  case (Cons l ls)
  have l: "l \<in> set (live_lanes env k n (length values) b e)"
    using Cons.prems(1) by simp
  note live = live_lane[OF l]
  have "lane_hi n k e l \<le> length values"
    using live by (simp add: lane_hi_def)
  then have run: "lane_run (send_turn snd_ct values l) (lane_items n k b e l) fds = Some (send_lane env snd_ct values n b e l fds)"
    using lane_run_send[of l fds "lane_hi n k e l" "values" snd_ct "lane_lo n k b l"] live Cons.prems(2)
      rf_lane_range_intersection_eq[OF live(7,3,1), of b e] by (simp add: send_lane_def lane_items_def)
  show ?case
  proof (cases "send_lane env snd_ct values n b e l fds")
    case (Inr fds')
    then have "send_rest (live_lanes env k n (length values) b e) fds' = send_rest (live_lanes env k n (length values) b e) fds"
      using send_lanes.run_frame(2)[OF l order_refl, of snd_ct "values" fds fds'] run by simp
    then have "length fds' = k"
      using Cons.prems(2) by (simp add: send_rest_def)
    then show ?thesis
      using Cons.IH[of fds'] Cons.prems(1) run Inr by simp
  qed (use run in simp)
qed simp

lemma parallel_send_sequential:
  fixes "values" :: "'c list"
  assumes "rf_active_lanes env (length fds) n (length values) b e = Inr lanes" "length fds \<noteq> 1"
    and "(io_step (send_call env snd_ct spawn fds values n b e))\<^sup>*\<^sup>* (io_start fds) s" "io_main s = Returned r"
  shows "case first_refused spawn (length lanes) of
      Some err \<Rightarrow> r = Some err
    | None \<Rightarrow> (case r of
        None \<Rightarrow> send_ct_lanes_range env snd_ct fds values n b e = Inr (io_mem s)
      | Some err \<Rightarrow> \<exists>err'. send_ct_lanes_range env snd_ct fds values n b e = Inl err')"
proof -
  have live: "live_lanes env (length fds) n (length values) b e = lanes"
    using assms(1) by (simp add: live_lanes_def)
  have calls: "send_lanes.calls TYPE('c) env (length fds) n (length values) b e snd_ct values (send_call env snd_ct spawn fds values n b e)"
    by (simp add: send_lanes.calls_def send_call_def)
  have "lanes_run (send_turn snd_ct values) (lane_items n (length fds) b e) lanes fds = Some (send_ct_lanes_range env snd_ct fds values n b e)"
    using lanes_run_send[of lanes env "length fds" n "values" b e fds snd_ct] assms(1,2) live by (simp add: send_ct_lanes_range_def)
  then show ?thesis
    using send_lanes.call_is_sequential[OF assms(3) calls assms(4), unfolded live]
    by (cases "send_ct_lanes_range env snd_ct fds values n b e") (auto simp: send_call_def split: option.splits)
qed

subsection \<open>Instances\<close>

definition io_view :: "'i io_worker list \<Rightarrow> cg_error option \<Rightarrow> nat set \<Rightarrow> io_caller \<Rightarrow> 'm \<Rightarrow> ('i, 'm) io_state" where
  "io_view ws f sh c m = \<lparr> io_workers = ws, io_failure = f, io_shut = sh, io_main = c, io_mem = m \<rparr>"

text \<open>Two lanes; the peer of the first closes its connection, the peer of the second stays silent.\<close>

definition closed_call :: "(nat, unit) io_call" where
  "closed_call = \<lparr> ic_lanes = [0, 1], ic_fds = 2, ic_items = (\<lambda>l. [l]),
     ic_turn = (\<lambda>l i m. if l = 0 then Some (Inl (Runtime_error ''read: '')) else None), ic_spawn = (\<lambda>_. None) \<rparr>"

lemma closed_call_simps:
  "ic_lanes closed_call = [0, 1]" "ic_fds closed_call = 2" "ic_items closed_call l = [l]" "ic_spawn closed_call k = None"
  "ic_turn closed_call l i m = (if l = 0 then Some (Inl (Runtime_error ''read: '')) else None)"
  by (simp_all add: closed_call_def)

lemma closed_run:
  "(io_step closed_call ^^ 3) (io_start ()) (io_view [Raised (Runtime_error ''read: ''), Busy [1]] None {} Spawning ())"
  "(io_step closed_call ^^ 2) (io_view [Raised (Runtime_error ''read: ''), Busy [1]] None {} Spawning ())
     (io_view [Cutting 1, Busy [1]] (Some (Runtime_error ''read: '')) {0} Spawning ())"
proof -
  note d = io_view_def closed_call_simps
  have "io_step closed_call (io_start ()) (io_view [Busy [0]] None {} Spawning ())"
    using io_step.spawn[of "io_start ()" 0 closed_call] by (simp add: d io_start_def)
  moreover have "io_step closed_call (io_view [Busy [0]] None {} Spawning ()) (io_view [Busy [0], Busy [1]] None {} Spawning ())"
    using io_step.spawn[of "io_view [Busy [0]] None {} Spawning ()" 1 closed_call] by (simp add: d)
  moreover have "io_step closed_call (io_view [Busy [0], Busy [1]] None {} Spawning ()) (io_view [Raised (Runtime_error ''read: ''), Busy [1]] None {} Spawning ())"
    using io_step.throw[of 0 "io_view [Busy [0], Busy [1]] None {} Spawning ()" 0 "[]" closed_call] by (simp add: d)
  ultimately show "(io_step closed_call ^^ 3) (io_start ()) (io_view [Raised (Runtime_error ''read: ''), Busy [1]] None {} Spawning ())"
    by (auto simp: numeral_3_eq_3)
  have "io_step closed_call (io_view [Raised (Runtime_error ''read: ''), Busy [1]] None {} Spawning ())
      (io_view [Cutting 0, Busy [1]] (Some (Runtime_error ''read: '')) {} Spawning ())"
    using io_step.fail[of 0 "io_view [Raised (Runtime_error ''read: ''), Busy [1]] None {} Spawning ()" "Runtime_error ''read: ''" closed_call]
    by (simp add: d)
  moreover have "io_step closed_call (io_view [Cutting 0, Busy [1]] (Some (Runtime_error ''read: '')) {} Spawning ())
      (io_view [Cutting 1, Busy [1]] (Some (Runtime_error ''read: '')) {0} Spawning ())"
    using io_step.shut_next[of 0 "io_view [Cutting 0, Busy [1]] (Some (Runtime_error ''read: '')) {} Spawning ()" 0 closed_call] by (simp add: d)
  ultimately show "(io_step closed_call ^^ 2) (io_view [Raised (Runtime_error ''read: ''), Busy [1]] None {} Spawning ())
     (io_view [Cutting 1, Busy [1]] (Some (Runtime_error ''read: '')) {0} Spawning ())"
    by (auto simp: numeral_2_eq_2)
qed

theorem failed_io_returns_witness:
  "3 + 2 \<le> sum_list (map (\<lambda>l. length (ic_items closed_call l) + ic_fds closed_call + 6) (ic_lanes closed_call))
      + length (ic_lanes closed_call) + ic_fds closed_call + 5 \<and>
    ((\<exists>e. io_main (io_view [Cutting 1, Busy [1 :: nat]] (Some (Runtime_error ''read: '')) {0} Spawning ()) = Returned (Some e)) \<or>
     (\<exists>t. io_step closed_call (io_view [Cutting 1, Busy [1]] (Some (Runtime_error ''read: '')) {0} Spawning ()) t))"
  by (rule failed_io_returns[OF _ closed_run(1) _ closed_run(2)]) (auto simp: io_call_ok_def closed_call_simps doomed_def io_view_def)

text \<open>Two lanes with one byte each; the second lane is the first to read.\<close>

definition byte_reader :: "byte reader" where
  "byte_reader s = (case s of [] \<Rightarrow> Inl (Runtime_error ''read: '') | x # rest \<Rightarrow> Inr (x, rest))"

abbreviation two_call :: "(nat, byte list \<times> byte list list) io_call" where
  "two_call \<equiv> recv_call (\<lambda>_. None) byte_reader (\<lambda>_. None) [[5], [7, 9]] [0, 0] 2 0 2"

lemma two_lanes: "rf_active_lanes (\<lambda>_. None) (length [[5], [7, 9 :: byte]]) 2 (length [0, 0 :: byte]) 0 2 = Inr [0, 1]"
  by (simp add: rf_active_lanes_def cg_validate_count_def rf_lane_range_intersection_def rf_lane_range_def lane_bound_def sz_add_def sz_mul_def
      size_limit_def upt_rec flip: numeral_2_eq_2)

lemma two_items: "lane_items 2 2 0 2 0 = [0]" "lane_items 2 2 0 2 (Suc 0) = [Suc 0]"
  by (simp_all add: lane_items_def lane_lo_def lane_hi_def lane_bound_def sz_add_def sz_mul_def size_limit_def)

lemma two_run:
  "(io_step two_call)\<^sup>*\<^sup>* (io_start ([0, 0], [[5], [7, 9]])) (io_view [Finished, Finished] None {} (Returned None) ([5, 7], [[], [9]]))"
proof -
  have lanes: "ic_lanes two_call = [0, 1]" "ic_items two_call = lane_items 2 2 0 2" "ic_turn two_call = recv_turn byte_reader"
      "ic_spawn two_call k = None" for k
    using two_lanes by (simp_all add: recv_call_def live_lanes_def flip: numeral_2_eq_2)
  note d = io_view_def lanes two_items recv_turn_def byte_reader_def
  let ?m0 = "([0, 0], [[5], [7, 9]]) :: byte list \<times> byte list list" and ?m1 = "([0, 7], [[5], [9]]) :: byte list \<times> byte list list"
    and ?m2 = "([5, 7], [[], [9]]) :: byte list \<times> byte list list"
  have s1: "(io_step two_call)\<^sup>*\<^sup>* (io_start ?m0) (io_view [Busy [0]] None {} Spawning ?m0)"
    by (rule r_into_rtranclp) (use io_step.spawn[of "io_start ?m0" 0 two_call] in \<open>simp add: d io_start_def\<close>)
  have s2: "(io_step two_call)\<^sup>*\<^sup>* (io_view [Busy [0]] None {} Spawning ?m0) (io_view [Busy [0], Busy [1]] None {} Spawning ?m0)"
    by (rule r_into_rtranclp) (use io_step.spawn[of "io_view [Busy [0]] None {} Spawning ?m0" 1 two_call] in \<open>simp add: d\<close>)
  have s3: "(io_step two_call)\<^sup>*\<^sup>* (io_view [Busy [0], Busy [1]] None {} Spawning ?m0) (io_view [Busy [0], Busy []] None {} Spawning ?m1)"
    by (rule r_into_rtranclp) (use io_step.turn[of 1 "io_view [Busy [0], Busy [1]] None {} Spawning ?m0" 1 "[]" two_call ?m1] in \<open>simp add: d\<close>)
  have s4: "(io_step two_call)\<^sup>*\<^sup>* (io_view [Busy [0], Busy []] None {} Spawning ?m1) (io_view [Busy [], Busy []] None {} Spawning ?m2)"
    by (rule r_into_rtranclp) (use io_step.turn[of 0 "io_view [Busy [0], Busy []] None {} Spawning ?m1" 0 "[]" two_call ?m2] in \<open>simp add: d\<close>)
  have s5: "(io_step two_call)\<^sup>*\<^sup>* (io_view [Busy [], Busy []] None {} Spawning ?m2) (io_view [Busy [], Busy []] None {} (Joining None 0) ?m2)"
    by (rule r_into_rtranclp) (use io_step.spawned[of "io_view [Busy [], Busy []] None {} Spawning ?m2" two_call] in \<open>simp add: d\<close>)
  have s6: "(io_step two_call)\<^sup>*\<^sup>* (io_view [Busy [], Busy []] None {} (Joining None 0) ?m2) (io_view [Finished, Busy []] None {} (Joining None 0) ?m2)"
    by (rule r_into_rtranclp) (use io_step.finish[of 0 "io_view [Busy [], Busy []] None {} (Joining None 0) ?m2" two_call] in \<open>simp add: d\<close>)
  have s7: "(io_step two_call)\<^sup>*\<^sup>* (io_view [Finished, Busy []] None {} (Joining None 0) ?m2) (io_view [Finished, Busy []] None {} (Joining None 1) ?m2)"
    by (rule r_into_rtranclp) (use io_step.join[of "io_view [Finished, Busy []] None {} (Joining None 0) ?m2" None 0 two_call] in \<open>simp add: d\<close>)
  have s8: "(io_step two_call)\<^sup>*\<^sup>* (io_view [Finished, Busy []] None {} (Joining None 1) ?m2) (io_view [Finished, Finished] None {} (Joining None 1) ?m2)"
    by (rule r_into_rtranclp) (use io_step.finish[of 1 "io_view [Finished, Busy []] None {} (Joining None 1) ?m2" two_call] in \<open>simp add: d\<close>)
  have s9: "(io_step two_call)\<^sup>*\<^sup>* (io_view [Finished, Finished] None {} (Joining None 1) ?m2) (io_view [Finished, Finished] None {} (Joining None 2) ?m2)"
    by (rule r_into_rtranclp) (use io_step.join[of "io_view [Finished, Finished] None {} (Joining None 1) ?m2" None 1 two_call] in \<open>simp add: d numeral_2_eq_2\<close>)
  have s10: "(io_step two_call)\<^sup>*\<^sup>* (io_view [Finished, Finished] None {} (Joining None 2) ?m2) (io_view [Finished, Finished] None {} (Returned None) ?m2)"
    by (rule r_into_rtranclp) (use io_step.rethrow[of "io_view [Finished, Finished] None {} (Joining None 2) ?m2" None 2 two_call] in \<open>simp add: d\<close>)
  show ?thesis
    by (rule rtranclp_trans[OF s1 rtranclp_trans[OF s2 rtranclp_trans[OF s3 rtranclp_trans[OF s4 rtranclp_trans[OF s5 rtranclp_trans[OF s6 rtranclp_trans[OF s7 rtranclp_trans[OF s8 rtranclp_trans[OF s9 s10]]]]]]]]])
qed

theorem parallel_receive_sequential_witness:
  "case first_refused (\<lambda>_. None) (length [0, 1 :: nat]) of
      Some err \<Rightarrow> None = Some err
    | None \<Rightarrow> (case None of
      None \<Rightarrow> recv_ct_lanes_range (\<lambda>_. None) byte_reader [[5], [7, 9]] [0, 0] 2 0 2
        = Inr (io_mem (io_view [Finished, Finished :: nat io_worker] None {} (Returned None) ([5, 7 :: byte], [[], [9]])))
    | Some err \<Rightarrow> (\<exists>err'. recv_ct_lanes_range (\<lambda>_. None) byte_reader [[5], [7, 9]] [0, 0] 2 0 2 = Inl err') \<and>
        (\<exists>lane \<in> set [0, 1]. recv_list byte_reader (lane_hi 2 (length [[5], [7, 9 :: byte]]) 2 lane - lane_lo 2 (length [[5], [7, 9 :: byte]]) 0 lane)
           ([[5], [7, 9]] ! lane) = Inl err))"
  by (rule parallel_receive_sequential[OF two_lanes _ two_run]) (simp_all add: io_view_def)

end
