(* ===== verification/CG_Handshake.thy ===== *)
theory CG_Handshake
  imports CG_Lanes
begin

text \<open>
  What \<^verbatim>\<open>CG_VALIDATE_LANES=1\<close> guarantees. The listener knows its peers only by the bytes of the
  handshake; a connection of a peer is whatever \<open>connect_rf_lanes\<close> wrote on one of its lanes
  followed by anything.
\<close>

subsection \<open>Metadata of a peer\<close>

lemma check_peer_metadata:
  assumes "check_rf_metadata env d k n (m @ s) = Inr s'" "send_rf_metadata env' d' k' n' = Inr m"
    and "length d' = 32" "k' \<le> 64" "n' \<le> 2 ^ 24"
  shows "k = k' \<and> n = n' \<and> d = d' \<and> rf_chunk_size env = rf_chunk_size env' \<and> s' = s"
proof -
  obtain c where c: "rf_chunk_size env' = Inr c" "m = send_u32 0x43470002 @ send_u64 (word_of_nat k')
      @ send_u64 (word_of_nat n') @ send_u64 (word_of_nat c) @ d'"
    using assms(2) by (auto simp: send_rf_metadata_def bind_r_Inr_iff)
  have "c < 2 ^ 64"
    using c(1) by (auto simp: rf_chunk_size_def cg_config_size_def size_limit_def dest!: cg_parse_size_Inr split: option.splits)
  then have u: "unat (word_of_nat k' :: 64 word) = k'" "unat (word_of_nat n' :: 64 word) = n'"
      "unat (word_of_nat c :: 64 word) = c"
    using assms(4,5) by (simp_all add: unat_of_nat)
  have r: "recv_u32 (send_u32 v @ t) = Inr (v, t)" "recv_u64 (send_u64 w @ t) = Inr (w, t)"
      "recv_bytes 32 (d' @ t) = Inr (d', t)" for v w t
    using assms(3) by (simp_all add: recv_u32_iff recv_u64_iff recv_bytes_Inr)
  have "(if (k' \<noteq> k \<or> n' \<noteq> n) then Inl (Runtime_error ''RF lane parameter/count/chunk mismatch'')
     else bind_r (rf_chunk_size env) (\<lambda>own. if c \<noteq> own \<or> d' \<noteq> d
       then Inl (Runtime_error ''RF lane parameter/count/chunk mismatch'') else Inr s)) = Inr s'"
    using assms(1) by (simp only: check_rf_metadata_def c append.assoc r bind_r_simps prod.case u Let_def) simp
  then show ?thesis
    using c(1) by (auto simp: bind_r_Inr_iff split: if_splits)
qed

subsection \<open>The slots of the listener\<close>

text \<open>Where the content of a slot comes from.\<close>

definition lane_source :: "env \<Rightarrow> byte list \<Rightarrow> nat \<Rightarrow> nat \<Rightarrow> byte list set \<Rightarrow> byte list option list \<Rightarrow> bool" where
  "lane_source env d k n cs fds \<longleftrightarrow> (\<forall>j < length fds. \<forall>s. fds ! j = Some s \<longrightarrow>
     (\<exists>c \<in> cs. \<exists>w t. recv_u64 c = Inr (w, t) \<and> unat w = j \<and>
       (if validate_lane_metadata env then check_rf_metadata env d k n t else Inr t) = Inr s))"

lemma accept_lane_source:
  assumes "accept_lane env d k n c fds = Inr fds'" "lane_source env d k n cs fds" "c \<in> cs"
  shows "lane_source env d k n cs fds'"
proof -
  obtain w t s where a: "recv_u64 c = Inr (w, t)" "fds' = fds[unat w := Some s]"
      "(if validate_lane_metadata env then check_rf_metadata env d k n t else Inr t) = Inr s"
    using assms(1) by (auto simp: accept_lane_def bind_r_Inr_iff split: if_splits)
  show ?thesis
    unfolding lane_source_def
  proof (intro allI impI)
    fix j s'
    assume j: "j < length fds'" "fds' ! j = Some s'"
    show "\<exists>c \<in> cs. \<exists>w t. recv_u64 c = Inr (w, t) \<and> unat w = j \<and>
       (if validate_lane_metadata env then check_rf_metadata env d k n t else Inr t) = Inr s'"
    proof (cases "unat w = j")
      case True
      then have "s' = s"
        using a(2) j by simp
      then show ?thesis
        using a(1,3) True assms(3) by blast
    next
      case False
      then have "fds ! j = Some s'" "j < length fds"
        using a(2) j by simp_all
      then show ?thesis
        using assms(2) by (simp add: lane_source_def)
    qed
  qed
qed

lemma accept_fold_source:
  assumes "fold_r (accept_lane env d k n) conns fds = Inr fds'" "lane_source env d k n cs fds" "set conns \<subseteq> cs"
  shows "lane_source env d k n cs fds'"
  using assms
proof (induction conns arbitrary: fds)
  case (Cons c conns)
  then obtain f where f: "accept_lane env d k n c fds = Inr f" "fold_r (accept_lane env d k n) conns f = Inr fds'"
    by (auto simp: bind_r_Inr_iff)
  show ?case
    using Cons.IH[OF f(2) accept_lane_source[OF f(1) Cons.prems(2)]] Cons.prems(3) by simp
qed simp

lemma accepted_source:
  assumes "accept_rf_lanes env d conns k n = Some (Inr fds)"
  shows "lane_source env d k n (set conns) fds"
proof -
  have f: "fold_r (accept_lane env d k n) (take k conns) (replicate k None) = Inr fds"
    using assms by (auto simp: accept_rf_lanes_def bind_r_Inr_iff split: sum.splits if_splits)
  show ?thesis
    by (rule accept_fold_source[OF f]) (auto simp: lane_source_def dest: in_set_takeD)
qed

subsection \<open>Property\<close>

lemma peer_lane:
  assumes hs: "connect_rf_lanes env' d' k' n' = Inr hs" and v: "validate_lane_metadata env" "validate_lane_metadata env'"
    and d: "length d' = 32" "k' \<le> 64" "i < k'"
    and r: "recv_u64 (hs ! i @ q) = Inr (w, t)" "check_rf_metadata env d k n t = Inr s"
  shows "unat w = i \<and> s = q \<and> k = k' \<and> n = n' \<and> d = d' \<and> rf_chunk_size env = rf_chunk_size env'"
proof -
  have c: "cg_validate_count env' n' False = Inr ()" "map_r (connect_lane env' d' k' n') [0..<k'] = Inr hs"
    using hs by (auto simp: connect_rf_lanes_def bind_r_Inr_iff)
  have "connect_lane env' d' k' n' i = Inr (hs ! i)"
    using map_r_InrD[OF c(2)] d(3) by auto
  then obtain m where m: "send_rf_metadata env' d' k' n' = Inr m" "hs ! i = send_u64 (word_of_nat i) @ m"
    using v(2) by (auto simp: connect_lane_def bind_r_Inr_iff)
  have "recv_u64 (hs ! i @ q) = Inr (word_of_nat i, m @ q)"
    by (simp add: m(2) recv_u64_iff)
  then have wt: "w = word_of_nat i" "t = m @ q"
    using r(1) by simp_all
  have "unat w = i"
    using d(2,3) by (simp add: wt(1) unat_of_nat)
  moreover have "n' \<le> 2 ^ 24"
    using validate_count_bound[OF c(1)] by simp
  ultimately show ?thesis
    using check_peer_metadata[OF r(2)[unfolded wt(2)] m(1) d(1,2)] by blast
qed

text \<open>
  C16: A handshake with validation on both sides accepts only peers that run the same protocol
  parameters. If the listener returns, every lane it holds is a connection that its peer opened for
  that very lane, with exactly the bytes after the handshake still unread, and both sides agree on
  the number of lanes, the number of items, the chunk size and the parameter digest, whatever the
  order of arrival, the environments and the bytes that follow.
\<close>

theorem validated_lanes_agree:
  assumes "accept_rf_lanes env d conns k n = Some (Inr fds)" "0 < k"
    and "connect_rf_lanes env' d' k' n' = Inr hs" "length d' = 32" "k' \<le> 64"
    and "validate_lane_metadata env" "validate_lane_metadata env'"
    and "\<forall>c \<in> set conns. \<exists>i < k'. \<exists>q. c = hs ! i @ q"
  shows "k = k' \<and> n = n' \<and> d = d' \<and> rf_chunk_size env = rf_chunk_size env' \<and>
    set (map (\<lambda>j. hs ! j @ the (fds ! j)) [0..<k]) \<subseteq> set conns"
proof -
  note full = accept_rf_lanes_full[OF assms(1)]
  have lane: "hs ! j @ the (fds ! j) \<in> set conns \<and> k = k' \<and> n = n' \<and> d = d' \<and> rf_chunk_size env = rf_chunk_size env'"
    if jk: "j < k" for j
  proof -
    obtain s where s: "fds ! j = Some s" "j < length fds"
      using full jk by blast
    then obtain c w t where c: "c \<in> set conns" "recv_u64 c = Inr (w, t)" "unat w = j" "check_rf_metadata env d k n t = Inr s"
      using accepted_source[OF assms(1), unfolded lane_source_def, rule_format, OF s(2,1)] assms(6) by auto
    obtain i q where i: "i < k'" "c = hs ! i @ q"
      using assms(8) c(1) by blast
    show ?thesis
      using peer_lane[OF assms(3,6,7,4,5) i(1) c(2)[unfolded i(2)] c(4)] c(1,3) i(2) s(1) by auto
  qed
  then show ?thesis
    using assms(2) by auto
qed

theorem validated_lanes_agree_witness:
  "3 = (3 :: nat) \<and> 5 = (5 :: nat) \<and> replicate 32 7 = (replicate 32 7 :: byte list) \<and> rf_chunk_size check_env = rf_chunk_size check_env \<and>
    set (map (\<lambda>j. demo_conns ! j @ the (map (\<lambda>i. Some [word_of_nat i]) [0..<3] ! j)) [0..<3])
      \<subseteq> set (map (\<lambda>i. demo_conns ! i @ [word_of_nat i]) [2, 0, 1])"
proof (rule validated_lanes_agree[OF _ _ demo_connect])
  show "accept_rf_lanes check_env (replicate 32 7) (map (\<lambda>i. demo_conns ! i @ [word_of_nat i]) [2, 0, 1]) 3 5
     = Some (Inr (map (\<lambda>i. Some [word_of_nat i]) [0..<3]))"
    by (rule accept_any_order[OF demo_connect]) auto
  show "validate_lane_metadata check_env" "validate_lane_metadata check_env"
    by (simp_all add: validate_lane_metadata_def check_env_def)
  show "\<forall>c \<in> set (map (\<lambda>i. demo_conns ! i @ [word_of_nat i]) [2, 0, 1]). \<exists>i < 3. \<exists>q. c = demo_conns ! i @ q"
  proof
    fix c
    assume "c \<in> set (map (\<lambda>i. demo_conns ! i @ [word_of_nat i]) [2, 0, 1])"
    then obtain i where i: "i \<in> set [2, 0, 1 :: nat]" "c = demo_conns ! i @ [word_of_nat i]"
      by (simp only: set_map image_iff) blast
    then have "i < 3"
      by auto
    then show "\<exists>i < 3. \<exists>q. c = demo_conns ! i @ q"
      using i(2) by blast
  qed
qed auto

end
