(* ===== verification/CG_Sockets.thy ===== *)
theory CG_Sockets
  imports CG_Lanes
begin

text \<open>
  Sockets: the connection helpers of \<^verbatim>\<open>cg_network.hpp\<close> and the lane handshake of
  \<^verbatim>\<open>cg_rf_ole_batch.hpp\<close> on the level of descriptors, which CG_Lanes leaves out. The kernel is a record
  of answers; a program's state is what it holds: open descriptors and address lists.
\<close>

subsection \<open>The kernel and what a program holds\<close>

text \<open>
  The answers, by the number of the call: whether \<^verbatim>\<open>socket\<close>, \<^verbatim>\<open>connect\<close>, \<^verbatim>\<open>bind\<close>, \<^verbatim>\<open>listen\<close> and
  \<^verbatim>\<open>accept\<close> succeed, whether \<^verbatim>\<open>setsockopt\<close> does, whether \<^verbatim>\<open>accept\<close> is interrupted by a signal, and the
  number of addresses that \<^verbatim>\<open>getaddrinfo\<close> finds for a host and a port.
\<close>

record kernel =
  ker_yes :: "nat \<Rightarrow> bool"
  ker_opts :: "nat \<Rightarrow> bool"
  ker_signal :: "nat \<Rightarrow> bool"
  ker_addrs :: "string \<Rightarrow> string \<Rightarrow> nat \<Rightarrow> nat option"

record held =
  h_calls :: nat
  h_fds :: "nat list"
  h_infos :: nat
  h_pauses :: nat

text \<open>A new descriptor is the lowest one that is not open (POSIX).\<close>

definition lowest_free :: "nat list \<Rightarrow> nat" where
  "lowest_free xs = hd (filter (\<lambda>n. n \<notin> set xs) [0..<Suc (length xs)])"

definition new_fd :: "kernel \<Rightarrow> held \<Rightarrow> nat option \<times> held" where
  "new_fd K s = (if ker_yes K (h_calls s)
     then (Some (lowest_free (h_fds s)), s\<lparr>h_calls := h_calls s + 1, h_fds := lowest_free (h_fds s) # h_fds s\<rparr>)
     else (None, s\<lparr>h_calls := h_calls s + 1\<rparr>))"

definition ask :: "kernel \<Rightarrow> held \<Rightarrow> bool \<times> held" where
  "ask K s = (ker_yes K (h_calls s), s\<lparr>h_calls := h_calls s + 1\<rparr>)"

definition set_option :: "kernel \<Rightarrow> held \<Rightarrow> bool \<times> held" where
  "set_option K s = (ker_opts K (h_calls s), s\<lparr>h_calls := h_calls s + 1\<rparr>)"

definition get_addresses :: "kernel \<Rightarrow> string \<Rightarrow> string \<Rightarrow> held \<Rightarrow> nat option \<times> held" where
  "get_addresses K host port s = (case ker_addrs K host port (h_calls s) of
       None \<Rightarrow> (None, s\<lparr>h_calls := h_calls s + 1\<rparr>)
     | Some n \<Rightarrow> (Some n, s\<lparr>h_calls := h_calls s + 1, h_infos := h_infos s + 1\<rparr>))"

definition free_addresses :: "held \<Rightarrow> held" where
  "free_addresses s = s\<lparr>h_infos := h_infos s - 1\<rparr>"

definition close_fd :: "nat \<Rightarrow> held \<Rightarrow> held" where
  "close_fd fd s = s\<lparr>h_fds := removeAll fd (h_fds s)\<rparr>"

definition pause_200ms :: "held \<Rightarrow> held" where
  "pause_200ms s = s\<lparr>h_pauses := h_pauses s + 1\<rparr>"

subsection \<open>The helpers\<close>

text \<open>The two timeouts must be accepted; the other three options are best effort.\<close>

definition set_tcp_opts :: "env \<Rightarrow> kernel \<Rightarrow> held \<Rightarrow> unit result \<times> held" where
  "set_tcp_opts env K s =
     (case cg_config_size env ''CG_IO_TIMEOUT_S'' 180 86400 False of
        Inl e \<Rightarrow> (Inl e, s)
      | Inr _ \<Rightarrow>
         (let refused = Inl (Runtime_error ''cannot set socket timeout''); (rcv, s) = set_option K s in
          if \<not> rcv then (refused, s)
          else let (snd_ok, s) = set_option K s in
          if \<not> snd_ok then (refused, s)
          else let (_, s) = set_option K s; (_, s) = set_option K s; (_, s) = set_option K s in (Inr (), s)))"

text \<open>One pass over the list of addresses: the first that connects is used.\<close>

fun connect_any :: "env \<Rightarrow> kernel \<Rightarrow> nat \<Rightarrow> held \<Rightarrow> nat option result \<times> held" where
  "connect_any env K 0 s = (Inr None, s)"
| "connect_any env K (Suc n) s =
     (case new_fd K s of
        (None, s) \<Rightarrow> connect_any env K n s
      | (Some fd, s) \<Rightarrow>
         (case ask K s of
            (True, s) \<Rightarrow> (case set_tcp_opts env K s of
                 (Inl e, s) \<Rightarrow> (Inl e, s)
               | (Inr _, s) \<Rightarrow> (Inr (Some fd), free_addresses s))
          | (False, s) \<Rightarrow> connect_any env K n (close_fd fd s)))"

fun connect_attempts :: "env \<Rightarrow> kernel \<Rightarrow> string \<Rightarrow> string \<Rightarrow> nat \<Rightarrow> held \<Rightarrow> nat result \<times> held" where
  "connect_attempts env K host port 0 s = (Inl (Runtime_error (''connect_tcp failed: '' @ host @ '':'' @ port)), s)"
| "connect_attempts env K host port (Suc i) s =
     (case get_addresses K host port s of
        (None, s) \<Rightarrow> connect_attempts env K host port i (pause_200ms s)
      | (Some n, s) \<Rightarrow> (case connect_any env K n s of
           (Inl e, s) \<Rightarrow> (Inl e, s)
         | (Inr (Some fd), s) \<Rightarrow> (Inr fd, s)
         | (Inr None, s) \<Rightarrow> connect_attempts env K host port i (pause_200ms (free_addresses s))))"

definition connect_retries :: "env \<Rightarrow> int \<Rightarrow> nat result" where
  "connect_retries env retries = (if retries \<le> 0
     then (case env_value env ''CG_CONNECT_RETRIES'' of
        None \<Rightarrow> Inr 3600
      | Some v \<Rightarrow> cg_parse_size env (Some v) ''CG_CONNECT_RETRIES'' False 432000)
     else Inr (nat retries))"

definition connect_tcp_retry :: "env \<Rightarrow> kernel \<Rightarrow> string \<Rightarrow> string \<Rightarrow> int \<Rightarrow> held \<Rightarrow> nat result \<times> held" where
  "connect_tcp_retry env K host port retries s =
     (case bind_r (cg_parse_size env (Some port) ''port'' False 65535) (\<lambda>_. connect_retries env retries) of
        Inl e \<Rightarrow> (Inl e, s)
      | Inr n \<Rightarrow> connect_attempts env K host port n s)"

text \<open>Binding: the address is \<^verbatim>\<open>CG_BIND_ADDR\<close> or the loopback address; the reuse option is best effort.\<close>

fun bind_any :: "kernel \<Rightarrow> nat \<Rightarrow> held \<Rightarrow> nat option \<times> held" where
  "bind_any K 0 s = (None, s)"
| "bind_any K (Suc n) s =
     (case new_fd K s of
        (None, s) \<Rightarrow> bind_any K n s
      | (Some fd, s) \<Rightarrow> (let (_, s) = set_option K s; (bound, s) = ask K s in
          if bound then (Some fd, s) else bind_any K n (close_fd fd s)))"

definition bind_address :: "env \<Rightarrow> string" where
  "bind_address env = (case env_value env ''CG_BIND_ADDR'' of None \<Rightarrow> ''127.0.0.1'' | Some a \<Rightarrow> a)"

definition listen_tcp :: "env \<Rightarrow> kernel \<Rightarrow> string \<Rightarrow> held \<Rightarrow> nat result \<times> held" where
  "listen_tcp env K port s =
     (case cg_parse_size env (Some port) ''port'' False 65535 of
        Inl e \<Rightarrow> (Inl e, s)
      | Inr _ \<Rightarrow> (case get_addresses K (bind_address env) port s of
          (None, s) \<Rightarrow> (Inl (Runtime_error ''getaddrinfo failed''), s)
        | (Some n, s) \<Rightarrow> (case bind_any K n s of
            (None, s) \<Rightarrow> (Inl (Runtime_error ''bind failed''), free_addresses s)
          | (Some fd, s) \<Rightarrow> (case set_tcp_opts env K (free_addresses s) of
              (Inl e, s) \<Rightarrow> (Inl e, s)
            | (Inr _, s) \<Rightarrow> (let (listening, s) = ask K s in
                if listening then (Inr fd, s) else (Inl (Runtime_error ''listen failed''), close_fd fd s))))))"

text \<open>Waiting through signals; \<open>None\<close>: signals for ever.\<close>

partial_function (option) accept_fd :: "kernel \<Rightarrow> held \<Rightarrow> (nat option \<times> held) option" where
  "accept_fd K s = (if ker_signal K (h_calls s) then accept_fd K (s\<lparr>h_calls := h_calls s + 1\<rparr>) else Some (new_fd K s))"

definition accept_one :: "env \<Rightarrow> kernel \<Rightarrow> held \<Rightarrow> (nat result \<times> held) option" where
  "accept_one env K s =
     map_option (\<lambda>r. case r of
        (None, s) \<Rightarrow> (Inl (Runtime_error ''accept failed''), s)
      | (Some fd, s) \<Rightarrow> (case set_tcp_opts env K s of
          (Inl e, s) \<Rightarrow> (Inl e, s)
        | (Inr _, s) \<Rightarrow> (Inr fd, s))) (accept_fd K s)"

subsection \<open>The handshake with its descriptors\<close>

text \<open>
  A slot holds the descriptor and the unread bytes of a lane. \<open>conns\<close> are the connections still to
  arrive; the call waits when there is none. Every exception closes what the call has opened.
\<close>

type_synonym slot = "(nat \<times> byte list) option"

definition close_slots :: "slot list \<Rightarrow> held \<Rightarrow> held" where
  "close_slots fds s = fold (\<lambda>slot s. case slot of None \<Rightarrow> s | Some (fd, _) \<Rightarrow> close_fd fd s) fds s"

definition place_lane :: "env \<Rightarrow> byte list \<Rightarrow> nat \<Rightarrow> nat \<Rightarrow> nat \<Rightarrow> byte list \<Rightarrow> slot list \<Rightarrow> slot list result" where
  "place_lane env digest lanes cnt fd conn fds =
     bind_r (recv_u64 conn) (\<lambda>(lane, s).
     if unat lane \<ge> lanes \<or> fds ! unat lane \<noteq> None
     then Inl (Runtime_error ''invalid or duplicate RF lane id'')
     else bind_r (if validate_lane_metadata env then check_rf_metadata env digest lanes cnt s else Inr s)
       (\<lambda>s'. Inr (fds[unat lane := Some (fd, s')])))"

text \<open>The reply to a validated peer: it may be impossible to write it.\<close>

definition reply_lane :: "env \<Rightarrow> kernel \<Rightarrow> byte list \<Rightarrow> nat \<Rightarrow> nat \<Rightarrow> held \<Rightarrow> unit result \<times> held" where
  "reply_lane env K digest lanes cnt s =
     (if validate_lane_metadata env
      then case send_rf_metadata env digest lanes cnt of
          Inl e \<Rightarrow> (Inl e, s)
        | Inr _ \<Rightarrow> (let (sent, s) = ask K s in (if sent then Inr () else Inl (Runtime_error ''write: ''), s))
      else (Inr (), s))"

fun accept_lanes_loop ::
  "env \<Rightarrow> kernel \<Rightarrow> byte list \<Rightarrow> nat \<Rightarrow> nat \<Rightarrow> nat \<Rightarrow> byte list list \<Rightarrow> slot list \<Rightarrow> held \<Rightarrow> (slot list result \<times> held) option" where
  "accept_lanes_loop env K digest lanes cnt 0 conns fds s = Some (Inr fds, s)"
| "accept_lanes_loop env K digest lanes cnt (Suc left) [] fds s = None"
| "accept_lanes_loop env K digest lanes cnt (Suc left) (conn # conns) fds s =
     (case accept_one env K s of
        None \<Rightarrow> None
      | Some (Inl e, s) \<Rightarrow> Some (Inl e, close_slots fds s)
      | Some (Inr current, s) \<Rightarrow> (case place_lane env digest lanes cnt current conn fds of
          Inl e \<Rightarrow> Some (Inl e, close_slots fds (close_fd current s))
        | Inr fds' \<Rightarrow> (case reply_lane env K digest lanes cnt s of
            (Inl e, s) \<Rightarrow> Some (Inl e, close_slots fds (close_fd current s))
          | (Inr _, s) \<Rightarrow> accept_lanes_loop env K digest lanes cnt left conns fds' s)))"

definition accept_lane_sockets ::
  "env \<Rightarrow> kernel \<Rightarrow> byte list \<Rightarrow> byte list list \<Rightarrow> nat \<Rightarrow> nat \<Rightarrow> held \<Rightarrow> (slot list result \<times> held) option" where
  "accept_lane_sockets env K digest conns lanes cnt s =
     (case cg_validate_count env cnt False of
        Inl e \<Rightarrow> Some (Inl e, s)
      | Inr _ \<Rightarrow> accept_lanes_loop env K digest lanes cnt lanes conns (replicate lanes None) s)"

text \<open>The connecting side: per lane the descriptor, what was written and what is left of the reply.\<close>

definition close_all :: "(nat \<times> byte list \<times> byte list) list \<Rightarrow> held \<Rightarrow> held" where
  "close_all fds s = fold (\<lambda>(fd, _) s. close_fd fd s) fds s"

definition greet_lane :: "env \<Rightarrow> byte list \<Rightarrow> nat \<Rightarrow> nat \<Rightarrow> nat \<Rightarrow> byte list \<Rightarrow> (byte list \<times> byte list) result" where
  "greet_lane env digest lanes cnt lane reply =
     bind_r (connect_lane env digest lanes cnt lane) (\<lambda>sent.
     bind_r (if validate_lane_metadata env then check_rf_metadata env digest lanes cnt reply else Inr reply) (\<lambda>rest.
     Inr (sent, rest)))"

fun connect_lanes_loop ::
  "env \<Rightarrow> kernel \<Rightarrow> byte list \<Rightarrow> string \<Rightarrow> string \<Rightarrow> nat \<Rightarrow> nat \<Rightarrow> byte list list \<Rightarrow> nat \<Rightarrow> (nat \<times> byte list \<times> byte list) list \<Rightarrow> held
   \<Rightarrow> (nat \<times> byte list \<times> byte list) list result \<times> held" where
  "connect_lanes_loop env K digest host port lanes cnt [] lane fds s = (Inr fds, s)"
| "connect_lanes_loop env K digest host port lanes cnt (reply # replies) lane fds s =
     (case connect_tcp_retry env K host port 0 s of
        (Inl e, s) \<Rightarrow> (Inl e, close_all fds s)
      | (Inr fd, s) \<Rightarrow> (case greet_lane env digest lanes cnt lane reply of
          Inl e \<Rightarrow> (Inl e, close_all (fds @ [(fd, [], [])]) s)
        | Inr x \<Rightarrow> connect_lanes_loop env K digest host port lanes cnt replies (Suc lane) (fds @ [(fd, x)]) s))"

text \<open>One reply stream per lane.\<close>

definition connect_lane_sockets ::
  "env \<Rightarrow> kernel \<Rightarrow> byte list \<Rightarrow> string \<Rightarrow> string \<Rightarrow> byte list list \<Rightarrow> nat \<Rightarrow> held \<Rightarrow> (nat \<times> byte list \<times> byte list) list result \<times> held" where
  "connect_lane_sockets env K digest host port replies cnt s =
     (case cg_validate_count env cnt False of
        Inl e \<Rightarrow> (Inl e, s)
      | Inr _ \<Rightarrow> connect_lanes_loop env K digest host port (length replies) cnt replies 0 [] s)"

subsection \<open>What a helper leaves behind\<close>

text \<open>The timeout is configured properly and the kernel accepts it.\<close>

definition tuned :: "env \<Rightarrow> kernel \<Rightarrow> bool" where
  "tuned env K \<longleftrightarrow> (\<exists>t. cg_config_size env ''CG_IO_TIMEOUT_S'' 180 86400 False = Inr t) \<and> (\<forall>c. ker_opts K c)"

text \<open>Nothing more is held, or one new descriptor.\<close>

definition kept :: "held \<Rightarrow> held \<Rightarrow> bool" where
  "kept s s' \<longleftrightarrow> h_fds s' = h_fds s \<and> h_infos s' = h_infos s"

definition gained :: "nat \<Rightarrow> held \<Rightarrow> held \<Rightarrow> bool" where
  "gained fd s s' \<longleftrightarrow> fd \<notin> set (h_fds s) \<and> h_fds s' = fd # h_fds s \<and> h_infos s' = h_infos s"

fun released :: "nat result \<Rightarrow> held \<Rightarrow> held \<Rightarrow> bool" where
  "released (Inl e) s s' = kept s s'"
| "released (Inr fd) s s' = gained fd s s'"

lemma released_counters [simp]:
  "released r (s\<lparr>h_calls := c\<rparr>) s' = released r s s'" "released r (s\<lparr>h_pauses := c\<rparr>) s' = released r s s'"
  by (cases r; simp add: kept_def gained_def)+

lemma kept_released: "kept s t \<Longrightarrow> released r t s' \<Longrightarrow> released r s s'"
  by (cases r) (simp_all add: kept_def gained_def)

named_theorems held_defs \<open>what the primitive calls do to the state\<close>

lemmas held_prims [held_defs] =
  new_fd_def ask_def set_option_def get_addresses_def free_addresses_def close_fd_def pause_200ms_def kept_def gained_def

lemma lowest_free_fresh: "lowest_free xs \<notin> set xs"
proof -
  have "card (set xs) < card {..<Suc (length xs)}"
    using card_length[of xs] by simp
  then have "\<not> {..<Suc (length xs)} \<subseteq> set xs"
    by (meson List.finite_set card_mono linorder_not_less)
  then obtain n where "n < Suc (length xs)" "n \<notin> set xs"
    by auto
  then have "n \<in> set (filter (\<lambda>n. n \<notin> set xs) [0..<Suc (length xs)])"
    by (simp del: upt_Suc)
  then have "filter (\<lambda>n. n \<notin> set xs) [0..<Suc (length xs)] \<noteq> []"
    by (metis empty_iff list.set(1))
  then have "hd (filter (\<lambda>n. n \<notin> set xs) [0..<Suc (length xs)]) \<in> set (filter (\<lambda>n. n \<notin> set xs) [0..<Suc (length xs)])"
    by (rule hd_in_set)
  then show ?thesis
    unfolding lowest_free_def set_filter by blast
qed

lemma set_tcp_opts_tuned:
  assumes "tuned env K"
  shows "\<exists>c. set_tcp_opts env K s = (Inr (), s\<lparr>h_calls := c\<rparr>)"
  using assms by (auto simp: tuned_def set_tcp_opts_def set_option_def Let_def)

lemma connect_any_held:
  assumes "tuned env K"
  shows "connect_any env K n s = (r, s') \<Longrightarrow> (r = Inr None \<and> kept s s') \<or>
    (\<exists>fd. r = Inr (Some fd) \<and> fd \<notin> set (h_fds s) \<and> h_fds s' = fd # h_fds s \<and> h_infos s' = h_infos s - 1)"
proof (induction n arbitrary: s)
  case 0
  then show ?case
    by (simp add: kept_def)
next
  case (Suc n)
  show ?case
  proof (cases "new_fd K s")
    case (Pair f s1)
    show ?thesis
    proof (cases f)
      case None
      then show ?thesis
        using Suc.prems Pair Suc.IH[of s1] by (auto simp: new_fd_def kept_def split: if_splits)
    next
      case (Some fd)
      then have fd: "fd \<notin> set (h_fds s)" "h_fds s1 = fd # h_fds s" "h_infos s1 = h_infos s"
        using Pair lowest_free_fresh by (auto simp: new_fd_def split: if_splits)
      obtain c where "set_tcp_opts env K (s1\<lparr>h_calls := h_calls s1 + 1\<rparr>) = (Inr (), s1\<lparr>h_calls := c\<rparr>)"
        using set_tcp_opts_tuned[OF assms, of "s1\<lparr>h_calls := h_calls s1 + 1\<rparr>"] by auto
      then show ?thesis
        using Suc.prems Pair Some fd Suc.IH[of "close_fd fd (s1\<lparr>h_calls := h_calls s1 + 1\<rparr>)"]
        by (cases "ker_yes K (h_calls s1)") (auto simp: ask_def close_fd_def free_addresses_def kept_def)
    qed
  qed
qed

lemma connect_attempts_held:
  assumes "tuned env K"
  shows "connect_attempts env K host port i s = (r, s') \<Longrightarrow> released r s s'"
proof (induction i arbitrary: s)
  case 0
  then show ?case
    by (auto simp: kept_def)
next
  case (Suc i)
  show ?case
  proof (cases "get_addresses K host port s")
    case (Pair a s1)
    show ?thesis
    proof (cases a)
      case None
      then show ?thesis
        using Suc.prems Pair Suc.IH[of "pause_200ms s1"] by (auto simp: held_defs split: option.splits)
    next
      case (Some n)
      then have s1: "h_fds s1 = h_fds s" "h_infos s1 = h_infos s + 1"
        using Pair by (auto simp: get_addresses_def split: option.splits)
      obtain r2 s2 where c: "connect_any env K n s1 = (r2, s2)"
        by fastforce
      consider "r2 = Inr None" "kept s1 s2"
        | fd where "r2 = Inr (Some fd)" "fd \<notin> set (h_fds s1)" "h_fds s2 = fd # h_fds s1" "h_infos s2 = h_infos s1 - 1"
        using connect_any_held[OF assms c] by blast
      then show ?thesis
      proof cases
        case 1
        then have "connect_attempts env K host port i (pause_200ms (free_addresses s2)) = (r, s')"
          using Suc.prems Pair Some c by simp
        moreover have "kept s (pause_200ms (free_addresses s2))"
          using 1(2) s1 by (simp add: held_defs)
        ultimately show ?thesis
          using kept_released Suc.IH by blast
      next
        case 2
        then have "r = Inr fd" "s' = s2"
          using Suc.prems Pair Some c by simp_all
        then show ?thesis
          using 2 s1 by (simp add: gained_def)
      qed
    qed
  qed
qed

lemma connect_held:
  assumes "tuned env K" "connect_tcp_retry env K host port retries s = (r, s')"
  shows "released r s s'"
proof (cases "bind_r (cg_parse_size env (Some port) ''port'' False 65535) (\<lambda>_. connect_retries env retries)")
  case (Inl e)
  then have "r = Inl e" "s' = s"
    using assms(2) by (simp_all add: connect_tcp_retry_def)
  then show ?thesis
    by (simp add: kept_def)
next
  case (Inr n)
  then show ?thesis
    using assms(2) connect_attempts_held[OF assms(1)] by (simp add: connect_tcp_retry_def)
qed

lemma bind_any_held:
  "bind_any K n s = (f, s') \<Longrightarrow> (f = None \<and> kept s s') \<or> (\<exists>fd. f = Some fd \<and> gained fd s s')"
proof (induction n arbitrary: s)
  case 0
  then show ?case
    by (simp add: kept_def)
next
  case (Suc n)
  show ?case
  proof (cases "ker_yes K (h_calls s)")
    case False
    then show ?thesis
      using Suc.prems Suc.IH[of "s\<lparr>h_calls := h_calls s + 1\<rparr>"] by (auto simp: held_defs)
  next
    case True
    then show ?thesis
      using Suc.prems lowest_free_fresh[of "h_fds s"] Suc.IH[of "s\<lparr>h_calls := h_calls s + 1 + 1 + 1, h_fds := h_fds s\<rparr>"]
      by (auto simp: held_defs Let_def split: if_splits)
  qed
qed

lemma listen_held:
  assumes "tuned env K" "listen_tcp env K port s = (r, s')"
  shows "released r s s'"
proof (cases "cg_parse_size env (Some port) ''port'' False 65535")
  case (Inl e)
  then have "r = Inl e" "s' = s"
    using assms(2) by (simp_all add: listen_tcp_def)
  then show ?thesis
    by (simp add: kept_def)
next
  case port: (Inr p)
  show ?thesis
  proof (cases "ker_addrs K (bind_address env) port (h_calls s)")
    case None
    then show ?thesis
      using assms(2) port by (auto simp: listen_tcp_def held_defs)
  next
    case (Some n)
    let ?s = "s\<lparr>h_calls := h_calls s + 1, h_infos := h_infos s + 1\<rparr>"
    obtain f s1 where b: "bind_any K n ?s = (f, s1)"
      by fastforce
    obtain c where c: "set_tcp_opts env K (free_addresses s1) = (Inr (), (free_addresses s1)\<lparr>h_calls := c\<rparr>)"
      using set_tcp_opts_tuned[OF assms(1)] by blast
    have "listen_tcp env K port s = (case f of None \<Rightarrow> (Inl (Runtime_error ''bind failed''), free_addresses s1)
        | Some fd \<Rightarrow> if ker_yes K c then (Inr fd, (free_addresses s1)\<lparr>h_calls := c + 1\<rparr>)
           else (Inl (Runtime_error ''listen failed''), close_fd fd ((free_addresses s1)\<lparr>h_calls := c + 1\<rparr>)))"
      using Some port b c by (simp add: listen_tcp_def get_addresses_def ask_def Let_def split: option.splits)
    then show ?thesis
      using assms(2) bind_any_held[OF b] by (auto simp: held_defs split: if_splits)
  qed
qed

text \<open>Tuning a descriptor succeeds or throws; it neither opens nor closes anything.\<close>

definition tuning_error :: "env \<Rightarrow> kernel \<Rightarrow> cg_error \<Rightarrow> bool" where
  "tuning_error env K e \<longleftrightarrow> (\<exists>s. fst (set_tcp_opts env K s) = Inl e)"

lemma set_tcp_opts_state: "\<exists>c. snd (set_tcp_opts env K s) = s\<lparr>h_calls := c\<rparr>"
  by (cases "cg_config_size env ''CG_IO_TIMEOUT_S'' 180 86400 False")
    (auto simp: set_tcp_opts_def set_option_def Let_def intro: exI[of _ "h_calls s"])

text \<open>Accepting: a call that is not interrupted for ever returns.\<close>

definition interrupted_for_ever :: "kernel \<Rightarrow> bool" where
  "interrupted_for_ever K \<longleftrightarrow> (\<exists>c. \<forall>u \<ge> c. ker_signal K u)"

lemma accept_fd_returns:
  assumes "c \<le> u" "\<not> ker_signal K u"
  shows "h_calls s = c \<Longrightarrow> \<exists>d. accept_fd K s = Some (new_fd K (s\<lparr>h_calls := d\<rparr>))"
  using assms(1)
proof (induction c arbitrary: s rule: inc_induct)
  case base
  then show ?case
    using assms(2) by (subst accept_fd.simps) (auto intro!: exI[of _ u])
next
  case (step c)
  show ?case
  proof (cases "ker_signal K c")
    case True
    then have "accept_fd K s = accept_fd K (s\<lparr>h_calls := Suc c\<rparr>)"
      using step.prems by (subst accept_fd.simps) simp
    then show ?thesis
      using step.IH[of "s\<lparr>h_calls := Suc c\<rparr>"] by simp
  next
    case False
    then show ?thesis
      using step.prems by (subst accept_fd.simps) (auto intro!: exI[of _ c])
  qed
qed

lemma accept_fd_some:
  assumes "accept_fd K s = Some r"
  shows "\<exists>d. r = new_fd K (s\<lparr>h_calls := d\<rparr>)"
proof (rule accept_fd.raw_induct[OF _ assms, where P = "\<lambda>K s r. \<exists>d. r = new_fd K (s\<lparr>h_calls := d\<rparr>)"])
  fix f K s r
  assume IH: "\<And>K s r. f K s = Some r \<Longrightarrow> \<exists>d. r = new_fd K (s\<lparr>h_calls := d\<rparr>)"
    and step: "(if ker_signal K (h_calls s) then f K (s\<lparr>h_calls := h_calls s + 1\<rparr>) else Some (new_fd K s)) = Some r"
  show "\<exists>d. r = new_fd K (s\<lparr>h_calls := d\<rparr>)"
  proof (cases "ker_signal K (h_calls s)")
    case True
    then show ?thesis
      using IH[of K "s\<lparr>h_calls := h_calls s + 1\<rparr>" r] step by simp
  next
    case False
    then show ?thesis
      using step by (intro exI[of _ "h_calls s"]) simp
  qed
qed

lemma accept_one_held:
  obtains (forever) "accept_one env K s = None" "interrupted_for_ever K"
    | (refused) s' where "accept_one env K s = Some (Inl (Runtime_error ''accept failed''), s')" "kept s s'"
    | (untuned) e fd s' where "accept_one env K s = Some (Inl e, s')" "tuning_error env K e" "gained fd s s'"
    | (accepted) fd s' where "accept_one env K s = Some (Inr fd, s')" "gained fd s s'"
proof (cases "accept_fd K s")
  case None
  have "\<forall>u \<ge> h_calls s. ker_signal K u"
    using accept_fd_returns[of "h_calls s" _ K s] None by fastforce
  then have "interrupted_for_ever K"
    unfolding interrupted_for_ever_def by blast
  then show thesis
    using forever None by (simp add: accept_one_def)
next
  case (Some r0)
  then obtain d where d: "accept_fd K s = Some (new_fd K (s\<lparr>h_calls := d\<rparr>))"
    using accept_fd_some by blast
  let ?s = "s\<lparr>h_calls := d + 1, h_fds := lowest_free (h_fds s) # h_fds s\<rparr>"
  obtain r t where o: "set_tcp_opts env K ?s = (r, t)"
    by fastforce
  obtain c where t: "t = ?s\<lparr>h_calls := c\<rparr>"
    using set_tcp_opts_state[of env K ?s] o by auto
  have g: "gained (lowest_free (h_fds s)) s t"
    using lowest_free_fresh[of "h_fds s"] by (simp add: t gained_def)
  show thesis
  proof (cases "ker_yes K d")
    case no: False
    show thesis
      by (rule refused[of "s\<lparr>h_calls := d + 1\<rparr>"]) (use no in \<open>simp_all add: accept_one_def d new_fd_def kept_def\<close>)
  next
    case yes: True
    show thesis
    proof (cases r)
      case (Inl e)
      have te: "tuning_error env K e"
        using o Inl unfolding tuning_error_def by (intro exI[of _ ?s]) simp
      show thesis
        by (rule untuned[OF _ te g]) (use o Inl yes in \<open>simp add: accept_one_def d new_fd_def\<close>)
    next
      case (Inr u)
      show thesis
        by (rule accepted[OF _ g]) (use o Inr yes in \<open>simp add: accept_one_def d new_fd_def\<close>)
    qed
  qed
qed

subsection \<open>The handshake\<close>

definition slot_fds :: "slot list \<Rightarrow> nat set" where
  "slot_fds fds = {fd. \<exists>t. Some (fd, t) \<in> set fds}"

abbreviation streams :: "slot list \<Rightarrow> byte list option list" where
  "streams fds \<equiv> map (map_option snd) fds"

text \<open>What the accepting loop slots_owned: the descriptors of its slots, each once, beside those of the caller.\<close>

definition slots_owned :: "held \<Rightarrow> slot list \<Rightarrow> held \<Rightarrow> bool" where
  "slots_owned s0 fds s \<longleftrightarrow> set (h_fds s) = set (h_fds s0) \<union> slot_fds fds \<and> set (h_fds s0) \<inter> slot_fds fds = {} \<and>
     h_infos s = h_infos s0 \<and>
     (\<forall>i j fd t u. i < length fds \<longrightarrow> j < length fds \<longrightarrow> fds ! i = Some (fd, t) \<longrightarrow> fds ! j = Some (fd, u) \<longrightarrow> i = j)"

lemma close_slots_held:
  "set (h_fds (close_slots fds s)) = set (h_fds s) - slot_fds fds \<and> h_infos (close_slots fds s) = h_infos s"
  unfolding close_slots_def
proof (induction fds arbitrary: s)
  case (Cons x fds)
  show ?case
    using Cons.IH[of "case x of None \<Rightarrow> s | Some (fd, _) \<Rightarrow> close_fd fd s"]
    by (cases x) (auto simp: slot_fds_def close_fd_def)
qed (simp add: slot_fds_def)

lemma place_lane_streams:
  assumes "length fds = k"
  shows "accept_lane env d k n conn (streams fds) = (case place_lane env d k n fd conn fds of Inl e \<Rightarrow> Inl e | Inr fds' \<Rightarrow> Inr (streams fds'))"
  using assms by (auto simp: accept_lane_def place_lane_def bind_r_def map_update nth_map not_le split: sum.splits)

lemma place_lane_Inr:
  assumes "place_lane env d k n fd conn fds = Inr fds'" "length fds = k"
  obtains i t where "i < k" "fds ! i = None" "fds' = fds[i := Some (fd, t)]"
  using assms by (auto simp: place_lane_def bind_r_Inr_iff not_le simp del: not_None_eq split: if_splits)

lemma slot_fds_update:
  assumes "i < length fds" "fds ! i = None"
  shows "slot_fds (fds[i := Some (fd, t)]) = insert fd (slot_fds fds)"
proof -
  have "Some (x, u) \<in> set (fds[i := Some (fd, t)]) \<longleftrightarrow> (x = fd \<and> u = t) \<or> Some (x, u) \<in> set fds" for x u
  proof
    assume "(x = fd \<and> u = t) \<or> Some (x, u) \<in> set fds"
    then show "Some (x, u) \<in> set (fds[i := Some (fd, t)])"
    proof
      assume "Some (x, u) \<in> set fds"
      then obtain j where j: "j < length fds" "fds ! j = Some (x, u)"
        by (auto simp: in_set_conv_nth)
      then have "fds[i := Some (fd, t)] ! j = Some (x, u)"
        using assms(2) by (cases "i = j") simp_all
      then show ?thesis
        using j(1) nth_mem[of j "fds[i := Some (fd, t)]"] by simp
    qed (simp add: set_update_memI[OF assms(1)])
  qed (auto dest: subsetD[OF set_update_subset_insert])
  then show ?thesis
    by (auto simp: slot_fds_def)
qed

lemma slots_owned_gained:
  assumes "slots_owned s0 fds s" "gained fd s s'" "i < length fds" "fds ! i = None"
  shows "slots_owned s0 (fds[i := Some (fd, t)]) s'"
proof -
  have new: "fd \<notin> slot_fds fds"
    using assms(1,2) by (auto simp: slots_owned_def gained_def)
  then have "\<not> (\<exists>j u. j < length fds \<and> fds ! j = Some (fd, u))"
    by (force simp: slot_fds_def in_set_conv_nth)
  then show ?thesis
    using assms slot_fds_update[OF assms(3,4), of fd t]
    by (auto simp: slots_owned_def gained_def nth_list_update split: if_splits)
qed

text \<open>How a call may fail: on a peer, on the listening socket, on the reply, or on tuning a new descriptor.\<close>

definition accept_failure :: "env \<Rightarrow> byte list \<Rightarrow> nat \<Rightarrow> nat \<Rightarrow> cg_error \<Rightarrow> bool" where
  "accept_failure env d k n e \<longleftrightarrow> e = Runtime_error ''accept failed'' \<or>
     (validate_lane_metadata env \<and> (e = Runtime_error ''write: '' \<or> send_rf_metadata env d k n = Inl e))"

lemma reply_lane_held:
  obtains e t where "reply_lane env K d k n s = (Inl e, t)" "accept_failure env d k n e" "h_fds t = h_fds s" "h_infos t = h_infos s"
    | t where "reply_lane env K d k n s = (Inr (), t)" "h_fds t = h_fds s" "h_infos t = h_infos s"
proof (cases "validate_lane_metadata env")
  case True
  show thesis
  proof (cases "send_rf_metadata env d k n")
    case (Inl e)
    then show thesis
      using that(1)[of e s] True by (simp add: reply_lane_def accept_failure_def)
  next
    case (Inr m)
    then show thesis
      using that True by (cases "ker_yes K (h_calls s)") (simp_all add: reply_lane_def accept_failure_def ask_def)
  qed
next
  case False
  then show thesis
    using that(2)[of s] by (simp add: reply_lane_def)
qed

lemma accept_lanes_loop_refines:
  "length fds = k \<Longrightarrow> slots_owned s0 fds s \<Longrightarrow> case accept_lanes_loop env K d k n m conns fds s of
      None \<Rightarrow> interrupted_for_ever K \<or> (length conns < m \<and> (\<exists>ss. fold_r (accept_lane env d k n) (take m conns) (streams fds) = Inr ss))
    | Some (Inl e, s') \<Rightarrow> h_infos s' = h_infos s0 \<and>
        (((fold_r (accept_lane env d k n) (take m conns) (streams fds) = Inl e \<or> accept_failure env d k n e) \<and> set (h_fds s') = set (h_fds s0)) \<or>
         (tuning_error env K e \<and> (\<exists>fd. fd \<notin> set (h_fds s0) \<and> set (h_fds s') = insert fd (set (h_fds s0)))))
    | Some (Inr slots, s') \<Rightarrow> fold_r (accept_lane env d k n) (take m conns) (streams fds) = Inr (streams slots)
        \<and> m \<le> length conns \<and> slots_owned s0 slots s' \<and> length slots = k"
proof (induction m arbitrary: conns fds s)
  case (Suc m)
  show ?case
  proof (cases conns)
    case Nil
    then show ?thesis by simp
  next
    case (Cons conn conns')
    have closed: "set (h_fds (close_slots fds t)) = set (h_fds s0) \<and> h_infos (close_slots fds t) = h_infos s0"
      if "set (h_fds t) = set (h_fds s)" "h_infos t = h_infos s" for t
      using that close_slots_held[of fds t] Suc.prems(2) by (auto simp: slots_owned_def)
    show ?thesis
    proof (cases rule: accept_one_held[of env K s])
      case forever
      then show ?thesis
        using Cons by simp
    next
      case (refused s1)
      then show ?thesis
        using Cons closed[of s1] by (simp add: kept_def accept_failure_def)
    next
      case (untuned e fd s1)
      have "set (h_fds (close_slots fds s1)) = insert fd (set (h_fds s0))" "fd \<notin> set (h_fds s0)" "h_infos (close_slots fds s1) = h_infos s0"
        using untuned(3) close_slots_held[of fds s1] Suc.prems(2) by (auto simp: slots_owned_def gained_def)
      then show ?thesis
        using Cons untuned(1,2) by auto
    next
      case (accepted fd s1)
      have shut: "set (h_fds (close_fd fd t)) = set (h_fds s) \<and> h_infos (close_fd fd t) = h_infos s"
        if "h_fds t = h_fds s1" "h_infos t = h_infos s1" for t
        using accepted(2) that by (auto simp: gained_def close_fd_def)
      show ?thesis
      proof (cases "place_lane env d k n fd conn fds")
        case (Inl e)
        have "accept_lane env d k n conn (streams fds) = Inl e"
          using place_lane_streams[OF Suc.prems(1), of env d n conn fd] Inl by simp
        then show ?thesis
          using Cons accepted(1) Inl shut[of s1] closed[of "close_fd fd s1"] by simp
      next
        case (Inr fds')
        obtain i t where i: "i < k" "fds ! i = None" "fds' = fds[i := Some (fd, t)]"
          using place_lane_Inr[OF Inr Suc.prems(1)] .
        show ?thesis
        proof (cases rule: reply_lane_held[of env K d k n s1])
          case (1 e t)
          then show ?thesis
            using Cons accepted(1) Inr shut[of t] closed[of "close_fd fd t"] by simp
        next
          case (2 s2)
          have "gained fd s s2"
            using accepted(2) 2(2,3) by (simp add: gained_def)
          then have own: "slots_owned s0 fds' s2"
            using slots_owned_gained[OF Suc.prems(2), of fd s2 i t] i Suc.prems(1) by simp
          have len: "length fds' = k"
            using i(3) Suc.prems(1) by simp
          have run: "accept_lanes_loop env K d k n (Suc m) (conn # conns') fds s = accept_lanes_loop env K d k n m conns' fds' s2"
            using accepted(1) Inr 2(1) by simp
          have seq: "fold_r (accept_lane env d k n) (take (Suc m) (conn # conns')) (streams fds)
              = fold_r (accept_lane env d k n) (take m conns') (streams fds')"
            using place_lane_streams[OF Suc.prems(1), of env d n conn fd] Inr by simp
          show ?thesis
            using Suc.IH[OF len own, of conns'] unfolding Cons length_Cons Suc_less_eq Suc_le_mono run seq .
        qed
      qed
    qed
  qed
qed simp

lemma owned_distinct:
  assumes "slots_owned s0 slots s" "None \<notin> set slots"
  shows "distinct (map (fst \<circ> the) slots)" "slot_fds slots = set (map (fst \<circ> the) slots)"
proof -
  have some: "slots ! i = Some (fst (the (slots ! i)), snd (the (slots ! i)))" if "i < length slots" for i
    using assms(2) that by (cases "slots ! i") (auto simp: in_set_conv_nth)
  show "distinct (map (fst \<circ> the) slots)"
    unfolding distinct_conv_nth
  proof (intro allI impI)
    fix i j
    assume ij: "i < length (map (fst \<circ> the) slots)" "j < length (map (fst \<circ> the) slots)" "i \<noteq> j"
    have inj: "\<forall>i j fd t u. i < length slots \<longrightarrow> j < length slots \<longrightarrow> slots ! i = Some (fd, t) \<longrightarrow> slots ! j = Some (fd, u) \<longrightarrow> i = j"
      using assms(1) by (simp add: slots_owned_def)
    have l: "i < length slots" "j < length slots"
      using ij by simp_all
    show "map (fst \<circ> the) slots ! i \<noteq> map (fst \<circ> the) slots ! j"
    proof
      assume "map (fst \<circ> the) slots ! i = map (fst \<circ> the) slots ! j"
      then have "slots ! j = Some (fst (the (slots ! i)), snd (the (slots ! j)))"
        using some[OF l(2)] l by simp
      then show False
        using inj[rule_format, OF l some[OF l(1)]] ij(3) by blast
    qed
  qed
  show "slot_fds slots = set (map (fst \<circ> the) slots)"
  proof (intro equalityI subsetI)
    fix x
    assume "x \<in> set (map (fst \<circ> the) slots)"
    then obtain y where y: "y \<in> set slots" "x = fst (the y)"
      by auto
    then obtain z where "y = Some z"
      using assms(2) by (metis option.exhaust)
    then show "x \<in> slot_fds slots"
      using y by (auto simp: slot_fds_def intro!: exI[of _ "snd z"])
  next
    fix x
    assume "x \<in> slot_fds slots"
    then obtain t where "Some (x, t) \<in> set slots"
      by (auto simp: slot_fds_def)
    then show "x \<in> set (map (fst \<circ> the) slots)"
      by (auto intro: rev_image_eqI)
  qed
qed

text \<open>The connecting side.\<close>

lemma close_all_held:
  "set (h_fds (close_all fds s)) = set (h_fds s) - fst ` set fds \<and> h_infos (close_all fds s) = h_infos s"
  unfolding close_all_def by (induction fds arbitrary: s) (auto simp: close_fd_def)

lemma connect_lanes_loop_refines:
  assumes "tuned env K"
  shows "set (h_fds s) = set (h_fds s0) \<union> fst ` set fds \<Longrightarrow> h_infos s = h_infos s0 \<Longrightarrow>
    set (h_fds s0) \<inter> fst ` set fds = {} \<Longrightarrow> distinct (map fst fds) \<Longrightarrow>
    case connect_lanes_loop env K d host port k n replies l fds s of
      (Inl e, s') \<Rightarrow> set (h_fds s') = set (h_fds s0) \<and> h_infos s' = h_infos s0
    | (Inr xs, s') \<Rightarrow> (\<exists>ys. xs = fds @ ys \<and>
        map_r (connect_lane env d k n) [l..<l + length replies] = Inr (map (fst \<circ> snd) ys) \<and>
        check_replies env d k n replies = Inr (map (snd \<circ> snd) ys)) \<and>
        set (h_fds s') = set (h_fds s0) \<union> fst ` set xs \<and> h_infos s' = h_infos s0 \<and>
        set (h_fds s0) \<inter> fst ` set xs = {} \<and> distinct (map fst xs)"
proof (induction replies arbitrary: l fds s)
  case Nil
  then show ?case
    by (simp add: check_replies_def)
next
  case (Cons reply replies)
  obtain r s1 where c: "connect_tcp_retry env K host port 0 s = (r, s1)"
    by fastforce
  have rel: "released r s s1"
    by (rule connect_held[OF assms c])
  show ?case
  proof (cases r)
    case (Inl e)
    then have "set (h_fds s1) = set (h_fds s)" "h_infos s1 = h_infos s"
      using rel by (simp_all add: kept_def)
    then show ?thesis
      using c Inl Cons.prems(1-3) close_all_held[of fds s1] by auto
  next
    case fd: (Inr fd)
    then have g: "fd \<notin> set (h_fds s)" "set (h_fds s1) = insert fd (set (h_fds s))" "h_infos s1 = h_infos s"
      using rel by (simp_all add: gained_def)
    show ?thesis
    proof (cases "greet_lane env d k n l reply")
      case (Inl e)
      have "set (h_fds (close_all (fds @ [(fd, [], [])]) s1)) = set (h_fds s0)"
        using close_all_held[of "fds @ [(fd, [], [])]" s1] g Cons.prems(1,3) by auto
      then show ?thesis
        using c fd Inl g(3) Cons.prems(2) close_all_held[of "fds @ [(fd, [], [])]" s1] by simp
    next
      case (Inr x)
      let ?fds = "fds @ [(fd, x)]"
      have x: "connect_lane env d k n l = Inr (fst x)"
          "(if validate_lane_metadata env then check_rf_metadata env d k n reply else Inr reply) = Inr (snd x)"
        using Inr by (auto simp: greet_lane_def bind_r_Inr_iff)
      have "map_r (connect_lane env d k n) [l..<l + length (reply # replies)] = bind_r (map_r (connect_lane env d k n) [Suc l..<Suc l + length replies]) (\<lambda>ys. Inr (fst x # ys))"
        using x(1) upt_conv_Cons[of l "l + length (reply # replies)"] by (simp del: upt_Suc)
      moreover have "check_replies env d k n (reply # replies) = bind_r (check_replies env d k n replies) (\<lambda>ys. Inr (snd x # ys))"
        using x(2) by (simp add: check_replies_def)
      moreover have "connect_lanes_loop env K d host port k n (reply # replies) l fds s = connect_lanes_loop env K d host port k n replies (Suc l) ?fds s1"
        using c fd Inr by simp
      moreover have "set (h_fds s1) = set (h_fds s0) \<union> fst ` set ?fds" "h_infos s1 = h_infos s0"
          "set (h_fds s0) \<inter> fst ` set ?fds = {}" "distinct (map fst ?fds)"
        using Cons.prems g by auto
      note IH = Cons.IH[OF this, of "Suc l"]
      ultimately show ?thesis
        using IH
        by (cases "connect_lanes_loop env K d host port k n replies (Suc l) ?fds s1"; cases "fst (connect_lanes_loop env K d host port k n replies (Suc l) ?fds s1)")
          auto
    qed
  qed
qed

lemma connect_lane_sockets_released:
  assumes "tuned env K"
  shows "case connect_lane_sockets env K d host port replies n s of
      (Inl e, s') \<Rightarrow> set (h_fds s') = set (h_fds s) \<and> h_infos s' = h_infos s
    | (Inr xs, s') \<Rightarrow> connect_rf_lanes env d (length replies) n = Inr (map (fst \<circ> snd) xs) \<and>
        check_replies env d (length replies) n replies = Inr (map (snd \<circ> snd) xs) \<and> distinct (map fst xs) \<and>
        set (h_fds s') = set (h_fds s) \<union> fst ` set xs \<and> set (h_fds s) \<inter> fst ` set xs = {} \<and> h_infos s' = h_infos s"
proof (cases "cg_validate_count env n False")
  case (Inl e)
  then show ?thesis
    by (simp add: connect_lane_sockets_def)
next
  case (Inr u)
  note IH = connect_lanes_loop_refines[OF assms, where s = s and ?s0.0 = s and fds = "[]" and d = d and host = host and port = port
      and k = "length replies" and n = n and replies = replies and l = 0]
  show ?thesis
    using IH Inr
    by (cases "connect_lanes_loop env K d host port (length replies) n replies 0 [] s";
        cases "fst (connect_lanes_loop env K d host port (length replies) n replies 0 [] s)")
      (auto simp: connect_lane_sockets_def connect_rf_lanes_def)
qed

subsection \<open>Exceptions that leak\<close>

text \<open>
  The clean-up of the two handshakes does not see a descriptor whose tuning fails: the exception of
  \<^verbatim>\<open>set_tcp_opts\<close> leaves \<^verbatim>\<open>connect_tcp_retry\<close>, \<^verbatim>\<open>listen_tcp\<close> and \<^verbatim>\<open>accept_one\<close> with the descriptor open, and
  the first of them with the address list as well.
\<close>

lemma untuned_connect_leaks:
  assumes "cg_config_size env ''CG_IO_TIMEOUT_S'' 180 86400 False = Inl e"
    and "ker_addrs K host port (h_calls s) = Some (Suc n)" "ker_yes K (Suc (h_calls s))" "ker_yes K (Suc (Suc (h_calls s)))"
  shows "\<exists>s'. connect_attempts env K host port (Suc m) s = (Inl e, s') \<and> h_fds s' = lowest_free (h_fds s) # h_fds s \<and> h_infos s' = h_infos s + 1"
  using assms by (simp add: get_addresses_def new_fd_def ask_def set_tcp_opts_def)

subsection \<open>Property\<close>

text \<open>
  C32: The accepting handshake, with its descriptors. It refines the handshake on byte streams. It waits
  when that waits, or when signals interrupt \<^verbatim>\<open>accept\<close> for ever. When it succeeds, it returns the streams
  of that handshake and owns exactly one new descriptor per lane, all different, no lane without one.
  When it throws, the error is the one of that handshake, or \<^verbatim>\<open>accept\<close> or the reply to a validated peer
  failed, and everything it had opened is closed; or it is an exception of \<^verbatim>\<open>set_tcp_opts\<close> on a connection just
  accepted, and then exactly this one descriptor stays open.
\<close>

theorem accepting_handshake_owns_its_lanes:
  "case accept_lane_sockets env K d conns k n s of
      None \<Rightarrow> accept_rf_lanes env d conns k n = None \<or> interrupted_for_ever K
    | Some (Inl e, s') \<Rightarrow> h_infos s' = h_infos s \<and>
        (((accept_rf_lanes env d conns k n = Some (Inl e) \<or> accept_failure env d k n e) \<and> set (h_fds s') = set (h_fds s)) \<or>
         (tuning_error env K e \<and> (\<exists>fd. fd \<notin> set (h_fds s) \<and> set (h_fds s') = insert fd (set (h_fds s)))))
    | Some (Inr slots, s') \<Rightarrow> accept_rf_lanes env d conns k n = Some (Inr (streams slots)) \<and>
        length slots = k \<and> None \<notin> set slots \<and> distinct (map (fst \<circ> the) slots) \<and>
        set (h_fds s') = set (h_fds s) \<union> set (map (fst \<circ> the) slots) \<and>
        set (h_fds s) \<inter> set (map (fst \<circ> the) slots) = {} \<and> h_infos s' = h_infos s"
proof (cases "cg_validate_count env n False")
  case (Inl e)
  then show ?thesis
    by (simp add: accept_lane_sockets_def accept_rf_lanes_def)
next
  case (Inr u)
  have "slots_owned s (replicate k None) s"
    by (auto simp: slots_owned_def slot_fds_def)
  note loop = accept_lanes_loop_refines[OF length_replicate this, where env = env and K = K and d = d and n = n and m = k and conns = conns]
  have eq: "accept_lane_sockets env K d conns k n s = accept_lanes_loop env K d k n k conns (replicate k None) s"
    using Inr by (simp add: accept_lane_sockets_def)
  have ab: "accept_rf_lanes env d conns k n = (case fold_r (accept_lane env d k n) (take k conns) (streams (replicate k None)) of
      Inl e \<Rightarrow> Some (Inl e) | Inr fds \<Rightarrow> if length conns < k then None else Some (Inr fds))"
    using Inr by (simp add: accept_rf_lanes_def)
  show ?thesis
  proof (cases "accept_lanes_loop env K d k n k conns (replicate k None) s")
    case None
    then show ?thesis
      using loop unfolding eq ab by auto
  next
    case (Some rs)
    obtain r s' where rs: "rs = (r, s')"
      by fastforce
    show ?thesis
    proof (cases r)
      case (Inl e)
      then show ?thesis
        using loop Some rs unfolding eq ab by auto
    next
      case (Inr slots)
      have l: "fold_r (accept_lane env d k n) (take k conns) (streams (replicate k None)) = Inr (streams slots)"
          "k \<le> length conns" "slots_owned s slots s'" "length slots = k"
        using loop Some rs Inr by simp_all
      then have acc: "accept_rf_lanes env d conns k n = Some (Inr (streams slots))"
        unfolding ab by simp
      have "None \<notin> set (streams slots)"
        using accept_rf_lanes_full[OF acc] by (metis in_set_conv_nth)
      then have some: "None \<notin> set slots"
        by (auto simp: image_iff dest: bspec[of _ _ None])
      show ?thesis
        using Some rs Inr acc l(3,4) some owned_distinct[OF l(3) some] unfolding eq slots_owned_def by simp
    qed
  qed
qed

text \<open>Without a misconfigured or refused timeout there is nothing that a failing handshake leaves open.\<close>

lemma tuned_no_error: "tuned env K \<Longrightarrow> \<not> tuning_error env K e"
  unfolding tuning_error_def
proof (rule notI, elim exE)
  fix s assume t: "tuned env K" "fst (set_tcp_opts env K s) = Inl e"
  then show False
    using set_tcp_opts_tuned[OF t(1), of s] by auto
qed

end
