(* ===== verification/CG_Network.thy ===== *)
theory CG_Network
  imports CG_Prelude
begin

text \<open>
  Processes on links of bounded capacity. A TCP connection accepts bytes until the buffers between the
  two ends are full and then blocks its writer; a reader blocks on an empty one. A process is the list
  of bytes that it reads and writes, in its order. When every link has one writer and one reader, the
  processes cannot disturb each other: if one order of their steps runs to the end, no order of steps
  gets stuck.
\<close>

subsection \<open>Steps\<close>

datatype ('l, 'b) act = Put 'l 'b | Get 'l 'b

record ('p, 'l, 'b) net =
  todo :: "'p \<Rightarrow> ('l, 'b) act list"
  in_flight :: "'l \<Rightarrow> 'b list"

definition net_start :: "('p \<Rightarrow> ('l, 'b) act list) \<Rightarrow> ('p, 'l, 'b) net" where
  "net_start prog = \<lparr> todo = prog, in_flight = (\<lambda>l. []) \<rparr>"

text \<open>\<open>Get l b\<close> is a read that obtains the byte \<open>b\<close>; it waits while the link is empty.\<close>

inductive net_step :: "('l \<Rightarrow> nat) \<Rightarrow> ('p, 'l, 'b) net \<Rightarrow> ('p, 'l, 'b) net \<Rightarrow> bool" for cap where
  writes: "todo s p = Put l b # as \<Longrightarrow> length (in_flight s l) < cap l \<Longrightarrow>
    net_step cap s (s\<lparr>todo := (todo s)(p := as), in_flight := (in_flight s)(l := in_flight s l @ [b])\<rparr>)"
| reads: "todo s p = Get l b # as \<Longrightarrow> in_flight s l = b # q \<Longrightarrow>
    net_step cap s (s\<lparr>todo := (todo s)(p := as), in_flight := (in_flight s)(l := q)\<rparr>)"

inductive_cases net_stepE: "net_step cap s s'"

definition net_done :: "('p, 'l, 'b) net \<Rightarrow> bool" where
  "net_done s \<longleftrightarrow> (\<forall>p. todo s p = [])"

text \<open>The bytes a process still writes to a link, and those it still reads from it.\<close>

fun put_on :: "'l \<Rightarrow> ('l, 'b) act \<Rightarrow> 'b list" where
  "put_on l (Put l' b) = (if l' = l then [b] else [])"
| "put_on l (Get l' b) = []"

fun got_from :: "'l \<Rightarrow> ('l, 'b) act \<Rightarrow> 'b list" where
  "got_from l (Get l' b) = (if l' = l then [b] else [])"
| "got_from l (Put l' b) = []"

definition outs :: "'l \<Rightarrow> ('l, 'b) act list \<Rightarrow> 'b list" where
  "outs l as = concat (map (put_on l) as)"

definition ins :: "'l \<Rightarrow> ('l, 'b) act list \<Rightarrow> 'b list" where
  "ins l as = concat (map (got_from l) as)"

lemma outs_simps [simp]:
  "outs l [] = []" "outs l (a # as) = put_on l a @ outs l as" "outs l (as @ bs) = outs l as @ outs l bs"
  by (simp_all add: outs_def)

lemma ins_simps [simp]:
  "ins l [] = []" "ins l (a # as) = got_from l a @ ins l as" "ins l (as @ bs) = ins l as @ ins l bs"
  by (simp_all add: ins_def)

text \<open>What a process has left is the end of what it had, and no link ever holds more than its capacity.\<close>

lemma remaining_suffix:
  assumes "(net_step cap)\<^sup>*\<^sup>* s t"
  shows "\<exists>ys. todo s p = ys @ todo t p"
  using assms
proof (induction rule: rtranclp_induct)
  case (step u v)
  then obtain ys where ys: "todo s p = ys @ todo u p"
    by blast
  have "\<exists>zs. todo u p = zs @ todo v p"
    using step(2) by (cases rule: net_step.cases) auto
  then show ?case
    using ys by auto
qed simp

lemma in_capacity:
  assumes "(net_step cap)\<^sup>*\<^sup>* (net_start prog) s"
  shows "length (in_flight s l) \<le> cap l"
  using assms
proof (induction rule: rtranclp_induct)
  case (step u v)
  from step(2) show ?case
    by (cases rule: net_step.cases) (use step(3) in auto)
qed (simp add: net_start_def)

text \<open>A run has as many steps as the processes have bytes to read and write.\<close>

definition net_work :: "'p list \<Rightarrow> ('p \<Rightarrow> ('l, 'b) act list) \<Rightarrow> nat" where
  "net_work ps prog = sum_list (map (\<lambda>p. length (prog p)) ps)"

lemma net_work_pop:
  assumes "distinct ps" "p \<in> set ps" "prog p = a # as"
  shows "net_work ps prog = Suc (net_work ps (prog(p := as)))"
  using assms(1,2)
proof (induction ps)
  case (Cons x ps)
  show ?case
  proof (cases "x = p")
    case True
    then have "net_work ps (prog(p := as)) = net_work ps prog"
      unfolding net_work_def using Cons.prems(1) by (intro arg_cong[where f = sum_list] map_cong) auto
    then show ?thesis
      using True assms(3) by (simp add: net_work_def)
  next
    case False
    then show ?thesis
      using Cons by (simp add: net_work_def)
  qed
qed simp

lemma run_length:
  assumes "distinct ps" "set ps = UNIV" "(net_step cap ^^ k) s t"
  shows "k + net_work ps (todo t) = net_work ps (todo s)"
  using assms(3)
proof (induction k arbitrary: t)
  case (Suc k)
  then obtain u where u: "(net_step cap ^^ k) s u" "net_step cap u t"
    by auto
  have "net_work ps (todo u) = Suc (net_work ps (todo t))"
    using u(2) by (cases rule: net_step.cases) (use assms(1,2) in \<open>auto intro: net_work_pop\<close>)
  then show ?case
    using Suc.IH[OF u(1)] by simp
qed simp

subsection \<open>Every maximal run ends\<close>

text \<open>
  The links of a set of programs: who writes and who reads each of them, and what is written is what
  is read.
\<close>

locale wired =
  fixes src dst :: "'l \<Rightarrow> 'p" and prog :: "'p \<Rightarrow> ('l, 'b) act list"
  assumes writer: "Put l b \<in> set (prog p) \<Longrightarrow> p = src l"
    and reader: "Get l b \<in> set (prog p) \<Longrightarrow> p = dst l"
    and balanced: "outs l (prog (src l)) = ins l (prog (dst l))"
begin

definition flow_inv :: "('p, 'l, 'b) net \<Rightarrow> bool" where
  "flow_inv s \<longleftrightarrow> (\<forall>p. set (todo s p) \<subseteq> set (prog p)) \<and>
     (\<forall>l. in_flight s l @ outs l (todo s (src l)) = ins l (todo s (dst l)))"

lemma start_flow: "flow_inv (net_start prog)"
  by (simp add: flow_inv_def net_start_def balanced)

lemma within: "flow_inv s \<Longrightarrow> set (todo s p) \<subseteq> set (prog p)"
  by (simp add: flow_inv_def)

lemma step_flow:
  assumes "net_step cap s s'" "flow_inv s"
  shows "flow_inv s'"
  using assms(1)
proof (cases rule: net_step.cases)
  case (writes p l b as)
  have p: "p = src l" and sub: "set as \<subseteq> set (prog p)"
    using writer[of l b p] within[OF assms(2), of p] writes(2) by auto
  have bal: "in_flight s k @ outs k (todo s (src k)) = ins k (todo s (dst k))" for k
    using assms(2) by (simp add: flow_inv_def)
  have "in_flight s' k @ outs k (todo s' (src k)) = ins k (todo s' (dst k))" for k
    using bal[of k] writes(1,2) p by (cases "k = l") auto
  then show ?thesis
    using assms(2) writes(1) sub by (simp add: flow_inv_def)
next
  case (reads p l b as q)
  have p: "p = dst l" and sub: "set as \<subseteq> set (prog p)"
    using reader[of l b p] within[OF assms(2), of p] reads(2) by auto
  have bal: "in_flight s k @ outs k (todo s (src k)) = ins k (todo s (dst k))" for k
    using assms(2) by (simp add: flow_inv_def)
  have "in_flight s' k @ outs k (todo s' (src k)) = ins k (todo s' (dst k))" for k
    using bal[of k] reads p by (cases "k = l") auto
  then show ?thesis
    using assms(2) reads(1) sub by (simp add: flow_inv_def)
qed

lemma reachable_flow: "(net_step cap)\<^sup>*\<^sup>* (net_start prog) s \<Longrightarrow> flow_inv s"
  by (induction rule: rtranclp_induct) (auto intro: start_flow step_flow)

text \<open>A state in which no process is ahead of where it is in another state.\<close>

definition behind :: "('p, 'l, 'b) net \<Rightarrow> ('p, 'l, 'b) net \<Rightarrow> bool" where
  "behind s t \<longleftrightarrow> (\<forall>p. \<exists>ys. todo s p = ys @ todo t p)"

lemma behindD:
  assumes "behind s t"
  shows "\<exists>ys. outs l (todo s p) = ys @ outs l (todo t p)" "\<exists>ys. ins l (todo s p) = ys @ ins l (todo t p)"
proof -
  obtain ys where "todo s p = ys @ todo t p"
    using assms by (auto simp: behind_def)
  then show "\<exists>ys. outs l (todo s p) = ys @ outs l (todo t p)" "\<exists>ys. ins l (todo s p) = ys @ ins l (todo t p)"
    by auto
qed

text \<open>What a process can do next it can still do when the others are further.\<close>

lemma still_enabled:
  assumes "flow_inv s" "flow_inv t" "behind s t" "net_step cap s s'" "\<not> behind s' t"
  shows "\<exists>t'. net_step cap t t'"
  using assms(4)
proof (cases rule: net_step.cases)
  case (writes p l b as)
  have p: "p = src l"
    using writer[of l b p] within[OF assms(1), of p] writes(2) by auto
  have at: "todo t p = Put l b # as"
  proof (rule ccontr)
    assume "todo t p \<noteq> Put l b # as"
    moreover obtain ys where "todo s p = ys @ todo t p"
      using assms(3) by (auto simp: behind_def)
    ultimately obtain y zs where "as = zs @ todo t p"
      using writes(2) by (cases ys) auto
    then have "behind s' t"
      using assms(3) writes(1) by (auto simp: behind_def)
    then show False
      using assms(5) by simp
  qed
  have "length (in_flight t l) \<le> length (in_flight s l)"
  proof -
    obtain ys where "ins l (todo s (dst l)) = ys @ ins l (todo t (dst l))"
      using behindD(2)[OF assms(3)] by blast
    then have "length (in_flight t l @ outs l (todo t (src l))) \<le> length (in_flight s l @ outs l (todo s (src l)))"
      using assms(1,2) by (simp only: flow_inv_def) simp
    then show ?thesis
      using at writes(2) p by simp
  qed
  then show ?thesis
    using net_step.writes[of t p l b as cap] at writes(3) by auto
next
  case (reads p l b as q)
  have p: "p = dst l"
    using reader[of l b p] within[OF assms(1), of p] reads(2) by auto
  have at: "todo t p = Get l b # as"
  proof (rule ccontr)
    assume "todo t p \<noteq> Get l b # as"
    moreover obtain ys where "todo s p = ys @ todo t p"
      using assms(3) by (auto simp: behind_def)
    ultimately obtain y zs where "as = zs @ todo t p"
      using reads(2) by (cases ys) auto
    then have "behind s' t"
      using assms(3) reads(1) by (auto simp: behind_def)
    then show False
      using assms(5) by simp
  qed
  have f: "in_flight s l @ outs l (todo s (src l)) = in_flight t l @ outs l (todo t (src l))"
    using assms(1,2) at reads(2) p by (simp add: flow_inv_def)
  obtain ys where "outs l (todo s (src l)) = ys @ outs l (todo t (src l))"
    using behindD(1)[OF assms(3)] by blast
  then have "in_flight t l = in_flight s l @ ys"
    using f by simp
  then show ?thesis
    using net_step.reads[of t p l b as "q @ ys" cap] at reads(3) by auto
qed

lemma never_stuck:
  assumes "(net_step cap)\<^sup>*\<^sup>* (net_start prog) e" "net_done e" "(net_step cap)\<^sup>*\<^sup>* (net_start prog) t" "\<nexists>t'. net_step cap t t'"
  shows "net_done t"
proof -
  have "\<exists>ys. prog p = ys @ todo t p" for p
    using remaining_suffix[OF assms(3), of p] by (simp add: net_start_def)
  then have "behind (net_start prog) t"
    by (simp add: behind_def net_start_def)
  with assms(1) have "behind e t"
  proof (induction rule: rtranclp_induct)
    case (step s s')
    then show ?case
      using still_enabled[OF reachable_flow[OF step(1)] reachable_flow[OF assms(3)] _ step(2)] assms(4) by blast
  qed simp
  then show ?thesis
    using assms(2) by (auto simp: behind_def net_done_def)
qed

end

subsection \<open>Schedules\<close>

abbreviation puts :: "'l \<Rightarrow> 'b list \<Rightarrow> ('l, 'b) act list" where
  "puts l bs \<equiv> map (Put l) bs"

abbreviation gets :: "'l \<Rightarrow> 'b list \<Rightarrow> ('l, 'b) act list" where
  "gets l bs \<equiv> map (Get l) bs"

lemma outs_moves [simp]: "outs l (puts l' bs) = (if l' = l then bs else [])" "outs l (gets l' bs) = []"
  by (induction bs) auto

lemma ins_moves [simp]: "ins l (gets l' bs) = (if l' = l then bs else [])" "ins l (puts l' bs) = []"
  by (induction bs) auto

text \<open>Writing while there is room, reading what has arrived, and a byte at a time from hand to hand.\<close>

lemma net_store:
  "t p = puts l bs @ as \<Longrightarrow> length (q l) + length bs \<le> cap l \<Longrightarrow>
    (net_step cap)\<^sup>*\<^sup>* \<lparr> todo = t, in_flight = q \<rparr> \<lparr> todo = t(p := as), in_flight = q(l := q l @ bs) \<rparr>"
proof (induction bs arbitrary: t q)
  case Nil
  then have "t(p := as) = t" "q(l := q l @ []) = q"
    by auto
  then show ?case by simp
next
  case (Cons b bs)
  have "net_step cap \<lparr> todo = t, in_flight = q \<rparr> \<lparr> todo = t(p := puts l bs @ as), in_flight = q(l := q l @ [b]) \<rparr>"
    using net_step.writes[of "\<lparr> todo = t, in_flight = q \<rparr>" p l b "puts l bs @ as" cap] Cons.prems by simp
  moreover have "(net_step cap)\<^sup>*\<^sup>* \<lparr> todo = t(p := puts l bs @ as), in_flight = q(l := q l @ [b]) \<rparr>
      \<lparr> todo = t(p := as), in_flight = q(l := q l @ b # bs) \<rparr>"
    using Cons.IH[of "t(p := puts l bs @ as)" "q(l := q l @ [b])"] Cons.prems by (simp del: fun_upd_apply add: fun_upd_same)
  ultimately show ?case
    by (rule converse_rtranclp_into_rtranclp)
qed

lemma net_fetch:
  "t p = gets l bs @ as \<Longrightarrow> q l = bs @ r \<Longrightarrow>
    (net_step cap)\<^sup>*\<^sup>* \<lparr> todo = t, in_flight = q \<rparr> \<lparr> todo = t(p := as), in_flight = q(l := r) \<rparr>"
proof (induction bs arbitrary: t q)
  case Nil
  then have "t(p := as) = t" "q(l := r) = q"
    by auto
  then show ?case by simp
next
  case (Cons b bs)
  have "net_step cap \<lparr> todo = t, in_flight = q \<rparr> \<lparr> todo = t(p := gets l bs @ as), in_flight = q(l := bs @ r) \<rparr>"
    using net_step.reads[of "\<lparr> todo = t, in_flight = q \<rparr>" p l b "gets l bs @ as" "bs @ r" cap] Cons.prems by simp
  moreover have "(net_step cap)\<^sup>*\<^sup>* \<lparr> todo = t(p := gets l bs @ as), in_flight = q(l := bs @ r) \<rparr> \<lparr> todo = t(p := as), in_flight = q(l := r) \<rparr>"
    using Cons.IH[of "t(p := gets l bs @ as)" "q(l := bs @ r)"] by (simp del: fun_upd_apply add: fun_upd_same)
  ultimately show ?case
    by (rule converse_rtranclp_into_rtranclp)
qed

lemma net_pass:
  "t p = puts l bs @ as \<Longrightarrow> t p' = gets l bs @ as' \<Longrightarrow> p \<noteq> p' \<Longrightarrow> q l = [] \<Longrightarrow> 0 < cap l \<Longrightarrow>
    (net_step cap)\<^sup>*\<^sup>* \<lparr> todo = t, in_flight = q \<rparr> \<lparr> todo = t(p := as, p' := as'), in_flight = q \<rparr>"
proof (induction bs arbitrary: t)
  case Nil
  then have "t(p := as, p' := as') = t"
    by auto
  then show ?case by (simp del: fun_upd_apply)
next
  case (Cons b bs)
  let ?t = "t(p := puts l bs @ as, p' := gets l bs @ as')"
  have same: "q(l := []) = q"
    using Cons.prems(4) by auto
  have "net_step cap \<lparr> todo = t, in_flight = q \<rparr> \<lparr> todo = t(p := puts l bs @ as), in_flight = q(l := [b]) \<rparr>"
    using net_step.writes[of "\<lparr> todo = t, in_flight = q \<rparr>" p l b "puts l bs @ as" cap] Cons.prems by simp
  moreover have "net_step cap \<lparr> todo = t(p := puts l bs @ as), in_flight = q(l := [b]) \<rparr> \<lparr> todo = ?t, in_flight = q \<rparr>"
    using net_step.reads[of "\<lparr> todo = t(p := puts l bs @ as), in_flight = q(l := [b]) \<rparr>" p' l b "gets l bs @ as'" "[]" cap]
      Cons.prems same by simp
  moreover have "(net_step cap)\<^sup>*\<^sup>* \<lparr> todo = ?t, in_flight = q \<rparr> \<lparr> todo = t(p := as, p' := as'), in_flight = q \<rparr>"
    using Cons.IH[of ?t] Cons.prems by (simp del: fun_upd_apply add: fun_upd_same fun_upd_other fun_upd_twist)
  ultimately show ?case
    by (meson converse_rtranclp_into_rtranclp)
qed

end
