(* ===== verification/CG_BenchFlow.thy ===== *)
theory CG_BenchFlow
  imports CG_Bench CG_Network
begin

text \<open>
  The order in which the four programs of the two-round benchmark read and write, on connections of
  bounded capacity. The sender answers each ciphertext as soon as it has it, while its firewall forwards
  all of round 1 before it reads the first answer: whether the programs run to the end depends on how
  many bytes of answers the connection between them can hold.
\<close>

subsection \<open>Connections and programs\<close>

datatype party = At_receiver | At_rrf | At_srf | At_sender

text \<open>The two directions of the three connections.\<close>

datatype hop = Rec_rrf | Rrf_srf | Srf_snd | Snd_srf | Srf_rrf | Rrf_rec

fun hop_src :: "hop \<Rightarrow> party" where
  "hop_src Rec_rrf = At_receiver"
| "hop_src Rrf_srf = At_rrf"
| "hop_src Srf_snd = At_srf"
| "hop_src Snd_srf = At_sender"
| "hop_src Srf_rrf = At_srf"
| "hop_src Rrf_rec = At_rrf"

fun hop_dst :: "hop \<Rightarrow> party" where
  "hop_dst Rec_rrf = At_rrf"
| "hop_dst Rrf_srf = At_srf"
| "hop_dst Srf_snd = At_sender"
| "hop_dst Snd_srf = At_srf"
| "hop_dst Srf_rrf = At_rrf"
| "hop_dst Rrf_rec = At_receiver"

text \<open>
  The messages of a run: the count, the key on each hop, for every OLE the encoding of its ciphertext on
  each hop, and the verdict.
\<close>

record traffic =
  tr_count :: "byte list"
  tr_key :: "hop \<Rightarrow> byte list"
  tr_items :: "(hop \<Rightarrow> byte list) list"
  tr_verdict :: "byte list"

definition relay_moves :: "hop \<Rightarrow> hop \<Rightarrow> (hop \<Rightarrow> byte list) list \<Rightarrow> (hop, byte) act list" where
  "relay_moves a b items = concat (map (\<lambda>it. gets a (it a) @ puts b (it b)) items)"

definition receiver_moves :: "traffic \<Rightarrow> (hop, byte) act list" where
  "receiver_moves T = puts Rec_rrf (tr_count T) @ puts Rec_rrf (tr_key T Rec_rrf) @
     concat (map (\<lambda>it. puts Rec_rrf (it Rec_rrf)) (tr_items T)) @
     concat (map (\<lambda>it. gets Rrf_rec (it Rrf_rec)) (tr_items T)) @
     puts Rec_rrf (tr_verdict T)"

definition rrf_moves :: "traffic \<Rightarrow> (hop, byte) act list" where
  "rrf_moves T = gets Rec_rrf (tr_count T) @ gets Rec_rrf (tr_key T Rec_rrf) @
     puts Rrf_srf (tr_count T) @ puts Rrf_srf (tr_key T Rrf_srf) @
     relay_moves Rec_rrf Rrf_srf (tr_items T) @
     relay_moves Srf_rrf Rrf_rec (tr_items T) @
     gets Rec_rrf (tr_verdict T) @ puts Rrf_srf (tr_verdict T)"

definition srf_moves :: "traffic \<Rightarrow> (hop, byte) act list" where
  "srf_moves T = gets Rrf_srf (tr_count T) @ gets Rrf_srf (tr_key T Rrf_srf) @
     puts Srf_snd (tr_count T) @ puts Srf_snd (tr_key T Srf_snd) @
     relay_moves Rrf_srf Srf_snd (tr_items T) @
     relay_moves Snd_srf Srf_rrf (tr_items T) @
     gets Rrf_srf (tr_verdict T) @ puts Srf_snd (tr_verdict T)"

definition sender_moves :: "traffic \<Rightarrow> (hop, byte) act list" where
  "sender_moves T = gets Srf_snd (tr_count T) @ gets Srf_snd (tr_key T Srf_snd) @
     relay_moves Srf_snd Snd_srf (tr_items T) @
     gets Srf_snd (tr_verdict T)"

fun bench_moves :: "traffic \<Rightarrow> party \<Rightarrow> (hop, byte) act list" where
  "bench_moves T At_receiver = receiver_moves T"
| "bench_moves T At_rrf = rrf_moves T"
| "bench_moves T At_srf = srf_moves T"
| "bench_moves T At_sender = sender_moves T"

lemmas moves_defs = receiver_moves_def rrf_moves_def srf_moves_def sender_moves_def relay_moves_def

abbreviation on_hop :: "hop \<Rightarrow> (hop \<Rightarrow> byte list) list \<Rightarrow> byte list" where
  "on_hop l items \<equiv> concat (map (\<lambda>it. it l) items)"

lemma outs_items [simp]:
  "outs l (concat (map (\<lambda>it. puts a (it a)) items)) = (if a = l then on_hop l items else [])"
  "outs l (concat (map (\<lambda>it. gets a (it a)) items)) = []"
  "outs l (relay_moves a b items) = (if b = l then on_hop l items else [])"
  by (induction items) (auto simp: relay_moves_def)

lemma ins_items [simp]:
  "ins l (concat (map (\<lambda>it. gets a (it a)) items)) = (if a = l then on_hop l items else [])"
  "ins l (concat (map (\<lambda>it. puts a (it a)) items)) = []"
  "ins l (relay_moves a b items) = (if a = l then on_hop l items else [])"
  by (induction items) (auto simp: relay_moves_def)

interpretation bench: wired hop_src hop_dst "bench_moves T" for T
proof
  show "outs l (bench_moves T (hop_src l)) = ins l (bench_moves T (hop_dst l))" for l
    by (cases l) (simp_all add: receiver_moves_def rrf_moves_def srf_moves_def sender_moves_def)
  show "Put l b \<in> set (bench_moves T p) \<Longrightarrow> p = hop_src l" "Get l b \<in> set (bench_moves T p) \<Longrightarrow> p = hop_dst l" for l b p
    by (cases p; auto simp: moves_defs)+
qed

subsection \<open>A run to the end\<close>

definition parties :: "party list" where
  "parties = [At_receiver, At_rrf, At_srf, At_sender]"

lemma parties_all: "distinct parties" "set parties = UNIV"
proof -
  have "p \<in> set parties" for p
    by (cases p) (simp_all add: parties_def)
  then show "set parties = UNIV"
    by blast
qed (simp add: parties_def)

definition scripts :: "(hop, byte) act list \<Rightarrow> (hop, byte) act list \<Rightarrow> (hop, byte) act list \<Rightarrow> (hop, byte) act list \<Rightarrow> party \<Rightarrow> (hop, byte) act list" where
  "scripts a b c d p = (case p of At_receiver \<Rightarrow> a | At_rrf \<Rightarrow> b | At_srf \<Rightarrow> c | At_sender \<Rightarrow> d)"

lemma scripts_simps [simp]:
  "scripts a b c d At_receiver = a" "scripts a b c d At_rrf = b" "scripts a b c d At_srf = c" "scripts a b c d At_sender = d"
  by (simp_all add: scripts_def)

lemma scripts_upd [simp]:
  "(scripts a b c d)(At_receiver := x) = scripts x b c d" "(scripts a b c d)(At_rrf := x) = scripts a x c d"
  "(scripts a b c d)(At_srf := x) = scripts a b x d" "(scripts a b c d)(At_sender := x) = scripts a b c x"
  by (auto simp: fun_eq_iff scripts_def split: party.split)

text \<open>The only link on which bytes wait in this schedule is the one from the sender to its firewall.\<close>

definition waiting :: "(hop, byte) act list \<Rightarrow> (hop, byte) act list \<Rightarrow> (hop, byte) act list \<Rightarrow> (hop, byte) act list \<Rightarrow> byte list \<Rightarrow> (party, hop, byte) net" where
  "waiting a b c d w = \<lparr> todo = scripts a b c d, in_flight = (\<lambda>_. [])(Snd_srf := w) \<rparr>"

lemma waiting_upd [simp]: "((\<lambda>_. [])(Snd_srf := w))(Snd_srf := v) = (\<lambda>_. [])(Snd_srf := v)"
  by auto

lemma bench_pass:
  assumes "\<forall>l. 0 < cap l"
  shows "(net_step cap)\<^sup>*\<^sup>* (waiting (puts Rec_rrf bs @ a) (gets Rec_rrf bs @ b) c d w) (waiting a b c d w)"
    and "(net_step cap)\<^sup>*\<^sup>* (waiting a (puts Rrf_srf bs @ b) (gets Rrf_srf bs @ c) d w) (waiting a b c d w)"
    and "(net_step cap)\<^sup>*\<^sup>* (waiting a b (puts Srf_snd bs @ c) (gets Srf_snd bs @ d) w) (waiting a b c d w)"
    and "(net_step cap)\<^sup>*\<^sup>* (waiting a (gets Srf_rrf bs @ b) (puts Srf_rrf bs @ c) d w) (waiting a b c d w)"
    and "(net_step cap)\<^sup>*\<^sup>* (waiting (gets Rrf_rec bs @ a) (puts Rrf_rec bs @ b) c d w) (waiting a b c d w)"
  using assms
    net_pass[of "scripts (puts Rec_rrf bs @ a) (gets Rec_rrf bs @ b) c d" At_receiver Rec_rrf bs a At_rrf b "(\<lambda>_. [])(Snd_srf := w)" cap]
    net_pass[of "scripts a (puts Rrf_srf bs @ b) (gets Rrf_srf bs @ c) d" At_rrf Rrf_srf bs b At_srf c "(\<lambda>_. [])(Snd_srf := w)" cap]
    net_pass[of "scripts a b (puts Srf_snd bs @ c) (gets Srf_snd bs @ d)" At_srf Srf_snd bs c At_sender d "(\<lambda>_. [])(Snd_srf := w)" cap]
    net_pass[of "scripts a (gets Srf_rrf bs @ b) (puts Srf_rrf bs @ c) d" At_srf Srf_rrf bs c At_rrf b "(\<lambda>_. [])(Snd_srf := w)" cap]
    net_pass[of "scripts (gets Rrf_rec bs @ a) (puts Rrf_rec bs @ b) c d" At_rrf Rrf_rec bs b At_receiver a "(\<lambda>_. [])(Snd_srf := w)" cap]
  by (simp_all add: waiting_def)

lemma bench_store:
  "length w + length bs \<le> cap Snd_srf \<Longrightarrow> (net_step cap)\<^sup>*\<^sup>* (waiting a b c (puts Snd_srf bs @ d) w) (waiting a b c d (w @ bs))"
  using net_store[of "scripts a b c (puts Snd_srf bs @ d)" At_sender Snd_srf bs d "(\<lambda>_. [])(Snd_srf := w)" cap] by (simp add: waiting_def)

lemma bench_fetch: "(net_step cap)\<^sup>*\<^sup>* (waiting a b (gets Snd_srf bs @ c) d (bs @ w)) (waiting a b c d w)"
  using net_fetch[of "scripts a b (gets Snd_srf bs @ c) d" At_srf Snd_srf bs c "(\<lambda>_. [])(Snd_srf := bs @ w)" w cap] by (simp add: waiting_def)

text \<open>Round 1: every ciphertext goes through at once, its answer stays in the link.\<close>

lemma bench_round1:
  assumes "\<forall>l. 0 < cap l" "length w + length (on_hop Snd_srf items) \<le> cap Snd_srf"
  shows "(net_step cap)\<^sup>*\<^sup>*
    (waiting (concat (map (\<lambda>it. puts Rec_rrf (it Rec_rrf)) items) @ a) (relay_moves Rec_rrf Rrf_srf items @ b)
       (relay_moves Rrf_srf Srf_snd items @ c) (relay_moves Srf_snd Snd_srf items @ d) w)
    (waiting a b c d (w @ on_hop Snd_srf items))"
  using assms(2)
proof (induction items arbitrary: w)
  case (Cons it items)
  note p = bench_pass[OF assms(1)]
  have s: "length w + length (it Snd_srf) \<le> cap Snd_srf" "length (w @ it Snd_srf) + length (on_hop Snd_srf items) \<le> cap Snd_srf"
    using Cons.prems by simp_all
  show ?case
    unfolding relay_moves_def list.map concat.simps append_assoc
    by (rule rtranclp_trans[OF p(1) rtranclp_trans[OF p(2) rtranclp_trans[OF p(3)
          rtranclp_trans[OF bench_store[where w = w and bs = "it Snd_srf" and cap = cap, OF s(1)] Cons.IH[OF s(2), unfolded relay_moves_def append_assoc]]]]])
qed (simp add: relay_moves_def)

text \<open>Round 2: the answers leave the link one by one and go through.\<close>

lemma bench_round2:
  assumes "\<forall>l. 0 < cap l"
  shows "(net_step cap)\<^sup>*\<^sup>*
    (waiting (concat (map (\<lambda>it. gets Rrf_rec (it Rrf_rec)) items) @ a) (relay_moves Srf_rrf Rrf_rec items @ b)
       (relay_moves Snd_srf Srf_rrf items @ c) d (on_hop Snd_srf items @ w))
    (waiting a b c d w)"
proof (induction items)
  case (Cons it items)
  note p = bench_pass[OF assms]
  show ?case
    unfolding relay_moves_def list.map concat.simps append_assoc
    by (rule rtranclp_trans[OF bench_fetch rtranclp_trans[OF p(4) rtranclp_trans[OF p(5) Cons.IH[unfolded relay_moves_def append_assoc]]]])
qed (simp add: relay_moves_def)

text \<open>Every link takes a byte, and the answers fit between the sender and its firewall.\<close>

definition answers_fit :: "(hop \<Rightarrow> nat) \<Rightarrow> traffic \<Rightarrow> bool" where
  "answers_fit cap T \<longleftrightarrow> (\<forall>l. 0 < cap l) \<and> length (on_hop Snd_srf (tr_items T)) \<le> cap Snd_srf"

lemma bench_verdict:
  assumes "\<forall>l. 0 < cap l"
  shows "(net_step cap)\<^sup>*\<^sup>*
    (waiting (puts Rec_rrf v) (gets Rec_rrf v @ puts Rrf_srf v) (gets Rrf_srf v @ puts Srf_snd v) (gets Srf_snd v) w) (waiting [] [] [] [] w)"
proof -
  note p = bench_pass[OF assms]
  have 1: "(net_step cap)\<^sup>*\<^sup>* (waiting (puts Rec_rrf v) (gets Rec_rrf v @ b) c d w) (waiting [] b c d w)" for b c d
    using p(1)[of v "[]"] by simp
  have 2: "(net_step cap)\<^sup>*\<^sup>* (waiting a (puts Rrf_srf v) (gets Rrf_srf v @ c) d w) (waiting a [] c d w)" for a c d
    using p(2)[of a v "[]"] by simp
  have 3: "(net_step cap)\<^sup>*\<^sup>* (waiting a b (puts Srf_snd v) (gets Srf_snd v) w) (waiting a b [] [] w)" for a b
    using p(3)[of a b v "[]" "[]"] by simp
  show ?thesis
    by (rule rtranclp_trans[OF 1 rtranclp_trans[OF 2 3]])
qed

lemma bench_complete_run:
  assumes "answers_fit cap T"
  shows "(net_step cap)\<^sup>*\<^sup>* (net_start (bench_moves T)) (waiting [] [] [] [] [])"
proof -
  have cap: "\<forall>l. 0 < cap l" and room: "length [] + length (on_hop Snd_srf (tr_items T)) \<le> cap Snd_srf"
    using assms by (simp_all add: answers_fit_def)
  have "bench_moves T = scripts (receiver_moves T) (rrf_moves T) (srf_moves T) (sender_moves T)"
    by (auto simp: fun_eq_iff scripts_def split: party.split)
  moreover have "(\<lambda>l. []) = (\<lambda>_. [])(Snd_srf := [])"
    by auto
  ultimately have start: "net_start (bench_moves T) = waiting (receiver_moves T) (rrf_moves T) (srf_moves T) (sender_moves T) []"
    unfolding net_start_def waiting_def by (rule arg_cong2[where f = "\<lambda>a b. \<lparr> todo = a, in_flight = b \<rparr>"])
  note p = bench_pass[OF cap]
  note round1 = bench_round1[OF cap room, unfolded append_Nil]
  note round2 = bench_round2[OF cap, of _ _ _ _ _ "[]", unfolded append_Nil2]
  show ?thesis
    unfolding start receiver_moves_def rrf_moves_def srf_moves_def sender_moves_def
    by (rule rtranclp_trans[OF p(1) rtranclp_trans[OF p(1) rtranclp_trans[OF p(2) rtranclp_trans[OF p(2)
          rtranclp_trans[OF p(3) rtranclp_trans[OF p(3) rtranclp_trans[OF round1 rtranclp_trans[OF round2 bench_verdict[OF cap]]]]]]]]])
qed

text \<open>Every run is finite, and a state in which not all programs have ended can make a step.\<close>

definition always_ends :: "(hop \<Rightarrow> nat) \<Rightarrow> (party \<Rightarrow> (hop, byte) act list) \<Rightarrow> bool" where
  "always_ends cap prog \<longleftrightarrow> (\<forall>k s. (net_step cap ^^ k) (net_start prog) s \<longrightarrow>
     k \<le> net_work parties prog \<and> (net_done s \<or> (\<exists>s'. net_step cap s s')))"

lemma bench_always_ends:
  assumes "answers_fit cap T"
  shows "always_ends cap (bench_moves T)"
  unfolding always_ends_def
proof (intro allI impI conjI)
  fix k s
  assume run: "(net_step cap ^^ k) (net_start (bench_moves T)) s"
  show "k \<le> net_work parties (bench_moves T)"
    using run_length[OF parties_all run] by (simp add: net_start_def)
  have "p \<in> {At_receiver, At_rrf, At_srf, At_sender}" for p
    by (cases p) simp_all
  then have "net_done (waiting [] [] [] [] [])"
    by (auto simp: net_done_def waiting_def scripts_def split: party.split)
  then show "net_done s \<or> (\<exists>s'. net_step cap s s')"
    using bench.never_stuck[OF bench_complete_run[OF assms] _ relpowp_imp_rtranclp[OF run]] by blast
qed

subsection \<open>Without room for the answers\<close>

text \<open>
  The firewall cannot begin round 2 before the sender has taken all but what its link holds of round 1,
  and for this the sender must have written more answers than the other link holds.
\<close>

lemma bench_round2_unreached:
  assumes "tr_items T = xs @ ys" "cap Snd_srf < length (on_hop Snd_srf xs)" "cap Srf_snd < length (on_hop Srf_snd ys)"
    and run: "(net_step cap)\<^sup>*\<^sup>* (net_start (bench_moves T)) s"
  shows "todo s At_srf \<noteq> relay_moves Snd_srf Srf_rrf (tr_items T) @ gets Rrf_srf (tr_verdict T) @ puts Srf_snd (tr_verdict T)"
proof
  let ?rest = "relay_moves Srf_snd Snd_srf ys @ gets Srf_snd (tr_verdict T)"
  let ?early = "gets Srf_snd (tr_count T) @ gets Srf_snd (tr_key T Srf_snd) @ relay_moves Srf_snd Snd_srf xs"
  assume at: "todo s At_srf = relay_moves Snd_srf Srf_rrf (tr_items T) @ gets Rrf_srf (tr_verdict T) @ puts Srf_snd (tr_verdict T)"
  have flow: "in_flight s l @ outs l (todo s (hop_src l)) = ins l (todo s (hop_dst l))" for l
    using bench.reachable_flow[OF run] by (simp add: bench.flow_inv_def)
  have "length (ins Srf_snd (todo s At_sender)) \<le> cap Srf_snd + length (tr_verdict T)"
    using arg_cong[OF flow[of Srf_snd], of length] at in_capacity[OF run, of Srf_snd] by simp
  then have few: "length (ins Srf_snd (todo s At_sender)) < length (ins Srf_snd ?rest)"
    using assms(3) by simp
  have "bench_moves T At_sender = ?early @ ?rest"
    by (simp add: sender_moves_def relay_moves_def assms(1))
  moreover obtain us where "bench_moves T At_sender = us @ todo s At_sender"
    using remaining_suffix[OF run, of At_sender] by (auto simp: net_start_def)
  ultimately have "us @ todo s At_sender = ?early @ ?rest"
    by (simp only:)
  then obtain vs where "todo s At_sender = vs @ ?rest \<or> ?rest = vs @ todo s At_sender"
    using iffD1[OF append_eq_append_conv2] by metis
  then have "?rest = vs @ todo s At_sender"
    using few by auto
  then have "length (outs Snd_srf (todo s At_sender)) \<le> length (outs Snd_srf ?rest)"
    by (metis le_add2 length_append outs_simps(3))
  then have "length (outs Snd_srf (todo s At_sender)) \<le> length (on_hop Snd_srf ys)"
    by simp
  moreover have "length (in_flight s Snd_srf) + length (outs Snd_srf (todo s At_sender)) = length (on_hop Snd_srf xs) + length (on_hop Snd_srf ys)"
    using arg_cong[OF flow[of Snd_srf], of length] at assms(1) by simp
  ultimately show False
    using in_capacity[OF run, of Snd_srf] assms(2) by linarith
qed

text \<open>
  When the answers to some ciphertexts exceed what the link to the firewall holds, and the ciphertexts
  after them what the link to the sender holds, no run of the four programs ends: the sender waits to
  write, its firewall waits to write, until the timeout of the sockets.
\<close>

theorem benchmark_blocks:
  assumes "tr_items T = xs @ ys" "cap Snd_srf < length (on_hop Snd_srf xs)" "cap Srf_snd < length (on_hop Srf_snd ys)"
    and "(net_step cap)\<^sup>*\<^sup>* (net_start (bench_moves T)) s"
  shows "\<not> net_done s"
proof -
  let ?tail = "relay_moves Snd_srf Srf_rrf (tr_items T) @ gets Rrf_srf (tr_verdict T) @ puts Srf_snd (tr_verdict T)"
  note unreached = bench_round2_unreached[OF assms(1-3)]
  have "\<exists>zs. todo s At_srf = zs @ ?tail"
    using assms(4)
  proof (induction rule: rtranclp_induct)
    case base
    show ?case
      by (simp add: net_start_def srf_moves_def)
  next
    case (step u v)
    then obtain zs where zs: "todo u At_srf = zs @ ?tail"
      by blast
    obtain a zs' where a: "zs = a # zs'"
      using unreached[OF step(1)] zs by (cases zs) auto
    have "todo v At_srf = todo u At_srf \<or> todo v At_srf = zs' @ ?tail"
      using step(2) zs a by (cases rule: net_step.cases) auto
    then show ?case
      using zs by auto
  qed
  then have "todo s At_srf \<noteq> []"
    using unreached[OF assms(4)] by auto
  then show ?thesis
    unfolding net_done_def by blast
qed

theorem benchmark_blocks_witness:
  "\<not> net_done (net_start (bench_moves \<lparr> tr_count = [0], tr_key = (\<lambda>_. [1]),
     tr_items = [\<lambda>_. [2, 3], \<lambda>_. [4, 5]], tr_verdict = [6] \<rparr>))"
  by (rule benchmark_blocks[where cap = "\<lambda>_. 1" and xs = "[\<lambda>_. [2, 3]]" and ys = "[\<lambda>_. [4, 5]]", OF _ _ _ rtranclp.rtrancl_refl]) simp_all

subsection \<open>Property\<close>

definition bench_traffic :: "qfi cl_ops \<Rightarrow> nat \<Rightarrow> (hop \<Rightarrow> int) \<Rightarrow> (hop \<Rightarrow> ct list) \<Rightarrow> traffic" where
  "bench_traffic cs n key cts = \<lparr> tr_count = send_u64 (word_of_nat n), tr_key = (\<lambda>l. qfi_bytes (keygen_pk cs (key l))),
     tr_items = map (\<lambda>i l. ct_bytes (cts l ! i)) [0..<n], tr_verdict = send_u32 1 \<rparr>"

lemma on_hop_traffic: "length (cts l) = n \<Longrightarrow> on_hop l (map (\<lambda>i l. ct_bytes (cts l ! i)) [0..<n]) = ct_wire (cts l)"
  by (rule arg_cong[where f = concat]) (auto intro: nth_equalityI)

text \<open>
  C11: The benchmark of the two-round protocol verifies itself, if the connection between the sender and
  its firewall can hold the answers. With a plaintext bound of at least 65536 and for every count the
  configuration admits, there are messages with which the four programs, each reading what its
  neighbours write, have the outputs \<open>a_i x_i + b_i\<close> on the deterministic samples, succeed in the
  receiver's own check and exit with code 0. When every connection takes at least one byte and the
  one from the sender to its firewall takes all answers, every order of their byte-wise reads and
  writes of these messages ends, with no program waiting for ever.
\<close>

theorem benchmark_verifies:
  assumes "params_ok cs G D disc" "endpoint env (G \<union> D) n" "65536 \<le> cleartext_bound cs"
  shows "\<exists>T results.
    cg_receiver env cs sk rx n (ins Rrf_rec (receiver_moves T)) = Inr (0, results, outs Rec_rrf (receiver_moves T)) \<and>
    cg_rrf env disc cs gamma r1 r2 (ins Rec_rrf (rrf_moves T)) (ins Srf_rrf (rrf_moves T))
      = Inr (outs Rrf_rec (rrf_moves T), outs Rrf_srf (rrf_moves T)) \<and>
    cg_srf env disc cs rho s1 s2 (ins Rrf_srf (srf_moves T)) (ins Snd_srf (srf_moves T))
      = Inr (outs Srf_rrf (srf_moves T), outs Srf_snd (srf_moves T)) \<and>
    cg_sender env disc cs rb n (ins Srf_snd (sender_moves T)) = Inr (0, outs Snd_srf (sender_moves T)) \<and>
    results = map (\<lambda>i. (sample_value SEED_A i * sample_value SEED_X i + sample_value SEED_B i) mod cleartext_bound cs) [0..<n] \<and>
    length (tr_items T) = n \<and> {cap. answers_fit cap T} \<subseteq> {cap. always_ends cap (bench_moves T)}"
proof -
  obtain c0 c1 c2 c3 c4 c5 where len: "length c0 = n" "length c1 = n" "length c2 = n" "length c3 = n" "length c4 = n" "length c5 = n"
    and run: "cg_receiver env cs sk rx n (ct_wire c5) = Inr (0, bench_results cs n, bench_stream cs n sk c0)"
      "cg_rrf env disc cs gamma r1 r2 (bench_stream cs n sk c0) (ct_wire c4) = Inr (ct_wire c5, bench_stream cs n (sk + gamma) c1)"
      "cg_srf env disc cs rho s1 s2 (bench_stream cs n (sk + gamma) c1) (ct_wire c3) = Inr (ct_wire c4, bench_stream cs n (sk + gamma + rho) c2)"
      "cg_sender env disc cs rb n (bench_stream cs n (sk + gamma + rho) c2) = Inr (0, ct_wire c3)"
    using bench_programs_run[OF assms, of sk rx gamma r1 r2 rho s1 s2 rb] by blast
  let ?cts = "case_hop c0 c1 c2 c3 c4 c5" and ?key = "case_hop sk (sk + gamma) (sk + gamma + rho) 0 0 0"
  let ?T = "bench_traffic cs n ?key ?cts"
  have items: "on_hop l (tr_items ?T) = ct_wire (?cts l)" for l
    unfolding bench_traffic_def traffic.simps by (rule on_hop_traffic) (use len in \<open>cases l; simp\<close>)
  have head: "tr_count ?T = send_u64 (word_of_nat n)" "tr_key ?T l = qfi_bytes (keygen_pk cs (?key l))" "tr_verdict ?T = send_u32 1" for l
    by (simp_all add: bench_traffic_def)
  have streams: "outs Rec_rrf (receiver_moves ?T) = bench_stream cs n sk c0" "ins Rrf_rec (receiver_moves ?T) = ct_wire c5"
    "ins Rec_rrf (rrf_moves ?T) = bench_stream cs n sk c0" "ins Srf_rrf (rrf_moves ?T) = ct_wire c4"
    "outs Rrf_rec (rrf_moves ?T) = ct_wire c5" "outs Rrf_srf (rrf_moves ?T) = bench_stream cs n (sk + gamma) c1"
    "ins Rrf_srf (srf_moves ?T) = bench_stream cs n (sk + gamma) c1" "ins Snd_srf (srf_moves ?T) = ct_wire c3"
    "outs Srf_rrf (srf_moves ?T) = ct_wire c4" "outs Srf_snd (srf_moves ?T) = bench_stream cs n (sk + gamma + rho) c2"
    "ins Srf_snd (sender_moves ?T) = bench_stream cs n (sk + gamma + rho) c2" "outs Snd_srf (sender_moves ?T) = ct_wire c3"
    using items by (simp_all add: receiver_moves_def rrf_moves_def srf_moves_def sender_moves_def head bench_stream_def)
  show ?thesis
  proof (intro exI[of _ ?T] exI[of _ "bench_results cs n"] conjI)
    show "{cap. answers_fit cap ?T} \<subseteq> {cap. always_ends cap (bench_moves ?T)}"
      using bench_always_ends by blast
    show "length (tr_items ?T) = n"
      by (simp add: bench_traffic_def)
  qed (simp_all add: streams run bench_results_def[symmetric])
qed

theorem benchmark_verifies_witness:
  "\<exists>T results.
    cg_receiver (\<lambda>_. None) (cyc 65536) 5 (\<lambda>i. int i) 1000 (ins Rrf_rec (receiver_moves T)) = Inr (0, results, outs Rec_rrf (receiver_moves T)) \<and>
    cg_rrf (\<lambda>_. None) (1 - 2 ^ (2 * 65536)) (cyc 65536) 6 (\<lambda>i. int i) (\<lambda>i. int i) (ins Rec_rrf (rrf_moves T)) (ins Srf_rrf (rrf_moves T))
      = Inr (outs Rrf_rec (rrf_moves T), outs Rrf_srf (rrf_moves T)) \<and>
    cg_srf (\<lambda>_. None) (1 - 2 ^ (2 * 65536)) (cyc 65536) 7 (\<lambda>i. int i) (\<lambda>i. int i) (ins Rrf_srf (srf_moves T)) (ins Snd_srf (srf_moves T))
      = Inr (outs Srf_rrf (srf_moves T), outs Srf_snd (srf_moves T)) \<and>
    cg_sender (\<lambda>_. None) (1 - 2 ^ (2 * 65536)) (cyc 65536) (\<lambda>i. int i) 1000 (ins Srf_snd (sender_moves T)) = Inr (0, outs Snd_srf (sender_moves T)) \<and>
    results = map (\<lambda>i. (sample_value SEED_A i * sample_value SEED_X i + sample_value SEED_B i) mod cleartext_bound (cyc 65536)) [0..<1000] \<and>
    length (tr_items T) = 1000 \<and> {cap. answers_fit cap T} \<subseteq> {cap. always_ends cap (bench_moves T)}"
proof (rule benchmark_verifies[OF cyc_params])
  show "endpoint (\<lambda>_. None) (cyc_forms 65536 \<union> cyc_forms 65536) 1000"
    by (rule cyc_endpoint)
      (simp_all add: mpz_limit_default rf_chunk_size_def cg_config_size_def cg_validate_count_def cg_max_items_def env_value_def)
qed simp_all

end
