(* ===== verification/CG_SendThread.thy ===== *)
theory CG_SendThread
  imports CG_Session
begin

text \<open>
  The two threads of \<^verbatim>\<open>rf_ole_batch_send\<close>: the calling thread reads round 1 while a second one encrypts.
  A step relation over the state they share, with the thread object, and the proof that every
  interleaving ends as \<^verbatim>\<open>send_overlap\<close> of CG_OLE says.
\<close>

subsection \<open>State\<close>

text \<open>
  The calling thread: before the second thread is created, in its loop, with an exception on its way out
  of the scope, waiting in \<^verbatim>\<open>join\<close>, after it, out of the function's first part. The encrypting thread:
  not there, in its loop, ended.
\<close>

datatype send_main = At_spawn | At_read nat | At_unwind cg_error | At_join | At_joined | At_end "(ct list \<times> ct list \<times> lanes) result"

datatype send_worker = No_worker | At_encrypt nat | Worker_ended

text \<open>
  What is run: the count and the chunk size, one chunk of the receiving loop, one encryption, and the
  error of creating the thread, if it cannot be created.
\<close>

record send_job =
  sj_n :: nat
  sj_chunk :: nat
  sj_read :: "nat \<Rightarrow> nat \<Rightarrow> ct list \<times> lanes \<Rightarrow> (ct list \<times> lanes) result"
  sj_encrypt :: "nat \<Rightarrow> ct result"
  sj_spawn :: "cg_error option"

record send_state =
  ss_main :: send_main
  ss_worker :: send_worker
  ss_joinable :: bool
  ss_exception :: "cg_error option"
  ss_in :: "ct list \<times> lanes"
  ss_enc :: "ct list"

definition sender_job :: "env \<Rightarrow> nat \<Rightarrow> qfi cl_ops \<Rightarrow> qfi \<Rightarrow> (nat \<Rightarrow> int) \<Rightarrow> int list \<Rightarrow> nat \<Rightarrow> cg_error option \<Rightarrow> send_job" where
  "sender_job env c cs fpk rnd b_vals N spawn =
     \<lparr> sj_n = N, sj_chunk = c,
       sj_read = (\<lambda>b e (ct_x, fds). recv_ct_lanes_range env (recv_ct env) fds ct_x N b e),
       sj_encrypt = (\<lambda>i. encrypt_value cs fpk (b_vals ! i) (rnd i)), sj_spawn = spawn \<rparr>"

definition send_start :: "nat \<Rightarrow> lanes \<Rightarrow> send_state" where
  "send_start N rx = \<lparr> ss_main = At_spawn, ss_worker = No_worker, ss_joinable = False, ss_exception = None,
     ss_in = (replicate N null_ct, rx), ss_enc = replicate N null_ct \<rparr>"

definition running :: "send_state \<Rightarrow> bool" where
  "running s = (case ss_main s of At_end _ \<Rightarrow> False | _ \<Rightarrow> True)"

subsection \<open>Steps\<close>

inductive send_step :: "send_job \<Rightarrow> send_state \<Rightarrow> send_state \<Rightarrow> bool" for J where
  spawn: "ss_main s = At_spawn \<Longrightarrow> sj_spawn J = None \<Longrightarrow>
    send_step J s (s\<lparr>ss_main := At_read 0, ss_worker := At_encrypt 0, ss_joinable := True\<rparr>)"
| no_spawn: "ss_main s = At_spawn \<Longrightarrow> sj_spawn J = Some e \<Longrightarrow> send_step J s (s\<lparr>ss_main := At_unwind e\<rparr>)"
| receive: "ss_main s = At_read b \<Longrightarrow> b < sj_n J \<Longrightarrow> sj_read J b (min (sj_n J) (b + sj_chunk J)) (ss_in s) = Inr m \<Longrightarrow>
    send_step J s (s\<lparr>ss_main := At_read (b + sj_chunk J), ss_in := m\<rparr>)"
| lost: "ss_main s = At_read b \<Longrightarrow> b < sj_n J \<Longrightarrow> sj_read J b (min (sj_n J) (b + sj_chunk J)) (ss_in s) = Inl e \<Longrightarrow>
    send_step J s (s\<lparr>ss_main := At_unwind e\<rparr>)"
| received: "ss_main s = At_read b \<Longrightarrow> \<not> b < sj_n J \<Longrightarrow> send_step J s (s\<lparr>ss_main := At_join\<rparr>)"
| join: "ss_main s = At_join \<Longrightarrow> ss_worker s = Worker_ended \<Longrightarrow> send_step J s (s\<lparr>ss_main := At_joined, ss_joinable := False\<rparr>)"
| proceed: "ss_main s = At_joined \<Longrightarrow> ss_exception s = None \<Longrightarrow>
    send_step J s (s\<lparr>ss_main := At_end (Inr (fst (ss_in s), ss_enc s, snd (ss_in s)))\<rparr>)"
| rethrow: "ss_main s = At_joined \<Longrightarrow> ss_exception s = Some e \<Longrightarrow> send_step J s (s\<lparr>ss_main := At_unwind e\<rparr>)"
| unwind: "ss_main s = At_unwind e \<Longrightarrow> send_step J s (s\<lparr>ss_main := At_end (Inl (leave_scope (ss_joinable s) e))\<rparr>)"
| encrypt: "running s \<Longrightarrow> ss_worker s = At_encrypt i \<Longrightarrow> i < sj_n J \<Longrightarrow> sj_encrypt J i = Inr c \<Longrightarrow>
    send_step J s (s\<lparr>ss_worker := At_encrypt (i + 1), ss_enc := (ss_enc s)[i := c]\<rparr>)"
| encrypt_fail: "running s \<Longrightarrow> ss_worker s = At_encrypt i \<Longrightarrow> i < sj_n J \<Longrightarrow> sj_encrypt J i = Inl e \<Longrightarrow>
    send_step J s (s\<lparr>ss_worker := Worker_ended, ss_exception := Some e\<rparr>)"
| encrypted: "running s \<Longrightarrow> ss_worker s = At_encrypt i \<Longrightarrow> \<not> i < sj_n J \<Longrightarrow> send_step J s (s\<lparr>ss_worker := Worker_ended\<rparr>)"

subsection \<open>Invariant\<close>

text \<open>What the receiving loop still does, and what is known of the encryptions.\<close>

definition rest_read :: "send_job \<Rightarrow> nat \<Rightarrow> ct list \<times> lanes \<Rightarrow> (ct list \<times> lanes) result" where
  "rest_read J b m = fold_r (\<lambda>(b, e). sj_read J b e) (chunk_ranges (sj_n J) (sj_chunk J) b) m"

definition all_encrypted :: "send_job \<Rightarrow> ct list result" where
  "all_encrypted J = map_r (sj_encrypt J) [0..<sj_n J]"

definition main_ok :: "send_job \<Rightarrow> ct list \<times> lanes \<Rightarrow> send_state \<Rightarrow> bool" where
  "main_ok J m0 s \<longleftrightarrow> (case ss_main s of
      At_spawn \<Rightarrow> \<not> ss_joinable s \<and> ss_in s = m0
    | At_read b \<Rightarrow> ss_joinable s \<and> sj_spawn J = None \<and> rest_read J b (ss_in s) = rest_read J 0 m0
    | At_unwind e \<Rightarrow> (if ss_joinable s then sj_spawn J = None \<and> rest_read J 0 m0 = Inl e
        else sj_spawn J = Some e \<or> (sj_spawn J = None \<and> rest_read J 0 m0 = Inr (ss_in s) \<and> all_encrypted J = Inl e))
    | At_join \<Rightarrow> ss_joinable s \<and> sj_spawn J = None \<and> rest_read J 0 m0 = Inr (ss_in s)
    | At_joined \<Rightarrow> \<not> ss_joinable s \<and> sj_spawn J = None \<and> rest_read J 0 m0 = Inr (ss_in s) \<and> ss_worker s = Worker_ended
    | At_end r \<Rightarrow> r = (case sj_spawn J of
          Some e \<Rightarrow> Inl e
        | None \<Rightarrow> (case rest_read J 0 m0 of
            Inl e \<Rightarrow> Inl Terminated
          | Inr (cts, rx) \<Rightarrow> (case all_encrypted J of Inl e \<Rightarrow> Inl e | Inr enc \<Rightarrow> Inr (cts, enc, rx)))))"

definition worker_ok :: "send_job \<Rightarrow> send_state \<Rightarrow> bool" where
  "worker_ok J s \<longleftrightarrow> length (ss_enc s) = sj_n J \<and> (case ss_worker s of
      No_worker \<Rightarrow> ss_exception s = None \<and> ss_main s \<noteq> At_join \<and> ss_main s \<noteq> At_joined \<and> (\<forall>b. ss_main s \<noteq> At_read b)
    | At_encrypt i \<Rightarrow> i \<le> sj_n J \<and> ss_exception s = None \<and> map_r (sj_encrypt J) [0..<i] = Inr (take i (ss_enc s)) \<and> ss_main s \<noteq> At_spawn
    | Worker_ended \<Rightarrow> all_encrypted J = (case ss_exception s of None \<Rightarrow> Inr (ss_enc s) | Some e \<Rightarrow> Inl e) \<and> ss_main s \<noteq> At_spawn)"

lemma map_r_snoc: "map_r f (xs @ [x]) = bind_r (map_r f xs) (\<lambda>ys. bind_r (f x) (\<lambda>y. Inr (ys @ [y])))"
  by (induction xs) (simp_all add: bind_r_def split: sum.splits)

lemma map_r_Inl_prefix:
  assumes "map_r f [0..<i] = Inr ys" "f i = Inl e" "i < n"
  shows "map_r f [0..<n] = Inl e"
  using assms(3)
proof (induction n)
  case (Suc n)
  then show ?case
    using assms(1,2) by (cases "i = n") (simp_all add: map_r_snoc)
qed simp

lemma rest_read_step:
  assumes "b < sj_n J" "0 < sj_chunk J"
  shows "rest_read J b m = bind_r (sj_read J b (min (sj_n J) (b + sj_chunk J)) m) (rest_read J (b + sj_chunk J))"
proof -
  have "chunk_ranges (sj_n J) (sj_chunk J) b = (b, min (sj_n J) (b + sj_chunk J)) # chunk_ranges (sj_n J) (sj_chunk J) (b + sj_chunk J)"
    using assms by (subst chunk_ranges.simps) simp
  then show ?thesis
    by (simp add: rest_read_def bind_r_def split: sum.split)
qed

lemma rest_read_done: "\<not> b < sj_n J \<Longrightarrow> rest_read J b m = Inr m"
  by (subst rest_read_def, subst chunk_ranges.simps) simp

lemma step_main_ok:
  assumes "send_step J s s'" "main_ok J m0 s" "worker_ok J s" "0 < sj_chunk J"
  shows "main_ok J m0 s'"
  using assms(1)
proof (cases rule: send_step.cases)
  case (receive b m)
  then show ?thesis
    using assms(2) rest_read_step[OF _ assms(4), of b "ss_in s"] by (simp add: main_ok_def)
next
  case (lost b e)
  then show ?thesis
    using assms(2) rest_read_step[OF _ assms(4), of b "ss_in s"] by (simp add: main_ok_def)
next
  case (received b)
  then show ?thesis
    using assms(2) rest_read_done[of b J "ss_in s"] by (simp add: main_ok_def)
next
  case proceed
  then show ?thesis
    using assms(2,3) by (cases "ss_in s") (simp add: main_ok_def worker_ok_def)
next
  case (rethrow e)
  then show ?thesis
    using assms(2,3) by (simp add: main_ok_def worker_ok_def)
next
  case (unwind e)
  then show ?thesis
    using assms(2) by (cases "ss_joinable s"; cases "ss_in s") (auto simp: main_ok_def leave_scope_def)
qed (use assms(2,3) in \<open>auto simp: main_ok_def running_def worker_ok_def split: send_main.splits\<close>)

lemma step_worker_ok:
  assumes "send_step J s s'" "worker_ok J s"
  shows "worker_ok J s'"
  using assms(1)
proof (cases rule: send_step.cases)
  case (encrypt i c)
  then have "map_r (sj_encrypt J) [0..<Suc i] = Inr (take i (ss_enc s) @ [c])" "i < length (ss_enc s)"
    using assms(2) by (simp_all add: worker_ok_def map_r_snoc)
  then show ?thesis
    using assms(2) encrypt by (simp add: worker_ok_def take_Suc_conv_app_nth)
next
  case (encrypt_fail i e)
  then show ?thesis
    using assms(2) map_r_Inl_prefix[of "sj_encrypt J" i "take i (ss_enc s)" e "sj_n J"] by (auto simp: worker_ok_def all_encrypted_def running_def)
next
  case (encrypted i)
  then show ?thesis
    using assms(2) by (auto simp: worker_ok_def all_encrypted_def running_def)
next
  case spawn
  then show ?thesis
    using assms(2) by (auto simp: worker_ok_def split: send_worker.splits)
next
  case (rethrow e)
  then show ?thesis
    using assms(2) by (cases "ss_worker s") (auto simp: worker_ok_def)
qed (use assms(2) in \<open>auto simp: worker_ok_def split: send_worker.splits option.splits\<close>)

lemma send_start_ok: "main_ok (sender_job env c cs fpk rnd b N spawn) (replicate N null_ct, rx) (send_start N rx)"
    "worker_ok (sender_job env c cs fpk rnd b N spawn) (send_start N rx)"
  by (simp_all add: main_ok_def worker_ok_def send_start_def sender_job_def)

subsection \<open>Every interleaving ends\<close>

fun effort_send_main :: "nat \<Rightarrow> send_main \<Rightarrow> nat" where
  "effort_send_main n At_spawn = 2 * n + 6"
| "effort_send_main n (At_read b) = n - b + 4"
| "effort_send_main n (At_unwind e) = 1"
| "effort_send_main n At_join = 3"
| "effort_send_main n At_joined = 2"
| "effort_send_main n (At_end r) = 0"

fun effort_send_worker :: "nat \<Rightarrow> send_worker \<Rightarrow> nat" where
  "effort_send_worker n No_worker = 0"
| "effort_send_worker n (At_encrypt i) = n - i + 1"
| "effort_send_worker n Worker_ended = 0"

definition effort_send :: "send_job \<Rightarrow> send_state \<Rightarrow> nat" where
  "effort_send J s = effort_send_main (sj_n J) (ss_main s) + effort_send_worker (sj_n J) (ss_worker s)"

lemma send_step_effort:
  assumes "send_step J s s'" "0 < sj_chunk J" "worker_ok J s"
  shows "effort_send J s' < effort_send J s"
  using assms(1)
proof (cases rule: send_step.cases)
  case spawn
  then show ?thesis
    using assms(3) by (auto simp: effort_send_def worker_ok_def split: send_worker.splits)
qed (use assms(2) in \<open>auto simp: effort_send_def\<close>)

lemma send_run:
  assumes "(send_step J ^^ k) s0 s" "main_ok J m0 s0" "worker_ok J s0" "0 < sj_chunk J"
  shows "main_ok J m0 s \<and> worker_ok J s \<and> k + effort_send J s \<le> effort_send J s0"
  using assms(1)
proof (induction k arbitrary: s)
  case 0
  then show ?case
    using assms(2,3) by simp
next
  case (Suc k)
  then obtain t where t: "(send_step J ^^ k) s0 t" "send_step J t s"
    by auto
  then show ?case
    using Suc.IH[OF t(1)] step_main_ok[OF t(2) _ _ assms(4)] step_worker_ok[OF t(2)] send_step_effort[OF t(2) assms(4)] by fastforce
qed

lemma send_moves:
  assumes "worker_ok J s" "running s"
  shows "\<exists>s'. send_step J s s'"
proof (cases "ss_main s")
  case At_spawn
  then show ?thesis
    by (cases "sj_spawn J") (blast intro: send_step.spawn send_step.no_spawn)+
next
  case (At_read b)
  then show ?thesis
    by (cases "sj_read J b (min (sj_n J) (b + sj_chunk J)) (ss_in s)")
      (blast intro: send_step.receive send_step.lost send_step.received)+
next
  case (At_unwind e)
  then show ?thesis
    by (blast intro: send_step.unwind)
next
  case At_join
  show ?thesis
  proof (cases "ss_worker s")
    case (At_encrypt i)
    then show ?thesis
      using assms(2) by (cases "sj_encrypt J i")
        (blast intro: send_step.encrypt send_step.encrypt_fail send_step.encrypted)+
  next
    case Worker_ended
    then show ?thesis
      using At_join by (blast intro: send_step.join)
  qed (use assms(1) At_join in \<open>simp add: worker_ok_def\<close>)
next
  case At_joined
  then show ?thesis
    by (cases "ss_exception s") (blast intro: send_step.proceed send_step.rethrow)+
qed (use assms(2) in \<open>simp add: running_def\<close>)

lemma job_is_sequential:
  assumes "rf_chunk_size env = Inr c"
  shows "rest_read (sender_job env c cs fpk rnd b N spawn) 0 (replicate N null_ct, rx) = send_collect env N rx"
    "all_encrypted (sender_job env c cs fpk rnd b N spawn) = map_r (\<lambda>i. encrypt_value cs fpk (b ! i) (rnd i)) [0..<N]"
    "sj_spawn (sender_job env c cs fpk rnd b N spawn) = spawn"
  using assms by (simp_all add: send_collect_def for_chunks_def rest_read_def all_encrypted_def sender_job_def)

text \<open>What \<open>send_overlap\<close> amounts to.\<close>

lemma overlap_outcome:
  "send_overlap env cs fpk rnd b_vals N rx = (case send_collect env N rx of
      Inl e \<Rightarrow> Inl Terminated
    | Inr (ct_x, rx') \<Rightarrow> map_sum id (\<lambda>pre_enc_b. (ct_x, pre_enc_b, rx')) (map_r (\<lambda>i. encrypt_value cs fpk (b_vals ! i) (rnd i)) [0..<N]))"
  by (cases "map_r (\<lambda>i. encrypt_value cs fpk (b_vals ! i) (rnd i)) [0..<N]")
    (auto simp: send_overlap_def leave_scope_def par_fill_def put_vec_def dest!: map_r_InrD split: sum.splits)

subsection \<open>Property\<close>

text \<open>
  C30: The two threads of the sender while round 1 is read. Whatever their interleaving, they stop after
  a number of steps that depends on the count only, and never wait for each other. If the second thread
  cannot be created, the error of the creation leaves the function. If a chunk of round 1 cannot be read,
  the exception meets a thread object that was not joined, and the process is terminated, whether the
  encryptions are done or not; an error of the encryptions is joined first and leaves the function as it
  is. Otherwise the function goes on with the round-1 ciphertexts and the encryptions. This is what the
  sequential \<open>send_overlap\<close> computes.
\<close>

theorem sender_thread_outcome:
  assumes "rf_chunk_size env = Inr c" "(send_step (sender_job env c cs fpk rnd b_vals N spawn) ^^ k) (send_start N rx) s"
  shows "k \<le> 2 * N + 6 \<and>
    (case ss_main s of
       At_end r \<Rightarrow> r = (case spawn of
           Some e \<Rightarrow> Inl e
         | None \<Rightarrow> (case send_collect env N rx of
             Inl e \<Rightarrow> Inl Terminated
           | Inr (ct_x, rx') \<Rightarrow> map_sum id (\<lambda>pre_enc_b. (ct_x, pre_enc_b, rx')) (map_r (\<lambda>i. encrypt_value cs fpk (b_vals ! i) (rnd i)) [0..<N]))) \<and>
         (spawn = None \<longrightarrow> r = send_overlap env cs fpk rnd b_vals N rx)
     | _ \<Rightarrow> \<exists>s'. send_step (sender_job env c cs fpk rnd b_vals N spawn) s s')"
proof -
  let ?J = "sender_job env c cs fpk rnd b_vals N spawn"
  have c: "0 < sj_chunk ?J"
    using rf_chunk_size_pos[OF assms(1)] by (simp add: sender_job_def)
  note run = send_run[OF assms(2) send_start_ok c]
  have "k \<le> 2 * N + 6"
    using run by (simp add: effort_send_def send_start_def sender_job_def)
  moreover have "\<exists>s'. send_step ?J s s'" if "running s"
    using send_moves[of ?J s] run that by blast
  moreover have "r = (case spawn of Some e \<Rightarrow> Inl e | None \<Rightarrow> send_overlap env cs fpk rnd b_vals N rx)" if "ss_main s = At_end r" for r
    using run that unfolding main_ok_def overlap_outcome job_is_sequential[OF assms(1)]
    by (cases spawn) (auto split: sum.splits)
  moreover note overlap_outcome[of env cs fpk rnd b_vals N rx]
  ultimately show ?thesis
    by (auto simp: running_def split: send_main.splits option.splits)
qed

theorem sender_thread_outcome_witness:
  "\<exists>s. (send_step (sender_job (\<lambda>_. None) 64 cl23 (form23 1) (\<lambda>_. 1) [2, 0, 1] 3 None) ^^ 3) (send_start 3 [[]]) s \<and>
     ss_main s = At_end (Inl Terminated) \<and> ss_worker s = At_encrypt 0"
proof -
  let ?J = "sender_job (\<lambda>_. None) 64 cl23 (form23 1) (\<lambda>_. 1) [2, 0, 1] 3 None"
  let ?s1 = "(send_start 3 [[]])\<lparr>ss_main := At_read 0, ss_worker := At_encrypt 0, ss_joinable := True\<rparr>"
  have lost: "recv_ct_lanes_range (\<lambda>_. None) (recv_ct (\<lambda>_. None)) [[]] (replicate 3 null_ct) 3 0 3 = Inl (Runtime_error ''read: '')"
  proof -
    have "recv_ct (\<lambda>_. None) [] = Inl (Runtime_error ''read: '')"
      by (simp add: recv_ct_def recv_qfi_def recv_mpz_def recv_u32_def recv_bytes_def)
    moreover have "cg_validate_count (\<lambda>_. None) (Suc (Suc (Suc 0))) False = Inr ()"
      by (simp add: cg_validate_count_def cg_max_items_def env_value_def)
    note rf_active_lanes_eq[OF this, of 1 3 0 3]
    ultimately show ?thesis
      by (simp add: recv_ct_lanes_range_def recv_list.simps numeral_3_eq_3)
  qed
  have 1: "send_step ?J (send_start 3 [[]]) ?s1"
    by (rule send_step.spawn) (simp_all add: send_start_def sender_job_def)
  have 2: "send_step ?J ?s1 (?s1\<lparr>ss_main := At_unwind (Runtime_error ''read: '')\<rparr>)" (is "send_step _ _ ?s2")
    by (rule send_step.lost[where b = 0]) (use lost in \<open>simp_all add: send_start_def sender_job_def\<close>)
  have "send_step ?J ?s2 (?s2\<lparr>ss_main := At_end (Inl (leave_scope (ss_joinable ?s2) (Runtime_error ''read: '')))\<rparr>)" (is "send_step _ _ ?s3")
    by (rule send_step.unwind) simp
  with 1 2 have run: "(send_step ?J ^^ 3) (send_start 3 [[]]) ?s3"
    by (simp add: numeral_3_eq_3 relcompp_apply) blast
  have "send_collect (\<lambda>_. None) 3 [[]] = Inl (Runtime_error ''read: '')"
    using lost by (simp add: send_collect_def for_chunks_def default_env_config chunk_ranges.simps)
  then show ?thesis
    using sender_thread_outcome[OF default_env_config(1) run] run by (intro exI[of _ ?s3]) simp
qed

end
