(* ===== verification/Spec2Isabelle.thy ===== *)
theory Spec2Isabelle
  imports CG_Lanes CG_PolyFacts CG_Bench CG_SetPrograms CG_Pool CG_ParallelIO CG_Handshake CG_Sockets CG_BenchFlow CG_SendThread
begin

text \<open>
  Verification library for the class-group protocols of this repository: batched oblivious linear
  evaluation (OLE), oblivious polynomial evaluation (OPE) and addition (OPA), private set intersection
  (PSI, PSI2) and three-round OLE (OLE3), each between two parties and each again with two reverse
  firewalls between them. Every party and every firewall is a process of its own; they share nothing
  but TCP connections.

  \<^bold>\<open>How the code is represented.\<close> A C++ exception is a value: an operation that can throw returns
  \<^verbatim>\<open>'a result\<close>, that is \<^verbatim>\<open>cg_error + 'a\<close>, with \<^verbatim>\<open>Inl\<close> for each throw of the source. \<^verbatim>\<open>std::terminate\<close> and
  calls that never return are \<^verbatim>\<open>None\<close> of an option around it. \<^verbatim>\<open>size_t\<close> is \<^verbatim>\<open>nat\<close> with the wrap-around
  written out (\<^verbatim>\<open>sz_add\<close>, \<^verbatim>\<open>sz_mul\<close>), a size that a loop stores in an \<^verbatim>\<open>int\<close> goes through \<^verbatim>\<open>int32_of\<close>; 32- and 64-bit wire values are words; \<^verbatim>\<open>Mpz\<close> is \<^verbatim>\<open>int\<close>, and \<^verbatim>\<open>Mpz::mod\<close>
  with a positive modulus is \<^verbatim>\<open>mod\<close>. The process environment is an argument. Every random draw is an
  argument of the program that makes it, so a property holds for all draws. A connection is the list
  of bytes that arrive on it; a program maps the bytes it receives on its lanes to the bytes it sends,
  and a session is a set of programs whose inputs are each other's outputs: that such streams exist is
  what "the programs run to the end" says. The equations between streams are read in causal order by
  the phase lemmas, so the fixed point is the run of the code and not an accident.

  \<^bold>\<open>Theories, from the bottom.\<close>
  \<^item> CG_Prelude: results and their bind, the environment, \<^verbatim>\<open>size_t\<close> arithmetic, list loops, the rule
    collections used by the proofs.
  \<^item> CG_Config: \<^verbatim>\<open>cg_config.hpp\<close>. CG_Common: the generators seeded from the environment in
    \<^verbatim>\<open>cg_common.hpp\<close> and \<^verbatim>\<open>cg_rf_common.hpp\<close>.
  \<^item> CG_Text: C++ text streams and a file system, for CG_Inputs (files of \<^verbatim>\<open>cg_rf_common.hpp\<close> and
    \<^verbatim>\<open>cg_bench_io.hpp\<close>, random benchmark sets) and CG_Dumps (the writers of \<^verbatim>\<open>cg_bench_io.hpp\<close> and the
    three \<^verbatim>\<open>cg_check\<close> programs).
  \<^item> CG_Wire: \<^verbatim>\<open>cg_network.hpp\<close>, transfers with partial and interrupted system calls, and the codecs with the validation
    of received forms (\<^verbatim>\<open>qfi.inl\<close>, \<^verbatim>\<open>CL_HSM_utils.inl\<close>). The locale \<^verbatim>\<open>codec\<close> states the contract of an
    encoder and a decoder and is interpreted on all six pairs.
  \<^item> CG_Lanes: lanes, handshake and chunked transfers of \<^verbatim>\<open>cg_rf_ole_batch.hpp\<close>. CG_Stream: the loops
    the endpoints are built from, and their invariants. CG_Pool: \<^verbatim>\<open>cg_thread_pool.hpp\<close> as a step relation.
    CG_ParallelIO: \<^verbatim>\<open>rf_parallel_io\<close> as a step relation on its threads, and the locale \<^verbatim>\<open>separate_lanes\<close>
    (lanes that touch disjoint parts of a memory), interpreted on receiving and on sending: the lane loops of
    CG_Lanes are what the threads amount to. CG_Handshake: what lane validation guarantees.
    CG_Network: processes that read and write bytes on links of bounded capacity.
    CG_Sockets: the connection helpers of \<^verbatim>\<open>cg_network.hpp\<close> over a record of the kernel's answers, with open
    descriptors as state, and the lane handshakes again with their descriptors, the failure of a reply and
    their clean-up.
  \<^item> CG_AHE: \<^verbatim>\<open>cg_ahe.hpp\<close> and the key mauling of \<^verbatim>\<open>cg_rf_common.hpp\<close>, with locales for the homomorphic and the
    malleable scheme, interpreted on the code's operations.
  \<^item> CG_Mpz, CG_Eval, CG_PolyOps, CG_PolyMul, CG_NTT, CG_Tree, CG_BatchEval, CG_Lagrange: the polynomial
    half of \<^verbatim>\<open>cg_rf_common.hpp\<close>, bottom-up. Locales state the contracts of multiplication, batch evaluation
    and interpolation; every strategy of the code is an interpretation. CG_PolyFacts states their
    properties on the operations the protocols call.
  \<^item> CG_OLE: both endpoints of \<^verbatim>\<open>cg_rf_ole_batch.hpp\<close> and the two OLE firewalls. CG_SendThread: the two threads of the sender as
    a step relation, with the thread object and its destructor. CG_Session: the four programs wired to each other. CG_Direct: the exchange of \<^verbatim>\<open>cg_ope_common.hpp\<close> without firewalls. CG_Bench:
    \<^verbatim>\<open>cg_receiver\<close>, \<^verbatim>\<open>cg_rrf\<close>, \<^verbatim>\<open>cg_srf\<close>, \<^verbatim>\<open>cg_sender\<close>; CG_BenchFlow: the order of their reads and writes on the
    links of CG_Network, when it always ends and when it blocks. CG_OLE3: the three-round protocol.
  \<^item> CG_Channel: the locale \<^verbatim>\<open>ole_channel\<close>, what a protocol may rely on when it runs a batch of OLEs,
    interpreted on the direct programs and on the four firewalled ones. CG_OPE, CG_OPA and CG_PSI use it
    twice each; CG_PSI2 adds the reveal of the result, in the clear or encrypted.
  \<^item> CG_Programs, CG_SetPrograms: the programs of OLE, OPE, OPA and OLE3, and of PSI and PSI2, from their
    argument vector to their exit: arguments, input files or drawn inputs, the protocol of the theories
    above, the timing file and the dump. A record \<^verbatim>\<open>host\<close> holds what a program finds on its machine
    (environment, number texts, class group, the time it will measure); the file system goes in and
    comes out. \<^verbatim>\<open>Exit c\<close> is a return of \<^verbatim>\<open>main\<close> before the protocol, an uncaught exception is \<^verbatim>\<open>Inl\<close>. Ports and
    addresses that arguments select are handed to the network, a function argument of the program.
  \<^item> CG_Instance: a concrete class-group interface of any message space, on which the hypotheses of the
    protocol theorems hold and their witnesses run.

  \<^bold>\<open>What the theorems show.\<close> Functional correctness of every protocol, end to end: for admissible
  inputs, all keys, all draws, all chunk sizes and all arrival orders of the connections, the programs
  run to the end and the outputs are the specified values; for OLE, OPE, OPA and PSI2 behind the firewalls
  this goes from the input files on the command line to the output files and the verdict of the checker. Firewalls are transparent: they change
  neither message nor, after both passes, key. Polynomial arithmetic agrees with the mathematical
  polynomial for every strategy the code may choose. Streams decode to what was sent, and received
  ciphertexts and keys are canonical and reduced. The pool refines the loop it replaces, under every
  interleaving, and always returns; parallel transfers refine the loop over the lanes, and a failure releases
  the threads that wait. The checkers accept exactly the right outputs. The benchmark of the two-round
  protocol verifies itself and ends under every interleaving if the answers fit the connection between the
  sender and its firewall; otherwise it can block. Error behaviour: a lost peer makes the batched sender
  terminate instead of throwing, under every interleaving of its two threads; a parallel transfer that cannot
  create a thread throws the error of the creation; a handshake that fails closes the descriptors it was
  given, except one that \<^verbatim>\<open>set_tcp_opts\<close> refuses. In the compact variant the refresh of the firewalls
  preserves a message only for noise that the missing conversion would leave as it is.

  \<^bold>\<open>Hypotheses.\<close> The class-group arithmetic, the exponentiation and the discrete logarithm of the
  vendored BICYCL library are a record of functions (\<^verbatim>\<open>cl_ops\<close>); what the protocols rely on is
  \<^verbatim>\<open>cl_laws\<close>: a commutative group of reduced forms, a generator of the message part of order q, and that
  the logarithm recovers the message. Big-integer texts are functions with \<^verbatim>\<open>gmp_documented\<close> (printing and
  parsing a decimal are inverse); generators have \<^verbatim>\<open>randgen_documented\<close> (draws lie below the bound); the
  optional NTL back end has its documented meaning. Each of them has an instance in the development, and each
  property with a hypothesis has a witness at concrete inputs.

  \<^bold>\<open>Bounds and fuel.\<close> Loops whose end depends on data take fuel equal to a bound on their number of
  turns: the doubling loop takes 64 (a \<^verbatim>\<open>size_t\<close> has 64 bits), the drawing of distinct elements takes
  fuel that \<^verbatim>\<open>random_sets_overlap\<close> proves sufficient once the generator has produced enough values, the
  retries of system calls are consumed from the list of their results. Sizes are below \<^verbatim>\<open>CG_MAX_ITEMS\<close> as
  the code enforces, which keeps all \<^verbatim>\<open>size_t\<close> arithmetic of the programs from wrapping; properties of the operations
  whose loops count down in an \<^verbatim>\<open>int\<close> are for sizes below \<open>2^31\<close>.

  \<^bold>\<open>Not modelled.\<close> The measurement of time, messages and printed results, and the class-group
  and big-integer libraries under \<^verbatim>\<open>third_party/cg_ahe/bicycl\<close> beyond the validation and composition code
  named above. Back-pressure of a full socket buffer is modelled for the two-round benchmark only
  (CG_BenchFlow): in the sessions of the other protocols a send always completes.
  Secrecy against computationally bounded parties is a statement about distributions over a hard
  group and outside this development; the information-theoretic parts (masks fit every input, a foreign
  element passes for one mask value) are proved. Scripts in Python and shell are left out.
\<close>

end
